(* ===== verification/Prelude.thy ===== *)
theory Prelude
  imports Main "HOL-Library.Word" "HOL-Library.Monad_Syntax"
begin

unbundle bit_operations_syntax

section \<open>Prelude: C values, results and little-endian bytes\<close>

text \<open>
  The vocabulary every component of the development shares: the machine integers of the
  target (64-bit \<open>size_t\<close>, 32-bit \<open>unsigned\<close>, 8-bit bytes), the results of C functions,
  and the little-endian reading of byte lists as words.

  A C function is modelled by a function into \<open>option\<close>: \<open>None\<close> stands for undefined
  behaviour (an access outside any object, a call through a null pointer) or for a run
  that has not returned within its fuel; a value is what the function returns together
  with the objects it updated. A C \<open>bool\<close> result that callers test and pass on is the
  first component of that value; \<open>cthen\<close> is the idiom
  \<open>if (!f(stream)) return false; ...\<close>.
\<close>

type_synonym byte = "8 word"
type_synonym u32 = "32 word"
type_synonym u64 = "64 word"
type_synonym size_t = "64 word"
type_synonym pb_size_t = "32 word"
type_synonym addr = int
type_synonym errmsg = string

subsection \<open>Collections of facts\<close>

named_theorems cres_simps \<open>evaluation of C results\<close>
named_theorems le_simps \<open>little-endian conversions\<close>

subsection \<open>Sequencing\<close>

definition cthen :: "(bool \<times> 's) option \<Rightarrow> ('s \<Rightarrow> (bool \<times> 's) option) \<Rightarrow> (bool \<times> 's) option" where
  "cthen r k = Option.bind r (\<lambda>(ok, s). if ok then k s else Some (False, s))"

lemma cthen_simps [simp, cres_simps]:
  "cthen None k = None"
  "cthen (Some (True, s)) k = k s"
  "cthen (Some (False, s)) k = Some (False, s)"
  by (simp_all add: cthen_def)

lemma cthen_True_iff:
  "cthen r k = Some (True, s') \<longleftrightarrow> (\<exists>s. r = Some (True, s) \<and> k s = Some (True, s'))"
  by (auto simp: cthen_def bind_eq_Some_conv split: if_splits)

lemma cthen_Some_iff:
  "cthen r k = Some (ok, s') \<longleftrightarrow>
     (\<exists>s. r = Some (True, s) \<and> k s = Some (ok, s')) \<or> (r = Some (False, s') \<and> \<not> ok)"
  by (cases ok) (auto simp: cthen_def bind_eq_Some_conv split: if_splits)

lemma cthen_assoc: "cthen (cthen r k) l = cthen r (\<lambda>s. cthen (k s) l)"
  by (cases r) (auto simp: cthen_def)

lemma cthen_return [simp]: "cthen r (\<lambda>s. Some (True, s)) = r"
  by (cases r) (auto simp: cthen_def)

text \<open>The same for a function that hands a value back through an out-parameter when it
  returns true: \<open>if (!f(stream, &x)) return false; ...\<close>.\<close>

definition ithen ::
  "('a option \<times> 's) option \<Rightarrow> ('a \<Rightarrow> 's \<Rightarrow> ('b option \<times> 's) option) \<Rightarrow> ('b option \<times> 's) option" where
  "ithen r k = Option.bind r (\<lambda>(x, s). case x of None \<Rightarrow> Some (None, s) | Some v \<Rightarrow> k v s)"

lemma ithen_simps [simp, cres_simps]:
  "ithen None k = None"
  "ithen (Some (Some v, s)) k = k v s"
  "ithen (Some (None, s)) k = Some (None, s)"
  by (simp_all add: ithen_def)

lemma ithen_Some_iff:
  "ithen r k = Some (Some v, s') \<longleftrightarrow> (\<exists>x s. r = Some (Some x, s) \<and> k x s = Some (Some v, s'))"
  by (auto simp: ithen_def bind_eq_Some_conv split: option.splits)

lemma ithen_cong [fundef_cong]:
  "r = r' \<Longrightarrow> (\<And>v s. r' = Some (Some v, s) \<Longrightarrow> k v s = k' v s) \<Longrightarrow> ithen r k = ithen r' k'"
  by (cases r') (auto simp: ithen_def split: option.splits)

subsection \<open>Local arrays\<close>

text \<open>A store into a local C array: undefined outside it.\<close>

definition arr_upd :: "'a list \<Rightarrow> nat \<Rightarrow> 'a \<Rightarrow> 'a list option" where
  "arr_upd xs i x = (if i < length xs then Some (xs[i := x]) else None)"

definition arr_get :: "'a list \<Rightarrow> nat \<Rightarrow> 'a option" where
  "arr_get xs i = (if i < length xs then Some (xs ! i) else None)"

lemma arr_upd_in [simp]: "i < length xs \<Longrightarrow> arr_upd xs i x = Some (xs[i := x])"
  by (simp add: arr_upd_def)

lemma arr_get_in [simp]: "i < length xs \<Longrightarrow> arr_get xs i = Some (xs ! i)"
  by (simp add: arr_get_def)

lemma arr_get_Some_iff: "arr_get xs i = Some x \<longleftrightarrow> i < length xs \<and> xs ! i = x"
  by (auto simp: arr_get_def)

subsection \<open>Little-endian words\<close>

text \<open>\<open>le_bytes n w\<close> are the \<open>n\<close> low bytes of \<open>w\<close>, least significant first, as a
  little-endian target stores an \<open>n\<close>-byte object; \<open>le_word\<close> reads them back.\<close>

fun le_bytes :: "nat \<Rightarrow> 'a::len word \<Rightarrow> byte list" where
  "le_bytes 0 w = []"
| "le_bytes (Suc n) w = ucast w # le_bytes n (drop_bit 8 w)"

fun le_word :: "byte list \<Rightarrow> 'a::len word" where
  "le_word [] = 0"
| "le_word (b # bs) = ucast b OR push_bit 8 (le_word bs)"

lemma length_le_bytes [simp, le_simps]: "length (le_bytes n w) = n"
  by (induction n arbitrary: w) auto

lemma bit_le_word:
  "bit (le_word bs :: 'a::len word) k \<longleftrightarrow>
     k < LENGTH('a) \<and> k div 8 < length bs \<and> bit (bs ! (k div 8)) (k mod 8)"
proof (induction bs arbitrary: k)
  case Nil
  then show ?case by simp
next
  case (Cons b bs)
  show ?case
  proof (cases "k < 8")
    case True
    then show ?thesis by (auto simp: bit_simps)
  next
    case False
    then have "k div 8 = Suc ((k - 8) div 8)" and "(k - 8) mod 8 = k mod 8"
      by (auto simp: le_div_geq le_mod_geq)
    with False have "bit ((b # bs) ! (k div 8)) (k mod 8) = bit (bs ! ((k - 8) div 8)) ((k - 8) mod 8)"
      by simp
    moreover have "bit (le_word (b # bs) :: 'a word) k \<longleftrightarrow> k < LENGTH('a) \<and> bit (le_word bs :: 'a word) (k - 8)"
      using False bit_imp_le_length [of b k] by (auto simp: bit_simps)
    ultimately show ?thesis
      using Cons [of "k - 8"] \<open>k div 8 = Suc ((k - 8) div 8)\<close> by auto
  qed
qed

lemma le_word_le_bytes: "le_word (le_bytes n w) = take_bit (8 * n) w"
proof (induction n arbitrary: w)
  case 0
  then show ?case by simp
next
  case (Suc n)
  show ?case
    by (rule bit_eqI) (auto simp: Suc.IH bit_simps)
qed

lemma le_word_le_bytes_id [simp, le_simps]:
  "LENGTH('a) \<le> 8 * n \<Longrightarrow> le_word (le_bytes n (w :: 'a::len word)) = w"
  by (simp add: le_word_le_bytes take_bit_word_eq_self)

lemma le_bytes_le_word:
  "8 * length bs \<le> LENGTH('a) \<Longrightarrow> le_bytes (length bs) (le_word bs :: 'a::len word) = bs"
proof (induction bs)
  case Nil
  then show ?case by simp
next
  case (Cons b bs)
  have "ucast (ucast b OR push_bit 8 (le_word bs :: 'a word)) = b"
    using Cons.prems by (intro bit_eqI) (auto simp: bit_simps)
  moreover have "drop_bit 8 (ucast b OR push_bit 8 (le_word bs :: 'a word)) = le_word bs"
    using Cons.prems
    by (intro bit_eqI) (auto simp: bit_simps bit_le_word dest: bit_imp_le_length)
  ultimately show ?case using Cons by simp
qed

lemma le_bytes_inject:
  "LENGTH('a) \<le> 8 * n \<Longrightarrow> le_bytes n v = le_bytes n w \<longleftrightarrow> v = (w :: 'a::len word)"
  by (metis le_word_le_bytes_id)

subsection \<open>Low bits\<close>

lemma unat_and_mask: "unat (w AND mask n) = unat (w :: 'a::len word) mod 2 ^ n"
  by (metis take_bit_eq_mask unsigned_take_bit_eq take_bit_eq_mod)

lemma unat_and_7F [simp]: "unat (w AND 0x7F :: 'a::len word) = unat w mod 128"
  using unat_and_mask [of w 7] by (simp add: mask_eq_exp_minus_1)

lemma unat_and_FF [simp]: "unat (w AND 0xFF :: 'a::len word) = unat w mod 256"
  using unat_and_mask [of w 8] by (simp add: mask_eq_exp_minus_1)

lemma unat_and_1: "unat (w AND 1) = unat (w :: 'a::len word) mod 2"
  using unat_and_mask [of w 1] by (simp add: mask_eq_exp_minus_1)

lemma unat_ucast_mod: "unat (ucast (w :: 'a::len word) :: 'b::len word) = unat w mod 2 ^ LENGTH('b)"
  by (metis unsigned_ucast_eq take_bit_eq_mod)

lemma unat_drop_bit: "unat (drop_bit n (w :: 'a::len word)) = unat w div 2 ^ n"
  by (metis unat_drop_bit_eq drop_bit_eq_div)

lemma unat_64: "unat (w :: 64 word) < 18446744073709551616"
  using unsigned_less [of w] by simp

lemma unat_32: "unat (w :: 32 word) < 4294967296"
  using unsigned_less [of w] by simp

lemma unat_8: "unat (w :: 8 word) < 256"
  using unsigned_less [of w] by simp

lemma and_self_small: "unat w < 128 \<Longrightarrow> w AND 0x7F = (w :: 'a::len word)"
  by (rule word_unat_eq_iff [THEN iffD2]) simp

lemma byte_or_80:
  assumes "unat (b :: byte) < 128"
  shows "b OR 0x80 = b + 128"
proof -
  have "(b AND 0x7F) AND 0x80 = 0" by (simp add: and.assoc)
  then have "b AND 0x80 = 0" using and_self_small [OF assms] by simp
  then show ?thesis by (simp add: disjunctive_add_eq_or)
qed

lemma and_FF: "(ucast (v AND 0xFF) :: byte) = ucast (v :: 'a::len word)"
  by (simp add: word_unat_eq_iff unat_ucast_mod)

lemma le_bytes_numeral:
  "le_bytes (numeral k) w = ucast w # le_bytes (pred_numeral k) (drop_bit 8 w)"
  by (simp add: numeral_eq_Suc)

lemma unat_3: "unat (w :: 3 word) < 8"
  using unsigned_less [of w] by simp

subsection \<open>Signed and complemented words\<close>

lemma sint_64_cases: "sint (v::u64) = (if uint v < 2 ^ 63 then uint v else uint v - 2 ^ 64)"
proof -
  let ?N = "18446744073709551616 :: int"
  have u: "uint v = sint v mod ?N" by (simp add: uint_sint take_bit_eq_mod)
  have s: "- 9223372036854775808 \<le> sint v" "sint v < 9223372036854775808"
    using sint_ge [of v] sint_lt [of v] by simp_all
  show ?thesis
  proof (cases "0 \<le> sint v")
    case True
    then have "uint v = sint v" using u s by simp
    then show ?thesis using s by simp
  next
    case False
    have "sint v mod ?N = (sint v + ?N) mod ?N" by simp
    also have "\<dots> = sint v + ?N" using False s by (intro mod_pos_pos_trivial) auto
    finally show ?thesis using u False s by simp
  qed
qed

lemma sint_32_cases: "sint (v::u32) = (if uint v < 2 ^ 31 then uint v else uint v - 2 ^ 32)"
proof -
  let ?N = "4294967296 :: int"
  have u: "uint v = sint v mod ?N" by (simp add: uint_sint take_bit_eq_mod)
  have s: "- 2147483648 \<le> sint v" "sint v < 2147483648"
    using sint_ge [of v] sint_lt [of v] by simp_all
  show ?thesis
  proof (cases "0 \<le> sint v")
    case True
    then have "uint v = sint v" unfolding u using s by (intro mod_pos_pos_trivial) auto
    then show ?thesis using s by simp
  next
    case False
    have "sint v mod ?N = (sint v + ?N) mod ?N" by simp
    also have "\<dots> = sint v + ?N" using False s by (intro mod_pos_pos_trivial) auto
    finally have "uint v = sint v + ?N" unfolding u .
    then show ?thesis using False s by simp
  qed
qed

lemma scast_negative:
  assumes "sint (v :: u32) < 0"
  shows "2 ^ 31 \<le> unat v" and "unat (scast v :: u64) = 2 ^ 64 - 2 ^ 32 + unat v"
proof -
  have v: "2 ^ 31 \<le> uint v" "sint v = uint v - 2 ^ 32"
    using assms sint_32_cases [of v] uint_lt2p [of v] by (auto split: if_splits)
  have i: "int (unat v) = uint v" "int (unat (scast v :: u64)) = uint (scast v :: u64)" by simp_all
  have "2147483648 \<le> int (unat v)" unfolding i using v(1) by simp
  then have "2147483648 \<le> unat v" by linarith
  then show "2 ^ 31 \<le> unat v" by simp
  have "uint (scast v :: u64) = sint v mod 2 ^ 64"
    unfolding scast_eq by (simp only: uint_word_of_int) simp
  also have "\<dots> = (sint v + 2 ^ 64) mod 2 ^ 64" by simp
  also have "\<dots> = sint v + 2 ^ 64"
    using v uint_lt2p [of v] by (intro mod_pos_pos_trivial) auto
  finally have "int (unat (scast v :: u64)) = 2 ^ 64 - 2 ^ 32 + int (unat v)"
    unfolding i using v(2) by simp
  then have "int (unat (scast v :: u64)) = int (2 ^ 64 - 2 ^ 32 + unat v)" by simp
  then show "unat (scast v :: u64) = 2 ^ 64 - 2 ^ 32 + unat v" by (simp only: of_nat_eq_iff)
qed

lemma uint_not: "uint (NOT (v :: u64)) = 2 ^ 64 - 1 - uint v"
proof -
  have b: "0 \<le> uint v" "uint v < 2 ^ 64" using uint_lt2p [of v] by simp_all
  have "uint (NOT v) = (- uint v - 1) mod 2 ^ 64"
    by (simp add: unsigned_not_eq take_bit_eq_mod not_int_def)
  also have "\<dots> = (2 ^ 64 + (- uint v - 1)) mod 2 ^ 64"
    by (simp only: mod_add_self1)
  also have "\<dots> = 2 ^ 64 - 1 - uint v"
    by (rule mod_pos_pos_trivial [THEN trans]) (use b in linarith)+
  finally show ?thesis .
qed

subsection \<open>Sums of \<open>size_t\<close>\<close>

lemma sint_index: "n < 2 ^ 31 \<Longrightarrow> sint (of_nat n :: u32) = int n"
  by (simp add: sint_uint unsigned_of_nat take_bit_nat_eq_self signed_take_bit_int_eq_self)

lemma unat_add_no_wrap: "unat (a + b :: size_t) = unat a + unat b" if "unat a + unat b < 2 ^ 64"
  using that by (simp add: unat_word_ariths)

lemma wrap_iff: "(a + b :: 'a::len word) < a \<longleftrightarrow> 2 ^ LENGTH('a) \<le> unat a + unat b"
proof -
  have "unat (a + b) = (unat a + unat b) mod 2 ^ LENGTH('a)"
    by (simp add: unat_word_ariths)
  moreover have "unat a < 2 ^ LENGTH('a)" "unat b < 2 ^ LENGTH('a)"
    by (simp_all add: unsigned_less)
  ultimately show ?thesis
    by (cases "unat a + unat b < 2 ^ LENGTH('a)")
       (auto simp: word_less_nat_alt le_mod_geq not_less less_diff_conv2)
qed

end
