(* ===== verification/Memory.thy ===== *)
theory Memory
  imports Prelude
begin

section \<open>The C memory\<close>

text \<open>
  The message structures live in a byte-addressed memory. An address is an integer, \<open>0\<close>
  is the null pointer, and a byte is there (\<open>Some\<close>) exactly when it belongs to a live
  object, so that an access outside every object is \<open>None\<close>. The target is the one the
  pods are built for: little-endian, 8-byte pointers and \<open>size_t\<close>, 4-byte enums and
  \<open>pb_size_t\<close> (\<open>PB_FIELD_32BIT\<close>), 1-byte \<open>bool\<close>.

  \<open>realloc\<close> and \<open>free\<close> (\<open>pb_realloc\<close> and \<open>pb_free\<close>, pb.h) are the C library's: which
  block an allocation returns, whether it fails, and what a fresh block holds are a
  parameter, the record \<open>allocator\<close>; what the standard promises of them is the locale
  \<open>heap_alloc\<close>, interpreted by a bump allocator.
\<close>

record mem =
  mbytes :: "addr \<Rightarrow> byte option"
  mblocks :: "addr \<Rightarrow> nat option"

subsection \<open>Loads and stores\<close>

fun load_bytes :: "mem \<Rightarrow> addr \<Rightarrow> nat \<Rightarrow> byte list option" where
  "load_bytes m a 0 = Some []"
| "load_bytes m a (Suc n) =
     (case mbytes m a of None \<Rightarrow> None
      | Some b \<Rightarrow> map_option (Cons b) (load_bytes m (a + 1) n))"

fun mapped :: "mem \<Rightarrow> addr \<Rightarrow> nat \<Rightarrow> bool" where
  "mapped m a 0 \<longleftrightarrow> True"
| "mapped m a (Suc n) \<longleftrightarrow> mbytes m a \<noteq> None \<and> mapped m (a + 1) n"

definition store_bytes :: "mem \<Rightarrow> addr \<Rightarrow> byte list \<Rightarrow> mem option" where
  "store_bytes m a bs =
     (if mapped m a (length bs)
      then Some (m\<lparr>mbytes := (\<lambda>x. if a \<le> x \<and> x < a + int (length bs)
                                  then Some (bs ! nat (x - a)) else mbytes m x)\<rparr>)
      else None)"

definition load_word :: "mem \<Rightarrow> addr \<Rightarrow> nat \<Rightarrow> 'a::len word option" where
  "load_word m a n = map_option le_word (load_bytes m a n)"

definition load_u32 :: "mem \<Rightarrow> addr \<Rightarrow> u32 option" where
  "load_u32 m a = load_word m a 4"

definition store_u32 :: "mem \<Rightarrow> addr \<Rightarrow> u32 \<Rightarrow> mem option" where
  "store_u32 m a v = store_bytes m a (le_bytes 4 v)"

definition load_ptr :: "mem \<Rightarrow> addr \<Rightarrow> addr option" where
  "load_ptr m a = map_option uint (load_word m a 8 :: u64 option)"

definition store_ptr :: "mem \<Rightarrow> addr \<Rightarrow> addr \<Rightarrow> mem option" where
  "store_ptr m a p = store_bytes m a (le_bytes 8 (word_of_int p :: u64))"

text \<open>\<open>bool\<close>: stored as one byte, \<open>0\<close> or \<open>1\<close>.\<close>

definition store_bool :: "mem \<Rightarrow> addr \<Rightarrow> bool \<Rightarrow> mem option" where
  "store_bool m a v = store_bytes m a [if v then 1 else 0]"

text \<open>The C library's \<open>memset(p, 0, n)\<close> and \<open>memcpy\<close> from a constant object.\<close>

definition c_memset0 :: "mem \<Rightarrow> addr \<Rightarrow> nat \<Rightarrow> mem option" where
  "c_memset0 m a n = store_bytes m a (replicate n 0)"

definition c_memcpy :: "mem \<Rightarrow> addr \<Rightarrow> byte list \<Rightarrow> nat \<Rightarrow> mem option" where
  "c_memcpy m a src n = (if n \<le> length src then store_bytes m a (take n src) else None)"

subsection \<open>The heap\<close>

record allocator =
  al_pick :: "mem \<Rightarrow> nat \<Rightarrow> addr"
  al_junk :: "mem \<Rightarrow> addr \<Rightarrow> byte"

definition map_block :: "mem \<Rightarrow> addr \<Rightarrow> nat \<Rightarrow> (addr \<Rightarrow> byte) \<Rightarrow> mem" where
  "map_block m a n f =
     \<lparr>mbytes = (\<lambda>x. if a \<le> x \<and> x < a + int n then Some (f x) else mbytes m x),
      mblocks = (mblocks m)(a := Some n)\<rparr>"

definition unmap_block :: "mem \<Rightarrow> addr \<Rightarrow> nat \<Rightarrow> mem" where
  "unmap_block m a n =
     \<lparr>mbytes = (\<lambda>x. if a \<le> x \<and> x < a + int n then None else mbytes m x),
      mblocks = (mblocks m)(a := None)\<rparr>"

text \<open>\<open>free(p)\<close>: nothing for the null pointer, undefined unless \<open>p\<close> is a live block.\<close>

definition c_free :: "mem \<Rightarrow> addr \<Rightarrow> mem option" where
  "c_free m p =
     (if p = 0 then Some m
      else case mblocks m p of None \<Rightarrow> None | Some n \<Rightarrow> Some (unmap_block m p n))"

text \<open>\<open>realloc(p, n)\<close>: a null result leaves the old block alone; otherwise the old block is
  gone and the new one starts with its first \<open>min\<close> bytes.\<close>

definition c_realloc :: "allocator \<Rightarrow> mem \<Rightarrow> addr \<Rightarrow> nat \<Rightarrow> (addr \<times> mem) option" where
  "c_realloc al m p n = do {
     (bs, m0) \<leftarrow> (if p = 0 then Some ([], m)
                  else do {
                    old \<leftarrow> mblocks m p;
                    bs \<leftarrow> load_bytes m p (min old n);
                    Some (bs, unmap_block m p old)
                  });
     let q = al_pick al m0 n;
     if q = 0 then Some (0, m)
     else do {
       m' \<leftarrow> store_bytes (map_block m0 q n (al_junk al m0)) q bs;
       Some (q, m')
     }
   }"

text \<open>A fixed list of places to allocate at: the first one that is free, null when none is.\<close>

definition pool_allocator :: "addr list \<Rightarrow> allocator" where
  "pool_allocator places =
     \<lparr>al_pick = (\<lambda>m n. case filter (\<lambda>p. 0 < p \<and> p + int n < 2 ^ 64 \<and>
                          list_all (\<lambda>i. mbytes m (p + int i) = None) [0..<n]) places of
                        [] \<Rightarrow> 0 | p # _ \<Rightarrow> p),
      al_junk = (\<lambda>m x. 0xAA)\<rparr>"

subsection \<open>Facts: loads and stores\<close>

lemma mapped_iff: "mapped m a n \<longleftrightarrow> (\<forall>x. a \<le> x \<and> x < a + int n \<longrightarrow> mbytes m x \<noteq> None)"
proof (induction n arbitrary: a)
  case 0
  then show ?case by auto
next
  case (Suc n)
  have "(\<forall>x. a \<le> x \<and> x < a + int (Suc n) \<longrightarrow> mbytes m x \<noteq> None) \<longleftrightarrow>
        mbytes m a \<noteq> None \<and> (\<forall>x. a + 1 \<le> x \<and> x < a + 1 + int n \<longrightarrow> mbytes m x \<noteq> None)"
    (is "?L \<longleftrightarrow> ?R")
  proof
    assume ?L
    then show ?R by auto
  next
    assume R: ?R
    show ?L
    proof (intro allI impI)
      fix x assume "a \<le> x \<and> x < a + int (Suc n)"
      then have "x = a \<or> a + 1 \<le> x \<and> x < a + 1 + int n" by auto
      with R show "mbytes m x \<noteq> None" by auto
    qed
  qed
  then show ?case using Suc by simp
qed

lemma load_bytes_length: "load_bytes m a n = Some bs \<Longrightarrow> length bs = n"
  by (induction n arbitrary: a bs) (auto split: option.splits)

lemma load_bytes_nth:
  "load_bytes m a n = Some bs \<Longrightarrow> i < n \<Longrightarrow> mbytes m (a + int i) = Some (bs ! i)"
proof (induction n arbitrary: a bs i)
  case 0
  then show ?case by simp
next
  case (Suc n)
  then obtain b cs where b: "mbytes m a = Some b" and cs: "load_bytes m (a + 1) n = Some cs"
      and bs: "bs = b # cs"
    by (auto split: option.splits)
  show ?case
  proof (cases i)
    case 0
    with b bs show ?thesis by simp
  next
    case (Suc j)
    with Suc.prems Suc.IH [OF cs, of j] bs show ?thesis by (simp add: algebra_simps)
  qed
qed

lemma load_bytes_defined: "load_bytes m a n \<noteq> None \<longleftrightarrow> mapped m a n"
  by (induction n arbitrary: a) (auto split: option.splits)

lemma load_bytes_eqI:
  assumes "length bs = n" and "\<And>i. i < n \<Longrightarrow> mbytes m (a + int i) = Some (bs ! i)"
  shows "load_bytes m a n = Some bs"
proof -
  have "mapped m a n"
    unfolding mapped_iff
  proof (intro allI impI)
    fix x assume "a \<le> x \<and> x < a + int n"
    then show "mbytes m x \<noteq> None"
      using assms(2) [of "nat (x - a)"] by (auto simp: nat_less_iff)
  qed
  then obtain cs where cs: "load_bytes m a n = Some cs"
    using load_bytes_defined [of m a n] by auto
  have "cs = bs"
    by (rule nth_equalityI)
       (use assms load_bytes_length [OF cs] load_bytes_nth [OF cs] in auto)
  with cs show ?thesis by simp
qed

lemma load_bytes_cong:
  assumes "\<And>x. a \<le> x \<Longrightarrow> x < a + int n \<Longrightarrow> mbytes m' x = mbytes m x"
  shows "load_bytes m' a n = load_bytes m a n"
  using assms
proof (induction n arbitrary: a)
  case 0
  then show ?case by simp
next
  case (Suc n)
  have "mbytes m' a = mbytes m a" by (rule Suc.prems) auto
  moreover have "load_bytes m' (a + 1) n = load_bytes m (a + 1) n"
    by (rule Suc.IH) (use Suc.prems in auto)
  ultimately show ?case by (simp only: load_bytes.simps)
qed

lemma store_bytes_Some_iff:
  "store_bytes m a bs = Some m' \<longleftrightarrow> mapped m a (length bs) \<and>
     m' = m\<lparr>mbytes := (\<lambda>x. if a \<le> x \<and> x < a + int (length bs)
                           then Some (bs ! nat (x - a)) else mbytes m x)\<rparr>"
  by (auto simp: store_bytes_def)

lemma store_bytes_mblocks: "store_bytes m a bs = Some m' \<Longrightarrow> mblocks m' = mblocks m"
  by (auto simp: store_bytes_Some_iff)

lemma store_bytes_other:
  "store_bytes m a bs = Some m' \<Longrightarrow> x < a \<or> a + int (length bs) \<le> x \<Longrightarrow> mbytes m' x = mbytes m x"
  by (auto simp: store_bytes_Some_iff)

lemma load_store_same:
  "store_bytes m a bs = Some m' \<Longrightarrow> load_bytes m' a (length bs) = Some bs"
  by (rule load_bytes_eqI) (auto simp: store_bytes_Some_iff)

lemma load_store_disjoint:
  "store_bytes m a bs = Some m' \<Longrightarrow> b + int n \<le> a \<or> a + int (length bs) \<le> b \<Longrightarrow>
     load_bytes m' b n = load_bytes m b n"
  by (rule load_bytes_cong) (auto simp: store_bytes_Some_iff)

lemma load_u32_store_u32: "store_u32 m a v = Some m' \<Longrightarrow> load_u32 m' a = Some v"
  using load_store_same [of m a "le_bytes 4 v" m']
  by (simp add: store_u32_def load_u32_def load_word_def)

lemma load_ptr_store_ptr:
  "store_ptr m a p = Some m' \<Longrightarrow> 0 \<le> p \<Longrightarrow> p < 2 ^ 64 \<Longrightarrow> load_ptr m' a = Some p"
  using load_store_same [of m a "le_bytes 8 (word_of_int p :: u64)" m']
  by (simp add: store_ptr_def load_ptr_def load_word_def uint_word_of_int)

subsection \<open>Which bytes an update may touch\<close>

text \<open>\<open>writes_in A m m'\<close>: only bytes at addresses of \<open>A\<close> differ, no byte appears or goes,
  no heap block appears or goes.\<close>

definition writes_in :: "addr set \<Rightarrow> mem \<Rightarrow> mem \<Rightarrow> bool" where
  "writes_in A m m' \<longleftrightarrow>
     (\<forall>x. x \<notin> A \<longrightarrow> mbytes m' x = mbytes m x) \<and>
     (\<forall>x. mbytes m' x = None \<longleftrightarrow> mbytes m x = None) \<and> mblocks m' = mblocks m"

definition span :: "addr \<Rightarrow> nat \<Rightarrow> addr set" where
  "span a n = {a..<a + int n}"

lemma span_empty [simp]: "span a 0 = {}"
  by (simp add: span_def)

lemma span_mono: "a \<le> b \<Longrightarrow> b + int k \<le> a + int n \<Longrightarrow> span b k \<subseteq> span a n"
  by (auto simp: span_def)

lemma writes_in_refl [simp, intro]: "writes_in A m m"
  by (simp add: writes_in_def)

lemma writes_in_trans: "writes_in A m m' \<Longrightarrow> writes_in A m' m'' \<Longrightarrow> writes_in A m m''"
  by (auto simp: writes_in_def)

lemma writes_in_mono: "writes_in A m m' \<Longrightarrow> A \<subseteq> B \<Longrightarrow> writes_in B m m'"
  by (auto simp: writes_in_def)

lemma writes_in_mapped: "writes_in A m m' \<Longrightarrow> mapped m' a n = mapped m a n"
  by (auto simp: writes_in_def mapped_iff)

lemma writes_in_load:
  "writes_in A m m' \<Longrightarrow> A \<inter> span a n = {} \<Longrightarrow> load_bytes m' a n = load_bytes m a n"
  by (rule load_bytes_cong) (auto simp: writes_in_def span_def disjoint_iff)

lemma store_bytes_writes: "store_bytes m a bs = Some m' \<Longrightarrow> writes_in (span a (length bs)) m m'"
  by (auto simp: store_bytes_Some_iff writes_in_def span_def mapped_iff)

lemma store_bytes_defined: "mapped m a (length bs) \<Longrightarrow> \<exists>m'. store_bytes m a bs = Some m'"
  by (simp add: store_bytes_def)

lemma mapped_sub:
  "mapped m a n \<Longrightarrow> a \<le> b \<Longrightarrow> b + int k \<le> a + int n \<Longrightarrow> mapped m b k"
  by (auto simp: mapped_iff)

lemma c_memset0_load: "c_memset0 m a n = Some m' \<Longrightarrow> load_bytes m' a n = Some (replicate n 0)"
  using load_store_same [of m a "replicate n 0" m'] by (simp add: c_memset0_def)

subsection \<open>What the standard promises of \<open>realloc\<close>\<close>

text \<open>A block that is not null lies in the address space and overlaps no live object.\<close>

locale heap_alloc =
  fixes al :: allocator
  assumes pick_fresh: "al_pick al m n = q \<Longrightarrow> q \<noteq> 0 \<Longrightarrow>
            0 < q \<and> q + int n < 2 ^ 64 \<and> (\<forall>x \<in> span q n. mbytes m x = None)"
begin

lemma realloc_null_or_block:
  assumes "c_realloc al m p n = Some (q, m')" and "q \<noteq> 0"
  shows "0 < q" and "q + int n < 2 ^ 64" and "mapped m' q n" and "mblocks m' q = Some n"
  using assms pick_fresh
  by (auto simp: c_realloc_def Let_def bind_eq_Some_conv store_bytes_Some_iff map_block_def
      mapped_iff split: if_splits)

lemma realloc_fail: "c_realloc al m p n = Some (0, m') \<Longrightarrow> m' = m"
  by (auto simp: c_realloc_def Let_def bind_eq_Some_conv split: if_splits)

text \<open>Every byte that was live and is not in the old block keeps its value.\<close>

lemma realloc_frame:
  assumes "c_realloc al m p n = Some (q, m')" and "mbytes m x = Some b"
    and "p \<noteq> 0 \<Longrightarrow> mblocks m p = Some old \<and> x \<notin> span p old"
  shows "mbytes m' x = Some b"
proof (cases "q = 0")
  case True
  with assms(1,2) show ?thesis by (auto dest: realloc_fail)
next
  case False
  from assms(1) obtain bs m0 where
      m0: "m0 = (if p = 0 then m else unmap_block m p old)"
    and q: "q = al_pick al m0 n"
    and st: "store_bytes (map_block m0 q n (al_junk al m0)) q bs = Some m'"
    and len: "length bs \<le> n"
    using False assms(3)
    by (auto simp: c_realloc_def Let_def bind_eq_Some_conv split: if_splits
        dest: load_bytes_length)
  have x: "mbytes m0 x = Some b"
    using assms(2,3) m0 by (auto simp: unmap_block_def span_def)
  then have "x \<notin> span q n"
    using pick_fresh [OF q [symmetric] False] by auto
  with x st len show ?thesis
    by (auto simp: store_bytes_Some_iff map_block_def span_def)
qed

end

interpretation pool: heap_alloc "pool_allocator places" for places
proof
  fix m n q
  assume pick: "al_pick (pool_allocator places) m n = q" and nz: "q \<noteq> 0"
  let ?free = "\<lambda>p. 0 < p \<and> p + int n < 2 ^ 64 \<and> list_all (\<lambda>i. mbytes m (p + int i) = None) [0..<n]"
  from pick nz obtain ps where ps: "filter ?free places = q # ps"
    by (auto simp: pool_allocator_def split: list.splits)
  have "q \<in> set (filter ?free places)"
    by (subst ps) simp
  then have free: "?free q" by simp
  moreover have "mbytes m x = None" if "x \<in> span q n" for x
    using free that by (auto simp: list_all_iff span_def) (metis add_diff_cancel_left' int_nat_eq
        le_add_diff_inverse nat_less_iff atLeastLessThan_iff zero_le diff_ge_0_iff_ge less_diff_eq add.commute)
  ultimately show "0 < q \<and> q + int n < 2 ^ 64 \<and> (\<forall>x \<in> span q n. mbytes m x = None)"
    by blast
qed

end
