(* ===== verification/PbTypes.thy ===== *)
theory PbTypes
  imports Memory
begin

section \<open>Field descriptors (nanopb/pb.h)\<close>

text \<open>
  The constants and the descriptor type of \<open>pb.h\<close>, in the configuration of the pods
  (\<open>PB_FIELD_32BIT\<close>, \<open>PB_ENABLE_MALLOC\<close>, error messages on), and the \<open>PB_FIELD\<close> macros,
  which compute a descriptor from the C layout of a message struct.

  A descriptor array \<open>const pb_field_t fields[]\<close> is the list of its entries, the
  terminator \<open>PB_LAST_FIELD\<close> included. The \<open>ptr\<close> of an entry is null, the array of a
  submessage, or the bytes of a default value, so that a descriptor is a finite tree;
  none of the generated descriptors of the repository is cyclic.
\<close>

named_theorems pb_consts \<open>the constants of pb.h\<close>

type_synonym pb_type_t = "8 word"

subsection \<open>Type bytes\<close>

definition PB_LTYPE_BOOL :: pb_type_t where [simp, pb_consts]: "PB_LTYPE_BOOL = 0x00"
definition PB_LTYPE_VARINT :: pb_type_t where [simp, pb_consts]: "PB_LTYPE_VARINT = 0x01"
definition PB_LTYPE_UVARINT :: pb_type_t where [simp, pb_consts]: "PB_LTYPE_UVARINT = 0x02"
definition PB_LTYPE_SVARINT :: pb_type_t where [simp, pb_consts]: "PB_LTYPE_SVARINT = 0x03"
definition PB_LTYPE_FIXED32 :: pb_type_t where [simp, pb_consts]: "PB_LTYPE_FIXED32 = 0x04"
definition PB_LTYPE_FIXED64 :: pb_type_t where [simp, pb_consts]: "PB_LTYPE_FIXED64 = 0x05"
definition PB_LTYPE_LAST_PACKABLE :: pb_type_t where
  [simp, pb_consts]: "PB_LTYPE_LAST_PACKABLE = 0x05"
definition PB_LTYPE_BYTES :: pb_type_t where [simp, pb_consts]: "PB_LTYPE_BYTES = 0x06"
definition PB_LTYPE_STRING :: pb_type_t where [simp, pb_consts]: "PB_LTYPE_STRING = 0x07"
definition PB_LTYPE_SUBMESSAGE :: pb_type_t where [simp, pb_consts]: "PB_LTYPE_SUBMESSAGE = 0x08"
definition PB_LTYPE_EXTENSION :: pb_type_t where [simp, pb_consts]: "PB_LTYPE_EXTENSION = 0x09"
definition PB_LTYPE_FIXED_LENGTH_BYTES :: pb_type_t where
  [simp, pb_consts]: "PB_LTYPE_FIXED_LENGTH_BYTES = 0x0A"
definition PB_LTYPES_COUNT :: nat where [simp, pb_consts]: "PB_LTYPES_COUNT = 0x0B"
definition PB_LTYPE_MASK :: pb_type_t where [simp, pb_consts]: "PB_LTYPE_MASK = 0x0F"

definition PB_HTYPE_REQUIRED :: pb_type_t where [simp, pb_consts]: "PB_HTYPE_REQUIRED = 0x00"
definition PB_HTYPE_OPTIONAL :: pb_type_t where [simp, pb_consts]: "PB_HTYPE_OPTIONAL = 0x10"
definition PB_HTYPE_REPEATED :: pb_type_t where [simp, pb_consts]: "PB_HTYPE_REPEATED = 0x20"
definition PB_HTYPE_ONEOF :: pb_type_t where [simp, pb_consts]: "PB_HTYPE_ONEOF = 0x30"
definition PB_HTYPE_MASK :: pb_type_t where [simp, pb_consts]: "PB_HTYPE_MASK = 0x30"

definition PB_ATYPE_STATIC :: pb_type_t where [simp, pb_consts]: "PB_ATYPE_STATIC = 0x00"
definition PB_ATYPE_POINTER :: pb_type_t where [simp, pb_consts]: "PB_ATYPE_POINTER = 0x80"
definition PB_ATYPE_CALLBACK :: pb_type_t where [simp, pb_consts]: "PB_ATYPE_CALLBACK = 0x40"
definition PB_ATYPE_MASK :: pb_type_t where [simp, pb_consts]: "PB_ATYPE_MASK = 0xC0"

definition PB_ATYPE :: "pb_type_t \<Rightarrow> pb_type_t" where "PB_ATYPE x = x AND PB_ATYPE_MASK"
definition PB_HTYPE :: "pb_type_t \<Rightarrow> pb_type_t" where "PB_HTYPE x = x AND PB_HTYPE_MASK"
definition PB_LTYPE :: "pb_type_t \<Rightarrow> pb_type_t" where "PB_LTYPE x = x AND PB_LTYPE_MASK"

definition PB_SIZE_MAX :: pb_size_t where [simp, pb_consts]: "PB_SIZE_MAX = - 1"
definition PB_MAX_REQUIRED_FIELDS :: u32 where [simp, pb_consts]: "PB_MAX_REQUIRED_FIELDS = 64"

subsection \<open>Descriptors\<close>

datatype pb_field =
  PbField (tag: pb_size_t) (ftype: pb_type_t) (data_offset: pb_size_t) (size_offset: "32 word")
    (data_size: pb_size_t) (array_size: pb_size_t) (ptr: field_ptr)
and field_ptr =
  PNull
| PFields "pb_field list"
| PDefault "byte list"

definition PB_LAST_FIELD :: pb_field where
  "PB_LAST_FIELD = PbField 0 0 0 0 0 0 PNull"

text \<open>The signed \<open>size_offset\<close>.\<close>

definition size_off :: "pb_field \<Rightarrow> int" where
  "size_off f = sint (size_offset f)"

text \<open>\<open>fields[i]\<close>, undefined past the array.\<close>

definition field_at :: "pb_field list \<Rightarrow> nat \<Rightarrow> pb_field option" where
  "field_at fs i = (if i < length fs then Some (fs ! i) else None)"

text \<open>\<open>(const pb_field_t * ) field->ptr\<close>: undefined when the pointer is not to descriptors.\<close>

fun ptr_fields :: "field_ptr \<Rightarrow> pb_field list option" where
  "ptr_fields (PFields fs) = Some fs"
| "ptr_fields _ = None"

text \<open>The sizes an integer field may have.\<close>

definition int_size :: "pb_size_t \<Rightarrow> bool" where
  "int_size sz \<longleftrightarrow> sz = 1 \<or> sz = 2 \<or> sz = 4 \<or> sz = 8"

text \<open>\<open>offsetof(pb_bytes_array_t, bytes)\<close> is 4 with 32-bit sizes.\<close>

definition PB_BYTES_ARRAY_T_ALLOCSIZE :: "size_t \<Rightarrow> size_t" where
  "PB_BYTES_ARRAY_T_ALLOCSIZE n = n + 4"

datatype pb_wire_type = PB_WT_VARINT | PB_WT_64BIT | PB_WT_STRING | PB_WT_32BIT | PB_WT_OTHER "3 word"

text \<open>The enum is an \<open>unsigned\<close> in memory; three-bit values without a name are kept.\<close>

fun wt_code :: "pb_wire_type \<Rightarrow> u64" where
  "wt_code PB_WT_VARINT = 0"
| "wt_code PB_WT_64BIT = 1"
| "wt_code PB_WT_STRING = 2"
| "wt_code PB_WT_32BIT = 5"
| "wt_code (PB_WT_OTHER w) = ucast w"

definition wt_of :: "u32 \<Rightarrow> pb_wire_type" where
  "wt_of w = (if w = 0 then PB_WT_VARINT else if w = 1 then PB_WT_64BIT
              else if w = 2 then PB_WT_STRING else if w = 5 then PB_WT_32BIT
              else PB_WT_OTHER (ucast w))"

subsection \<open>C struct layout and the field macros\<close>

text \<open>
  A struct is the list of its members, each with size, alignment and the size of
  \<open>m[0]\<close> (the element of an array, what a pointer points to). Offsets follow the C ABI:
  each member at the next multiple of its alignment.
\<close>

record cmember =
  m_name :: string
  m_size :: nat
  m_align :: nat
  m_elem :: nat

type_synonym cstruct = "cmember list"

text \<open>Members of the types the messages use. What a scalar \<open>m\<close> would have as \<open>m[0]\<close> is unused.\<close>

definition c_scalar :: "nat \<Rightarrow> string \<Rightarrow> cmember" where
  "c_scalar n x = \<lparr>m_name = x, m_size = n, m_align = n, m_elem = 0\<rparr>"

definition c_bool :: "string \<Rightarrow> cmember" where "c_bool = c_scalar 1"
definition c_enum :: "string \<Rightarrow> cmember" where "c_enum = c_scalar 4"
definition c_int32 :: "string \<Rightarrow> cmember" where "c_int32 = c_scalar 4"
definition c_int64 :: "string \<Rightarrow> cmember" where "c_int64 = c_scalar 8"
definition c_u32 :: "string \<Rightarrow> cmember" where "c_u32 = c_scalar 4"

definition c_ptr :: "string \<Rightarrow> nat \<Rightarrow> cmember" where
  "c_ptr x elem = \<lparr>m_name = x, m_size = 8, m_align = 8, m_elem = elem\<rparr>"

definition align_up :: "nat \<Rightarrow> nat \<Rightarrow> nat" where
  "align_up n a = (n + a - 1) div a * a"

fun struct_end :: "cstruct \<Rightarrow> nat \<Rightarrow> nat" where
  "struct_end [] n = n"
| "struct_end (m # ms) n = struct_end ms (align_up n (m_align m) + m_size m)"

definition struct_align :: "cstruct \<Rightarrow> nat" where
  "struct_align st = foldr (max \<circ> m_align) st 1"

definition struct_size :: "cstruct \<Rightarrow> nat" where
  "struct_size st = align_up (struct_end st 0) (struct_align st)"

definition c_struct :: "string \<Rightarrow> cstruct \<Rightarrow> cmember" where
  "c_struct x st = \<lparr>m_name = x, m_size = struct_size st, m_align = struct_align st, m_elem = 0\<rparr>"

fun find_member :: "cstruct \<Rightarrow> nat \<Rightarrow> string \<Rightarrow> (nat \<times> cmember) option" where
  "find_member [] n x = None"
| "find_member (m # ms) n x =
     (if m_name m = x then Some (align_up n (m_align m), m)
      else find_member ms (align_up n (m_align m) + m_size m) x)"

definition offsetof :: "cstruct \<Rightarrow> string \<Rightarrow> nat" where
  "offsetof st x = (case find_member st 0 x of Some (off, _) \<Rightarrow> off | None \<Rightarrow> 0)"

definition pb_membersize :: "cstruct \<Rightarrow> string \<Rightarrow> nat" where
  "pb_membersize st x = (case find_member st 0 x of Some (_, m) \<Rightarrow> m_size m | None \<Rightarrow> 0)"

definition pb_elemsize :: "cstruct \<Rightarrow> string \<Rightarrow> nat" where
  "pb_elemsize st x = (case find_member st 0 x of Some (_, m) \<Rightarrow> m_elem m | None \<Rightarrow> 0)"

definition pb_arraysize :: "cstruct \<Rightarrow> string \<Rightarrow> nat" where
  "pb_arraysize st x = pb_membersize st x div pb_elemsize st x"

definition pb_delta :: "cstruct \<Rightarrow> string \<Rightarrow> string \<Rightarrow> int" where
  "pb_delta st m1 m2 = int (offsetof st m1) - int (offsetof st m2)"

definition PB_DATAOFFSET_FIRST :: "cstruct \<Rightarrow> string \<Rightarrow> string \<Rightarrow> int" where
  "PB_DATAOFFSET_FIRST st m1 m2 = int (offsetof st m1)"

definition PB_DATAOFFSET_OTHER :: "cstruct \<Rightarrow> string \<Rightarrow> string \<Rightarrow> int" where
  "PB_DATAOFFSET_OTHER st m1 m2 = int (offsetof st m1) - int (offsetof st m2) - int (pb_membersize st m2)"

definition PB_DATAOFFSET_UNION :: "cstruct \<Rightarrow> string \<Rightarrow> string \<Rightarrow> int" where
  "PB_DATAOFFSET_UNION st m1 m2 = uint PB_SIZE_MAX"

definition PB_REQUIRED_STATIC ::
  "pb_size_t \<Rightarrow> cstruct \<Rightarrow> string \<Rightarrow> int \<Rightarrow> pb_type_t \<Rightarrow> field_ptr \<Rightarrow> pb_field" where
  "PB_REQUIRED_STATIC tg st m fd ltype p =
     PbField tg (PB_ATYPE_STATIC OR PB_HTYPE_REQUIRED OR ltype)
       (word_of_int fd) 0 (of_nat (pb_membersize st m)) 0 p"

definition PB_OPTIONAL_STATIC ::
  "pb_size_t \<Rightarrow> cstruct \<Rightarrow> string \<Rightarrow> int \<Rightarrow> pb_type_t \<Rightarrow> field_ptr \<Rightarrow> pb_field" where
  "PB_OPTIONAL_STATIC tg st m fd ltype p =
     PbField tg (PB_ATYPE_STATIC OR PB_HTYPE_OPTIONAL OR ltype)
       (word_of_int fd) (word_of_int (pb_delta st (''has_'' @ m) m)) (of_nat (pb_membersize st m)) 0 p"

definition PB_SINGULAR_STATIC ::
  "pb_size_t \<Rightarrow> cstruct \<Rightarrow> string \<Rightarrow> int \<Rightarrow> pb_type_t \<Rightarrow> field_ptr \<Rightarrow> pb_field" where
  "PB_SINGULAR_STATIC tg st m fd ltype p =
     PbField tg (PB_ATYPE_STATIC OR PB_HTYPE_OPTIONAL OR ltype)
       (word_of_int fd) 0 (of_nat (pb_membersize st m)) 0 p"

definition PB_REPEATED_STATIC ::
  "pb_size_t \<Rightarrow> cstruct \<Rightarrow> string \<Rightarrow> int \<Rightarrow> pb_type_t \<Rightarrow> field_ptr \<Rightarrow> pb_field" where
  "PB_REPEATED_STATIC tg st m fd ltype p =
     PbField tg (PB_ATYPE_STATIC OR PB_HTYPE_REPEATED OR ltype)
       (word_of_int fd) (word_of_int (pb_delta st (m @ ''_count'') m))
       (of_nat (pb_elemsize st m)) (of_nat (pb_arraysize st m)) p"

definition PB_REQUIRED_POINTER ::
  "pb_size_t \<Rightarrow> cstruct \<Rightarrow> string \<Rightarrow> int \<Rightarrow> pb_type_t \<Rightarrow> field_ptr \<Rightarrow> pb_field" where
  "PB_REQUIRED_POINTER tg st m fd ltype p =
     PbField tg (PB_ATYPE_POINTER OR PB_HTYPE_REQUIRED OR ltype)
       (word_of_int fd) 0 (of_nat (pb_elemsize st m)) 0 p"

definition PB_OPTIONAL_POINTER ::
  "pb_size_t \<Rightarrow> cstruct \<Rightarrow> string \<Rightarrow> int \<Rightarrow> pb_type_t \<Rightarrow> field_ptr \<Rightarrow> pb_field" where
  "PB_OPTIONAL_POINTER tg st m fd ltype p =
     PbField tg (PB_ATYPE_POINTER OR PB_HTYPE_OPTIONAL OR ltype)
       (word_of_int fd) 0 (of_nat (pb_elemsize st m)) 0 p"

definition PB_SINGULAR_POINTER ::
  "pb_size_t \<Rightarrow> cstruct \<Rightarrow> string \<Rightarrow> int \<Rightarrow> pb_type_t \<Rightarrow> field_ptr \<Rightarrow> pb_field" where
  "PB_SINGULAR_POINTER tg st m fd ltype p =
     PbField tg (PB_ATYPE_POINTER OR PB_HTYPE_OPTIONAL OR ltype)
       (word_of_int fd) 0 (of_nat (pb_elemsize st m)) 0 p"

definition PB_REPEATED_POINTER ::
  "pb_size_t \<Rightarrow> cstruct \<Rightarrow> string \<Rightarrow> int \<Rightarrow> pb_type_t \<Rightarrow> field_ptr \<Rightarrow> pb_field" where
  "PB_REPEATED_POINTER tg st m fd ltype p =
     PbField tg (PB_ATYPE_POINTER OR PB_HTYPE_REPEATED OR ltype)
       (word_of_int fd) (word_of_int (pb_delta st (m @ ''_count'') m))
       (of_nat (pb_elemsize st m)) 0 p"

definition PB_REQUIRED_CALLBACK ::
  "pb_size_t \<Rightarrow> cstruct \<Rightarrow> string \<Rightarrow> int \<Rightarrow> pb_type_t \<Rightarrow> field_ptr \<Rightarrow> pb_field" where
  "PB_REQUIRED_CALLBACK tg st m fd ltype p =
     PbField tg (PB_ATYPE_CALLBACK OR PB_HTYPE_REQUIRED OR ltype)
       (word_of_int fd) 0 (of_nat (pb_membersize st m)) 0 p"

definition PB_OPTIONAL_CALLBACK ::
  "pb_size_t \<Rightarrow> cstruct \<Rightarrow> string \<Rightarrow> int \<Rightarrow> pb_type_t \<Rightarrow> field_ptr \<Rightarrow> pb_field" where
  "PB_OPTIONAL_CALLBACK tg st m fd ltype p =
     PbField tg (PB_ATYPE_CALLBACK OR PB_HTYPE_OPTIONAL OR ltype)
       (word_of_int fd) 0 (of_nat (pb_membersize st m)) 0 p"

definition PB_REPEATED_CALLBACK ::
  "pb_size_t \<Rightarrow> cstruct \<Rightarrow> string \<Rightarrow> int \<Rightarrow> pb_type_t \<Rightarrow> field_ptr \<Rightarrow> pb_field" where
  "PB_REPEATED_CALLBACK tg st m fd ltype p =
     PbField tg (PB_ATYPE_CALLBACK OR PB_HTYPE_REPEATED OR ltype)
       (word_of_int fd) 0 (of_nat (pb_membersize st m)) 0 p"

definition PB_OPTEXT_STATIC ::
  "pb_size_t \<Rightarrow> cstruct \<Rightarrow> string \<Rightarrow> int \<Rightarrow> pb_type_t \<Rightarrow> field_ptr \<Rightarrow> pb_field" where
  "PB_OPTEXT_STATIC tg st m fd ltype p =
     PbField tg (PB_ATYPE_STATIC OR PB_HTYPE_REQUIRED OR ltype)
       0 0 (of_nat (pb_membersize st m)) 0 p"

text \<open>The protobuf types of the \<open>.proto\<close> files and their storage types (\<open>PB_LTYPE_MAP_*\<close>).\<close>

datatype proto_type = BOOL | BYTES | DOUBLE | ENUM | UENUM | FIXED32 | FIXED64 | FLOAT | INT32
  | INT64 | MESSAGE | SFIXED32 | SFIXED64 | SINT32 | SINT64 | STRING | UINT32 | UINT64
  | EXTENSION | FIXED_LENGTH_BYTES

fun PB_LTYPE_MAP :: "proto_type \<Rightarrow> pb_type_t" where
  "PB_LTYPE_MAP BOOL = PB_LTYPE_BOOL"
| "PB_LTYPE_MAP BYTES = PB_LTYPE_BYTES"
| "PB_LTYPE_MAP DOUBLE = PB_LTYPE_FIXED64"
| "PB_LTYPE_MAP ENUM = PB_LTYPE_VARINT"
| "PB_LTYPE_MAP UENUM = PB_LTYPE_UVARINT"
| "PB_LTYPE_MAP FIXED32 = PB_LTYPE_FIXED32"
| "PB_LTYPE_MAP FIXED64 = PB_LTYPE_FIXED64"
| "PB_LTYPE_MAP FLOAT = PB_LTYPE_FIXED32"
| "PB_LTYPE_MAP INT32 = PB_LTYPE_VARINT"
| "PB_LTYPE_MAP INT64 = PB_LTYPE_VARINT"
| "PB_LTYPE_MAP MESSAGE = PB_LTYPE_SUBMESSAGE"
| "PB_LTYPE_MAP SFIXED32 = PB_LTYPE_FIXED32"
| "PB_LTYPE_MAP SFIXED64 = PB_LTYPE_FIXED64"
| "PB_LTYPE_MAP SINT32 = PB_LTYPE_SVARINT"
| "PB_LTYPE_MAP SINT64 = PB_LTYPE_SVARINT"
| "PB_LTYPE_MAP STRING = PB_LTYPE_STRING"
| "PB_LTYPE_MAP UINT32 = PB_LTYPE_UVARINT"
| "PB_LTYPE_MAP UINT64 = PB_LTYPE_UVARINT"
| "PB_LTYPE_MAP EXTENSION = PB_LTYPE_EXTENSION"
| "PB_LTYPE_MAP FIXED_LENGTH_BYTES = PB_LTYPE_FIXED_LENGTH_BYTES"

datatype proto_rule = REQUIRED | OPTIONAL | SINGULAR | REPEATED | OPTEXT
datatype proto_alloc = STATIC | POINTER | CALLBACK
datatype proto_place = FIRST | OTHER | UNION

fun PB_DATAOFFSET :: "proto_place \<Rightarrow> cstruct \<Rightarrow> string \<Rightarrow> string \<Rightarrow> int" where
  "PB_DATAOFFSET FIRST = PB_DATAOFFSET_FIRST"
| "PB_DATAOFFSET OTHER = PB_DATAOFFSET_OTHER"
| "PB_DATAOFFSET UNION = PB_DATAOFFSET_UNION"

text \<open>\<open>PB_ ## rules ## _ ## allocation\<close>; the extension rules forward to the optional ones.\<close>

fun PB_RULES :: "proto_rule \<Rightarrow> proto_alloc \<Rightarrow>
    pb_size_t \<Rightarrow> cstruct \<Rightarrow> string \<Rightarrow> int \<Rightarrow> pb_type_t \<Rightarrow> field_ptr \<Rightarrow> pb_field" where
  "PB_RULES REQUIRED STATIC = PB_REQUIRED_STATIC"
| "PB_RULES OPTIONAL STATIC = PB_OPTIONAL_STATIC"
| "PB_RULES SINGULAR STATIC = PB_SINGULAR_STATIC"
| "PB_RULES REPEATED STATIC = PB_REPEATED_STATIC"
| "PB_RULES OPTEXT STATIC = PB_OPTEXT_STATIC"
| "PB_RULES REQUIRED POINTER = PB_REQUIRED_POINTER"
| "PB_RULES OPTIONAL POINTER = PB_OPTIONAL_POINTER"
| "PB_RULES SINGULAR POINTER = PB_SINGULAR_POINTER"
| "PB_RULES REPEATED POINTER = PB_REPEATED_POINTER"
| "PB_RULES OPTEXT POINTER = PB_OPTIONAL_POINTER"
| "PB_RULES REQUIRED CALLBACK = PB_REQUIRED_CALLBACK"
| "PB_RULES OPTIONAL CALLBACK = PB_OPTIONAL_CALLBACK"
| "PB_RULES SINGULAR CALLBACK = PB_OPTIONAL_CALLBACK"
| "PB_RULES REPEATED CALLBACK = PB_REPEATED_CALLBACK"
| "PB_RULES OPTEXT CALLBACK = PB_OPTIONAL_CALLBACK"

definition PB_FIELD :: "pb_size_t \<Rightarrow> proto_type \<Rightarrow> proto_rule \<Rightarrow> proto_alloc \<Rightarrow> proto_place \<Rightarrow>
    cstruct \<Rightarrow> string \<Rightarrow> string \<Rightarrow> field_ptr \<Rightarrow> pb_field" where
  "PB_FIELD tg ty rules allocation placement message field prevfield p =
     PB_RULES rules allocation tg message field
       (PB_DATAOFFSET placement message field prevfield) (PB_LTYPE_MAP ty) p"

definition PB_REPEATED_FIXED_COUNT :: "pb_size_t \<Rightarrow> proto_type \<Rightarrow> proto_place \<Rightarrow>
    cstruct \<Rightarrow> string \<Rightarrow> string \<Rightarrow> field_ptr \<Rightarrow> pb_field" where
  "PB_REPEATED_FIXED_COUNT tg ty placement message field prevfield p =
     PbField tg (PB_ATYPE_STATIC OR PB_HTYPE_REPEATED OR PB_LTYPE_MAP ty)
       (word_of_int (PB_DATAOFFSET placement message field prevfield)) 0
       (of_nat (pb_elemsize message field)) (of_nat (pb_arraysize message field)) p"

subsection \<open>Facts: type bytes\<close>

text \<open>The three parts of a type byte are independent.\<close>

lemma type_parts [simp]:
  assumes "a \<in> {PB_ATYPE_STATIC, PB_ATYPE_POINTER, PB_ATYPE_CALLBACK}"
    and "h \<in> {PB_HTYPE_REQUIRED, PB_HTYPE_OPTIONAL, PB_HTYPE_REPEATED, PB_HTYPE_ONEOF}"
    and "l \<le> PB_LTYPE_MASK"
  shows "PB_ATYPE (a OR h OR l) = a" and "PB_HTYPE (a OR h OR l) = h" and "PB_LTYPE (a OR h OR l) = l"
proof -
  have "uint l < 2 ^ 4"
    using assms(3) by (simp add: word_le_def)
  then have low: "l AND 0x0F = l"
    using mask_eq_iff [of l 4] by (simp add: mask_eq_exp_minus_1)
  have "(l AND 0x0F) AND 0xC0 = 0" and "(l AND 0x0F) AND 0x30 = 0"
    by (simp_all add: and.assoc)
  with low have "l AND 0xC0 = 0" and "l AND 0x30 = 0" by simp_all
  then show "PB_ATYPE (a OR h OR l) = a" and "PB_HTYPE (a OR h OR l) = h" and "PB_LTYPE (a OR h OR l) = l"
    using assms(1,2) low
    by (auto simp: PB_ATYPE_def PB_HTYPE_def PB_LTYPE_def bit.conj_disj_distrib2)
qed

lemma type_part_evals:
  "PB_HTYPE x = x AND 0x30" "PB_ATYPE x = x AND 0xC0" "PB_LTYPE x = x AND 0x0F"
  by (simp_all add: PB_HTYPE_def PB_ATYPE_def PB_LTYPE_def)

lemma field_at_Some_iff: "field_at fs i = Some f \<longleftrightarrow> i < length fs \<and> fs ! i = f"
  by (auto simp: field_at_def)

lemma field_at_in [simp]: "i < length fs \<Longrightarrow> field_at fs i = Some (fs ! i)"
  by (simp add: field_at_def)

lemma wt_of_code [simp]:
  "wt_of 0 = PB_WT_VARINT" "wt_of 1 = PB_WT_64BIT" "wt_of 2 = PB_WT_STRING" "wt_of 5 = PB_WT_32BIT"
  by (simp_all add: wt_of_def)

subsection \<open>Facts: struct layout\<close>

text \<open>For evaluation: the whole layout of a struct as one table.\<close>

fun members_at :: "cstruct \<Rightarrow> nat \<Rightarrow> (string \<times> nat \<times> nat \<times> nat) list" where
  "members_at [] n = []"
| "members_at (m # ms) n =
     (m_name m, align_up n (m_align m), m_size m, m_elem m)
       # members_at ms (align_up n (m_align m) + m_size m)"

definition layout_table :: "cstruct \<Rightarrow> (string \<times> nat \<times> nat \<times> nat) list" where
  "layout_table st = members_at st 0"

lemma find_member_table:
  "map_option (map_prod id (\<lambda>m. (m_size m, m_elem m))) (find_member st n x) = map_of (members_at st n) x"
  by (induction st arbitrary: n) auto

lemma layout_lookup:
  "offsetof st x = (case map_of (layout_table st) x of Some (off, _) \<Rightarrow> off | None \<Rightarrow> 0)"
  "pb_membersize st x = (case map_of (layout_table st) x of Some (_, n, _) \<Rightarrow> n | None \<Rightarrow> 0)"
  "pb_elemsize st x = (case map_of (layout_table st) x of Some (_, _, e) \<Rightarrow> e | None \<Rightarrow> 0)"
  unfolding layout_table_def offsetof_def pb_membersize_def pb_elemsize_def
    find_member_table [symmetric]
  by (auto split: option.splits)

lemma struct_size_Cons:
  "struct_size (m # ms) = align_up (struct_end (m # ms) 0) (struct_align (m # ms))"
  by (simp add: struct_size_def)

lemma struct_align_Cons: "struct_align (m # ms) = max (m_align m) (struct_align ms)"
  and struct_align_Nil: "struct_align [] = 1"
  by (simp_all add: struct_align_def)

lemmas struct_defs =
  struct_size_Cons struct_align_Cons struct_align_Nil
  layout_table_def c_bool_def c_enum_def c_int32_def c_int64_def c_u32_def c_ptr_def c_struct_def
  c_scalar_def align_up_def

lemmas macro_defs =
  PB_FIELD_def PB_LAST_FIELD_def PB_OPTIONAL_STATIC_def PB_OPTIONAL_POINTER_def
  PB_REPEATED_POINTER_def pb_delta_def PB_DATAOFFSET_FIRST_def PB_DATAOFFSET_OTHER_def layout_lookup

end
