(* ===== verification/Wire.thy ===== *)
theory Wire
  imports PbTypes
begin

section \<open>The wire format of single values\<close>

text \<open>
  The specification both directions of the library are measured against: base-128 varints,
  tags and the zigzag numbering of signed values, as functions on numbers and byte lists.
\<close>

subsection \<open>The wire format: base-128 numbers and tags\<close>

text \<open>The specification: seven bits per byte, the low ones first, the top bit set on all but
  the last byte.\<close>

fun spec_varint :: "nat \<Rightarrow> byte list" where
  "spec_varint n = (if n < 128 then [of_nat n] else of_nat (n mod 128 + 128) # spec_varint (n div 128))"

declare spec_varint.simps [simp del]

fun varint_value :: "byte list \<Rightarrow> nat" where
  "varint_value [] = 0"
| "varint_value (b # bs) = unat (b AND 0x7F) + 128 * varint_value bs"

definition spec_tag :: "pb_wire_type \<Rightarrow> u32 \<Rightarrow> byte list" where
  "spec_tag wt fn = spec_varint (8 * unat fn + unat (wt_code wt))"

definition zigzag_nat :: "int \<Rightarrow> nat" where
  "zigzag_nat i = (if i < 0 then nat (- 2 * i - 1) else nat (2 * i))"

text \<open>The byte strings that are some varint, canonical or not.\<close>

fun wire_varint :: "byte list \<Rightarrow> bool" where
  "wire_varint [] \<longleftrightarrow> False"
| "wire_varint [b] \<longleftrightarrow> b AND 0x80 = 0"
| "wire_varint (b # bs) \<longleftrightarrow> b AND 0x80 \<noteq> 0 \<and> wire_varint bs"

text \<open>What a field of each wire type takes up after its tag.\<close>

definition wire_payload :: "pb_wire_type \<Rightarrow> byte list \<Rightarrow> bool" where
  "wire_payload wt bs =
     (case wt of
        PB_WT_VARINT \<Rightarrow> wire_varint bs
      | PB_WT_64BIT \<Rightarrow> length bs = 8
      | PB_WT_32BIT \<Rightarrow> length bs = 4
      | PB_WT_STRING \<Rightarrow> (\<exists>body. length body < 2 ^ 32 \<and> bs = spec_varint (length body) @ body)
      | PB_WT_OTHER _ \<Rightarrow> False)"

subsection \<open>Facts\<close>

lemma spec_varint_small: "n < 128 \<Longrightarrow> spec_varint n = [of_nat n]"
  by (simp add: spec_varint.simps)

lemma spec_varint_step:
  "128 \<le> n \<Longrightarrow> spec_varint n = of_nat (n mod 128 + 128) # spec_varint (n div 128)"
  by (simp add: spec_varint.simps)

lemma spec_varint_not_Nil [simp]: "spec_varint n \<noteq> []"
  by (cases "n < 128") (simp_all add: spec_varint.simps [of n])

lemma length_spec_varint_le: "n < 128 ^ k \<Longrightarrow> 0 < k \<Longrightarrow> length (spec_varint n) \<le> k"
proof (induction n arbitrary: k rule: spec_varint.induct)
  case (1 n)
  show ?case
  proof (cases "n < 128")
    case True
    with "1.prems" show ?thesis by (simp add: spec_varint_small)
  next
    case False
    obtain j where j: "k = Suc j" using "1.prems" by (cases k) auto
    with False "1.prems" have "0 < j" by (cases j) auto
    moreover have "n div 128 < 128 ^ j"
      using "1.prems"(1) j by (simp add: less_mult_imp_div_less mult.commute)
    ultimately have "length (spec_varint (n div 128)) \<le> j"
      using "1.IH" False by blast
    with False j show ?thesis by (simp add: spec_varint_step)
  qed
qed

lemma length_spec_varint_64: "length (spec_varint (unat (v :: u64))) \<le> 10"
  using length_spec_varint_le [of "unat v" 10] unat_64 [of v] by simp

lemma varint_value_spec: "varint_value (spec_varint n) = n"
proof (induction n rule: spec_varint.induct)
  case (1 n)
  have seven: "unat (of_nat k AND 0x7F :: byte) = k mod 128" if "k < 256" for k
    using that by (simp add: unat_of_nat)
  show ?case
  proof (cases "n < 128")
    case True
    then show ?thesis using seven [of n] by (simp add: spec_varint_small)
  next
    case False
    then show ?thesis
      using 1 seven [of "n mod 128 + 128"] by (simp add: spec_varint_step)
  qed
qed

lemma wt_code_less: "unat (wt_code wt :: u64) < 8"
  by (cases wt) (simp_all add: unat_ucast_mod unat_3 order.strict_trans1 [OF mod_less_eq_dividend unat_3])

lemma tag_value: "unat (push_bit 3 (ucast (fn :: u32)) OR wt_code wt :: u64) = 8 * unat fn + unat (wt_code wt)"
proof -
  have w: "wt_code wt = take_bit 3 (wt_code wt)"
    using wt_code_less [of wt] by (simp add: word_unat_eq_iff unsigned_take_bit_eq take_bit_nat_eq_self)
  have "push_bit 3 (ucast fn) AND wt_code wt = (0::u64)"
    by (subst w, rule bit_eqI) (simp add: bit_simps)
  then have "push_bit 3 (ucast fn) OR wt_code wt = push_bit 3 (ucast fn) + wt_code wt"
    by (simp add: disjunctive_add_eq_or)
  moreover have "unat (push_bit 3 (ucast fn) :: u64) = 8 * unat fn"
    using unat_32 [of fn] by (simp add: push_bit_eq_mult unat_word_ariths unat_ucast_mod)
  ultimately show ?thesis
    using unat_32 [of fn] wt_code_less [of wt] by (simp add: unat_add_no_wrap)
qed

subsection \<open>Base-128 digits as words\<close>

lemma wire_varint_spec: "wire_varint (spec_varint n)"
proof (induction n rule: spec_varint.induct)
  case (1 n)
  show ?case
  proof (cases "n < 128")
    case True
    then have "(of_nat n :: byte) AND 0x80 = 0"
      using and_self_small [of "of_nat n :: byte"] and.assoc [of "of_nat n :: byte" "0x7F" "0x80"]
      by (simp add: unat_of_nat)
    with True show ?thesis by (simp add: spec_varint_small)
  next
    case False
    have "(of_nat (n mod 128 + 128) :: byte) = of_nat (n mod 128) OR 0x80"
      using byte_or_80 [of "of_nat (n mod 128)"] by (simp add: unat_of_nat)
    then have "(of_nat (n mod 128 + 128) :: byte) AND 0x80 \<noteq> 0"
      by (simp add: bit.conj_disj_distrib2)
    with False 1 show ?thesis
      by (cases "spec_varint (n div 128)") (simp_all add: spec_varint_step [of n])
  qed
qed

lemma varint_value_less: "varint_value bs < 128 ^ length bs"
proof (induction bs)
  case (Cons b bs)
  have "unat (b AND 0x7F) < 128" by simp
  with Cons have "unat (b AND 0x7F) + 128 * varint_value bs < 128 * (varint_value bs + 1)"
    by (simp add: distrib_left del: unat_and_7F)
  also have "\<dots> \<le> 128 * 128 ^ length bs" using Cons by simp
  finally show ?case by simp
qed simp

text \<open>One more digit in front.\<close>

lemma varint_digit:
  "(of_nat (varint_value (b # bs)) :: 'a::len word) =
     ucast (b AND 0x7F) OR push_bit 7 (of_nat (varint_value bs))" if "8 \<le> LENGTH('a)"
proof -
  have b: "(ucast (b AND 0x7F) :: 'a word) = ucast b AND 0x7F"
    by (simp add: unsigned_and_eq)
  have "(ucast b AND 0x7F) AND push_bit 7 (of_nat (varint_value bs) :: 'a word) = 0"
  proof (rule bit_eqI)
    fix n
    have "bit (0x7F :: 'a word) n \<Longrightarrow> n < 7"
      using bit_mask_iff [of 7 n, where ?'a = "'a word"] by (simp add: mask_eq_exp_minus_1)
    then show "bit ((ucast b AND 0x7F) AND push_bit 7 (of_nat (varint_value bs) :: 'a word)) n = bit 0 n"
      by (auto simp: bit_simps)
  qed
  then have "ucast (b AND 0x7F) OR push_bit 7 (of_nat (varint_value bs) :: 'a word) =
      ucast (b AND 0x7F) + push_bit 7 (of_nat (varint_value bs))"
    by (simp add: b disjunctive_add_eq_or)
  also have "\<dots> = of_nat (unat (b AND 0x7F) + 128 * varint_value bs)"
    by (simp add: push_bit_eq_mult del: unat_and_7F)
  finally show ?thesis by simp
qed

lemma varint_value_last:
  "wire_varint bs \<Longrightarrow> unat (last bs AND 0x7F) * 128 ^ (length bs - 1) \<le> varint_value bs"
proof (induction bs)
  case (Cons b bs)
  show ?case
  proof (cases "bs = []")
    case False
    then have "wire_varint bs" using Cons.prems by (cases bs) auto
    with Cons.IH have "128 * (unat (last bs AND 0x7F) * 128 ^ (length bs - 1)) \<le> 128 * varint_value bs"
      by simp
    moreover have "128 * (unat (last bs AND 0x7F) * 128 ^ (length bs - 1)) =
        unat (last (b # bs) AND 0x7F) * 128 ^ (length (b # bs) - 1)"
      using False by (cases bs) (simp_all add: mult_ac)
    ultimately show ?thesis by simp
  qed simp
qed simp

lemma and_70:
  assumes "unat (b AND 0x7F) < 16"
  shows "(b :: byte) AND 0x70 = 0"
proof -
  have "(b AND 0x7F) AND 0x0F = b AND 0x7F"
  proof (rule word_unat_eq_iff [THEN iffD2])
    show "unat ((b AND 0x7F) AND 0x0F) = unat (b AND 0x7F)"
      using assms unat_and_mask [of "b AND 0x7F" 4] by (simp add: mask_eq_exp_minus_1)
  qed
  then have "b AND 0x70 = ((b AND 0x7F) AND 0x0F) AND 0x70" by (simp add: and.assoc)
  also have "\<dots> = 0" by (simp add: and.assoc)
  finally show ?thesis .
qed

lemma spec_varint_split:
  "128 ^ k \<le> n \<Longrightarrow> \<exists>as. spec_varint n = as @ spec_varint (n div 128 ^ k) \<and> length as = k \<and>
     (\<forall>b \<in> set as. b AND 0x80 \<noteq> 0) \<and> varint_value as = n mod 128 ^ k"
proof (induction k arbitrary: n)
  case 0
  then show ?case by simp
next
  case (Suc k)
  then have n: "128 \<le> n" and "128 ^ k \<le> n div 128"
    by (auto simp: less_eq_div_iff_mult_less_eq mult.commute intro: order_trans [rotated])
  from Suc.IH [OF this(2)] obtain as where as:
    "spec_varint (n div 128) = as @ spec_varint (n div 128 div 128 ^ k)" "length as = k"
    "\<forall>b \<in> set as. b AND 0x80 \<noteq> 0" "varint_value as = n div 128 mod 128 ^ k" by blast
  let ?b = "of_nat (n mod 128 + 128) :: byte"
  have "?b AND 0x80 \<noteq> 0"
  proof -
    have "?b = of_nat (n mod 128) OR 0x80"
      using byte_or_80 [of "of_nat (n mod 128)"] by (simp add: unat_of_nat)
    then show ?thesis by (simp add: bit.conj_disj_distrib2)
  qed
  moreover have "unat (?b AND 0x7F) = n mod 128"
  proof -
    have "unat ?b = n mod 128 + 128" by (simp only: unat_of_nat) simp
    then show ?thesis by (simp only: unat_and_7F) simp
  qed
  moreover have "n mod 128 + 128 * (n div 128 mod 128 ^ k) = n mod 128 ^ Suc k"
    by (simp add: mod_mult2_eq mult.commute)
  ultimately show ?case
    using as spec_varint_step [OF n]
    by (intro exI [of _ "?b # as"]) (simp add: div_mult2_eq mult.commute)
qed

end
