(* ===== verification/OStream.thy ===== *)
theory OStream
  imports Wire
begin

section \<open>Output streams and wire-format primitives (nanopb/pb_encode.c)\<close>

text \<open>
  \<open>pb_ostream_t\<close>, \<open>pb_write\<close> and the encoders of single wire values. A stream writes through
  a callback; \<open>buf_write\<close> is the one for memory buffers, the null callback makes a sizing
  stream that only counts. The callback's \<open>state\<close> is abstract (\<open>None\<close> is the null pointer);
  for \<open>buf_write\<close> it is the output array with the offset the pointer stands at, an object
  apart from the message memory. A custom callback sees its state and the bytes; the
  contract in pb_encode.h keeps it from the other members of the stream.

  The locale \<open>byte_sink\<close> is that contract as the encoders use it; inside it \<open>emits\<close> says
  that a piece of encoding appends given bytes on every stream: the sizing stream counts
  them, a stream with room takes them, a stream without room fails with an error. It is
  proved for each primitive, closed under sequencing, and interpreted on \<open>buf_write\<close>.
\<close>

subsection \<open>Streams\<close>

text \<open>A \<open>const pb_byte_t *buf\<close> argument: a local array, or a place in memory.\<close>

datatype cbuf = Arr "byte list" | Ptr addr

fun fetch :: "mem \<Rightarrow> cbuf \<Rightarrow> nat \<Rightarrow> byte list option" where
  "fetch m (Arr bs) n = (if n \<le> length bs then Some (take n bs) else None)"
| "fetch m (Ptr a) n = load_bytes m a n"

record 'st pb_ostream =
  os_callback :: "('st option \<Rightarrow> byte list \<Rightarrow> (bool \<times> 'st option) option) option"
  os_state :: "'st option"
  os_max_size :: size_t
  os_bytes_written :: size_t
  os_errmsg :: "errmsg option"

definition PB_OSTREAM_SIZING :: "'st pb_ostream" where
  "PB_OSTREAM_SIZING = \<lparr>os_callback = None, os_state = None, os_max_size = 0,
                        os_bytes_written = 0, os_errmsg = None\<rparr>"

text \<open>\<open>PB_RETURN_ERROR\<close>: the first message stays, the function returns false.\<close>

definition os_return_error :: "'st pb_ostream \<Rightarrow> errmsg \<Rightarrow> (bool \<times> 'st pb_ostream) option" where
  "os_return_error s msg =
     Some (False, s\<lparr>os_errmsg := (case os_errmsg s of None \<Rightarrow> Some msg | Some e \<Rightarrow> Some e)\<rparr>)"

type_synonym obuf = "byte list \<times> nat"

fun buf_write :: "obuf option \<Rightarrow> byte list \<Rightarrow> (bool \<times> obuf option) option" where
  "buf_write None bs = None"
| "buf_write (Some (buf, off)) bs =
     (if off + length bs \<le> length buf
      then Some (True, Some (take off buf @ bs @ drop (off + length bs) buf, off + length bs))
      else None)"

definition pb_ostream_from_buffer :: "byte list \<Rightarrow> size_t \<Rightarrow> obuf pb_ostream" where
  "pb_ostream_from_buffer buf bufsize =
     \<lparr>os_callback = Some buf_write, os_state = Some (buf, 0), os_max_size = bufsize,
      os_bytes_written = 0, os_errmsg = None\<rparr>"

definition pb_write :: "mem \<Rightarrow> 'st pb_ostream \<Rightarrow> cbuf \<Rightarrow> size_t \<Rightarrow> (bool \<times> 'st pb_ostream) option" where
  "pb_write m s buf count =
     (case os_callback s of
        Some cb \<Rightarrow>
          if count > 0 then
            if os_bytes_written s + count < os_bytes_written s \<or>
               os_bytes_written s + count > os_max_size s
            then os_return_error s ''stream full''
            else do {
              bs \<leftarrow> fetch m buf (unat count);
              (ok, st) \<leftarrow> cb (os_state s) bs;
              let s1 = s\<lparr>os_state := st\<rparr>;
              if \<not> ok then os_return_error s1 ''io error''
              else Some (True, s1\<lparr>os_bytes_written := os_bytes_written s1 + count\<rparr>)
            }
          else Some (True, s\<lparr>os_bytes_written := os_bytes_written s + count\<rparr>)
      | None \<Rightarrow> Some (True, s\<lparr>os_bytes_written := os_bytes_written s + count\<rparr>))"

subsection \<open>Encoders of wire values\<close>

text \<open>\<open>while (value) { buffer[i] = ...; value >>= 7; i++; }\<close>\<close>

function varint_fill :: "byte list \<Rightarrow> nat \<Rightarrow> u64 \<Rightarrow> (byte list \<times> nat) option" where
  "varint_fill buffer i value =
     (if value = 0 then Some (buffer, i)
      else do {
        buffer' \<leftarrow> arr_upd buffer i (ucast (value AND 0x7F) OR 0x80);
        varint_fill buffer' (Suc i) (drop_bit 7 value)
      })"
  by pat_completeness auto

termination
proof (relation "measure (\<lambda>(buffer, i, v). unat v)")
  fix buffer x :: "byte list" and i :: nat and v :: u64
  assume "v \<noteq> 0"
  then have "0 < unat v" by (simp add: unat_gt_0)
  then show "((x, Suc i, drop_bit 7 v), buffer, i, v) \<in> measure (\<lambda>(buffer, i, v). unat v)"
    by (simp only: in_measure prod.case unat_drop_bit) simp
qed simp

declare varint_fill.simps [simp del]

definition pb_encode_varint :: "mem \<Rightarrow> 'st pb_ostream \<Rightarrow> u64 \<Rightarrow> (bool \<times> 'st pb_ostream) option" where
  "pb_encode_varint m s value =
     (if value \<le> 0x7F then pb_write m s (Arr [ucast value]) 1
      else do {
        (buffer, i) \<leftarrow> varint_fill (replicate 10 0) 0 value;
        b \<leftarrow> arr_get buffer (i - 1);
        buffer' \<leftarrow> arr_upd buffer (i - 1) (b AND 0x7F);
        pb_write m s (Arr buffer') (of_nat i)
      })"

text \<open>The argument is an \<open>int64_t\<close>, read with \<open>sint\<close>.\<close>

definition zigzag :: "u64 \<Rightarrow> u64" where
  "zigzag value = (if sint value < 0 then NOT (push_bit 1 value) else push_bit 1 value)"

definition pb_encode_svarint :: "mem \<Rightarrow> 'st pb_ostream \<Rightarrow> u64 \<Rightarrow> (bool \<times> 'st pb_ostream) option" where
  "pb_encode_svarint m s value = pb_encode_varint m s (zigzag value)"

definition fixed32_bytes :: "u32 \<Rightarrow> byte list" where
  "fixed32_bytes val =
     [ucast (val AND 0xFF), ucast (drop_bit 8 val AND 0xFF),
      ucast (drop_bit 16 val AND 0xFF), ucast (drop_bit 24 val AND 0xFF)]"

definition pb_encode_fixed32 :: "mem \<Rightarrow> 'st pb_ostream \<Rightarrow> addr \<Rightarrow> (bool \<times> 'st pb_ostream) option" where
  "pb_encode_fixed32 m s value = do {
     val \<leftarrow> load_u32 m value;
     pb_write m s (Arr (fixed32_bytes val)) 4
   }"

definition fixed64_bytes :: "u64 \<Rightarrow> byte list" where
  "fixed64_bytes val =
     [ucast (val AND 0xFF), ucast (drop_bit 8 val AND 0xFF),
      ucast (drop_bit 16 val AND 0xFF), ucast (drop_bit 24 val AND 0xFF),
      ucast (drop_bit 32 val AND 0xFF), ucast (drop_bit 40 val AND 0xFF),
      ucast (drop_bit 48 val AND 0xFF), ucast (drop_bit 56 val AND 0xFF)]"

definition pb_encode_fixed64 :: "mem \<Rightarrow> 'st pb_ostream \<Rightarrow> addr \<Rightarrow> (bool \<times> 'st pb_ostream) option" where
  "pb_encode_fixed64 m s value = do {
     val \<leftarrow> (load_word m value 8 :: u64 option);
     pb_write m s (Arr (fixed64_bytes val)) 8
   }"

definition pb_encode_tag ::
  "mem \<Rightarrow> 'st pb_ostream \<Rightarrow> pb_wire_type \<Rightarrow> u32 \<Rightarrow> (bool \<times> 'st pb_ostream) option" where
  "pb_encode_tag m s wiretype field_number =
     pb_encode_varint m s (push_bit 3 (ucast field_number) OR wt_code wiretype)"

definition pb_encode_tag_for_field ::
  "mem \<Rightarrow> 'st pb_ostream \<Rightarrow> pb_field \<Rightarrow> (bool \<times> 'st pb_ostream) option" where
  "pb_encode_tag_for_field m s field =
     (let lt = PB_LTYPE (ftype field) in
      if lt = PB_LTYPE_BOOL \<or> lt = PB_LTYPE_VARINT \<or> lt = PB_LTYPE_UVARINT \<or> lt = PB_LTYPE_SVARINT
      then pb_encode_tag m s PB_WT_VARINT (tag field)
      else if lt = PB_LTYPE_FIXED32 then pb_encode_tag m s PB_WT_32BIT (tag field)
      else if lt = PB_LTYPE_FIXED64 then pb_encode_tag m s PB_WT_64BIT (tag field)
      else if lt = PB_LTYPE_BYTES \<or> lt = PB_LTYPE_STRING \<or> lt = PB_LTYPE_SUBMESSAGE \<or>
              lt = PB_LTYPE_FIXED_LENGTH_BYTES
      then pb_encode_tag m s PB_WT_STRING (tag field)
      else os_return_error s ''invalid field type'')"

definition pb_encode_string ::
  "mem \<Rightarrow> 'st pb_ostream \<Rightarrow> addr \<Rightarrow> size_t \<Rightarrow> (bool \<times> 'st pb_ostream) option" where
  "pb_encode_string m s buffer sz =
     cthen (pb_encode_varint m s sz) (\<lambda>s. pb_write m s (Ptr buffer) sz)"

subsection \<open>Facts: the varint loop\<close>

text \<open>What the filling loop leaves: the base-128 digits, every one with its top bit set.\<close>

fun cont_digits :: "nat \<Rightarrow> byte list" where
  "cont_digits n = (if n = 0 then [] else of_nat (n mod 128 + 128) # cont_digits (n div 128))"

declare cont_digits.simps [simp del]

lemma low7_or_80: "(ucast (v AND 0x7F) OR 0x80 :: byte) = of_nat (unat (v :: u64) mod 128 + 128)"
proof -
  have b: "(ucast (v AND 0x7F) :: byte) = of_nat (unat v mod 128)"
    by (simp add: word_unat_eq_iff unat_ucast_mod unat_of_nat)
  then have "unat (ucast (v AND 0x7F) :: byte) < 128" by (simp add: unat_of_nat)
  with b show ?thesis by (simp add: byte_or_80)
qed

lemma varint_fill_eq:
  "i + length (cont_digits (unat v)) \<le> length buffer \<Longrightarrow>
     varint_fill buffer i v =
     Some (take i buffer @ cont_digits (unat v) @ drop (i + length (cont_digits (unat v))) buffer,
           i + length (cont_digits (unat v)))"
proof (induction buffer i v rule: varint_fill.induct)
  case (1 buffer i v)
  show ?case
  proof (cases "v = 0")
    case True
    then show ?thesis by (simp add: varint_fill.simps [of buffer i 0] cont_digits.simps [of 0])
  next
    case False
    then have "unat v \<noteq> 0" by (simp add: unat_eq_0)
    then have cd: "cont_digits (unat v) = of_nat (unat v mod 128 + 128) # cont_digits (unat v div 128)"
      by (simp add: cont_digits.simps [of "unat v"])
    let ?b = "of_nat (unat v mod 128 + 128) :: byte"
    have i: "i < length buffer" using "1.prems" cd by simp
    have d: "unat (drop_bit 7 v) = unat v div 128"
      by (simp add: unat_drop_bit del: drop_bit_eq_div)
    have "varint_fill buffer i v = varint_fill (buffer[i := ?b]) (Suc i) (drop_bit 7 v)"
      using False i by (simp add: varint_fill.simps [of buffer i v] low7_or_80)
    also have "\<dots> = Some (take (Suc i) (buffer[i := ?b]) @ cont_digits (unat v div 128) @
        drop (Suc i + length (cont_digits (unat v div 128))) (buffer[i := ?b]),
        Suc i + length (cont_digits (unat v div 128)))"
      using "1.IH" [OF False, of "buffer[i := ?b]"] "1.prems" i cd d by (simp add: low7_or_80)
    finally show ?thesis
      using i cd by (simp add: take_Suc_conv_app_nth)
  qed
qed

lemma length_cont_digits: "0 < n \<Longrightarrow> length (cont_digits n) = length (spec_varint n)"
proof (induction n rule: cont_digits.induct)
  case (1 n)
  then show ?case
    by (cases "n < 128")
       (auto simp: cont_digits.simps [of n] cont_digits.simps [of 0] spec_varint_small spec_varint_step)
qed

text \<open>Clearing the top bit of the last digit gives the wire form.\<close>

lemma cont_digits_clear:
  "0 < n \<Longrightarrow> (cont_digits n)[length (cont_digits n) - 1 :=
     cont_digits n ! (length (cont_digits n) - 1) AND 0x7F] = spec_varint n"
proof (induction n rule: cont_digits.induct)
  case (1 n)
  show ?case
  proof (cases "n < 128")
    case True
    with "1.prems" show ?thesis
      by (simp add: cont_digits.simps [of n] cont_digits.simps [of 0] spec_varint_small
          word_unat_eq_iff unat_of_nat unat_word_ariths)
  next
    case False
    then have pos: "0 < n div 128" by simp
    then obtain k where k: "length (cont_digits (n div 128)) = Suc k"
      by (cases "length (cont_digits (n div 128))") (auto simp: cont_digits.simps [of "n div 128"])
    have "cont_digits n = of_nat (n mod 128 + 128) # cont_digits (n div 128)"
      using "1.prems" by (simp add: cont_digits.simps [of n])
    with "1.IH" pos k False "1.prems" show ?thesis
      by (simp add: spec_varint_step)
  qed
qed

lemma varint_buffer:
  assumes "0x7F < v"
  obtains buffer where "varint_fill (replicate 10 0) 0 v = Some (buffer, length (spec_varint (unat v)))"
    and "take (length (spec_varint (unat v)))
           (buffer[length (spec_varint (unat v)) - 1 :=
              buffer ! (length (spec_varint (unat v)) - 1) AND 0x7F]) = spec_varint (unat v)"
    and "length buffer = 10"
proof -
  let ?ds = "cont_digits (unat v)" and ?n = "length (spec_varint (unat v))"
  have v: "0 < unat v" using assms by (simp add: word_less_nat_alt)
  have n: "length ?ds = ?n" "?n \<le> 10" "0 < ?n"
    using length_cont_digits [OF v] length_spec_varint_64 [of v] by auto
  let ?buf = "?ds @ drop ?n (replicate 10 0)"
  show ?thesis
  proof (rule that)
    show "varint_fill (replicate 10 0) 0 v = Some (?buf, ?n)"
      using varint_fill_eq [of 0 v "replicate 10 0"] n by simp
    show "length ?buf = 10" using n by simp
    show "take ?n (?buf[?n - 1 := ?buf ! (?n - 1) AND 0x7F]) = spec_varint (unat v)"
      using cont_digits_clear [OF v] n by (simp add: list_update_append nth_append)
  qed
qed


subsection \<open>What a write callback promises\<close>

text \<open>\<open>after st bs\<close> is the sink's state once it has taken \<open>bs\<close>, in however many pieces, and \<open>room\<close>
  how much more it can take.\<close>

locale byte_sink =
  fixes cb :: "'st option \<Rightarrow> byte list \<Rightarrow> (bool \<times> 'st option) option"
    and after :: "'st option \<Rightarrow> byte list \<Rightarrow> 'st option"
    and room :: "'st option \<Rightarrow> nat"
  assumes accepts: "bs \<noteq> [] \<Longrightarrow> length bs \<le> room st \<Longrightarrow> cb st bs = Some (True, after st bs)"
    and room_after: "bs \<noteq> [] \<Longrightarrow> length bs \<le> room st \<Longrightarrow> room (after st bs) = room st - length bs"
    and after_nil: "after st [] = st"
    and after_append: "after (after st as) bs = after st (as @ bs)"
begin

definition on_sink :: "'st pb_ostream \<Rightarrow> bool" where
  "on_sink s \<longleftrightarrow> os_callback s = Some cb \<and>
     unat (os_bytes_written s) \<le> unat (os_max_size s) \<and>
     unat (os_max_size s) - unat (os_bytes_written s) \<le> room (os_state s)"

definition fits :: "'st pb_ostream \<Rightarrow> nat \<Rightarrow> bool" where
  "fits s n \<longleftrightarrow> unat (os_bytes_written s) + n \<le> unat (os_max_size s)"

text \<open>The stream after \<open>bs\<close> went through. Encoding a submessage resets the error message.\<close>

definition advanced :: "'st pb_ostream \<Rightarrow> byte list \<Rightarrow> 'st pb_ostream \<Rightarrow> bool" where
  "advanced s bs s' \<longleftrightarrow>
     os_callback s' = os_callback s \<and> os_max_size s' = os_max_size s \<and>
     os_bytes_written s' = os_bytes_written s + of_nat (length bs) \<and>
     (os_errmsg s' = os_errmsg s \<or> os_errmsg s' = None) \<and>
     os_state s' = after (os_state s) bs \<and>
     room (os_state s') = room (os_state s) - length bs"

definition failed :: "(bool \<times> 'st pb_ostream) option \<Rightarrow> bool" where
  "failed r \<longleftrightarrow> (\<exists>s'. r = Some (False, s') \<and> os_errmsg s' \<noteq> None)"

definition emits :: "('st pb_ostream \<Rightarrow> (bool \<times> 'st pb_ostream) option) \<Rightarrow> byte list \<Rightarrow> bool" where
  "emits A bs \<longleftrightarrow>
     (\<forall>s. os_callback s = None \<longrightarrow> length bs < 2 ^ 64 \<longrightarrow>
        A s = Some (True, s\<lparr>os_bytes_written := os_bytes_written s + of_nat (length bs)\<rparr>)) \<and>
     (\<forall>s. on_sink s \<longrightarrow> fits s (length bs) \<longrightarrow> (\<exists>s'. A s = Some (True, s') \<and> advanced s bs s')) \<and>
     (\<forall>s. on_sink s \<longrightarrow> \<not> fits s (length bs) \<longrightarrow> unat (os_max_size s) + length bs < 2 ^ 64 \<longrightarrow>
        failed (A s))"

lemma emitsI:
  assumes "\<And>s. os_callback s = None \<Longrightarrow> length bs < 2 ^ 64 \<Longrightarrow>
       A s = Some (True, s\<lparr>os_bytes_written := os_bytes_written s + of_nat (length bs)\<rparr>)"
    and "\<And>s. on_sink s \<Longrightarrow> fits s (length bs) \<Longrightarrow> \<exists>s'. A s = Some (True, s') \<and> advanced s bs s'"
    and "\<And>s. on_sink s \<Longrightarrow> \<not> fits s (length bs) \<Longrightarrow> unat (os_max_size s) + length bs < 2 ^ 64 \<Longrightarrow>
       failed (A s)"
  shows "emits A bs"
  using assms by (simp add: emits_def)

lemma emits_sizing: "emits A bs \<Longrightarrow> os_callback s = None \<Longrightarrow> length bs < 2 ^ 64 \<Longrightarrow>
    A s = Some (True, s\<lparr>os_bytes_written := os_bytes_written s + of_nat (length bs)\<rparr>)"
  by (simp add: emits_def)

lemma emits_fits: "emits A bs \<Longrightarrow> on_sink s \<Longrightarrow> fits s (length bs) \<Longrightarrow>
    \<exists>s'. A s = Some (True, s') \<and> advanced s bs s'"
  by (simp add: emits_def)

lemma emits_full: "emits A bs \<Longrightarrow> on_sink s \<Longrightarrow> \<not> fits s (length bs) \<Longrightarrow>
    unat (os_max_size s) + length bs < 2 ^ 64 \<Longrightarrow> failed (A s)"
  by (simp add: emits_def)

lemma fits_small: "fits s n \<Longrightarrow> n < 2 ^ 64"
  using unat_64 [of "os_max_size s"] by (simp add: fits_def)

lemma fits_0 [simp]: "on_sink s \<Longrightarrow> fits s 0"
  by (simp add: fits_def on_sink_def)

lemma advanced_refl: "advanced s [] s"
  by (simp add: advanced_def after_nil)

lemma advanced_bytes:
  assumes "advanced s bs s'" and "on_sink s" and "fits s (length bs)"
  shows "unat (os_bytes_written s') = unat (os_bytes_written s) + length bs"
proof -
  have b: "unat (os_bytes_written s) + length bs < 2 ^ 64"
    using assms(3) unat_64 [of "os_max_size s"] by (simp add: fits_def)
  then have "length bs < 2 ^ 64" by simp
  then have "unat (of_nat (length bs) :: size_t) = length bs"
    by (simp add: unat_of_nat)
  with b assms(1) show ?thesis
    by (auto simp: advanced_def unat_add_no_wrap)
qed

lemma advanced_on_sink:
  assumes "advanced s bs s'" and "on_sink s" and "fits s (length bs)"
  shows "on_sink s'" and "fits s' n \<longleftrightarrow> fits s (length bs + n)"
  using assms advanced_bytes [OF assms]
  by (auto simp: on_sink_def fits_def advanced_def)

lemma advanced_trans:
  "advanced s bs s' \<Longrightarrow> advanced s' cs s'' \<Longrightarrow> advanced s (bs @ cs) s''"
  by (auto simp: advanced_def add.assoc after_append)

lemma emits_nil: "emits (\<lambda>s. Some (True, s)) []"
  by (auto simp: emits_def advanced_refl)

lemma emits_then:
  assumes A: "emits A as" and B: "emits B bs"
  shows "emits (\<lambda>s. cthen (A s) B) (as @ bs)"
proof (rule emitsI)
  fix s :: "'st pb_ostream" assume "os_callback s = None" and "length (as @ bs) < 2 ^ 64"
  then show "cthen (A s) B =
      Some (True, s\<lparr>os_bytes_written := os_bytes_written s + of_nat (length (as @ bs))\<rparr>)"
    using emits_sizing [OF A, of s]
      emits_sizing [OF B, of "s\<lparr>os_bytes_written := os_bytes_written s + of_nat (length as)\<rparr>"]
    by (simp add: add.assoc)
next
  fix s :: "'st pb_ostream"
  assume s: "on_sink s" and fits: "fits s (length (as @ bs))"
  then have fa: "fits s (length as)" by (auto simp: fits_def)
  with emits_fits [OF A s] obtain s1 where
    s1: "A s = Some (True, s1)" "advanced s as s1" by auto
  note adv = advanced_on_sink [OF s1(2) s fa]
  then obtain s2 where "B s1 = Some (True, s2)" "advanced s1 bs s2"
    using emits_fits [OF B adv(1)] fits by auto
  with s1 show "\<exists>s'. cthen (A s) B = Some (True, s') \<and> advanced s (as @ bs) s'"
    by (auto intro: advanced_trans)
next
  fix s :: "'st pb_ostream"
  assume s: "on_sink s" and full: "\<not> fits s (length (as @ bs))"
    and len: "unat (os_max_size s) + length (as @ bs) < 2 ^ 64"
  show "failed (cthen (A s) B)"
  proof (cases "fits s (length as)")
    case True
    with emits_fits [OF A s] obtain s1 where
      s1: "A s = Some (True, s1)" "advanced s as s1" by auto
    note adv = advanced_on_sink [OF s1(2) s True]
    moreover have "os_max_size s1 = os_max_size s" using s1(2) by (simp add: advanced_def)
    ultimately show ?thesis
      using emits_full [OF B adv(1)] full len s1(1) by simp
  next
    case False
    then show ?thesis
      using emits_full [OF A s] len by (auto simp: failed_def)
  qed
qed

lemma emits_write:
  assumes "fetch m buf (unat count) = Some bs" and "length bs = unat count"
  shows "emits (\<lambda>s. pb_write m s buf count) bs"
proof (rule emitsI)
  fix s :: "'st pb_ostream" assume "os_callback s = None"
  then show "pb_write m s buf count =
      Some (True, s\<lparr>os_bytes_written := os_bytes_written s + of_nat (length bs)\<rparr>)"
    using assms(2) by (simp add: pb_write_def)
next
  fix s :: "'st pb_ostream" assume s: "on_sink s" and f: "fits s (length bs)"
  show "\<exists>s'. pb_write m s buf count = Some (True, s') \<and> advanced s bs s'"
  proof (cases "count = 0")
    case True
    with assms(2) s show ?thesis
      by (auto simp: pb_write_def on_sink_def advanced_refl)
  next
    case False
    then have "0 < count" and "bs \<noteq> []"
      using assms(2) by (auto simp: word_neq_0_conv unat_eq_0)
    moreover have "unat (os_bytes_written s) + unat count \<le> unat (os_max_size s)"
      using f assms(2) by (simp add: fits_def)
    moreover from this have "\<not> os_bytes_written s + count < os_bytes_written s"
      and "\<not> os_max_size s < os_bytes_written s + count"
      using unat_64 [of "os_max_size s"]
      by (auto simp: wrap_iff word_less_nat_alt unat_add_no_wrap)
    moreover have "length bs \<le> room (os_state s)"
      using f s by (auto simp: fits_def on_sink_def)
    ultimately show ?thesis
      using accepts [of bs "os_state s"] room_after [of bs "os_state s"] s assms
      by (auto simp: pb_write_def on_sink_def advanced_def)
  qed
next
  fix s :: "'st pb_ostream" assume s: "on_sink s" and f: "\<not> fits s (length bs)"
  then have "count \<noteq> 0" using assms(2) by auto
  then have "0 < count" by (simp add: word_neq_0_conv)
  moreover have "os_bytes_written s + count < os_bytes_written s \<or>
      os_max_size s < os_bytes_written s + count"
  proof (cases "unat (os_bytes_written s) + unat count < 2 ^ 64")
    case True
    with f assms(2) show ?thesis
      by (simp add: fits_def word_less_nat_alt unat_add_no_wrap)
  next
    case False
    then show ?thesis by (simp add: wrap_iff)
  qed
  ultimately show "failed (pb_write m s buf count)"
    using s by (auto simp: pb_write_def on_sink_def os_return_error_def failed_def split: option.splits)
qed

lemma emits_varint: "emits (\<lambda>s. pb_encode_varint m s v) (spec_varint (unat v))"
proof (cases "v \<le> 0x7F")
  case True
  then have "unat v < 128" by (simp add: word_le_nat_alt)
  then have "spec_varint (unat v) = [ucast v]"
    by (simp add: spec_varint_small)
  with True show ?thesis
    using emits_write [of m "Arr [ucast v]" 1 "[ucast v]"] by (simp add: pb_encode_varint_def)
next
  case False
  let ?n = "length (spec_varint (unat v))"
  from False obtain buffer where b:
      "varint_fill (replicate 10 0) 0 v = Some (buffer, ?n)" "length buffer = 10"
      "take ?n (buffer[?n - 1 := buffer ! (?n - 1) AND 0x7F]) = spec_varint (unat v)"
    using varint_buffer [of v] by (metis not_le)
  have n: "?n \<le> 10" "0 < ?n" using length_spec_varint_64 [of v] by auto
  then have u: "unat (of_nat ?n :: size_t) = ?n" by (simp add: unat_of_nat)
  have "emits (\<lambda>s. pb_write m s (Arr (buffer[?n - 1 := buffer ! (?n - 1) AND 0x7F])) (of_nat ?n))
      (spec_varint (unat v))"
    by (rule emits_write) (use b n u in simp_all)
  then show ?thesis
    using False b n by (simp add: pb_encode_varint_def)
qed

end

subsection \<open>The buffer sink\<close>

fun buf_after :: "obuf option \<Rightarrow> byte list \<Rightarrow> obuf option" where
  "buf_after None bs = None"
| "buf_after (Some (buf, off)) bs =
     Some (take off buf @ bs @ drop (off + length bs) buf, off + length bs)"

fun buf_room :: "obuf option \<Rightarrow> nat" where
  "buf_room None = 0"
| "buf_room (Some (buf, off)) = length buf - off"

interpretation buf: byte_sink buf_write buf_after buf_room
proof
  fix as bs :: "byte list" and st :: "obuf option"
  show "buf_after st [] = st" by (cases st) auto
  show "buf_after (buf_after st as) bs = buf_after st (as @ bs)"
    by (cases st) (auto simp: min_def ac_simps)
  assume "bs \<noteq> []" and "length bs \<le> buf_room st"
  then show "buf_write st bs = Some (True, buf_after st bs)"
    and "buf_room (buf_after st bs) = buf_room st - length bs"
    by (cases st; cases bs; auto)+
qed

lemma buf_on_sink:
  "unat n \<le> length buf \<Longrightarrow> buf.on_sink (pb_ostream_from_buffer buf n)"
  by (simp add: buf.on_sink_def pb_ostream_from_buffer_def)

end
