(* ===== verification/FieldIter.thy ===== *)
theory FieldIter
  imports PbTypes
begin

section \<open>The field iterator (nanopb/pb_common.c)\<close>

text \<open>
  \<open>pb_field_iter_t\<close> walks a descriptor array and keeps, beside the position, the address
  of the current field in the message struct (\<open>pData\<close>), of its count, has- or which-field
  (\<open>pSize\<close>), and the number of required fields before it. \<open>pos\<close> is the index into the
  array \<open>start\<close>. \<open>pSize\<close> normally is an address of the message; \<open>pb_decode_noinit\<close>
  points it at its local variable \<open>fixed_count_size\<close>, which is \<open>Local v\<close> with the
  variable's value.

  Shown: the address a field gets depends on its position alone (\<open>iter_wf\<close> holds
  initially and after every step), a full round visits every field once and returns to
  the first, and \<open>pb_field_iter_find\<close> ends and finds a tag exactly when it is there.
\<close>

datatype psize = At addr | Local pb_size_t

record pb_field_iter =
  it_start :: "pb_field list"
  it_pos :: nat
  it_required_field_index :: u32
  it_dest_struct :: addr
  it_pData :: addr
  it_pSize :: psize

abbreviation cur_field :: "pb_field_iter \<Rightarrow> pb_field option" where
  "cur_field it \<equiv> field_at (it_start it) (it_pos it)"

definition pb_field_iter_begin :: "pb_field list \<Rightarrow> addr \<Rightarrow> (bool \<times> pb_field_iter) option" where
  "pb_field_iter_begin flds dest_struct = do {
     f \<leftarrow> field_at flds 0;
     let pData = dest_struct + uint (data_offset f);
     Some (tag f \<noteq> 0,
       \<lparr>it_start = flds, it_pos = 0, it_required_field_index = 0, it_dest_struct = dest_struct,
        it_pData = pData, it_pSize = At (pData + size_off f)\<rparr>)
   }"

text \<open>The size of a field inside the message struct.\<close>

definition prev_field_size :: "pb_field \<Rightarrow> size_t" where
  "prev_field_size f =
     (if PB_ATYPE (ftype f) = PB_ATYPE_STATIC \<and> PB_HTYPE (ftype f) = PB_HTYPE_REPEATED
      then ucast (data_size f) * ucast (array_size f)
      else if PB_ATYPE (ftype f) = PB_ATYPE_POINTER then 8
      else ucast (data_size f))"

definition pb_field_iter_next :: "pb_field_iter \<Rightarrow> (bool \<times> pb_field_iter) option" where
  "pb_field_iter_next it = do {
     prev_field \<leftarrow> cur_field it;
     if tag prev_field = 0 then Some (False, it)
     else do {
       let it1 = it\<lparr>it_pos := Suc (it_pos it)\<rparr>;
       f \<leftarrow> cur_field it1;
       if tag f = 0 then do {
         (_, it2) \<leftarrow> pb_field_iter_begin (it_start it1) (it_dest_struct it1);
         Some (False, it2)
       }
       else if PB_HTYPE (ftype prev_field) = PB_HTYPE_ONEOF \<and>
               PB_HTYPE (ftype f) = PB_HTYPE_ONEOF \<and> data_offset f = PB_SIZE_MAX
       then Some (True, it1)
       else do {
         let prev_size = prev_field_size prev_field;
         let rfi = (if PB_HTYPE (ftype prev_field) = PB_HTYPE_REQUIRED
                    then it_required_field_index it1 + 1 else it_required_field_index it1);
         let pData = it_pData it1 + uint prev_size + uint (data_offset f);
         Some (True, it1\<lparr>it_required_field_index := rfi, it_pData := pData,
                         it_pSize := At (pData + size_off f)\<rparr>)
       }
     }
   }"

text \<open>The \<open>do ... while (iter->pos != start)\<close> loop; the array is at most one round.\<close>

fun find_loop :: "nat \<Rightarrow> nat \<Rightarrow> u32 \<Rightarrow> pb_field_iter \<Rightarrow> (bool \<times> pb_field_iter) option" where
  "find_loop 0 start tg it = None"
| "find_loop (Suc k) start tg it = do {
     f \<leftarrow> cur_field it;
     if tag f = tg \<and> PB_LTYPE (ftype f) \<noteq> PB_LTYPE_EXTENSION then Some (True, it)
     else do {
       (_, it') \<leftarrow> pb_field_iter_next it;
       if it_pos it' \<noteq> start then find_loop k start tg it' else Some (False, it')
     }
   }"

definition pb_field_iter_find :: "pb_field_iter \<Rightarrow> u32 \<Rightarrow> (bool \<times> pb_field_iter) option" where
  "pb_field_iter_find it tg = find_loop (length (it_start it)) (it_pos it) tg it"

subsection \<open>Well-formed descriptors and iterators\<close>

text \<open>An array is terminated: its entries have non-zero tags, then one zero tag.\<close>

definition terminated :: "pb_field list \<Rightarrow> bool" where
  "terminated fs \<longleftrightarrow> fs \<noteq> [] \<and> tag (last fs) = 0 \<and> (\<forall>f \<in> set (butlast fs). tag f \<noteq> 0)"

text \<open>Where field \<open>i\<close> lies in the struct, and how many required fields come before it.\<close>

definition in_union :: "pb_field \<Rightarrow> pb_field \<Rightarrow> bool" where
  "in_union f g \<longleftrightarrow> PB_HTYPE (ftype f) = PB_HTYPE_ONEOF \<and> PB_HTYPE (ftype g) = PB_HTYPE_ONEOF \<and>
                    data_offset g = PB_SIZE_MAX"

fun data_pos :: "pb_field list \<Rightarrow> nat \<Rightarrow> int" where
  "data_pos fs 0 = uint (data_offset (fs ! 0))"
| "data_pos fs (Suc i) =
     (if in_union (fs ! i) (fs ! Suc i) then data_pos fs i
      else data_pos fs i + uint (prev_field_size (fs ! i)) + uint (data_offset (fs ! Suc i)))"

text \<open>Inside a union the pointers do not move, so \<open>pSize\<close> stays the one of the first member.\<close>

fun size_pos :: "pb_field list \<Rightarrow> nat \<Rightarrow> int" where
  "size_pos fs 0 = data_pos fs 0 + size_off (fs ! 0)"
| "size_pos fs (Suc i) =
     (if in_union (fs ! i) (fs ! Suc i) then size_pos fs i
      else data_pos fs (Suc i) + size_off (fs ! Suc i))"

definition required_before :: "pb_field list \<Rightarrow> nat \<Rightarrow> nat" where
  "required_before fs i = length (filter (\<lambda>f. PB_HTYPE (ftype f) = PB_HTYPE_REQUIRED) (take i fs))"

definition n_fields :: "pb_field list \<Rightarrow> nat" where
  "n_fields fs = length fs - 1"

definition iter_wf :: "pb_field_iter \<Rightarrow> bool" where
  "iter_wf it \<longleftrightarrow> terminated (it_start it) \<and>
     (it_pos it < n_fields (it_start it) \<or> it_pos it = 0) \<and>
     it_pData it = it_dest_struct it + data_pos (it_start it) (it_pos it) \<and>
     it_pSize it = At (it_dest_struct it + size_pos (it_start it) (it_pos it)) \<and>
     it_required_field_index it = of_nat (required_before (it_start it) (it_pos it))"

text \<open>The iterator at position \<open>i\<close> of a message.\<close>

definition iter_at :: "pb_field list \<Rightarrow> addr \<Rightarrow> nat \<Rightarrow> pb_field_iter" where
  "iter_at fs dest i =
     \<lparr>it_start = fs, it_pos = i, it_required_field_index = of_nat (required_before fs i),
      it_dest_struct = dest, it_pData = dest + data_pos fs i, it_pSize = At (dest + size_pos fs i)\<rparr>"

lemma terminated_nth:
  assumes "terminated fs"
  shows "i < n_fields fs \<Longrightarrow> tag (fs ! i) \<noteq> 0" and "tag (fs ! n_fields fs) = 0"
    and "length fs = Suc (n_fields fs)"
  using assms
  by (auto simp: terminated_def n_fields_def last_conv_nth butlast_conv_take set_conv_nth
      intro!: bexI)

lemma iter_at_sel [simp]:
  "it_start (iter_at fs d i) = fs" "it_pos (iter_at fs d i) = i"
  "it_dest_struct (iter_at fs d i) = d" "it_pData (iter_at fs d i) = d + data_pos fs i"
  "it_pSize (iter_at fs d i) = At (d + size_pos fs i)"
  "it_required_field_index (iter_at fs d i) = of_nat (required_before fs i)"
  by (simp_all add: iter_at_def)

lemma iter_wf_iff:
  "iter_wf it \<longleftrightarrow> (\<exists>fs d i. it = iter_at fs d i \<and> terminated fs \<and> (i < n_fields fs \<or> i = 0))"
  by (cases it) (auto simp: iter_wf_def iter_at_def)

lemma iter_wf_at: "terminated fs \<Longrightarrow> i < n_fields fs \<or> i = 0 \<Longrightarrow> iter_wf (iter_at fs d i)"
  by (auto simp: iter_wf_def)

lemma required_before_Suc:
  "i < length fs \<Longrightarrow> required_before fs (Suc i) =
     required_before fs i + (if PB_HTYPE (ftype (fs ! i)) = PB_HTYPE_REQUIRED then 1 else 0)"
  by (simp add: required_before_def take_Suc_conv_app_nth)

subsection \<open>Begin and next\<close>

lemma iter_begin_at:
  assumes "terminated fs"
  shows "pb_field_iter_begin fs d = Some (0 < n_fields fs, iter_at fs d 0)"
proof -
  have "0 < length fs" using assms by (simp add: terminated_def)
  moreover have "tag (fs ! 0) \<noteq> 0 \<longleftrightarrow> 0 < n_fields fs"
    using terminated_nth(1) [OF assms, of 0] terminated_nth(2) [OF assms] by (cases "n_fields fs") auto
  ultimately show ?thesis
    by (simp add: pb_field_iter_begin_def iter_at_def required_before_def Let_def add.assoc)
qed

lemma iter_next_at:
  assumes t: "terminated fs" and i: "i < n_fields fs"
  shows "pb_field_iter_next (iter_at fs d i) =
     (if Suc i < n_fields fs then Some (True, iter_at fs d (Suc i)) else Some (False, iter_at fs d 0))"
proof -
  note nth = terminated_nth [OF t]
  have len: "Suc i < length fs" "i < length fs" using i nth(3) by auto
  show ?thesis
  proof (cases "Suc i < n_fields fs")
    case True
    then have "tag (fs ! i) \<noteq> 0" "tag (fs ! Suc i) \<noteq> 0" using nth(1) i by auto
    with True len show ?thesis
      by (auto simp: pb_field_iter_next_def iter_at_def Let_def in_union_def required_before_Suc
          add.assoc)
  next
    case False
    then have "Suc i = n_fields fs" using i by simp
    then have "tag (fs ! i) \<noteq> 0" "tag (fs ! Suc i) = 0" using nth(1,2) i by auto
    with False len t show ?thesis
      by (simp add: pb_field_iter_next_def iter_begin_at)
  qed
qed

lemma iter_next_empty:
  assumes "terminated fs" and "n_fields fs = 0"
  shows "pb_field_iter_next (iter_at fs d 0) = Some (False, iter_at fs d 0)"
  using terminated_nth [OF assms(1)] assms(2) by (simp add: pb_field_iter_next_def)

lemma iter_next_wf:
  assumes "iter_wf it"
  shows "\<exists>r. pb_field_iter_next it = Some r \<and> iter_wf (snd r) \<and>
           it_start (snd r) = it_start it \<and> it_dest_struct (snd r) = it_dest_struct it"
proof -
  from assms obtain fs d i where it: "it = iter_at fs d i" "terminated fs" "i < n_fields fs \<or> i = 0"
    by (auto simp: iter_wf_iff)
  then show ?thesis
  proof (cases "n_fields fs = 0")
    case True
    with it iter_next_empty [of fs d] show ?thesis by (simp add: iter_wf_at)
  next
    case False
    with it have "i < n_fields fs" by auto
    with it(1,2) show ?thesis
      by (simp add: iter_next_at [OF it(2)]) (auto intro: iter_wf_at)
  qed
qed

subsection \<open>Find\<close>

definition has_tag :: "u32 \<Rightarrow> pb_field \<Rightarrow> bool" where
  "has_tag tg f \<longleftrightarrow> tag f = tg \<and> PB_LTYPE (ftype f) \<noteq> PB_LTYPE_EXTENSION"

text \<open>From position \<open>i\<close>, after \<open>k\<close> steps of the round.\<close>

definition nth_pos :: "nat \<Rightarrow> nat \<Rightarrow> nat \<Rightarrow> nat" where
  "nth_pos n i k = (i + k) mod n"

lemma find_loop_at:
  assumes t: "terminated fs" and s: "s < n_fields fs"
  shows "j < n_fields fs \<Longrightarrow> n_fields fs - j \<le> k \<Longrightarrow>
     find_loop k s tg (iter_at fs d ((s + j) mod n_fields fs)) =
     (case filter (\<lambda>l. has_tag tg (fs ! ((s + l) mod n_fields fs))) [j..<n_fields fs] of
        [] \<Rightarrow> Some (False, iter_at fs d s)
      | l # _ \<Rightarrow> Some (True, iter_at fs d ((s + l) mod n_fields fs)))"
proof (induction k arbitrary: j)
  case 0
  then show ?case by simp
next
  case (Suc k)
  let ?n = "n_fields fs" and ?p = "(s + j) mod n_fields fs"
  have p: "?p < ?n" using s by simp
  then have len: "?p < length fs" using terminated_nth(3) [OF t] by simp
  have upt: "[j..<?n] = j # [Suc j..<?n]" using Suc.prems(1) by (simp add: upt_conv_Cons)
  have next_pos: "pb_field_iter_next (iter_at fs d ?p) =
      (if Suc ?p < ?n then Some (True, iter_at fs d (Suc ?p)) else Some (False, iter_at fs d 0))"
    by (rule iter_next_at [OF t p])
  have suc: "(if Suc ?p < ?n then Suc ?p else 0) = (s + Suc j) mod ?n"
    using p by (simp add: mod_Suc)
  show ?case
  proof (cases "has_tag tg (fs ! ?p)")
    case True
    with len upt show ?thesis by (simp add: has_tag_def)
  next
    case False
    have step: "find_loop (Suc k) s tg (iter_at fs d ?p) =
       (if (s + Suc j) mod ?n \<noteq> s then find_loop k s tg (iter_at fs d ((s + Suc j) mod ?n))
        else Some (False, iter_at fs d ((s + Suc j) mod ?n)))"
      using False len next_pos suc by (auto simp: has_tag_def split: if_splits)
    show ?thesis
    proof (cases "Suc j < ?n")
      case True
      have "(s + Suc j) mod ?n \<noteq> s"
      proof (cases "s + Suc j < ?n")
        case True
        then show ?thesis by simp
      next
        case False
        then have "(s + Suc j) mod ?n = s + Suc j - ?n"
          using s True by (simp add: le_mod_geq)
        with True False s show ?thesis by linarith
      qed
      with step Suc.IH [of "Suc j"] Suc.prems True False upt show ?thesis by simp
    next
      case last: False
      then have "Suc j = ?n" using Suc.prems by simp
      then have "(s + Suc j) mod ?n = s" using s by simp
      with step False upt \<open>Suc j = ?n\<close> show ?thesis by simp
    qed
  qed
qed

text \<open>The search from any position of a message: the first match in cyclic order.\<close>

lemma iter_find_at:
  assumes "terminated fs" and "i < n_fields fs"
  shows "pb_field_iter_find (iter_at fs d i) tg =
     (case filter (\<lambda>l. has_tag tg (fs ! ((i + l) mod n_fields fs))) [0..<n_fields fs] of
        [] \<Rightarrow> Some (False, iter_at fs d i)
      | l # _ \<Rightarrow> Some (True, iter_at fs d ((i + l) mod n_fields fs)))"
  using find_loop_at [OF assms, of 0 "length fs" tg d] assms terminated_nth(3) [OF assms(1)]
  by (simp add: pb_field_iter_find_def)

lemma iter_find_empty:
  assumes "terminated fs" and "n_fields fs = 0"
  shows "pb_field_iter_find (iter_at fs d 0) tg = Some (has_tag tg (fs ! 0), iter_at fs d 0)"
  using iter_next_empty [OF assms, of d] terminated_nth(3) [OF assms(1)] assms(2)
  by (simp add: pb_field_iter_find_def has_tag_def)

lemma cyclic_cover:
  assumes "i < (n::nat)" and "p < n"
  shows "\<exists>l < n. (i + l) mod n = p"
proof (cases "i \<le> p")
  case True
  with assms show ?thesis by (intro exI [of _ "p - i"]) auto
next
  case False
  with assms have "(i + (n - i + p)) mod n = p" by simp
  with False assms show ?thesis by (intro exI [of _ "n - i + p"]) auto
qed

subsection \<open>All positions of a descriptor in one pass\<close>

text \<open>For evaluation: \<open>positions fs\<close> lists \<open>data_pos\<close> and \<open>size_pos\<close> of every entry.\<close>

definition field_pos :: "pb_field \<Rightarrow> int \<Rightarrow> int \<Rightarrow> pb_field \<Rightarrow> int \<times> int" where
  "field_pos f d z g =
     (if in_union f g then (d, z)
      else (let d' = d + uint (prev_field_size f) + uint (data_offset g) in (d', d' + size_off g)))"

fun walk :: "pb_field \<Rightarrow> int \<Rightarrow> int \<Rightarrow> pb_field list \<Rightarrow> (int \<times> int) list" where
  "walk f d z [] = []"
| "walk f d z (g # gs) = field_pos f d z g # walk g (fst (field_pos f d z g)) (snd (field_pos f d z g)) gs"

definition positions :: "pb_field list \<Rightarrow> (int \<times> int) list" where
  "positions fs = (let d = uint (data_offset (hd fs)); z = d + size_off (hd fs)
                   in (d, z) # walk (hd fs) d z (tl fs))"

lemma positions_nth:
  assumes "i < length fs"
  shows "positions fs ! i = (data_pos fs i, size_pos fs i)"
proof -
  have walk_nth: "walk (gs ! k) (data_pos gs k) (size_pos gs k) (drop (Suc k) gs) ! j =
      (data_pos gs (Suc k + j), size_pos gs (Suc k + j))" if "Suc k + j < length gs" for gs j k
    using that
  proof (induction j arbitrary: k)
    case 0
    then have "drop (Suc k) gs = gs ! Suc k # drop (Suc (Suc k)) gs"
      by (simp add: Cons_nth_drop_Suc)
    then show ?case by (simp add: field_pos_def Let_def)
  next
    case (Suc j)
    then have "drop (Suc k) gs = gs ! Suc k # drop (Suc (Suc k)) gs"
      by (simp add: Cons_nth_drop_Suc)
    moreover have "field_pos (gs ! k) (data_pos gs k) (size_pos gs k) (gs ! Suc k) =
        (data_pos gs (Suc k), size_pos gs (Suc k))"
      by (simp add: field_pos_def Let_def)
    ultimately show ?case using Suc.IH [of "Suc k"] Suc.prems by simp
  qed
  from assms obtain g gs where fs: "fs = g # gs" by (cases fs) auto
  show ?thesis
    using walk_nth [of 0 "i - 1" fs] assms fs by (cases i) (simp_all add: positions_def Let_def)
qed

end
