(* ===== verification/Encode.thy ===== *)
theory Encode
  imports OStream FieldIter
begin

section \<open>Encoding messages (nanopb/pb_encode.c)\<close>

text \<open>
  \<open>pb_encode\<close> and the functions below it: the field encoders \<open>pb_enc_*\<close> behind the table
  \<open>PB_ENCODERS\<close>, arrays and their packing, presence (required, has-fields, proto3 defaults,
  oneofs), callback and extension fields, and submessages, which are encoded twice.

  The recursion of the C code goes through \<open>pb_enc_submessage\<close> back to \<open>pb_encode\<close>. Each
  function takes that inner \<open>pb_encode\<close> as its argument \<open>rec\<close>; \<open>pb_encode\<close> ties the knot with
  a fuel argument that bounds the nesting of submessages (\<open>None\<close> when it runs out).

  Code that is not part of the library is the record \<open>enc_env\<close>: what the function pointers
  in callback fields do, and the extension types that pointers in the message refer to.
\<close>

type_synonym 'st encoder = "'st pb_ostream \<Rightarrow> pb_field \<Rightarrow> addr \<Rightarrow> (bool \<times> 'st pb_ostream) option"
type_synonym 'st msg_encoder = "'st pb_ostream \<Rightarrow> pb_field list \<Rightarrow> addr \<Rightarrow> (bool \<times> 'st pb_ostream) option"

record 'st enc_ext_type =
  eet_encode :: "('st pb_ostream \<Rightarrow> mem \<Rightarrow> addr \<Rightarrow> (bool \<times> 'st pb_ostream) option) option"
  eet_arg :: "pb_field list"

record 'st enc_env =
  env_encode :: "addr \<Rightarrow> ('st pb_ostream \<Rightarrow> pb_field \<Rightarrow> mem \<Rightarrow> addr \<Rightarrow> (bool \<times> 'st pb_ostream) option) option"
  env_enc_ext :: "addr \<Rightarrow> 'st enc_ext_type option"

text \<open>No callbacks and no extension types.\<close>

definition no_callbacks :: "'st enc_env" where
  "no_callbacks = \<lparr>env_encode = (\<lambda>_. None), env_enc_ext = (\<lambda>_. None)\<rparr>"

subsection \<open>Reading the message\<close>

definition safe_read_bool :: "mem \<Rightarrow> addr \<Rightarrow> bool option" where
  "safe_read_bool m p = map_option (list_ex (\<lambda>b. b \<noteq> 0)) (load_bytes m p 1)"

text \<open>An integer member of 1, 2, 4 or 8 bytes, sign- or zero-extended to 64 bits.\<close>

definition load_sx :: "mem \<Rightarrow> addr \<Rightarrow> pb_size_t \<Rightarrow> u64 option" where
  "load_sx m a sz =
     (if sz = 1 then map_option scast (load_word m a 1 :: 8 word option)
      else if sz = 2 then map_option scast (load_word m a 2 :: 16 word option)
      else if sz = 4 then map_option scast (load_word m a 4 :: 32 word option)
      else load_word m a 8)"

definition load_zx :: "mem \<Rightarrow> addr \<Rightarrow> pb_size_t \<Rightarrow> u64 option" where
  "load_zx m a sz =
     (if sz = 1 then map_option ucast (load_word m a 1 :: 8 word option)
      else if sz = 2 then map_option ucast (load_word m a 2 :: 16 word option)
      else if sz = 4 then map_option ucast (load_word m a 4 :: 32 word option)
      else load_word m a 8)"

subsection \<open>Field encoders\<close>

definition pb_enc_bool :: "mem \<Rightarrow> 'st encoder" where
  "pb_enc_bool m s field src = do {
     v \<leftarrow> safe_read_bool m src;
     pb_encode_varint m s (if v then 1 else 0)
   }"

definition pb_enc_varint :: "mem \<Rightarrow> 'st encoder" where
  "pb_enc_varint m s field src =
     (if int_size (data_size field)
      then do { v \<leftarrow> load_sx m src (data_size field); pb_encode_varint m s v }
      else os_return_error s ''invalid data_size'')"

definition pb_enc_uvarint :: "mem \<Rightarrow> 'st encoder" where
  "pb_enc_uvarint m s field src =
     (if int_size (data_size field)
      then do { v \<leftarrow> load_zx m src (data_size field); pb_encode_varint m s v }
      else os_return_error s ''invalid data_size'')"

definition pb_enc_svarint :: "mem \<Rightarrow> 'st encoder" where
  "pb_enc_svarint m s field src =
     (if int_size (data_size field)
      then do { v \<leftarrow> load_sx m src (data_size field); pb_encode_svarint m s v }
      else os_return_error s ''invalid data_size'')"

definition pb_enc_fixed64 :: "mem \<Rightarrow> 'st encoder" where
  "pb_enc_fixed64 m s field src = pb_encode_fixed64 m s src"

definition pb_enc_fixed32 :: "mem \<Rightarrow> 'st encoder" where
  "pb_enc_fixed32 m s field src = pb_encode_fixed32 m s src"

definition pb_enc_bytes :: "mem \<Rightarrow> 'st encoder" where
  "pb_enc_bytes m s field src =
     (if src = 0 then pb_encode_string m s 0 0
      else do {
        sz \<leftarrow> load_u32 m src;
        let allocsize = PB_BYTES_ARRAY_T_ALLOCSIZE (ucast sz);
        if allocsize < ucast sz \<or>
           (PB_ATYPE (ftype field) = PB_ATYPE_STATIC \<and> allocsize > ucast (data_size field))
        then os_return_error s ''bytes size exceeded''
        else pb_encode_string m s (src + 4) (ucast sz)
      })"

fun strnlen_loop :: "mem \<Rightarrow> addr \<Rightarrow> nat \<Rightarrow> nat option" where
  "strnlen_loop m p 0 = Some 0"
| "strnlen_loop m p (Suc k) =
     (case mbytes m p of None \<Rightarrow> None
      | Some b \<Rightarrow> if b = 0 then Some 0 else map_option Suc (strnlen_loop m (p + 1) k))"

definition pb_enc_string :: "mem \<Rightarrow> 'st encoder" where
  "pb_enc_string m s field src = do {
     let max_size = (if PB_ATYPE (ftype field) = PB_ATYPE_POINTER then - 1
                     else ucast (data_size field) :: size_t);
     sz \<leftarrow> (if src = 0 then Some 0 else strnlen_loop m src (unat max_size));
     pb_encode_string m s src (of_nat sz)
   }"

definition pb_encode_submessage :: "mem \<Rightarrow> 'st msg_encoder \<Rightarrow> 'st msg_encoder" where
  "pb_encode_submessage m rec s flds src = do {
     (ok, substream) \<leftarrow> rec PB_OSTREAM_SIZING flds src;
     if \<not> ok then Some (False, s\<lparr>os_errmsg := os_errmsg substream\<rparr>)
     else do {
       let sz = os_bytes_written substream;
       cthen (pb_encode_varint m s sz) (\<lambda>s.
         case os_callback s of
           None \<Rightarrow> pb_write m s (Ptr 0) sz
         | Some cb \<Rightarrow>
             if os_bytes_written s + sz > os_max_size s then os_return_error s ''stream full''
             else do {
               (status, substream) \<leftarrow> rec \<lparr>os_callback = Some cb, os_state = os_state s,
                  os_max_size = sz, os_bytes_written = 0, os_errmsg = None\<rparr> flds src;
               let s1 = s\<lparr>os_bytes_written := os_bytes_written s + os_bytes_written substream,
                          os_state := os_state substream, os_errmsg := os_errmsg substream\<rparr>;
               if os_bytes_written substream \<noteq> sz then os_return_error s1 ''submsg size changed''
               else Some (status, s1)
             })
     }
   }"

definition pb_enc_submessage :: "mem \<Rightarrow> 'st msg_encoder \<Rightarrow> 'st encoder" where
  "pb_enc_submessage m rec s field src =
     (if ptr field = PNull then os_return_error s ''invalid field descriptor''
      else do { flds \<leftarrow> ptr_fields (ptr field); pb_encode_submessage m rec s flds src })"

definition pb_enc_fixed_length_bytes :: "mem \<Rightarrow> 'st encoder" where
  "pb_enc_fixed_length_bytes m s field src = pb_encode_string m s src (ucast (data_size field))"

definition PB_ENCODERS :: "mem \<Rightarrow> 'st msg_encoder \<Rightarrow> 'st encoder option list" where
  "PB_ENCODERS m rec =
     [Some (pb_enc_bool m), Some (pb_enc_varint m), Some (pb_enc_uvarint m), Some (pb_enc_svarint m),
      Some (pb_enc_fixed32 m), Some (pb_enc_fixed64 m),
      Some (pb_enc_bytes m), Some (pb_enc_string m), Some (pb_enc_submessage m rec),
      None, Some (pb_enc_fixed_length_bytes m)]"

text \<open>\<open>func = PB_ENCODERS[PB_LTYPE(field->type)]\<close>; calling it is undefined when it is null.\<close>

definition enc_call :: "'st encoder option \<Rightarrow> 'st encoder" where
  "enc_call func s field p = (case func of None \<Rightarrow> None | Some f \<Rightarrow> f s field p)"

subsection \<open>Arrays\<close>

fun enc_packed_items :: "'st encoder \<Rightarrow> pb_field \<Rightarrow> nat \<Rightarrow> addr \<Rightarrow> 'st pb_ostream \<Rightarrow> (bool \<times> 'st pb_ostream) option" where
  "enc_packed_items func field 0 p s = Some (True, s)"
| "enc_packed_items func field (Suc k) p s =
     cthen (func s field p) (enc_packed_items func field k (p + uint (data_size field)))"

fun enc_items :: "mem \<Rightarrow> 'st encoder \<Rightarrow> pb_field \<Rightarrow> nat \<Rightarrow> addr \<Rightarrow> 'st pb_ostream \<Rightarrow> (bool \<times> 'st pb_ostream) option" where
  "enc_items m func field 0 p s = Some (True, s)"
| "enc_items m func field (Suc k) p s =
     cthen (pb_encode_tag_for_field m s field) (\<lambda>s.
     cthen (if PB_ATYPE (ftype field) = PB_ATYPE_POINTER \<and>
               (PB_LTYPE (ftype field) = PB_LTYPE_STRING \<or> PB_LTYPE (ftype field) = PB_LTYPE_BYTES)
            then do { q \<leftarrow> load_ptr m p; func s field q }
            else func s field p)
       (enc_items m func field k (p + uint (data_size field))))"

definition encode_array :: "mem \<Rightarrow> 'st pb_ostream \<Rightarrow> pb_field \<Rightarrow> addr \<Rightarrow> size_t \<Rightarrow> 'st encoder \<Rightarrow>
    (bool \<times> 'st pb_ostream) option" where
  "encode_array m s field pData count func =
     (if count = 0 then Some (True, s)
      else if PB_ATYPE (ftype field) \<noteq> PB_ATYPE_POINTER \<and> count > ucast (array_size field)
      then os_return_error s ''array max size exceeded''
      else if PB_LTYPE (ftype field) \<le> PB_LTYPE_LAST_PACKABLE
      then cthen (pb_encode_tag m s PB_WT_STRING (tag field)) (\<lambda>s. do {
        (ok, sz) \<leftarrow>
          (if PB_LTYPE (ftype field) = PB_LTYPE_FIXED32 then Some (True, 4 * count)
           else if PB_LTYPE (ftype field) = PB_LTYPE_FIXED64 then Some (True, 8 * count)
           else do {
             (ok, sizestream) \<leftarrow> enc_packed_items func field (unat count) pData PB_OSTREAM_SIZING;
             Some (ok, os_bytes_written sizestream)
           });
        if \<not> ok then Some (False, s)
        else cthen (pb_encode_varint m s sz) (\<lambda>s.
          case os_callback s of
            None \<Rightarrow> pb_write m s (Ptr 0) sz
          | Some _ \<Rightarrow> enc_packed_items func field (unat count) pData s)
      })
      else enc_items m func field (unat count) pData s)"

subsection \<open>Presence\<close>

fun all_zero :: "mem \<Rightarrow> addr \<Rightarrow> nat \<Rightarrow> bool option" where
  "all_zero m p 0 = Some True"
| "all_zero m p (Suc k) =
     (case mbytes m p of None \<Rightarrow> None
      | Some b \<Rightarrow> if b \<noteq> 0 then Some False else all_zero m (p + 1) k)"

fun check_loop :: "(pb_field \<Rightarrow> addr \<Rightarrow> bool option) \<Rightarrow> nat \<Rightarrow> pb_field_iter \<Rightarrow> bool option" where
  "check_loop check 0 it = None"
| "check_loop check (Suc k) it = do {
     f \<leftarrow> cur_field it;
     b \<leftarrow> check f (it_pData it);
     if \<not> b then Some False
     else do {
       (more, it') \<leftarrow> pb_field_iter_next it;
       if more then check_loop check k it' else Some True
     }
   }"

fun pb_check_proto3_default_value :: "nat \<Rightarrow> mem \<Rightarrow> pb_field \<Rightarrow> addr \<Rightarrow> bool option" where
  "pb_check_proto3_default_value 0 m field pData = None"
| "pb_check_proto3_default_value (Suc n) m field pData =
     (let type = ftype field; pSize = pData + size_off field in
      if PB_HTYPE type = PB_HTYPE_REQUIRED then Some False
      else if PB_HTYPE type = PB_HTYPE_REPEATED \<and> size_offset field \<noteq> 0
      then map_option (\<lambda>c. c = 0) (load_u32 m pSize)
      else if PB_HTYPE type = PB_HTYPE_REPEATED \<and> PB_ATYPE type = PB_ATYPE_STATIC then Some False
      else if PB_HTYPE type = PB_HTYPE_ONEOF then map_option (\<lambda>c. c = 0) (load_u32 m pSize)
      else if PB_HTYPE type = PB_HTYPE_OPTIONAL \<and> size_offset field \<noteq> 0
      then map_option Not (safe_read_bool m pSize)
      else if PB_ATYPE type = PB_ATYPE_STATIC \<and> PB_LTYPE type = PB_LTYPE_BYTES
      then map_option (\<lambda>sz. sz = 0) (load_u32 m pData)
      else if PB_ATYPE type = PB_ATYPE_STATIC \<and> PB_LTYPE type = PB_LTYPE_STRING
      then map_option (\<lambda>b. b = 0) (mbytes m pData)
      else if PB_ATYPE type = PB_ATYPE_STATIC \<and> PB_LTYPE type = PB_LTYPE_FIXED_LENGTH_BYTES
      then Some (data_size field = 0)
      else if PB_ATYPE type = PB_ATYPE_STATIC \<and> PB_LTYPE type = PB_LTYPE_SUBMESSAGE
      then do {
        flds \<leftarrow> ptr_fields (ptr field);
        (nonempty, it) \<leftarrow> pb_field_iter_begin flds pData;
        if nonempty then check_loop (pb_check_proto3_default_value n m) (length flds) it
        else Some True
      }
      else if PB_ATYPE type = PB_ATYPE_POINTER \<and> PB_LTYPE type > PB_LTYPE_LAST_PACKABLE
      then map_option (\<lambda>p. p = 0) (load_ptr m pData)
      else all_zero m pData (unat (data_size field)))"

subsection \<open>Fields\<close>

text \<open>\<open>pSize\<close> is \<open>&implicit_has\<close> or an address: \<open>read_has\<close> is \<open>safe_read_bool(pSize)\<close>. Reading a
  count through the one-byte local is undefined.\<close>

definition encode_basic_field :: "nat \<Rightarrow> mem \<Rightarrow> 'st msg_encoder \<Rightarrow> 'st encoder" where
  "encode_basic_field n m rec s field pData = do {
     func \<leftarrow> arr_get (PB_ENCODERS m rec) (unat (PB_LTYPE (ftype field)));
     implicit_has \<leftarrow>
       (if size_offset field \<noteq> 0 then Some False
        else if PB_HTYPE (ftype field) = PB_HTYPE_OPTIONAL
        then map_option Not (pb_check_proto3_default_value n m field pData)
        else Some True);
     let pSize = (if size_offset field \<noteq> 0 then Some (pData + size_off field) else None);
     (pData, implicit_has) \<leftarrow>
       (if PB_ATYPE (ftype field) = PB_ATYPE_POINTER
        then do { p \<leftarrow> load_ptr m pData; Some (p, p \<noteq> 0) }
        else Some (pData, implicit_has));
     if PB_HTYPE (ftype field) = PB_HTYPE_REQUIRED
     then (if pData = 0 then os_return_error s ''missing required field''
           else cthen (pb_encode_tag_for_field m s field) (\<lambda>s. enc_call func s field pData))
     else if PB_HTYPE (ftype field) = PB_HTYPE_OPTIONAL
     then do {
       has \<leftarrow> (case pSize of Some p \<Rightarrow> safe_read_bool m p | None \<Rightarrow> Some implicit_has);
       if has then cthen (pb_encode_tag_for_field m s field) (\<lambda>s. enc_call func s field pData)
       else Some (True, s)
     }
     else if PB_HTYPE (ftype field) = PB_HTYPE_REPEATED
     then do {
       count \<leftarrow> (case pSize of Some p \<Rightarrow> load_u32 m p | None \<Rightarrow> Some (array_size field));
       encode_array m s field pData (ucast count) (enc_call func)
     }
     else do {
       which \<leftarrow> (case pSize of Some p \<Rightarrow> load_u32 m p | None \<Rightarrow> None);
       if which = tag field
       then cthen (pb_encode_tag_for_field m s field) (\<lambda>s. enc_call func s field pData)
       else Some (True, s)
     }
   }"

text \<open>A \<open>pb_callback_t\<close>: the function pointer at offset 0, \<open>arg\<close> at offset 8.\<close>

definition encode_callback_field :: "'st enc_env \<Rightarrow> mem \<Rightarrow> 'st encoder" where
  "encode_callback_field env m s field pData = do {
     fn \<leftarrow> load_ptr m pData;
     if fn \<noteq> 0 then do {
       f \<leftarrow> env_encode env fn;
       (ok, s1) \<leftarrow> f s field m (pData + 8);
       if \<not> ok then os_return_error s1 ''callback error'' else Some (True, s1)
     }
     else Some (True, s)
   }"

definition encode_field :: "nat \<Rightarrow> 'st enc_env \<Rightarrow> mem \<Rightarrow> 'st msg_encoder \<Rightarrow> 'st encoder" where
  "encode_field n env m rec s field pData =
     (if PB_ATYPE (ftype field) = PB_ATYPE_STATIC \<or> PB_ATYPE (ftype field) = PB_ATYPE_POINTER
      then encode_basic_field n m rec s field pData
      else if PB_ATYPE (ftype field) = PB_ATYPE_CALLBACK then encode_callback_field env m s field pData
      else os_return_error s ''invalid field type'')"

text \<open>A \<open>pb_extension_t\<close>: \<open>type\<close>, \<open>dest\<close> and \<open>next\<close> at offsets 0, 8 and 16, \<open>found\<close> at 24.\<close>

definition default_extension_encoder ::
  "nat \<Rightarrow> 'st enc_env \<Rightarrow> mem \<Rightarrow> 'st msg_encoder \<Rightarrow> 'st pb_ostream \<Rightarrow> addr \<Rightarrow> (bool \<times> 'st pb_ostream) option" where
  "default_extension_encoder n env m rec s extension = do {
     ty \<leftarrow> load_ptr m extension;
     et \<leftarrow> env_enc_ext env ty;
     field \<leftarrow> field_at (eet_arg et) 0;
     if PB_ATYPE (ftype field) = PB_ATYPE_POINTER
     then encode_field n env m rec s field (extension + 8)
     else do { dest \<leftarrow> load_ptr m (extension + 8); encode_field n env m rec s field dest }
   }"

fun enc_ext_loop ::
  "nat \<Rightarrow> nat \<Rightarrow> 'st enc_env \<Rightarrow> mem \<Rightarrow> 'st msg_encoder \<Rightarrow> 'st pb_ostream \<Rightarrow> addr \<Rightarrow> (bool \<times> 'st pb_ostream) option" where
  "enc_ext_loop 0 n env m rec s extension = None"
| "enc_ext_loop (Suc k) n env m rec s extension =
     (if extension = 0 then Some (True, s)
      else do {
        ty \<leftarrow> load_ptr m extension;
        et \<leftarrow> env_enc_ext env ty;
        cthen (case eet_encode et of
                 Some f \<Rightarrow> f s m extension
               | None \<Rightarrow> default_extension_encoder n env m rec s extension)
          (\<lambda>s. do { nxt \<leftarrow> load_ptr m (extension + 16); enc_ext_loop k n env m rec s nxt })
      })"

definition encode_extension_field :: "nat \<Rightarrow> 'st enc_env \<Rightarrow> mem \<Rightarrow> 'st msg_encoder \<Rightarrow> 'st encoder" where
  "encode_extension_field n env m rec s field pData = do {
     extension \<leftarrow> load_ptr m pData;
     enc_ext_loop n n env m rec s extension
   }"

subsection \<open>Messages\<close>

fun enc_fields_loop :: "'st encoder \<Rightarrow> nat \<Rightarrow> pb_field_iter \<Rightarrow> 'st pb_ostream \<Rightarrow> (bool \<times> 'st pb_ostream) option" where
  "enc_fields_loop enc 0 it s = None"
| "enc_fields_loop enc (Suc k) it s = do {
     f \<leftarrow> cur_field it;
     cthen (enc s f (it_pData it)) (\<lambda>s. do {
       (more, it') \<leftarrow> pb_field_iter_next it;
       if more then enc_fields_loop enc k it' s else Some (True, s)
     })
   }"

definition encode_any_field :: "nat \<Rightarrow> 'st enc_env \<Rightarrow> mem \<Rightarrow> 'st msg_encoder \<Rightarrow> 'st encoder" where
  "encode_any_field n env m rec s field pData =
     (if PB_LTYPE (ftype field) = PB_LTYPE_EXTENSION
      then encode_extension_field n env m rec s field pData
      else encode_field n env m rec s field pData)"

fun pb_encode :: "nat \<Rightarrow> 'st enc_env \<Rightarrow> mem \<Rightarrow> 'st msg_encoder" where
  "pb_encode 0 env m s flds src = None"
| "pb_encode (Suc n) env m s flds src = do {
     (nonempty, it) \<leftarrow> pb_field_iter_begin flds src;
     if \<not> nonempty then Some (True, s)
     else enc_fields_loop (encode_any_field (Suc n) env m (pb_encode n env m)) (length flds) it s
   }"

declare pb_encode.simps [simp del]

definition pb_encode_delimited :: "nat \<Rightarrow> 'st enc_env \<Rightarrow> mem \<Rightarrow> 'st msg_encoder" where
  "pb_encode_delimited n env m s flds src = pb_encode_submessage m (pb_encode n env m) s flds src"

definition pb_encode_nullterminated :: "nat \<Rightarrow> 'st enc_env \<Rightarrow> mem \<Rightarrow> 'st msg_encoder" where
  "pb_encode_nullterminated n env m s flds src =
     cthen (pb_encode n env m s flds src) (\<lambda>s. pb_write m s (Arr [0]) 1)"

definition pb_get_encoded_size :: "nat \<Rightarrow> 'st enc_env \<Rightarrow> mem \<Rightarrow> pb_field list \<Rightarrow> addr \<Rightarrow> size_t option option" where
  "pb_get_encoded_size n env m flds src = do {
     (ok, stream) \<leftarrow> pb_encode n env m PB_OSTREAM_SIZING flds src;
     Some (if ok then Some (os_bytes_written stream) else None)
   }"

end
