(* ===== verification/EncodeSpec.thy ===== *)
theory EncodeSpec
  imports Encode
begin

section \<open>What \<open>pb_encode\<close> computes: the protobuf wire format\<close>

text \<open>
  \<open>spec_msg\<close> is the encoding of a message as a list of bytes, without streams: the fields in
  descriptor order, each as tag and value, present according to its rule, packed where the
  type allows, submessages as length and contents. It is undefined (\<open>None\<close>) where the struct
  is not readable or the code reports an error, and it covers everything but fields with a
  user callback (a null callback writes nothing) and non-empty extension chains.

  The refinement, proved in the context of any \<open>byte_sink\<close>: where \<open>spec_msg\<close> is defined,
  \<open>pb_encode\<close> emits exactly those bytes. It carries the two-pass schemes of the code: the
  length prefix of a submessage or packed array is right, and the size found on a sizing
  stream is the number of bytes the second pass writes.
\<close>

definition wire_type_of :: "pb_type_t \<Rightarrow> pb_wire_type option" where
  "wire_type_of lt =
     (if lt \<le> PB_LTYPE_SVARINT then Some PB_WT_VARINT
      else if lt = PB_LTYPE_FIXED32 then Some PB_WT_32BIT
      else if lt = PB_LTYPE_FIXED64 then Some PB_WT_64BIT
      else if lt \<le> PB_LTYPE_SUBMESSAGE \<or> lt = PB_LTYPE_FIXED_LENGTH_BYTES then Some PB_WT_STRING
      else None)"

definition spec_field_tag :: "pb_field \<Rightarrow> byte list option" where
  "spec_field_tag f = map_option (\<lambda>wt. spec_tag wt (tag f)) (wire_type_of (PB_LTYPE (ftype f)))"

definition spec_delimited :: "byte list \<Rightarrow> byte list" where
  "spec_delimited bs = spec_varint (length bs) @ bs"

definition spec_item :: "mem \<Rightarrow> (pb_field list \<Rightarrow> addr \<Rightarrow> byte list option) \<Rightarrow> pb_field \<Rightarrow> addr \<Rightarrow> byte list option" where
  "spec_item m rec f a =
     (let lt = PB_LTYPE (ftype f); sz = data_size f in
      if lt = PB_LTYPE_BOOL
      then map_option (\<lambda>v. spec_varint (if v then 1 else 0)) (safe_read_bool m a)
      else if lt = PB_LTYPE_VARINT
      then (if int_size sz then map_option (\<lambda>v. spec_varint (unat v)) (load_sx m a sz) else None)
      else if lt = PB_LTYPE_UVARINT
      then (if int_size sz then map_option (\<lambda>v. spec_varint (unat v)) (load_zx m a sz) else None)
      else if lt = PB_LTYPE_SVARINT
      then (if int_size sz then map_option (\<lambda>v. spec_varint (zigzag_nat (sint v))) (load_sx m a sz) else None)
      else if lt = PB_LTYPE_FIXED32 then load_bytes m a 4
      else if lt = PB_LTYPE_FIXED64 then load_bytes m a 8
      else if lt = PB_LTYPE_BYTES
      then (if a = 0 then Some (spec_delimited [])
            else do {
              n \<leftarrow> load_u32 m a;
              if PB_ATYPE (ftype f) = PB_ATYPE_STATIC \<and> unat n + 4 > unat sz then None
              else map_option spec_delimited (load_bytes m (a + 4) (unat n))
            })
      else if lt = PB_LTYPE_STRING
      then (if a = 0 then Some (spec_delimited [])
            else do {
              n \<leftarrow> strnlen_loop m a
                 (if PB_ATYPE (ftype f) = PB_ATYPE_POINTER then 2 ^ 64 - 1 else unat sz);
              map_option spec_delimited (load_bytes m a n)
            })
      else if lt = PB_LTYPE_SUBMESSAGE
      then do { fs \<leftarrow> ptr_fields (ptr f); map_option spec_delimited (rec fs a) }
      else if lt = PB_LTYPE_FIXED_LENGTH_BYTES
      then map_option spec_delimited (load_bytes m a (unat sz))
      else None)"

fun spec_items :: "(addr \<Rightarrow> byte list option) \<Rightarrow> pb_field \<Rightarrow> nat \<Rightarrow> addr \<Rightarrow> byte list option" where
  "spec_items item f 0 p = Some []"
| "spec_items item f (Suc k) p = do {
     x \<leftarrow> item p;
     xs \<leftarrow> spec_items item f k (p + uint (data_size f));
     Some (x @ xs)
   }"

text \<open>An entry of an array: pointer arrays of strings and bytes hold pointers.\<close>

definition spec_entry :: "mem \<Rightarrow> (addr \<Rightarrow> byte list option) \<Rightarrow> pb_field \<Rightarrow> addr \<Rightarrow> byte list option" where
  "spec_entry m item f p = do {
     t \<leftarrow> spec_field_tag f;
     x \<leftarrow> (if PB_ATYPE (ftype f) = PB_ATYPE_POINTER \<and>
              (PB_LTYPE (ftype f) = PB_LTYPE_STRING \<or> PB_LTYPE (ftype f) = PB_LTYPE_BYTES)
           then do { q \<leftarrow> load_ptr m p; item q }
           else item p);
     Some (t @ x)
   }"

definition spec_array :: "mem \<Rightarrow> (addr \<Rightarrow> byte list option) \<Rightarrow> pb_field \<Rightarrow> nat \<Rightarrow> addr \<Rightarrow> byte list option" where
  "spec_array m item f count p =
     (if count = 0 then Some []
      else if PB_ATYPE (ftype f) \<noteq> PB_ATYPE_POINTER \<and> count > unat (array_size f) then None
      else if PB_LTYPE (ftype f) \<le> PB_LTYPE_LAST_PACKABLE
      then map_option (\<lambda>bs. spec_tag PB_WT_STRING (tag f) @ spec_delimited bs) (spec_items item f count p)
      else spec_items (spec_entry m item f) f count p)"

definition spec_tagged :: "pb_field \<Rightarrow> byte list option \<Rightarrow> byte list option" where
  "spec_tagged f r = do { t \<leftarrow> spec_field_tag f; x \<leftarrow> r; Some (t @ x) }"

text \<open>Presence of an optional field: its has-field, its pointer, or the proto3 rule.\<close>

definition spec_has :: "nat \<Rightarrow> mem \<Rightarrow> pb_field \<Rightarrow> addr \<Rightarrow> bool option" where
  "spec_has n m f a =
     (if size_offset f \<noteq> 0 then safe_read_bool m (a + size_off f)
      else do {
        dflt \<leftarrow> pb_check_proto3_default_value n m f a;
        if PB_ATYPE (ftype f) = PB_ATYPE_POINTER then map_option (\<lambda>p. p \<noteq> 0) (load_ptr m a)
        else Some (\<not> dflt)
      })"

definition spec_basic :: "nat \<Rightarrow> mem \<Rightarrow> (pb_field list \<Rightarrow> addr \<Rightarrow> byte list option) \<Rightarrow> pb_field \<Rightarrow> addr \<Rightarrow> byte list option" where
  "spec_basic n m rec f a = do {
     p \<leftarrow> (if PB_ATYPE (ftype f) = PB_ATYPE_POINTER then load_ptr m a else Some a);
     if PB_HTYPE (ftype f) = PB_HTYPE_REQUIRED
     then (if p = 0 then None else spec_tagged f (spec_item m rec f p))
     else if PB_HTYPE (ftype f) = PB_HTYPE_OPTIONAL
     then do {
       has \<leftarrow> spec_has n m f a;
       if has then spec_tagged f (spec_item m rec f p) else Some []
     }
     else if PB_HTYPE (ftype f) = PB_HTYPE_REPEATED
     then do {
       count \<leftarrow> (if size_offset f \<noteq> 0 then load_u32 m (a + size_off f) else Some (array_size f));
       spec_array m (spec_item m rec f) f (unat count) p
     }
     else if size_offset f = 0 then None
     else do {
       which \<leftarrow> load_u32 m (a + size_off f);
       if which = tag f then spec_tagged f (spec_item m rec f p) else Some []
     }
   }"

definition spec_field :: "nat \<Rightarrow> mem \<Rightarrow> (pb_field list \<Rightarrow> addr \<Rightarrow> byte list option) \<Rightarrow> pb_field \<Rightarrow> addr \<Rightarrow> byte list option" where
  "spec_field n m rec f a =
     (if PB_LTYPE (ftype f) > PB_LTYPE_FIXED_LENGTH_BYTES then None
      else if PB_LTYPE (ftype f) = PB_LTYPE_EXTENSION
      then do { e \<leftarrow> load_ptr m a; if e = 0 then Some [] else None }
      else if PB_ATYPE (ftype f) = PB_ATYPE_CALLBACK
      then do { fn \<leftarrow> load_ptr m a; if fn = 0 then Some [] else None }
      else if PB_ATYPE (ftype f) = PB_ATYPE_STATIC \<or> PB_ATYPE (ftype f) = PB_ATYPE_POINTER
      then spec_basic n m rec f a
      else None)"

text \<open>All fields from number \<open>i\<close> on, and the message.\<close>

fun spec_fields :: "(pb_field \<Rightarrow> addr \<Rightarrow> byte list option) \<Rightarrow> pb_field list \<Rightarrow> addr \<Rightarrow> nat list \<Rightarrow> byte list option" where
  "spec_fields enc fs src [] = Some []"
| "spec_fields enc fs src (i # is) = do {
     x \<leftarrow> enc (fs ! i) (src + data_pos fs i);
     xs \<leftarrow> spec_fields enc fs src is;
     Some (x @ xs)
   }"

fun spec_msg :: "nat \<Rightarrow> mem \<Rightarrow> pb_field list \<Rightarrow> addr \<Rightarrow> byte list option" where
  "spec_msg 0 m fs src = None"
| "spec_msg (Suc n) m fs src =
     (if terminated fs
      then spec_fields (spec_field (Suc n) m (spec_msg n m)) fs src [0..<n_fields fs]
      else None)"

declare spec_msg.simps [simp del]

subsection \<open>Facts: numbers\<close>

lemma unat_zigzag: "unat (zigzag v) = zigzag_nat (sint v)"
proof -
  have b: "0 \<le> uint v" "uint v < 2 ^ 64" using uint_lt2p [of v] by simp_all
  have p: "uint (push_bit 1 v) = (2 * uint v) mod 2 ^ 64"
    by (simp add: uint_word_ariths ac_simps)
  have n: "uint (NOT (push_bit 1 v)) = 2 ^ 64 - 1 - uint (push_bit 1 v)"
    by (rule uint_not)
  have c: "(2 * uint v) mod 2 ^ 64 = (if uint v < 2 ^ 63 then 2 * uint v else 2 * uint v - 2 ^ 64)"
  proof (cases "uint v < 2 ^ 63")
    case True
    then show ?thesis using b by simp
  next
    case False
    have "(2 * uint v) mod 2 ^ 64 = (2 * uint v - 2 ^ 64) mod 2 ^ 64" by simp
    also have "\<dots> = 2 * uint v - 2 ^ 64" using b False by (intro mod_pos_pos_trivial) auto
    finally show ?thesis using False by simp
  qed
  have "int (unat (zigzag v)) = int (zigzag_nat (sint v))"
    unfolding uint_nat [symmetric] zigzag_def zigzag_nat_def sint_64_cases
    using b p n c by (simp del: push_bit_eq_mult)
  then show ?thesis by (simp only: of_nat_eq_iff)
qed

lemma fixed32_bytes_le: "fixed32_bytes v = le_bytes 4 v"
  by (simp add: fixed32_bytes_def and_FF le_bytes_numeral del: drop_bit_eq_div)

lemma fixed64_bytes_le: "fixed64_bytes v = le_bytes 8 v"
  by (simp add: fixed64_bytes_def and_FF le_bytes_numeral del: drop_bit_eq_div)

lemma length_spec_delimited [simp]:
  "length (spec_delimited bs) = length (spec_varint (length bs)) + length bs"
  by (simp add: spec_delimited_def)

subsection \<open>The encoders emit the wire format\<close>

context byte_sink
begin

lemma emits_string:
  assumes "load_bytes m a (unat sz) = Some bs"
  shows "emits (\<lambda>s. pb_encode_string m s a sz) (spec_delimited bs)"
proof -
  have "length bs = unat sz" using assms by (rule load_bytes_length)
  with assms show ?thesis
    using emits_then [OF emits_varint emits_write, of m "Ptr a" sz bs m sz]
    by (simp add: pb_encode_string_def spec_delimited_def)
qed

lemma emits_tag: "emits (\<lambda>s. pb_encode_tag m s wt fn) (spec_tag wt fn)"
  using emits_varint [of m "push_bit 3 (ucast fn) OR wt_code wt"]
  by (simp only: pb_encode_tag_def spec_tag_def tag_value)

lemma emits_field_tag:
  assumes "spec_field_tag f = Some t"
  shows "emits (\<lambda>s. pb_encode_tag_for_field m s f) t"
proof -
  have le3: "lt = 0 \<or> lt = 1 \<or> lt = 2 \<or> lt = 3" if "lt \<le> (3 :: 8 word)" for lt
    using that by (simp add: word_le_nat_alt word_unat_eq_iff) linarith
  have le8: "lt = 4 \<or> lt = 5 \<or> lt = 6 \<or> lt = 7 \<or> lt = 8 \<or> lt \<le> 3" if "lt \<le> (8 :: 8 word)" for lt
    using that by (simp add: word_le_nat_alt word_unat_eq_iff) linarith
  obtain wt where wt: "wire_type_of (PB_LTYPE (ftype f)) = Some wt" and t: "t = spec_tag wt (tag f)"
    using assms by (auto simp: spec_field_tag_def)
  have "pb_encode_tag_for_field m s f = pb_encode_tag m s wt (tag f)" for s :: "'st pb_ostream"
    using wt by (auto simp: pb_encode_tag_for_field_def wire_type_of_def Let_def
        split: if_splits dest!: le3 le8)
  with t show ?thesis using emits_tag by simp
qed

lemma emits_load_word:
  assumes "load_bytes m a n = Some bs" and "LENGTH('a) = 8 * n"
  shows "le_bytes n (le_word bs :: 'a::len word) = bs" and "load_word m a n = Some (le_word bs :: 'a word)"
  using assms le_bytes_le_word [of bs, where ?'a = 'a] load_bytes_length [OF assms(1)]
  by (simp_all add: load_word_def)

lemma emits_fixed32:
  assumes "load_bytes m a 4 = Some bs"
  shows "emits (\<lambda>s. pb_encode_fixed32 m s a) bs"
  using assms emits_load_word [OF assms, where ?'a = 32] load_bytes_length [OF assms]
    emits_write [of m "Arr bs" 4 bs]
  by (simp add: pb_encode_fixed32_def load_u32_def fixed32_bytes_le)

lemma emits_fixed64:
  assumes "load_bytes m a 8 = Some bs"
  shows "emits (\<lambda>s. pb_encode_fixed64 m s a) bs"
  using assms emits_load_word [OF assms, where ?'a = 64] load_bytes_length [OF assms]
    emits_write [of m "Arr bs" 8 bs]
  by (simp add: pb_encode_fixed64_def fixed64_bytes_le)

lemma emits_svarint: "emits (\<lambda>s. pb_encode_svarint m s v) (spec_varint (zigzag_nat (sint v)))"
  using emits_varint [of m "zigzag v"] by (simp add: pb_encode_svarint_def unat_zigzag)

text \<open>The size pass and the real pass of a submessage agree; the second runs on a substream
  whose limit is exactly the size found by the first.\<close>

lemma emits_submessage:
  assumes R: "emits (\<lambda>s. rec s fs a) bs"
  shows "emits (\<lambda>s. pb_encode_submessage m rec s fs a) (spec_delimited bs)"
proof (rule emitsI)
  let ?n = "of_nat (length bs) :: size_t"
  have sizing: "rec PB_OSTREAM_SIZING fs a =
      Some (True, PB_OSTREAM_SIZING\<lparr>os_bytes_written := ?n\<rparr>)" if "length bs < 2 ^ 64"
    using emits_sizing [OF R, of PB_OSTREAM_SIZING] that by (simp add: PB_OSTREAM_SIZING_def)
  have n: "unat ?n = length bs" if "length bs < 2 ^ 64"
    using that by (simp add: unat_of_nat)
  have V: "emits (\<lambda>s. pb_encode_varint m s ?n) (spec_varint (length bs))" if "length bs < 2 ^ 64"
    using emits_varint [of m ?n] n that by simp
  {
    fix s :: "'st pb_ostream"
    assume s: "os_callback s = None" and len: "length (spec_delimited bs) < 2 ^ 64"
    then have len': "length bs < 2 ^ 64" "length (spec_varint (length bs)) < 2 ^ 64" by simp_all
    show "pb_encode_submessage m rec s fs a =
        Some (True, s\<lparr>os_bytes_written := os_bytes_written s + of_nat (length (spec_delimited bs))\<rparr>)"
      using sizing [OF len'(1)] emits_sizing [OF V [OF len'(1)] s len'(2)] s
      by (simp add: pb_encode_submessage_def PB_OSTREAM_SIZING_def pb_write_def add.assoc)
  next
    fix s :: "'st pb_ostream"
    assume s: "on_sink s" and fits: "fits s (length (spec_delimited bs))"
    have len: "length bs < 2 ^ 64" using fits_small [OF fits] by simp
    have fv: "fits s (length (spec_varint (length bs)))" using fits by (simp add: fits_def)
    obtain s1 where s1: "pb_encode_varint m s ?n = Some (True, s1)"
      "advanced s (spec_varint (length bs)) s1"
      using emits_fits [OF V [OF len] s fv] by auto
    note adv = advanced_on_sink [OF s1(2) s fv]
    then have f1: "fits s1 (length bs)" using fits by simp
    then have room: "\<not> os_max_size s1 < os_bytes_written s1 + ?n"
      using unat_64 [of "os_max_size s1"] n [OF len]
      by (simp add: fits_def word_less_nat_alt unat_add_no_wrap)
    let ?sub = "\<lparr>os_callback = Some cb, os_state = os_state s1, os_max_size = ?n,
                 os_bytes_written = 0, os_errmsg = None\<rparr>"
    have sub: "on_sink ?sub" "fits ?sub (length bs)"
      using adv(1) f1 n [OF len] by (auto simp: on_sink_def fits_def)
    obtain s2 where s2: "rec ?sub fs a = Some (True, s2)" "advanced ?sub bs s2"
      using emits_fits [OF R sub] by auto
    have cbs: "os_callback s1 = Some cb" using adv(1) by (simp add: on_sink_def)
    have "os_bytes_written s2 = ?n" using s2(2) by (simp add: advanced_def)
    then have "pb_encode_submessage m rec s fs a = Some (True, s1\<lparr>os_bytes_written :=
        os_bytes_written s1 + ?n, os_state := os_state s2, os_errmsg := os_errmsg s2\<rparr>)"
      using sizing [OF len] s1(1) s2(1) room cbs
      by (simp add: pb_encode_submessage_def PB_OSTREAM_SIZING_def)
    moreover have "advanced s1 bs (s1\<lparr>os_bytes_written :=
        os_bytes_written s1 + ?n, os_state := os_state s2, os_errmsg := os_errmsg s2\<rparr>)"
      using s2(2) by (auto simp: advanced_def)
    ultimately show "\<exists>s'. pb_encode_submessage m rec s fs a = Some (True, s') \<and>
        advanced s (spec_delimited bs) s'"
      using advanced_trans [OF s1(2)] by (auto simp: spec_delimited_def)
  next
    fix s :: "'st pb_ostream"
    assume s: "on_sink s" and full: "\<not> fits s (length (spec_delimited bs))"
      and max: "unat (os_max_size s) + length (spec_delimited bs) < 2 ^ 64"
    have len: "length bs < 2 ^ 64" using max by simp
    show "failed (pb_encode_submessage m rec s fs a)"
    proof (cases "fits s (length (spec_varint (length bs)))")
      case False
      then have "failed (pb_encode_varint m s ?n)"
        using emits_full [OF V [OF len] s] max by simp
      then show ?thesis
        using sizing [OF len] by (auto simp: failed_def pb_encode_submessage_def PB_OSTREAM_SIZING_def)
    next
      case True
      obtain s1 where s1: "pb_encode_varint m s ?n = Some (True, s1)"
        "advanced s (spec_varint (length bs)) s1"
        using emits_fits [OF V [OF len] s True] by auto
      note adv = advanced_on_sink [OF s1(2) s True]
      then have f1: "\<not> fits s1 (length bs)" using full by simp
      have "unat (os_bytes_written s1) + length bs < 2 ^ 64"
        using advanced_bytes [OF s1(2) s True] max s by (simp add: on_sink_def)
      then have "os_max_size s1 < os_bytes_written s1 + ?n"
        using f1 n [OF len] by (simp add: fits_def word_less_nat_alt unat_add_no_wrap)
      then show ?thesis
        using sizing [OF len] s1(1) adv(1)
        by (auto simp: failed_def pb_encode_submessage_def PB_OSTREAM_SIZING_def on_sink_def
            os_return_error_def split: option.splits)
    qed
  }
qed

text \<open>What a submessage encoder has to satisfy for the fields above it.\<close>

definition emits_all :: "'st msg_encoder \<Rightarrow> (pb_field list \<Rightarrow> addr \<Rightarrow> byte list option) \<Rightarrow> bool" where
  "emits_all rec R \<longleftrightarrow> (\<forall>fs a bs. R fs a = Some bs \<longrightarrow> emits (\<lambda>s. rec s fs a) bs)"

abbreviation encoder_of :: "mem \<Rightarrow> 'st msg_encoder \<Rightarrow> pb_field \<Rightarrow> 'st encoder option" where
  "encoder_of m rec f \<equiv> PB_ENCODERS m rec ! unat (PB_LTYPE (ftype f))"

lemma emits_bytes:
  assumes "PB_LTYPE (ftype f) = PB_LTYPE_BYTES" and "spec_item m R f a = Some bs"
  shows "emits (\<lambda>s. pb_enc_bytes m s f a) bs"
proof (cases "a = 0")
  case True
  then show ?thesis
    using assms emits_string [of m 0 0 "[]"] by (simp add: spec_item_def pb_enc_bytes_def Let_def)
next
  case False
  then obtain n bs' where n: "load_u32 m a = Some n"
      "\<not> (PB_ATYPE (ftype f) = PB_ATYPE_STATIC \<and> unat n + 4 > unat (data_size f))"
      "load_bytes m (a + 4) (unat n) = Some bs'" "bs = spec_delimited bs'"
    using assms by (auto simp: spec_item_def Let_def bind_eq_Some_conv split: if_splits)
  have u: "unat (ucast n :: size_t) = unat n" "unat (ucast n + 4 :: size_t) = unat n + 4"
    "unat (ucast (data_size f) :: size_t) = unat (data_size f)"
    using unat_32 [of n] unat_32 [of "data_size f"] by (simp_all add: unat_ucast_mod unat_word_ariths)
  have "\<not> PB_BYTES_ARRAY_T_ALLOCSIZE (ucast n) < ucast n"
    and "\<not> (PB_ATYPE (ftype f) = PB_ATYPE_STATIC \<and>
      ucast (data_size f) < PB_BYTES_ARRAY_T_ALLOCSIZE (ucast n))"
    using n(2) u by (auto simp: PB_BYTES_ARRAY_T_ALLOCSIZE_def word_less_nat_alt)
  then show ?thesis
    using False n u emits_string [of m "a + 4" "ucast n" bs']
    by (auto simp: pb_enc_bytes_def Let_def)
qed

lemma emits_strnlen:
  assumes "PB_LTYPE (ftype f) = PB_LTYPE_STRING" and "spec_item m R f a = Some bs"
  shows "emits (\<lambda>s. pb_enc_string m s f a) bs"
proof (cases "a = 0")
  case True
  then show ?thesis
    using assms emits_string [of m 0 0 "[]"] by (simp add: spec_item_def pb_enc_string_def Let_def)
next
  case False
  let ?max = "if PB_ATYPE (ftype f) = PB_ATYPE_POINTER then - 1 else ucast (data_size f) :: size_t"
  have max: "unat ?max = (if PB_ATYPE (ftype f) = PB_ATYPE_POINTER then 2 ^ 64 - 1 else unat (data_size f))"
    using unat_32 [of "data_size f"] by (simp add: unat_ucast_mod unsigned_minus_1_eq_mask mask_eq_exp_minus_1)
  have bound: "strnlen_loop m p k = Some n \<Longrightarrow> n \<le> k" for p k n
    by (induction m p k arbitrary: n rule: strnlen_loop.induct) (auto split: option.splits if_splits)
  obtain n bs' where n: "strnlen_loop m a (unat ?max) = Some n"
      "load_bytes m a n = Some bs'" "bs = spec_delimited bs'"
    using assms False unfolding max by (auto simp: spec_item_def Let_def bind_eq_Some_conv)
  have "unat (of_nat n :: size_t) = n"
    using bound [OF n(1)] unat_64 [of ?max] by (simp add: unat_of_nat)
  then show ?thesis
    using False n emits_string [of m a "of_nat n" bs'] by (simp add: pb_enc_string_def Let_def)
qed

lemma emits_item:
  assumes R: "emits_all rec R" and item: "spec_item m R f a = Some bs"
  shows "emits (\<lambda>s. enc_call (encoder_of m rec f) s f a) bs"
proof -
  let ?lt = "PB_LTYPE (ftype f)"
  consider "?lt = 0" | "?lt = 1" | "?lt = 2" | "?lt = 3" | "?lt = 4" | "?lt = 5" | "?lt = 6" | "?lt = 7"
    | "?lt = 8" | "?lt = 10"
    using item by (auto simp: spec_item_def Let_def split: if_splits)
  then show ?thesis
  proof cases
    case 1
    with item show ?thesis
      using emits_varint [of m 0] emits_varint [of m 1]
      by (auto simp: spec_item_def Let_def PB_ENCODERS_def enc_call_def pb_enc_bool_def split: if_splits)
  next
    case 2
    with item show ?thesis
      using emits_varint [of m]
      by (auto simp: spec_item_def Let_def PB_ENCODERS_def enc_call_def pb_enc_varint_def split: if_splits)
  next
    case 3
    with item show ?thesis
      using emits_varint [of m]
      by (auto simp: spec_item_def Let_def PB_ENCODERS_def enc_call_def pb_enc_uvarint_def split: if_splits)
  next
    case 4
    with item show ?thesis
      using emits_svarint [of m]
      by (auto simp: spec_item_def Let_def PB_ENCODERS_def enc_call_def pb_enc_svarint_def split: if_splits)
  next
    case 5
    with item show ?thesis
      using emits_fixed32 [of m]
      by (auto simp: spec_item_def Let_def PB_ENCODERS_def enc_call_def pb_enc_fixed32_def split: if_splits)
  next
    case 6
    with item show ?thesis
      using emits_fixed64 [of m]
      by (auto simp: spec_item_def Let_def PB_ENCODERS_def enc_call_def pb_enc_fixed64_def split: if_splits)
  next
    case 7
    with item show ?thesis
      using emits_bytes [of f m R a bs] by (simp add: PB_ENCODERS_def enc_call_def)
  next
    case 8
    with item show ?thesis
      using emits_strnlen [of f m R a bs] by (simp add: PB_ENCODERS_def enc_call_def)
  next
    case 9
    with item obtain fs bs' where fs: "ptr_fields (ptr f) = Some fs" "R fs a = Some bs'"
      "bs = spec_delimited bs'"
      by (auto simp: spec_item_def Let_def bind_eq_Some_conv)
    then have "ptr f \<noteq> PNull" by auto
    with 9 fs R show ?thesis
      using emits_submessage [of rec fs a bs' m]
      by (simp add: PB_ENCODERS_def enc_call_def pb_enc_submessage_def emits_all_def)
  next
    case 10
    have "unat (ucast (data_size f) :: size_t) = unat (data_size f)"
      using unat_32 [of "data_size f"] by (simp add: unat_ucast_mod)
    with 10 item show ?thesis
      using emits_string [of m a "ucast (data_size f)"]
      by (auto simp: spec_item_def Let_def PB_ENCODERS_def enc_call_def pb_enc_fixed_length_bytes_def)
  qed
qed

lemma emits_packed_items:
  assumes "\<And>p bs. item p = Some bs \<Longrightarrow> emits (\<lambda>s. func s f p) bs"
  shows "spec_items item f k p = Some bs \<Longrightarrow> emits (enc_packed_items func f k p) bs"
proof (induction k arbitrary: p bs)
  case 0
  then show ?case using emits_nil by simp
next
  case (Suc k)
  then obtain x xs where "item p = Some x" "bs = x @ xs"
    "spec_items item f k (p + uint (data_size f)) = Some xs"
    by (auto simp: bind_eq_Some_conv)
  with assms Suc.IH show ?case
    using emits_then [of "\<lambda>s. func s f p" x "enc_packed_items func f k (p + uint (data_size f))" xs]
    by simp
qed

lemma emits_entries:
  assumes item: "\<And>p bs. item p = Some bs \<Longrightarrow> emits (\<lambda>s. func s f p) bs"
  shows "spec_items (spec_entry m item f) f k p = Some bs \<Longrightarrow> emits (enc_items m func f k p) bs"
proof (induction k arbitrary: p bs)
  case 0
  then show ?case using emits_nil by simp
next
  case (Suc k)
  let ?deref = "PB_ATYPE (ftype f) = PB_ATYPE_POINTER \<and>
     (PB_LTYPE (ftype f) = PB_LTYPE_STRING \<or> PB_LTYPE (ftype f) = PB_LTYPE_BYTES)"
  obtain y xs where y: "spec_entry m item f p = Some y" "bs = y @ xs"
    "spec_items (spec_entry m item f) f k (p + uint (data_size f)) = Some xs"
    using Suc.prems by (auto simp: bind_eq_Some_conv)
  then obtain t x where t: "spec_field_tag f = Some t" "y = t @ x"
    "(if ?deref then do { q \<leftarrow> load_ptr m p; item q } else item p) = Some x"
    by (auto simp: bind_eq_Some_conv spec_entry_def)
  have "emits (\<lambda>s. if ?deref then do { q \<leftarrow> load_ptr m p; func s f q } else func s f p) x"
    using t(3) item by (auto simp: bind_eq_Some_conv split: if_splits)
  from emits_then [OF this Suc.IH [OF y(3)]]
  show ?case
    using emits_then [OF emits_field_tag [OF t(1)]] t(2) y(2) by simp
qed

lemma emits_huge: "2 ^ 64 \<le> length bs \<Longrightarrow> emits A bs"
  by (rule emitsI) (auto dest: fits_small)

lemma spec_items_length:
  assumes "\<And>p bs. item p = Some bs \<Longrightarrow> length bs = n"
  shows "spec_items item f k p = Some bs \<Longrightarrow> length bs = n * k"
proof (induction k arbitrary: p bs)
  case (Suc k)
  then show ?case using assms by (auto simp: bind_eq_Some_conv)
qed simp

lemma packed_size:
  assumes item: "\<And>p bs. spec_item m R f p = Some bs \<Longrightarrow> emits (\<lambda>s. func s f p) bs"
    and xs: "spec_items (spec_item m R f) f (unat (c :: u32)) p = Some xs" and len: "length xs < 2 ^ 64"
  shows "(if PB_LTYPE (ftype f) = PB_LTYPE_FIXED32 then Some (True, 4 * ucast c)
          else if PB_LTYPE (ftype f) = PB_LTYPE_FIXED64 then Some (True, 8 * ucast c)
          else do {
            (ok, sizestream) \<leftarrow> enc_packed_items func f (unat (ucast c :: size_t)) p PB_OSTREAM_SIZING;
            Some (ok, os_bytes_written sizestream)
          }) = Some (True, of_nat (length xs) :: size_t)"
proof -
  have u: "unat (ucast c :: size_t) = unat c"
    using unat_32 [of c] by (simp add: unat_ucast_mod)
  then have c: "of_nat (unat c) = (ucast c :: size_t)"
    by (simp add: word_unat_eq_iff unat_of_nat)
  have "length bs = 4" if "PB_LTYPE (ftype f) = PB_LTYPE_FIXED32" "spec_item m R f q = Some bs" for q bs
    using that by (auto simp: spec_item_def dest: load_bytes_length)
  then have four: "length xs = 4 * unat c" if "PB_LTYPE (ftype f) = PB_LTYPE_FIXED32"
    using spec_items_length [OF _ xs, of 4] that by blast
  have "length bs = 8" if "PB_LTYPE (ftype f) = PB_LTYPE_FIXED64" "spec_item m R f q = Some bs" for q bs
    using that by (auto simp: spec_item_def dest: load_bytes_length)
  then have eight: "length xs = 8 * unat c" if "PB_LTYPE (ftype f) = PB_LTYPE_FIXED64"
    using spec_items_length [OF _ xs, of 8] that by blast
  have "enc_packed_items func f (unat c) p PB_OSTREAM_SIZING =
      Some (True, PB_OSTREAM_SIZING\<lparr>os_bytes_written := of_nat (length xs)\<rparr>)"
    using emits_sizing [OF emits_packed_items [of "spec_item m R f" func, OF item xs] _ len, of PB_OSTREAM_SIZING]
    by (simp add: PB_OSTREAM_SIZING_def)
  with u have packed: "do {
       (ok, sizestream) \<leftarrow> enc_packed_items func f (unat (ucast c :: size_t)) p PB_OSTREAM_SIZING;
       Some (ok, os_bytes_written sizestream)
     } = Some (True, of_nat (length xs))"
    by (simp add: PB_OSTREAM_SIZING_def)
  show ?thesis unfolding packed using four eight c by simp
qed

lemma emits_array:
  assumes item: "\<And>p bs. spec_item m R f p = Some bs \<Longrightarrow> emits (\<lambda>s. func s f p) bs"
    and bs: "spec_array m (spec_item m R f) f (unat (c :: u32)) p = Some bs"
  shows "emits (\<lambda>s. encode_array m s f p (ucast c) func) bs"
proof -
  have u: "unat (ucast c :: size_t) = unat c" "unat (ucast (array_size f) :: size_t) = unat (array_size f)"
    using unat_32 [of c] unat_32 [of "array_size f"] by (simp_all add: unat_ucast_mod)
  have lt: "ucast (array_size f) < (ucast c :: size_t) \<longleftrightarrow> array_size f < c"
    using u by (simp add: word_less_nat_alt)
  have c0: "(ucast c :: size_t) = 0 \<longleftrightarrow> c = 0"
    using u(1) by (auto simp: word_unat_eq_iff)
  consider "c = 0" | "c \<noteq> 0" "PB_LTYPE (ftype f) \<le> PB_LTYPE_LAST_PACKABLE"
    | "c \<noteq> 0" "\<not> PB_LTYPE (ftype f) \<le> PB_LTYPE_LAST_PACKABLE" by blast
  then show ?thesis
  proof cases
    case 1
    with bs emits_nil show ?thesis by (simp add: encode_array_def spec_array_def)
  next
    case 2
    then have small: "\<not> (PB_ATYPE (ftype f) \<noteq> PB_ATYPE_POINTER \<and> ucast (array_size f) < (ucast c :: size_t))"
      using bs lt by (auto simp: spec_array_def word_less_nat_alt unat_eq_0 split: if_splits)
    obtain xs where xs: "spec_items (spec_item m R f) f (unat c) p = Some xs"
      "bs = spec_tag PB_WT_STRING (tag f) @ spec_delimited xs"
      using bs 2 small lt by (auto simp: spec_array_def word_less_nat_alt unat_eq_0 split: if_splits)
    show ?thesis
    proof (cases "length xs < 2 ^ 64")
      case False
      then show ?thesis using xs(2) by (intro emits_huge) simp
    next
      case True
      let ?n = "of_nat (length xs) :: size_t"
      let ?W = "\<lambda>s. case os_callback s of None \<Rightarrow> pb_write m s (Ptr 0) ?n
                 | Some _ \<Rightarrow> enc_packed_items func f (unat (ucast c :: size_t)) p s"
      have items: "emits (enc_packed_items func f (unat (ucast c :: size_t)) p) xs"
        using emits_packed_items [of "spec_item m R f" func, OF item xs(1)] u(1) by simp
      have "emits ?W xs"
      proof (rule emitsI)
        fix s :: "'st pb_ostream" assume "os_callback s = None"
        then show "?W s = Some (True, s\<lparr>os_bytes_written := os_bytes_written s + of_nat (length xs)\<rparr>)"
          by (simp add: pb_write_def)
      qed (use emits_fits [OF items] emits_full [OF items] in \<open>auto simp: on_sink_def\<close>)
      moreover have "unat ?n = length xs" using True by (simp add: unat_of_nat)
      ultimately have "emits (\<lambda>s. cthen (pb_encode_varint m s ?n) ?W) (spec_delimited xs)"
        using emits_then [OF emits_varint, of ?W xs m ?n] by (simp add: spec_delimited_def)
      moreover have "encode_array m s f p (ucast c) func =
          cthen (pb_encode_tag m s PB_WT_STRING (tag f)) (\<lambda>s. cthen (pb_encode_varint m s ?n) ?W)" for s
        unfolding encode_array_def
        by (subst packed_size [of m R f func, OF item xs(1) True]) (use 2 small c0 in auto)
      ultimately show ?thesis using emits_then [OF emits_tag] xs(2) by simp
    qed
  next
    case 3
    then have small: "\<not> (PB_ATYPE (ftype f) \<noteq> PB_ATYPE_POINTER \<and> ucast (array_size f) < (ucast c :: size_t))"
      and xs: "spec_items (spec_entry m (spec_item m R f) f) f (unat c) p = Some bs"
      using bs lt by (auto simp: spec_array_def word_less_nat_alt unat_eq_0 split: if_splits)
    have "encode_array m s f p (ucast c) func = enc_items m func f (unat c) p s" for s :: "'st pb_ostream"
      using 3 small u(1) c0 by (auto simp: encode_array_def)
    then show ?thesis
      using emits_entries [of "spec_item m R f" func, OF item xs] by simp
  qed
qed

lemma emits_tagged:
  assumes "\<And>p bs. spec_item m R f p = Some bs \<Longrightarrow> emits (\<lambda>s. func s f p) bs"
    and "spec_tagged f (spec_item m R f p) = Some bs"
  shows "emits (\<lambda>s. cthen (pb_encode_tag_for_field m s f) (\<lambda>s. func s f p)) bs"
proof -
  obtain t x where "spec_field_tag f = Some t" "spec_item m R f p = Some x" "bs = t @ x"
    using assms(2) by (auto simp: spec_tagged_def bind_eq_Some_conv)
  with assms(1) emits_then [OF emits_field_tag] show ?thesis by blast
qed

lemma arr_get_encoder:
  "PB_LTYPE (ftype f) \<le> PB_LTYPE_FIXED_LENGTH_BYTES \<Longrightarrow>
     arr_get (PB_ENCODERS m rec) (unat (PB_LTYPE (ftype f))) = Some (encoder_of m rec f)"
  by (simp add: arr_get_def PB_ENCODERS_def word_le_nat_alt)

lemma emits_basic:
  assumes R: "emits_all rec R" and lt: "PB_LTYPE (ftype f) \<le> PB_LTYPE_FIXED_LENGTH_BYTES"
    and bs: "spec_basic n m R f a = Some bs"
  shows "emits (\<lambda>s. encode_basic_field n m rec s f a) bs"
proof -
  let ?E = "enc_call (encoder_of m rec f)"
  have item: "spec_item m R f p = Some x \<Longrightarrow> emits (\<lambda>s. ?E s f p) x" for p x
    using emits_item [OF R] by blast
  note tagged = emits_tagged [of m R f ?E, OF item]
  note func = arr_get_encoder [OF lt, of m rec]
  let ?P = "PB_ATYPE (ftype f) = PB_ATYPE_POINTER" and ?H = "PB_HTYPE (ftype f)"
  obtain p where p: "(if ?P then load_ptr m a else Some a) = Some p"
    using bs by (auto simp: spec_basic_def bind_eq_Some_conv)
  consider (req) "?H = PB_HTYPE_REQUIRED" | (opt) "?H = PB_HTYPE_OPTIONAL"
    | (rep) "?H = PB_HTYPE_REPEATED"
    | (one) "?H \<noteq> PB_HTYPE_REQUIRED" "?H \<noteq> PB_HTYPE_OPTIONAL" "?H \<noteq> PB_HTYPE_REPEATED" by blast
  then show ?thesis
  proof cases
    case req
    with bs p have "p \<noteq> 0" "spec_tagged f (spec_item m R f p) = Some bs"
      by (auto simp: spec_basic_def split: if_splits)
    with tagged req p func show ?thesis
      by (auto simp: encode_basic_field_def Let_def split: if_splits)
  next
    case opt
    with bs p obtain has where has: "spec_has n m f a = Some has"
      "(if has then spec_tagged f (spec_item m R f p) else Some []) = Some bs"
      by (auto simp: spec_basic_def bind_eq_Some_conv split: if_splits)
    have "encode_basic_field n m rec s f a =
       (if has then cthen (pb_encode_tag_for_field m s f) (\<lambda>s. ?E s f p) else Some (True, s))"
      for s :: "'st pb_ostream"
      using has(1) opt p func
      by (auto simp: encode_basic_field_def spec_has_def Let_def bind_eq_Some_conv split: if_splits)
    with has(2) tagged emits_nil show ?thesis by (auto split: if_splits)
  next
    case rep
    with bs p obtain c where c:
      "(if size_offset f \<noteq> 0 then load_u32 m (a + size_off f) else Some (array_size f)) = Some c"
      "spec_array m (spec_item m R f) f (unat c) p = Some bs"
      by (auto simp: spec_basic_def bind_eq_Some_conv split: if_splits)
    have "encode_basic_field n m rec s f a = encode_array m s f p (ucast c) ?E" for s :: "'st pb_ostream"
      using c(1) rep p func by (auto simp: encode_basic_field_def Let_def split: if_splits)
    with emits_array [of m R f ?E, OF item c(2)] show ?thesis by simp
  next
    case one
    with bs p obtain w where w: "size_offset f \<noteq> 0" "load_u32 m (a + size_off f) = Some w"
      "(if w = tag f then spec_tagged f (spec_item m R f p) else Some []) = Some bs"
      by (auto simp: spec_basic_def bind_eq_Some_conv split: if_splits)
    have "encode_basic_field n m rec s f a =
       (if w = tag f then cthen (pb_encode_tag_for_field m s f) (\<lambda>s. ?E s f p) else Some (True, s))"
      for s :: "'st pb_ostream"
      using w(1,2) one p func by (auto simp: encode_basic_field_def Let_def split: if_splits)
    with w(3) tagged emits_nil show ?thesis by (auto split: if_splits)
  qed
qed

lemma emits_field:
  assumes R: "emits_all rec R" and bs: "spec_field (Suc n) m R f a = Some bs"
  shows "emits (\<lambda>s. encode_any_field (Suc n) env m rec s f a) bs"
proof -
  have lt: "PB_LTYPE (ftype f) \<le> PB_LTYPE_FIXED_LENGTH_BYTES"
    using bs by (auto simp: spec_field_def not_less split: if_splits)
  consider (ext) "PB_LTYPE (ftype f) = PB_LTYPE_EXTENSION" "load_ptr m a = Some 0" "bs = []"
    | (cb) "PB_LTYPE (ftype f) \<noteq> PB_LTYPE_EXTENSION" "PB_ATYPE (ftype f) = PB_ATYPE_CALLBACK"
        "load_ptr m a = Some 0" "bs = []"
    | (basic) "PB_LTYPE (ftype f) \<noteq> PB_LTYPE_EXTENSION"
        "PB_ATYPE (ftype f) = PB_ATYPE_STATIC \<or> PB_ATYPE (ftype f) = PB_ATYPE_POINTER"
        "spec_basic (Suc n) m R f a = Some bs"
    using bs by (auto simp: spec_field_def bind_eq_Some_conv split: if_splits)
  then show ?thesis
  proof cases
    case ext
    with emits_nil show ?thesis by (simp add: encode_any_field_def encode_extension_field_def)
  next
    case cb
    with emits_nil show ?thesis
      by (simp add: encode_any_field_def encode_field_def encode_callback_field_def)
  next
    case basic
    with emits_basic [OF R lt basic(3)] show ?thesis
      by (simp add: encode_any_field_def encode_field_def)
  qed
qed

lemma emits_fields_loop:
  assumes t: "terminated fs" and enc: "\<And>f a bs. E f a = Some bs \<Longrightarrow> emits (\<lambda>s. enc s f a) bs"
  shows "i < n_fields fs \<Longrightarrow> n_fields fs - i \<le> k \<Longrightarrow>
     spec_fields E fs src [i..<n_fields fs] = Some bs \<Longrightarrow>
     emits (enc_fields_loop enc k (iter_at fs src i)) bs"
proof (induction k arbitrary: i bs)
  case 0
  then show ?case by simp
next
  case (Suc k)
  obtain x xs where x: "E (fs ! i) (src + data_pos fs i) = Some x" "bs = x @ xs"
    "spec_fields E fs src [Suc i..<n_fields fs] = Some xs"
    using Suc.prems by (auto simp: upt_conv_Cons bind_eq_Some_conv)
  let ?B = "\<lambda>s. if Suc i < n_fields fs then enc_fields_loop enc k (iter_at fs src (Suc i)) s
     else Some (True, s)"
  have "emits ?B xs"
    using Suc.IH [of "Suc i" xs] Suc.prems x(3) emits_nil by (cases "Suc i < n_fields fs") auto
  from emits_then [OF enc [OF x(1)] this]
  have "emits (\<lambda>s. cthen (enc s (fs ! i) (src + data_pos fs i)) ?B) bs" using x(2) by simp
  moreover have "enc_fields_loop enc (Suc k) (iter_at fs src i) =
      (\<lambda>s. cthen (enc s (fs ! i) (src + data_pos fs i)) ?B)"
    using Suc.prems(1) terminated_nth(3) [OF t]
    by (auto simp: fun_eq_iff field_at_def iter_next_at [OF t] intro!: arg_cong2 [where f = cthen])
  ultimately show ?case by simp
qed

theorem emits_msg: "spec_msg n m fs src = Some bs \<Longrightarrow> emits (\<lambda>s. pb_encode n env m s fs src) bs"
proof (induction n arbitrary: fs src bs)
  case 0
  then show ?case by (simp add: spec_msg.simps)
next
  case (Suc n)
  then have t: "terminated fs"
    and bs: "spec_fields (spec_field (Suc n) m (spec_msg n m)) fs src [0..<n_fields fs] = Some bs"
    by (auto simp: spec_msg.simps split: if_splits)
  have R: "emits_all (pb_encode n env m) (spec_msg n m)"
    using Suc.IH by (simp add: emits_all_def)
  show ?case
  proof (cases "n_fields fs = 0")
    case True
    with bs t emits_nil show ?thesis by (simp add: pb_encode.simps iter_begin_at)
  next
    case False
    have "emits (enc_fields_loop (encode_any_field (Suc n) env m (pb_encode n env m))
        (length fs) (iter_at fs src 0)) bs"
      by (rule emits_fields_loop [OF t _ _ _ bs]) (use False terminated_nth(3) [OF t] emits_field [OF R] in auto)
    with False t show ?thesis by (simp add: pb_encode.simps iter_begin_at)
  qed
qed

end

end
