(* ===== verification/CctMessages.thy ===== *)
theory CctMessages
  imports FieldIter
begin

section \<open>The log-transport messages (cct.nanopb.h, cct.nanopb.c)\<close>

text \<open>
  The message structs of GoogleDataTransport with their C layout, and the descriptor arrays
  that drive \<open>pb_encode\<close> and \<open>pb_decode\<close> on them. A pointer member carries the size of what
  it points to; \<open>sizeof(pb_bytes_array_t)\<close> is 8.

  Shown: for every message the field iterator, started on a struct, visits exactly the
  members named in the descriptor, at their C offsets, with their has- or count-member.
\<close>

subsection \<open>Enums and default values\<close>

definition gdt_cct_NetworkConnectionInfo_NetworkType_NONE :: int where
  "gdt_cct_NetworkConnectionInfo_NetworkType_NONE = - 1"

definition gdt_cct_NetworkConnectionInfo_MobileSubtype_UNKNOWN_MOBILE_SUBTYPE :: int where
  "gdt_cct_NetworkConnectionInfo_MobileSubtype_UNKNOWN_MOBILE_SUBTYPE = 0"

definition gdt_cct_QosTierConfiguration_QosTier_DEFAULT :: int where
  "gdt_cct_QosTierConfiguration_QosTier_DEFAULT = 0"

text \<open>The default constants, as the bytes of a 4-byte object.\<close>

definition enum_bytes :: "int \<Rightarrow> byte list" where
  "enum_bytes v = le_bytes 4 (word_of_int v :: u32)"

definition gdt_cct_NetworkConnectionInfo_network_type_default :: "byte list" where
  "gdt_cct_NetworkConnectionInfo_network_type_default =
     enum_bytes gdt_cct_NetworkConnectionInfo_NetworkType_NONE"

definition gdt_cct_NetworkConnectionInfo_mobile_subtype_default :: "byte list" where
  "gdt_cct_NetworkConnectionInfo_mobile_subtype_default =
     enum_bytes gdt_cct_NetworkConnectionInfo_MobileSubtype_UNKNOWN_MOBILE_SUBTYPE"

definition gdt_cct_LogRequest_qos_tier_default :: "byte list" where
  "gdt_cct_LogRequest_qos_tier_default =
     enum_bytes gdt_cct_QosTierConfiguration_QosTier_DEFAULT"

definition gdt_cct_QosTierConfiguration_log_source_default :: "byte list" where
  "gdt_cct_QosTierConfiguration_log_source_default = enum_bytes 0"

subsection \<open>Structs\<close>

definition gdt_cct_IosClientInfo :: cstruct where
  "gdt_cct_IosClientInfo =
     [c_ptr ''os_major_version'' 8,
      c_ptr ''os_full_version'' 8,
      c_ptr ''application_build'' 8,
      c_ptr ''country'' 8,
      c_ptr ''model'' 8,
      c_ptr ''language_code'' 8,
      c_ptr ''application_bundle_id'' 8]"

definition gdt_cct_ClientInfo :: cstruct where
  "gdt_cct_ClientInfo =
     [c_bool ''has_client_type'',
      c_enum ''client_type'',
      c_bool ''has_ios_client_info'',
      c_struct ''ios_client_info'' gdt_cct_IosClientInfo]"

definition gdt_cct_NetworkConnectionInfo :: cstruct where
  "gdt_cct_NetworkConnectionInfo =
     [c_bool ''has_network_type'',
      c_enum ''network_type'',
      c_bool ''has_mobile_subtype'',
      c_enum ''mobile_subtype'']"

definition gdt_cct_LogEvent :: cstruct where
  "gdt_cct_LogEvent =
     [c_bool ''has_event_time_ms'',
      c_int64 ''event_time_ms'',
      c_ptr ''source_extension'' 8,
      c_bool ''has_event_code'',
      c_int32 ''event_code'',
      c_bool ''has_timezone_offset_seconds'',
      c_int64 ''timezone_offset_seconds'',
      c_bool ''has_event_uptime_ms'',
      c_int64 ''event_uptime_ms'',
      c_bool ''has_network_connection_info'',
      c_struct ''network_connection_info'' gdt_cct_NetworkConnectionInfo]"

definition gdt_cct_LogRequest :: cstruct where
  "gdt_cct_LogRequest =
     [c_bool ''has_client_info'',
      c_struct ''client_info'' gdt_cct_ClientInfo,
      c_bool ''has_log_source'',
      c_int32 ''log_source'',
      c_u32 ''log_event_count'',
      c_ptr ''log_event'' (struct_size gdt_cct_LogEvent),
      c_bool ''has_request_time_ms'',
      c_int64 ''request_time_ms'',
      c_bool ''has_request_uptime_ms'',
      c_int64 ''request_uptime_ms'',
      c_bool ''has_qos_tier'',
      c_enum ''qos_tier'']"

definition gdt_cct_BatchedLogRequest :: cstruct where
  "gdt_cct_BatchedLogRequest =
     [c_u32 ''log_request_count'',
      c_ptr ''log_request'' (struct_size gdt_cct_LogRequest)]"

definition gdt_cct_QosTierConfiguration :: cstruct where
  "gdt_cct_QosTierConfiguration =
     [c_bool ''has_qos_tier'',
      c_enum ''qos_tier'',
      c_bool ''has_log_source'',
      c_int32 ''log_source'']"

definition gdt_cct_QosTiersOverride :: cstruct where
  "gdt_cct_QosTiersOverride =
     [c_u32 ''qos_tier_configuration_count'',
      c_ptr ''qos_tier_configuration'' (struct_size gdt_cct_QosTierConfiguration),
      c_bool ''has_qos_tier_fingerprint'',
      c_int64 ''qos_tier_fingerprint'']"

definition gdt_cct_LogResponse :: cstruct where
  "gdt_cct_LogResponse =
     [c_bool ''has_next_request_wait_millis'',
      c_int64 ''next_request_wait_millis'',
      c_bool ''has_qos_tier'',
      c_struct ''qos_tier'' gdt_cct_QosTiersOverride]"

subsection \<open>Descriptors\<close>

definition gdt_cct_NetworkConnectionInfo_fields :: "pb_field list" where
  "gdt_cct_NetworkConnectionInfo_fields =
     [PB_FIELD 1 ENUM OPTIONAL STATIC FIRST gdt_cct_NetworkConnectionInfo
        ''network_type'' ''network_type'' (PDefault gdt_cct_NetworkConnectionInfo_network_type_default),
      PB_FIELD 2 UENUM OPTIONAL STATIC OTHER gdt_cct_NetworkConnectionInfo
        ''mobile_subtype'' ''network_type'' (PDefault gdt_cct_NetworkConnectionInfo_mobile_subtype_default),
      PB_LAST_FIELD]"

definition gdt_cct_LogEvent_fields :: "pb_field list" where
  "gdt_cct_LogEvent_fields =
     [PB_FIELD 1 INT64 OPTIONAL STATIC FIRST gdt_cct_LogEvent
        ''event_time_ms'' ''event_time_ms'' PNull,
      PB_FIELD 6 BYTES OPTIONAL POINTER OTHER gdt_cct_LogEvent
        ''source_extension'' ''event_time_ms'' PNull,
      PB_FIELD 11 INT32 OPTIONAL STATIC OTHER gdt_cct_LogEvent
        ''event_code'' ''source_extension'' PNull,
      PB_FIELD 15 SINT64 OPTIONAL STATIC OTHER gdt_cct_LogEvent
        ''timezone_offset_seconds'' ''event_code'' PNull,
      PB_FIELD 17 INT64 OPTIONAL STATIC OTHER gdt_cct_LogEvent
        ''event_uptime_ms'' ''timezone_offset_seconds'' PNull,
      PB_FIELD 23 MESSAGE OPTIONAL STATIC OTHER gdt_cct_LogEvent
        ''network_connection_info'' ''event_uptime_ms'' (PFields gdt_cct_NetworkConnectionInfo_fields),
      PB_LAST_FIELD]"

definition gdt_cct_IosClientInfo_fields :: "pb_field list" where
  "gdt_cct_IosClientInfo_fields =
     [PB_FIELD 3 BYTES OPTIONAL POINTER FIRST gdt_cct_IosClientInfo
        ''os_major_version'' ''os_major_version'' PNull,
      PB_FIELD 4 BYTES OPTIONAL POINTER OTHER gdt_cct_IosClientInfo
        ''os_full_version'' ''os_major_version'' PNull,
      PB_FIELD 5 BYTES OPTIONAL POINTER OTHER gdt_cct_IosClientInfo
        ''application_build'' ''os_full_version'' PNull,
      PB_FIELD 6 BYTES OPTIONAL POINTER OTHER gdt_cct_IosClientInfo
        ''country'' ''application_build'' PNull,
      PB_FIELD 7 BYTES OPTIONAL POINTER OTHER gdt_cct_IosClientInfo
        ''model'' ''country'' PNull,
      PB_FIELD 8 BYTES OPTIONAL POINTER OTHER gdt_cct_IosClientInfo
        ''language_code'' ''model'' PNull,
      PB_FIELD 11 BYTES OPTIONAL POINTER OTHER gdt_cct_IosClientInfo
        ''application_bundle_id'' ''language_code'' PNull,
      PB_LAST_FIELD]"

definition gdt_cct_ClientInfo_fields :: "pb_field list" where
  "gdt_cct_ClientInfo_fields =
     [PB_FIELD 1 UENUM OPTIONAL STATIC FIRST gdt_cct_ClientInfo
        ''client_type'' ''client_type'' PNull,
      PB_FIELD 4 MESSAGE OPTIONAL STATIC OTHER gdt_cct_ClientInfo
        ''ios_client_info'' ''client_type'' (PFields gdt_cct_IosClientInfo_fields),
      PB_LAST_FIELD]"

definition gdt_cct_LogRequest_fields :: "pb_field list" where
  "gdt_cct_LogRequest_fields =
     [PB_FIELD 1 MESSAGE OPTIONAL STATIC FIRST gdt_cct_LogRequest
        ''client_info'' ''client_info'' (PFields gdt_cct_ClientInfo_fields),
      PB_FIELD 2 INT32 OPTIONAL STATIC OTHER gdt_cct_LogRequest
        ''log_source'' ''client_info'' PNull,
      PB_FIELD 3 MESSAGE REPEATED POINTER OTHER gdt_cct_LogRequest
        ''log_event'' ''log_source'' (PFields gdt_cct_LogEvent_fields),
      PB_FIELD 4 INT64 OPTIONAL STATIC OTHER gdt_cct_LogRequest
        ''request_time_ms'' ''log_event'' PNull,
      PB_FIELD 8 INT64 OPTIONAL STATIC OTHER gdt_cct_LogRequest
        ''request_uptime_ms'' ''request_time_ms'' PNull,
      PB_FIELD 9 UENUM OPTIONAL STATIC OTHER gdt_cct_LogRequest
        ''qos_tier'' ''request_uptime_ms'' (PDefault gdt_cct_LogRequest_qos_tier_default),
      PB_LAST_FIELD]"

definition gdt_cct_BatchedLogRequest_fields :: "pb_field list" where
  "gdt_cct_BatchedLogRequest_fields =
     [PB_FIELD 1 MESSAGE REPEATED POINTER FIRST gdt_cct_BatchedLogRequest
        ''log_request'' ''log_request'' (PFields gdt_cct_LogRequest_fields),
      PB_LAST_FIELD]"

definition gdt_cct_QosTierConfiguration_fields :: "pb_field list" where
  "gdt_cct_QosTierConfiguration_fields =
     [PB_FIELD 2 UENUM OPTIONAL STATIC FIRST gdt_cct_QosTierConfiguration
        ''qos_tier'' ''qos_tier'' PNull,
      PB_FIELD 3 INT32 OPTIONAL STATIC OTHER gdt_cct_QosTierConfiguration
        ''log_source'' ''qos_tier'' (PDefault gdt_cct_QosTierConfiguration_log_source_default),
      PB_LAST_FIELD]"

definition gdt_cct_QosTiersOverride_fields :: "pb_field list" where
  "gdt_cct_QosTiersOverride_fields =
     [PB_FIELD 1 MESSAGE REPEATED POINTER FIRST gdt_cct_QosTiersOverride
        ''qos_tier_configuration'' ''qos_tier_configuration'' (PFields gdt_cct_QosTierConfiguration_fields),
      PB_FIELD 2 INT64 OPTIONAL STATIC OTHER gdt_cct_QosTiersOverride
        ''qos_tier_fingerprint'' ''qos_tier_configuration'' PNull,
      PB_LAST_FIELD]"

definition gdt_cct_LogResponse_fields :: "pb_field list" where
  "gdt_cct_LogResponse_fields =
     [PB_FIELD 1 INT64 OPTIONAL STATIC FIRST gdt_cct_LogResponse
        ''next_request_wait_millis'' ''next_request_wait_millis'' PNull,
      PB_FIELD 3 MESSAGE OPTIONAL STATIC OTHER gdt_cct_LogResponse
        ''qos_tier'' ''next_request_wait_millis'' (PFields gdt_cct_QosTiersOverride_fields),
      PB_LAST_FIELD]"

subsection \<open>Layout\<close>

text \<open>The iterator after \<open>k\<close> steps from the start of the message at \<open>d\<close>.\<close>

fun iter_steps :: "pb_field list \<Rightarrow> addr \<Rightarrow> nat \<Rightarrow> pb_field_iter option" where
  "iter_steps fs d 0 = map_option snd (pb_field_iter_begin fs d)"
| "iter_steps fs d (Suc k) = do { it \<leftarrow> iter_steps fs d k; map_option snd (pb_field_iter_next it) }"

lemma iter_steps_at:
  "terminated fs \<Longrightarrow> k < n_fields fs \<Longrightarrow> iter_steps fs d k = Some (iter_at fs d k)"
  by (induction k) (simp_all add: iter_begin_at iter_next_at)

text \<open>Descriptor \<open>fs\<close> agrees with struct \<open>st\<close>: field \<open>i\<close> lies at the member named for it, takes
  its size, and its \<open>pSize\<close> is the has- or count-member where it has one.\<close>

definition layout_entry :: "cstruct \<Rightarrow> pb_field \<Rightarrow> string \<Rightarrow> int \<Rightarrow> int \<Rightarrow> bool" where
  "layout_entry st f x d z \<longleftrightarrow>
     d = int (offsetof st x) \<and>
     uint (prev_field_size f) = int (pb_membersize st x) \<and>
     (if size_offset f = 0 then True
      else z = int (offsetof st
        (if PB_HTYPE (ftype f) = PB_HTYPE_REPEATED then x @ ''_count'' else ''has_'' @ x)))"

definition layout_ok :: "cstruct \<times> pb_field list \<times> string list \<Rightarrow> bool" where
  "layout_ok = (\<lambda>(st, fs, names). terminated fs \<and> length names = n_fields fs \<and>
     list_all (\<lambda>i. layout_entry st (fs ! i) (names ! i) (data_pos fs i) (size_pos fs i)) [0..<n_fields fs])"

lemma layout_okI:
  assumes "terminated fs" and "length names = n_fields fs"
    and "list_all (\<lambda>(x, f, d, z). layout_entry st f x d z) (zip names (zip fs (positions fs)))"
  shows "layout_ok (st, fs, names)"
proof -
  have "length (positions fs) = length fs"
  proof -
    have "length (walk f d z gs) = length gs" for f d z gs
      by (induction gs arbitrary: f d z) simp_all
    with assms(1) show ?thesis by (cases fs) (simp_all add: positions_def Let_def terminated_def)
  qed
  with assms terminated_nth(3) [OF assms(1)] show ?thesis
    by (auto simp: layout_ok_def list_all_length positions_nth)
qed

definition cct_messages :: "(cstruct \<times> pb_field list \<times> string list) list" where
  "cct_messages =
    [(gdt_cct_LogEvent, gdt_cct_LogEvent_fields,
       [''event_time_ms'', ''source_extension'', ''event_code'', ''timezone_offset_seconds'',
        ''event_uptime_ms'', ''network_connection_info'']),
     (gdt_cct_NetworkConnectionInfo, gdt_cct_NetworkConnectionInfo_fields,
       [''network_type'', ''mobile_subtype'']),
     (gdt_cct_IosClientInfo, gdt_cct_IosClientInfo_fields,
       [''os_major_version'', ''os_full_version'', ''application_build'', ''country'', ''model'',
        ''language_code'', ''application_bundle_id'']),
     (gdt_cct_ClientInfo, gdt_cct_ClientInfo_fields,
       [''client_type'', ''ios_client_info'']),
     (gdt_cct_BatchedLogRequest, gdt_cct_BatchedLogRequest_fields,
       [''log_request'']),
     (gdt_cct_LogRequest, gdt_cct_LogRequest_fields,
       [''client_info'', ''log_source'', ''log_event'', ''request_time_ms'',
        ''request_uptime_ms'', ''qos_tier'']),
     (gdt_cct_QosTierConfiguration, gdt_cct_QosTierConfiguration_fields,
       [''qos_tier'', ''log_source'']),
     (gdt_cct_QosTiersOverride, gdt_cct_QosTiersOverride_fields,
       [''qos_tier_configuration'', ''qos_tier_fingerprint'']),
     (gdt_cct_LogResponse, gdt_cct_LogResponse_fields,
       [''next_request_wait_millis'', ''qos_tier''])]"

subsection \<open>Facts: the tables\<close>

text \<open>Sizes, layouts and descriptor entries, evaluated.\<close>

lemma gdt_cct_IosClientInfo_size [simp]: "struct_size gdt_cct_IosClientInfo = 56" "struct_align gdt_cct_IosClientInfo = 8"
  by (simp_all add: gdt_cct_IosClientInfo_def struct_defs max_def)

lemma gdt_cct_IosClientInfo_table:
  "layout_table gdt_cct_IosClientInfo =
     [(''os_major_version'', 0, 8, 8),
      (''os_full_version'', 8, 8, 8),
      (''application_build'', 16, 8, 8),
      (''country'', 24, 8, 8),
      (''model'', 32, 8, 8),
      (''language_code'', 40, 8, 8),
      (''application_bundle_id'', 48, 8, 8)]"
  by (simp add: gdt_cct_IosClientInfo_def struct_defs)

lemma gdt_cct_ClientInfo_size [simp]: "struct_size gdt_cct_ClientInfo = 72" "struct_align gdt_cct_ClientInfo = 8"
  by (simp_all add: gdt_cct_ClientInfo_def struct_defs max_def)

lemma gdt_cct_ClientInfo_table:
  "layout_table gdt_cct_ClientInfo =
     [(''has_client_type'', 0, 1, 0),
      (''client_type'', 4, 4, 0),
      (''has_ios_client_info'', 8, 1, 0),
      (''ios_client_info'', 16, 56, 0)]"
  by (simp add: gdt_cct_ClientInfo_def struct_defs)

lemma gdt_cct_NetworkConnectionInfo_size [simp]: "struct_size gdt_cct_NetworkConnectionInfo = 16" "struct_align gdt_cct_NetworkConnectionInfo = 4"
  by (simp_all add: gdt_cct_NetworkConnectionInfo_def struct_defs max_def)

lemma gdt_cct_NetworkConnectionInfo_table:
  "layout_table gdt_cct_NetworkConnectionInfo =
     [(''has_network_type'', 0, 1, 0),
      (''network_type'', 4, 4, 0),
      (''has_mobile_subtype'', 8, 1, 0),
      (''mobile_subtype'', 12, 4, 0)]"
  by (simp add: gdt_cct_NetworkConnectionInfo_def struct_defs)

lemma gdt_cct_LogEvent_size [simp]: "struct_size gdt_cct_LogEvent = 88" "struct_align gdt_cct_LogEvent = 8"
  by (simp_all add: gdt_cct_LogEvent_def struct_defs max_def)

lemma gdt_cct_LogEvent_table:
  "layout_table gdt_cct_LogEvent =
     [(''has_event_time_ms'', 0, 1, 0),
      (''event_time_ms'', 8, 8, 0),
      (''source_extension'', 16, 8, 8),
      (''has_event_code'', 24, 1, 0),
      (''event_code'', 28, 4, 0),
      (''has_timezone_offset_seconds'', 32, 1, 0),
      (''timezone_offset_seconds'', 40, 8, 0),
      (''has_event_uptime_ms'', 48, 1, 0),
      (''event_uptime_ms'', 56, 8, 0),
      (''has_network_connection_info'', 64, 1, 0),
      (''network_connection_info'', 68, 16, 0)]"
  by (simp add: gdt_cct_LogEvent_def struct_defs)

lemma gdt_cct_LogRequest_size [simp]: "struct_size gdt_cct_LogRequest = 144" "struct_align gdt_cct_LogRequest = 8"
  by (simp_all add: gdt_cct_LogRequest_def struct_defs max_def)

lemma gdt_cct_LogRequest_table:
  "layout_table gdt_cct_LogRequest =
     [(''has_client_info'', 0, 1, 0),
      (''client_info'', 8, 72, 0),
      (''has_log_source'', 80, 1, 0),
      (''log_source'', 84, 4, 0),
      (''log_event_count'', 88, 4, 0),
      (''log_event'', 96, 8, 88),
      (''has_request_time_ms'', 104, 1, 0),
      (''request_time_ms'', 112, 8, 0),
      (''has_request_uptime_ms'', 120, 1, 0),
      (''request_uptime_ms'', 128, 8, 0),
      (''has_qos_tier'', 136, 1, 0),
      (''qos_tier'', 140, 4, 0)]"
  by (simp add: gdt_cct_LogRequest_def struct_defs)

lemma gdt_cct_BatchedLogRequest_size [simp]: "struct_size gdt_cct_BatchedLogRequest = 16" "struct_align gdt_cct_BatchedLogRequest = 8"
  by (simp_all add: gdt_cct_BatchedLogRequest_def struct_defs max_def)

lemma gdt_cct_BatchedLogRequest_table:
  "layout_table gdt_cct_BatchedLogRequest =
     [(''log_request_count'', 0, 4, 0),
      (''log_request'', 8, 8, 144)]"
  by (simp add: gdt_cct_BatchedLogRequest_def struct_defs)

lemma gdt_cct_QosTierConfiguration_size [simp]: "struct_size gdt_cct_QosTierConfiguration = 16" "struct_align gdt_cct_QosTierConfiguration = 4"
  by (simp_all add: gdt_cct_QosTierConfiguration_def struct_defs max_def)

lemma gdt_cct_QosTierConfiguration_table:
  "layout_table gdt_cct_QosTierConfiguration =
     [(''has_qos_tier'', 0, 1, 0),
      (''qos_tier'', 4, 4, 0),
      (''has_log_source'', 8, 1, 0),
      (''log_source'', 12, 4, 0)]"
  by (simp add: gdt_cct_QosTierConfiguration_def struct_defs)

lemma gdt_cct_QosTiersOverride_size [simp]: "struct_size gdt_cct_QosTiersOverride = 32" "struct_align gdt_cct_QosTiersOverride = 8"
  by (simp_all add: gdt_cct_QosTiersOverride_def struct_defs max_def)

lemma gdt_cct_QosTiersOverride_table:
  "layout_table gdt_cct_QosTiersOverride =
     [(''qos_tier_configuration_count'', 0, 4, 0),
      (''qos_tier_configuration'', 8, 8, 16),
      (''has_qos_tier_fingerprint'', 16, 1, 0),
      (''qos_tier_fingerprint'', 24, 8, 0)]"
  by (simp add: gdt_cct_QosTiersOverride_def struct_defs)

lemma gdt_cct_LogResponse_size [simp]: "struct_size gdt_cct_LogResponse = 56" "struct_align gdt_cct_LogResponse = 8"
  by (simp_all add: gdt_cct_LogResponse_def struct_defs max_def)

lemma gdt_cct_LogResponse_table:
  "layout_table gdt_cct_LogResponse =
     [(''has_next_request_wait_millis'', 0, 1, 0),
      (''next_request_wait_millis'', 8, 8, 0),
      (''has_qos_tier'', 16, 1, 0),
      (''qos_tier'', 24, 32, 0)]"
  by (simp add: gdt_cct_LogResponse_def struct_defs)

lemma gdt_cct_NetworkConnectionInfo_fields_eq:
  "gdt_cct_NetworkConnectionInfo_fields =
     [PbField 1 17 4 (- 4) 4 0 (PDefault gdt_cct_NetworkConnectionInfo_network_type_default),
      PbField 2 18 4 (- 4) 4 0 (PDefault gdt_cct_NetworkConnectionInfo_mobile_subtype_default),
      PbField 0 0 0 0 0 0 PNull]"
  by (simp add: gdt_cct_NetworkConnectionInfo_fields_def macro_defs gdt_cct_NetworkConnectionInfo_table)

lemma gdt_cct_LogEvent_fields_eq:
  "gdt_cct_LogEvent_fields =
     [PbField 1 17 8 (- 8) 8 0 PNull,
      PbField 6 150 0 0 8 0 PNull,
      PbField 11 17 4 (- 4) 4 0 PNull,
      PbField 15 19 8 (- 8) 8 0 PNull,
      PbField 17 17 8 (- 8) 8 0 PNull,
      PbField 23 24 4 (- 4) 16 0 (PFields gdt_cct_NetworkConnectionInfo_fields),
      PbField 0 0 0 0 0 0 PNull]"
  by (simp add: gdt_cct_LogEvent_fields_def macro_defs gdt_cct_LogEvent_table)

lemma gdt_cct_IosClientInfo_fields_eq:
  "gdt_cct_IosClientInfo_fields =
     [PbField 3 150 0 0 8 0 PNull,
      PbField 4 150 0 0 8 0 PNull,
      PbField 5 150 0 0 8 0 PNull,
      PbField 6 150 0 0 8 0 PNull,
      PbField 7 150 0 0 8 0 PNull,
      PbField 8 150 0 0 8 0 PNull,
      PbField 11 150 0 0 8 0 PNull,
      PbField 0 0 0 0 0 0 PNull]"
  by (simp add: gdt_cct_IosClientInfo_fields_def macro_defs gdt_cct_IosClientInfo_table)

lemma gdt_cct_ClientInfo_fields_eq:
  "gdt_cct_ClientInfo_fields =
     [PbField 1 18 4 (- 4) 4 0 PNull,
      PbField 4 24 8 (- 8) 56 0 (PFields gdt_cct_IosClientInfo_fields),
      PbField 0 0 0 0 0 0 PNull]"
  by (simp add: gdt_cct_ClientInfo_fields_def macro_defs gdt_cct_ClientInfo_table)

lemma gdt_cct_LogRequest_fields_eq:
  "gdt_cct_LogRequest_fields =
     [PbField 1 24 8 (- 8) 72 0 (PFields gdt_cct_ClientInfo_fields),
      PbField 2 17 4 (- 4) 4 0 PNull,
      PbField 3 168 8 (- 8) 88 0 (PFields gdt_cct_LogEvent_fields),
      PbField 4 17 8 (- 8) 8 0 PNull,
      PbField 8 17 8 (- 8) 8 0 PNull,
      PbField 9 18 4 (- 4) 4 0 (PDefault gdt_cct_LogRequest_qos_tier_default),
      PbField 0 0 0 0 0 0 PNull]"
  by (simp add: gdt_cct_LogRequest_fields_def macro_defs gdt_cct_LogRequest_table)

lemma gdt_cct_BatchedLogRequest_fields_eq:
  "gdt_cct_BatchedLogRequest_fields =
     [PbField 1 168 8 (- 8) 144 0 (PFields gdt_cct_LogRequest_fields),
      PbField 0 0 0 0 0 0 PNull]"
  by (simp add: gdt_cct_BatchedLogRequest_fields_def macro_defs gdt_cct_BatchedLogRequest_table)

lemma gdt_cct_QosTierConfiguration_fields_eq:
  "gdt_cct_QosTierConfiguration_fields =
     [PbField 2 18 4 (- 4) 4 0 PNull,
      PbField 3 17 4 (- 4) 4 0 (PDefault gdt_cct_QosTierConfiguration_log_source_default),
      PbField 0 0 0 0 0 0 PNull]"
  by (simp add: gdt_cct_QosTierConfiguration_fields_def macro_defs gdt_cct_QosTierConfiguration_table)

lemma gdt_cct_QosTiersOverride_fields_eq:
  "gdt_cct_QosTiersOverride_fields =
     [PbField 1 168 8 (- 8) 16 0 (PFields gdt_cct_QosTierConfiguration_fields),
      PbField 2 17 8 (- 8) 8 0 PNull,
      PbField 0 0 0 0 0 0 PNull]"
  by (simp add: gdt_cct_QosTiersOverride_fields_def macro_defs gdt_cct_QosTiersOverride_table)

lemma gdt_cct_LogResponse_fields_eq:
  "gdt_cct_LogResponse_fields =
     [PbField 1 17 8 (- 8) 8 0 PNull,
      PbField 3 24 8 (- 8) 32 0 (PFields gdt_cct_QosTiersOverride_fields),
      PbField 0 0 0 0 0 0 PNull]"
  by (simp add: gdt_cct_LogResponse_fields_def macro_defs gdt_cct_LogResponse_table)

lemmas layout_eval =
  terminated_def n_fields_def layout_entry_def layout_lookup positions_def field_pos_def
  in_union_def prev_field_size_def type_part_evals size_off_def

lemma gdt_cct_LogEvent_layout:
  "layout_ok (gdt_cct_LogEvent, gdt_cct_LogEvent_fields,
     [''event_time_ms'', ''source_extension'', ''event_code'', ''timezone_offset_seconds'',
        ''event_uptime_ms'', ''network_connection_info''])"
  by (rule layout_okI) (simp_all add: layout_eval gdt_cct_LogEvent_fields_eq gdt_cct_LogEvent_table)

lemma gdt_cct_NetworkConnectionInfo_layout:
  "layout_ok (gdt_cct_NetworkConnectionInfo, gdt_cct_NetworkConnectionInfo_fields,
     [''network_type'', ''mobile_subtype''])"
  by (rule layout_okI) (simp_all add: layout_eval gdt_cct_NetworkConnectionInfo_fields_eq gdt_cct_NetworkConnectionInfo_table)

lemma gdt_cct_IosClientInfo_layout:
  "layout_ok (gdt_cct_IosClientInfo, gdt_cct_IosClientInfo_fields,
     [''os_major_version'', ''os_full_version'', ''application_build'', ''country'', ''model'',
        ''language_code'', ''application_bundle_id''])"
  by (rule layout_okI) (simp_all add: layout_eval gdt_cct_IosClientInfo_fields_eq gdt_cct_IosClientInfo_table)

lemma gdt_cct_ClientInfo_layout:
  "layout_ok (gdt_cct_ClientInfo, gdt_cct_ClientInfo_fields,
     [''client_type'', ''ios_client_info''])"
  by (rule layout_okI) (simp_all add: layout_eval gdt_cct_ClientInfo_fields_eq gdt_cct_ClientInfo_table)

lemma gdt_cct_BatchedLogRequest_layout:
  "layout_ok (gdt_cct_BatchedLogRequest, gdt_cct_BatchedLogRequest_fields,
     [''log_request''])"
  by (rule layout_okI) (simp_all add: layout_eval gdt_cct_BatchedLogRequest_fields_eq gdt_cct_BatchedLogRequest_table)

lemma gdt_cct_LogRequest_layout:
  "layout_ok (gdt_cct_LogRequest, gdt_cct_LogRequest_fields,
     [''client_info'', ''log_source'', ''log_event'', ''request_time_ms'',
        ''request_uptime_ms'', ''qos_tier''])"
  by (rule layout_okI) (simp_all add: layout_eval gdt_cct_LogRequest_fields_eq gdt_cct_LogRequest_table)

lemma gdt_cct_QosTierConfiguration_layout:
  "layout_ok (gdt_cct_QosTierConfiguration, gdt_cct_QosTierConfiguration_fields,
     [''qos_tier'', ''log_source''])"
  by (rule layout_okI) (simp_all add: layout_eval gdt_cct_QosTierConfiguration_fields_eq gdt_cct_QosTierConfiguration_table)

lemma gdt_cct_QosTiersOverride_layout:
  "layout_ok (gdt_cct_QosTiersOverride, gdt_cct_QosTiersOverride_fields,
     [''qos_tier_configuration'', ''qos_tier_fingerprint''])"
  by (rule layout_okI) (simp_all add: layout_eval gdt_cct_QosTiersOverride_fields_eq gdt_cct_QosTiersOverride_table)

lemma gdt_cct_LogResponse_layout:
  "layout_ok (gdt_cct_LogResponse, gdt_cct_LogResponse_fields,
     [''next_request_wait_millis'', ''qos_tier''])"
  by (rule layout_okI) (simp_all add: layout_eval gdt_cct_LogResponse_fields_eq gdt_cct_LogResponse_table)

end
