(* ===== verification/EncodeProps.thy ===== *)
theory EncodeProps
  imports EncodeSpec CctMessages
begin

section \<open>Encoding: what the callers rely on\<close>

text \<open>
  The properties of \<open>pb_encode\<close> on memory buffers and sizing streams, read off the refinement
  of EncodeSpec through the interpretation \<open>buf\<close>, and the way the transport library uses
  it: one pass to find the size, one into a buffer of that size.
\<close>

subsection \<open>Concrete messages\<close>

definition mem_of :: "(addr \<times> byte list) list \<Rightarrow> mem" where
  "mem_of objs =
     \<lparr>mbytes = (\<lambda>x. case filter (\<lambda>(a, bs). a \<le> x \<and> x < a + int (length bs)) objs of
                   [] \<Rightarrow> None | (a, bs) # _ \<Rightarrow> Some (bs ! nat (x - a))),
      mblocks = Map.empty\<rparr>"

text \<open>A \<open>gdt_cct_LogResponse\<close> at 4096 whose override has one tier configuration, at 8192.\<close>

definition response_mem :: mem where
  "response_mem = mem_of
     [(4096, [1, 0, 0, 0, 0, 0, 0, 0,  0x88, 0x13, 0, 0, 0, 0, 0, 0,
              1, 0, 0, 0, 0, 0, 0, 0,
              1, 0, 0, 0, 0, 0, 0, 0,  0, 0x20, 0, 0, 0, 0, 0, 0,
              1, 0, 0, 0, 0, 0, 0, 0,  7, 0, 0, 0, 0, 0, 0, 0]),
      (8192, [1, 0, 0, 0,  2, 0, 0, 0,  1, 0, 0, 0,  0xFA, 3, 0, 0])]"

definition response_bytes :: "byte list" where
  "response_bytes = [0x08, 0x88, 0x27, 0x1A, 0x09, 0x0A, 0x05, 0x10, 0x02, 0x18, 0xFA, 0x07, 0x10, 0x07]"

lemma response_mem_bytes:
  "mbytes response_mem x =
     (if 4096 \<le> x \<and> x < 4152 then
        Some ([1, 0, 0, 0, 0, 0, 0, 0,  0x88, 0x13, 0, 0, 0, 0, 0, 0,
              1, 0, 0, 0, 0, 0, 0, 0,
              1, 0, 0, 0, 0, 0, 0, 0,  0, 0x20, 0, 0, 0, 0, 0, 0,
              1, 0, 0, 0, 0, 0, 0, 0,  7, 0, 0, 0, 0, 0, 0, 0] ! nat (x - 4096))
      else if 8192 \<le> x \<and> x < 8208 then
        Some ([1, 0, 0, 0,  2, 0, 0, 0,  1, 0, 0, 0,  0xFA, 3, 0, 0] ! nat (x - 8192))
      else None)"
  by (simp add: response_mem_def mem_of_def)

lemma load_bytes_numeral:
  "load_bytes m a (numeral k) =
     (case mbytes m a of None \<Rightarrow> None
      | Some b \<Rightarrow> map_option (Cons b) (load_bytes m (a + 1) (pred_numeral k)))"
  by (simp add: numeral_eq_Suc)

lemma spec_msg_numeral:
  "spec_msg (numeral k) m fs src =
     (if terminated fs
      then spec_fields (spec_field (numeral k) m (spec_msg (pred_numeral k) m)) fs src [0..<n_fields fs]
      else None)"
  by (simp add: numeral_eq_Suc spec_msg.simps)

lemmas spec_step = terminated_def n_fields_def in_union_def
  type_part_evals prev_field_size_def spec_field_def spec_basic_def spec_has_def size_off_def
  safe_read_bool_def spec_tagged_def spec_field_tag_def spec_item_def load_sx_def load_zx_def
  wire_type_of_def int_size_def spec_array_def spec_entry_def

lemmas mem_eval = load_bytes_numeral load_word_def load_u32_def load_ptr_def response_mem_bytes

lemma length_response_bytes [simp]: "length response_bytes = 14"
  by (simp add: response_bytes_def)

text \<open>The encodings of the parts, innermost first.\<close>

lemma tier_bytes:
  "spec_msg (Suc 0) response_mem gdt_cct_QosTierConfiguration_fields 8192 =
     Some [0x10, 0x02, 0x18, 0xFA, 0x07]"
  by (simp add: spec_msg.simps(2) spec_step gdt_cct_QosTierConfiguration_fields_eq mem_eval
      spec_tag_def spec_varint.simps)

lemma override_bytes:
  "spec_msg 2 response_mem gdt_cct_QosTiersOverride_fields 4120 =
     Some [0x0A, 0x05, 0x10, 0x02, 0x18, 0xFA, 0x07, 0x10, 0x07]"
  unfolding spec_msg_numeral [where fs = gdt_cct_QosTiersOverride_fields]
  by (simp add: spec_step gdt_cct_QosTiersOverride_fields_eq mem_eval tier_bytes
      spec_delimited_def spec_tag_def spec_varint.simps)

lemma response_bytes:
  "spec_msg 3 response_mem gdt_cct_LogResponse_fields 4096 = Some response_bytes"
  unfolding spec_msg_numeral [where fs = gdt_cct_LogResponse_fields]
  by (simp add: spec_step gdt_cct_LogResponse_fields_eq mem_eval override_bytes
      spec_delimited_def spec_tag_def spec_varint.simps response_bytes_def)

subsection \<open>Streams from a buffer\<close>

lemma buffer_fits:
  "buf.fits (pb_ostream_from_buffer buf bufsize) n \<longleftrightarrow> n \<le> unat bufsize"
  by (simp add: buf.fits_def pb_ostream_from_buffer_def)

lemma emits_buffer_exact:
  assumes "buf.emits A bs" and "unat bufsize \<le> length buf" and "length bs \<le> unat bufsize"
  shows "\<exists>s'. A (pb_ostream_from_buffer buf bufsize) = Some (True, s') \<and>
      os_state s' = Some (bs @ drop (length bs) buf, length bs) \<and>
      os_bytes_written s' = of_nat (length bs)"
proof -
  obtain s' where "A (pb_ostream_from_buffer buf bufsize) = Some (True, s')"
    "buf.advanced (pb_ostream_from_buffer buf bufsize) bs s'"
    using buf.emits_fits [OF assms(1) buf_on_sink [OF assms(2)]] assms(3) buffer_fits by auto
  then show ?thesis
    by (auto simp: buf.advanced_def pb_ostream_from_buffer_def)
qed

lemma emits_buffer_full:
  assumes "buf.emits A bs" and "unat bufsize \<le> length buf" and "unat bufsize < length bs"
    and "unat bufsize + length bs < 2 ^ 64"
  shows "\<exists>s' e. A (pb_ostream_from_buffer buf bufsize) = Some (False, s') \<and> os_errmsg s' = Some e"
proof -
  have "os_max_size (pb_ostream_from_buffer buf bufsize) = bufsize"
    by (simp add: pb_ostream_from_buffer_def)
  then have "buf.failed (A (pb_ostream_from_buffer buf bufsize))"
    using buf.emits_full [OF assms(1) buf_on_sink [OF assms(2)]] assms(3,4) buffer_fits
    by simp
  then show ?thesis by (auto simp: buf.failed_def)
qed

subsection \<open>Properties\<close>

text \<open>C8. Refinement: encoding a message into a buffer with room writes exactly the bytes of its
  wire format at the start of the buffer, leaves the rest of the buffer alone, and reports
  their number.\<close>

theorem encode_buffer_exact:
  assumes "spec_msg n m fs src = Some bs" and "unat bufsize \<le> length buf" and "length bs \<le> unat bufsize"
  shows "\<exists>s'. pb_encode n env m (pb_ostream_from_buffer buf bufsize) fs src = Some (True, s') \<and>
      os_state s' = Some (bs @ drop (length bs) buf, length bs) \<and>
      os_bytes_written s' = of_nat (length bs)"
  using emits_buffer_exact [OF buf.emits_msg [OF assms(1)] assms(2,3)] .

lemma encode_buffer_exact_witness:
  "\<exists>s'. pb_encode 3 no_callbacks response_mem (pb_ostream_from_buffer (replicate 20 0xAA) 16)
       gdt_cct_LogResponse_fields 4096 = Some (True, s') \<and>
     os_state s' = Some (response_bytes @ replicate 6 0xAA, 14) \<and> os_bytes_written s' = 14"
  using encode_buffer_exact [OF response_bytes, of 16 "replicate 20 0xAA" no_callbacks]
  by simp

text \<open>C9. A buffer that is too small makes the encoder fail with an error message; it never
  writes past the buffer and never reports success for a truncated message.\<close>

theorem encode_buffer_full:
  assumes "spec_msg n m fs src = Some bs" and "unat bufsize \<le> length buf" and "unat bufsize < length bs"
    and "unat bufsize + length bs < 2 ^ 64"
  shows "\<exists>s' e. pb_encode n env m (pb_ostream_from_buffer buf bufsize) fs src = Some (False, s') \<and>
      os_errmsg s' = Some e"
  using emits_buffer_full [OF buf.emits_msg [OF assms(1)] assms(2-4)] .

lemma encode_buffer_full_witness:
  "\<exists>s' e. pb_encode 3 no_callbacks response_mem (pb_ostream_from_buffer (replicate 20 0xAA) 13)
       gdt_cct_LogResponse_fields 4096 = Some (False, s') \<and> os_errmsg s' = Some e"
  using encode_buffer_full [OF response_bytes, of 13 "replicate 20 0xAA" no_callbacks]
  by simp

text \<open>C10. The size that \<open>pb_get_encoded_size\<close> computes without writing anything is the number of
  bytes of the message's wire format.\<close>

theorem encoded_size_exact:
  fixes env :: "obuf enc_env"
  assumes "spec_msg n m fs src = Some bs" and "length bs < 2 ^ 64"
  shows "pb_get_encoded_size n env m fs src = Some (Some (of_nat (length bs)))"
  using buf.emits_sizing [OF buf.emits_msg [OF assms(1)], of PB_OSTREAM_SIZING env] assms(2)
  by (simp add: pb_get_encoded_size_def PB_OSTREAM_SIZING_def)

lemma encoded_size_exact_witness:
  "pb_get_encoded_size 3 (no_callbacks :: obuf enc_env) response_mem gdt_cct_LogResponse_fields 4096 = Some (Some 14)"
  using encoded_size_exact [OF response_bytes, of no_callbacks] by (simp add: response_bytes_def)

end
