(* ===== verification/IStream.thy ===== *)
theory IStream
  imports Wire
begin

section \<open>Input streams and wire-format primitives (nanopb/pb_decode.c)\<close>

text \<open>
  \<open>pb_istream_t\<close>, \<open>pb_read\<close> and the decoders of single wire values. The state of a buffer
  stream is a pointer into the input: \<open>Src\<close> with the bytes from there to the end of the
  underlying object, so that a read past that object is undefined. A user callback gets its
  state, \<open>bytes_left\<close> and the count; on success it has filled the buffer with \<open>count\<close> bytes.
  A callback that changes the stream's own members is not modelled; the rules in pb_decode.h
  give it only \<open>state\<close>.

  The locale \<open>byte_source\<close> is the contract of a source, and \<open>consumes A bs v\<close> says that \<open>A\<close>
  takes exactly \<open>bs\<close> off the input and returns \<open>v\<close>. It is closed under sequencing and is
  shown for varints, tags, fixed-size values and substreams.
\<close>

subsection \<open>Streams\<close>

datatype 'st istate = Src "byte list" | St 'st

datatype 'st icallback =
  Buf_read
| is_User: User "'st \<Rightarrow> size_t \<Rightarrow> size_t \<Rightarrow> (bool \<times> byte list \<times> 'st) option"

record 'st pb_istream =
  is_callback :: "'st icallback"
  is_state :: "'st istate"
  is_bytes_left :: size_t
  is_errmsg :: "errmsg option"

definition is_set_error :: "'st pb_istream \<Rightarrow> errmsg \<Rightarrow> 'st pb_istream" where
  "is_set_error s msg =
     s\<lparr>is_errmsg := (case is_errmsg s of None \<Rightarrow> Some msg | Some e \<Rightarrow> Some e)\<rparr>"

definition is_return_error :: "'st pb_istream \<Rightarrow> errmsg \<Rightarrow> ('a option \<times> 'st pb_istream) option" where
  "is_return_error s msg = Some (None, is_set_error s msg)"

fun buf_read :: "'st istate \<Rightarrow> size_t \<Rightarrow> (bool \<times> byte list \<times> 'st istate) option" where
  "buf_read (Src bs) count =
     (if unat count \<le> length bs
      then Some (True, take (unat count) bs, Src (drop (unat count) bs)) else None)"
| "buf_read (St _) count = None"

text \<open>\<open>stream->callback(stream, buf, count)\<close>, with the bytes it put into \<open>buf\<close>.\<close>

definition call_read :: "'st pb_istream \<Rightarrow> size_t \<Rightarrow> (bool \<times> byte list \<times> 'st pb_istream) option" where
  "call_read s count =
     (case is_callback s of
        Buf_read \<Rightarrow> do {
          (ok, bs, st) \<leftarrow> buf_read (is_state s) count;
          Some (ok, bs, s\<lparr>is_state := st\<rparr>)
        }
      | User f \<Rightarrow>
          (case is_state s of
             Src _ \<Rightarrow> None
           | St st \<Rightarrow> do {
               (ok, bs, st') \<leftarrow> f st (is_bytes_left s) count;
               if length bs \<le> unat count \<and> (ok \<longrightarrow> length bs = unat count)
               then Some (ok, bs, s\<lparr>is_state := St st'\<rparr>) else None
             }))"

text \<open>\<open>pb_read\<close> on its path to the callback: \<open>bytes_left\<close> checked, then counted down.\<close>

definition read_checked :: "'st pb_istream \<Rightarrow> size_t \<Rightarrow> (bool \<times> byte list \<times> 'st pb_istream) option" where
  "read_checked s count =
     (if is_bytes_left s < count then Some (False, [], is_set_error s ''end-of-stream'')
      else do {
        (ok, bs, s1) \<leftarrow> call_read s count;
        if \<not> ok then Some (False, bs, is_set_error s1 ''io error'')
        else Some (True, bs, s1\<lparr>is_bytes_left := is_bytes_left s1 - count\<rparr>)
      })"

text \<open>The skipping loop for callbacks: sixteen bytes at a time into \<open>tmp\<close>.\<close>

function skip_loop :: "'st pb_istream \<Rightarrow> size_t \<Rightarrow> (bool \<times> 'st pb_istream) option" where
  "skip_loop s count =
     (if count > 16 then do {
        (ok, _, s1) \<leftarrow> read_checked s 16;
        if \<not> ok then Some (False, s1) else skip_loop s1 (count - 16)
      }
      else do { (ok, _, s1) \<leftarrow> read_checked s count; Some (ok, s1) })"
  by pat_completeness auto

termination
  by (relation "measure (\<lambda>(s, count). unat count)")
     (auto simp: word_less_nat_alt unat_sub_if' word_le_nat_alt)

declare skip_loop.simps [simp del]

text \<open>\<open>pb_read(stream, buf, count)\<close>; \<open>buf\<close> tells whether the pointer is not null.\<close>

definition pb_read :: "'st pb_istream \<Rightarrow> bool \<Rightarrow> size_t \<Rightarrow> (bool \<times> byte list \<times> 'st pb_istream) option" where
  "pb_read s buf count =
     (if count = 0 then Some (True, [], s)
      else if \<not> buf \<and> is_User (is_callback s)
      then do { (ok, s1) \<leftarrow> skip_loop s count; Some (ok, [], s1) }
      else do { (ok, bs, s1) \<leftarrow> read_checked s count; Some (ok, if buf then bs else [], s1) })"

text \<open>Its uses: into a local buffer, and with a null buffer.\<close>

definition read_bytes :: "'st pb_istream \<Rightarrow> size_t \<Rightarrow> (byte list option \<times> 'st pb_istream) option" where
  "read_bytes s count = do {
     (ok, bs, s1) \<leftarrow> pb_read s True count;
     Some (if ok then Some bs else None, s1)
   }"

definition skip_bytes :: "'st pb_istream \<Rightarrow> size_t \<Rightarrow> (unit option \<times> 'st pb_istream) option" where
  "skip_bytes s count = do {
     (ok, _, s1) \<leftarrow> pb_read s False count;
     Some (if ok then Some () else None, s1)
   }"

definition pb_readbyte :: "'st pb_istream \<Rightarrow> (byte option \<times> 'st pb_istream) option" where
  "pb_readbyte s =
     (if is_bytes_left s = 0 then is_return_error s ''end-of-stream''
      else do {
        (ok, bs, s1) \<leftarrow> call_read s 1;
        if \<not> ok then is_return_error s1 ''io error''
        else do {
          b \<leftarrow> arr_get bs 0;
          Some (Some b, s1\<lparr>is_bytes_left := is_bytes_left s1 - 1\<rparr>)
        }
      })"

definition pb_istream_from_buffer :: "byte list \<Rightarrow> size_t \<Rightarrow> 'st pb_istream" where
  "pb_istream_from_buffer buf bufsize =
     \<lparr>is_callback = Buf_read, is_state = Src buf, is_bytes_left = bufsize, is_errmsg = None\<rparr>"

lemma call_read_bytes_left:
  "call_read s count = Some (ok, bs, s1) \<Longrightarrow> is_bytes_left s1 = is_bytes_left s"
  by (auto simp: call_read_def bind_eq_Some_conv split: icallback.splits istate.splits if_splits)

lemma readbyte_left:
  "pb_readbyte s = Some (Some b, s1) \<Longrightarrow>
     is_bytes_left s \<noteq> 0 \<and> is_bytes_left s1 = is_bytes_left s - 1"
  by (auto simp: pb_readbyte_def is_return_error_def bind_eq_Some_conv
      dest: call_read_bytes_left split: if_splits)

lemma readbyte_less:
  "pb_readbyte s = Some (Some b, s1) \<Longrightarrow> unat (is_bytes_left s1) < unat (is_bytes_left s)"
  by (drule readbyte_left) (metis unat_minus_one measure_unat)

subsection \<open>Varints\<close>

text \<open>\<open>bitpos\<close> is a \<open>uint_fast8_t\<close>, 8 bits on the target.\<close>

function varint32_loop ::
  "'st pb_istream \<Rightarrow> 8 word \<Rightarrow> u32 \<Rightarrow> ((u32 \<times> 8 word \<times> byte) option \<times> 'st pb_istream) option" where
  "varint32_loop s bitpos result =
     ithen (pb_readbyte s) (\<lambda>byte s1.
       let sign_extension = (if bitpos < 63 then 0xFF else 0x01) in
       if bitpos \<ge> 32 \<and> byte AND 0x7F \<noteq> 0x00 \<and>
          (drop_bit 31 result = 0 \<or> byte \<noteq> sign_extension)
       then is_return_error s1 ''varint overflow''
       else (let result' = (if bitpos \<ge> 32 then result
                            else result OR push_bit (unat bitpos) (ucast (byte AND 0x7F)));
                 bitpos' = bitpos + 7
             in if byte AND 0x80 \<noteq> 0 then varint32_loop s1 bitpos' result'
                else Some (Some (result', bitpos', byte), s1)))"
  by pat_completeness auto

termination
  by (relation "measure (\<lambda>(s, bitpos, result). unat (is_bytes_left s))") (auto dest: readbyte_less)

declare varint32_loop.simps [simp del]

text \<open>The flag tells whether \<open>*eof\<close> was set.\<close>

definition pb_decode_varint32_eof ::
  "'st pb_istream \<Rightarrow> ((u32 option \<times> bool) \<times> 'st pb_istream) option" where
  "pb_decode_varint32_eof s = do {
     (b, s1) \<leftarrow> pb_readbyte s;
     (case b of
        None \<Rightarrow> Some ((None, is_bytes_left s1 = 0), s1)
      | Some byte \<Rightarrow>
          if byte AND 0x80 = 0 then Some ((Some (ucast byte), False), s1)
          else do {
            (r, s2) \<leftarrow> varint32_loop s1 7 (ucast (byte AND 0x7F));
            (case r of
               None \<Rightarrow> Some ((None, False), s2)
             | Some (result, bitpos, byte) \<Rightarrow>
                 if bitpos = 35 \<and> byte AND 0x70 \<noteq> 0
                 then Some ((None, False), is_set_error s2 ''varint overflow'')
                 else Some ((Some result, False), s2))
          })
   }"

definition pb_decode_varint32 :: "'st pb_istream \<Rightarrow> (u32 option \<times> 'st pb_istream) option" where
  "pb_decode_varint32 s = do { ((r, _), s1) \<leftarrow> pb_decode_varint32_eof s; Some (r, s1) }"

function varint_loop :: "'st pb_istream \<Rightarrow> 8 word \<Rightarrow> u64 \<Rightarrow> (u64 option \<times> 'st pb_istream) option" where
  "varint_loop s bitpos result =
     (if bitpos \<ge> 64 then is_return_error s ''varint overflow''
      else ithen (pb_readbyte s) (\<lambda>byte s1.
        let result' = result OR push_bit (unat bitpos) (ucast (byte AND 0x7F));
            bitpos' = bitpos + 7
        in if byte AND 0x80 \<noteq> 0 then varint_loop s1 bitpos' result' else Some (Some result', s1)))"
  by pat_completeness auto

termination
  by (relation "measure (\<lambda>(s, bitpos, result). unat (is_bytes_left s))") (auto dest: readbyte_less)

declare varint_loop.simps [simp del]

definition pb_decode_varint :: "'st pb_istream \<Rightarrow> (u64 option \<times> 'st pb_istream) option" where
  "pb_decode_varint s = varint_loop s 0 0"

lemma read_checked_left:
  "read_checked s count = Some (True, bs, s1) \<Longrightarrow>
     count \<le> is_bytes_left s \<and> is_bytes_left s1 = is_bytes_left s - count"
  by (auto simp: read_checked_def bind_eq_Some_conv dest: call_read_bytes_left split: if_splits)

lemma read_bytes_left:
  "read_bytes s count = Some (Some bs, s1) \<Longrightarrow>
     count \<le> is_bytes_left s \<and> is_bytes_left s1 = is_bytes_left s - count"
  by (auto simp: read_bytes_def pb_read_def bind_eq_Some_conv dest: read_checked_left split: if_splits)

lemma read_byte_less:
  assumes "read_bytes s 1 = Some (Some bs, s1)"
  shows "unat (is_bytes_left s1) < unat (is_bytes_left s)"
proof -
  from read_bytes_left [OF assms]
  have "1 \<le> is_bytes_left s" "is_bytes_left s1 = is_bytes_left s - 1" by auto
  then show ?thesis by (simp add: word_le_nat_alt unat_sub)
qed

function pb_skip_varint :: "'st pb_istream \<Rightarrow> (unit option \<times> 'st pb_istream) option" where
  "pb_skip_varint s =
     ithen (read_bytes s 1) (\<lambda>bs s1.
       case bs of [] \<Rightarrow> None
       | byte # _ \<Rightarrow> if byte AND 0x80 \<noteq> 0 then pb_skip_varint s1 else Some (Some (), s1))"
  by pat_completeness auto

termination
  by (relation "measure (\<lambda>s. unat (is_bytes_left s))") (auto dest: read_byte_less)

declare pb_skip_varint.simps [simp del]

subsection \<open>Tags and skipping\<close>

definition pb_skip_string :: "'st pb_istream \<Rightarrow> (unit option \<times> 'st pb_istream) option" where
  "pb_skip_string s = ithen (pb_decode_varint32 s) (\<lambda>len s1. skip_bytes s1 (ucast len))"

text \<open>Wire type and tag when it returns true, and \<open>*eof\<close>.\<close>

definition pb_decode_tag ::
  "'st pb_istream \<Rightarrow> (((pb_wire_type \<times> u32) option \<times> bool) \<times> 'st pb_istream) option" where
  "pb_decode_tag s = do {
     ((r, eof), s1) \<leftarrow> pb_decode_varint32_eof s;
     (case r of
        None \<Rightarrow> Some ((None, eof), s1)
      | Some temp \<Rightarrow>
          if temp = 0 then Some ((None, True), s1)
          else Some ((Some (wt_of (temp AND 7), drop_bit 3 temp), False), s1))
   }"

fun pb_skip_field :: "'st pb_istream \<Rightarrow> pb_wire_type \<Rightarrow> (unit option \<times> 'st pb_istream) option" where
  "pb_skip_field s PB_WT_VARINT = pb_skip_varint s"
| "pb_skip_field s PB_WT_64BIT = skip_bytes s 8"
| "pb_skip_field s PB_WT_STRING = pb_skip_string s"
| "pb_skip_field s PB_WT_32BIT = skip_bytes s 4"
| "pb_skip_field s (PB_WT_OTHER _) = is_return_error s ''invalid wire_type''"

text \<open>\<open>max_size\<close> is the caller's buffer; the result is what was put there.\<close>

fun raw_varint_loop :: "nat \<Rightarrow> 'st pb_istream \<Rightarrow> (byte list option \<times> 'st pb_istream) option" where
  "raw_varint_loop 0 s = Some (None, s)"
| "raw_varint_loop (Suc k) s =
     ithen (read_bytes s 1) (\<lambda>bs s1.
       case bs of [] \<Rightarrow> None
       | byte # _ \<Rightarrow>
           if byte AND 0x80 \<noteq> 0
           then ithen (raw_varint_loop k s1) (\<lambda>rest s2. Some (Some (byte # rest), s2))
           else Some (Some [byte], s1))"

definition read_raw_value ::
  "'st pb_istream \<Rightarrow> pb_wire_type \<Rightarrow> nat \<Rightarrow> (byte list option \<times> 'st pb_istream) option" where
  "read_raw_value s wire_type max_size =
     (case wire_type of
        PB_WT_VARINT \<Rightarrow> raw_varint_loop max_size s
      | PB_WT_64BIT \<Rightarrow> read_bytes s 8
      | PB_WT_32BIT \<Rightarrow> read_bytes s 4
      | _ \<Rightarrow> is_return_error s ''invalid wire_type'')"

subsection \<open>Substreams\<close>

definition pb_make_string_substream ::
  "'st pb_istream \<Rightarrow> ('st pb_istream option \<times> 'st pb_istream) option" where
  "pb_make_string_substream s =
     ithen (pb_decode_varint32 s) (\<lambda>sz s1.
       if is_bytes_left s1 < ucast sz then is_return_error s1 ''parent stream too short''
       else Some (Some (s1\<lparr>is_bytes_left := ucast sz\<rparr>),
                  s1\<lparr>is_bytes_left := is_bytes_left s1 - ucast sz\<rparr>))"

definition pb_close_string_substream ::
  "'st pb_istream \<Rightarrow> 'st pb_istream \<Rightarrow> (bool \<times> 'st pb_istream) option" where
  "pb_close_string_substream s sub = do {
     (ok, sub1) \<leftarrow>
       (if is_bytes_left sub \<noteq> 0
        then do { (ok, _, sub1) \<leftarrow> pb_read sub False (is_bytes_left sub); Some (ok, sub1) }
        else Some (True, sub));
     if \<not> ok then Some (False, s)
     else Some (True, s\<lparr>is_state := is_state sub1, is_errmsg := is_errmsg sub1\<rparr>)
   }"

subsection \<open>Decoders of wire values\<close>

definition unzigzag :: "u64 \<Rightarrow> u64" where
  "unzigzag value = (if value AND 1 \<noteq> 0 then NOT (drop_bit 1 value) else drop_bit 1 value)"

definition pb_decode_svarint :: "'st pb_istream \<Rightarrow> (u64 option \<times> 'st pb_istream) option" where
  "pb_decode_svarint s = ithen (pb_decode_varint s) (\<lambda>value s1. Some (Some (unzigzag value), s1))"

definition fixed32_value :: "byte list \<Rightarrow> u32" where
  "fixed32_value bytes =
     push_bit 0 (ucast (bytes ! 0)) OR push_bit 8 (ucast (bytes ! 1)) OR
     push_bit 16 (ucast (bytes ! 2)) OR push_bit 24 (ucast (bytes ! 3))"

definition pb_decode_fixed32 :: "'st pb_istream \<Rightarrow> (u32 option \<times> 'st pb_istream) option" where
  "pb_decode_fixed32 s = ithen (read_bytes s 4) (\<lambda>bytes s1. Some (Some (fixed32_value bytes), s1))"

definition fixed64_value :: "byte list \<Rightarrow> u64" where
  "fixed64_value bytes =
     push_bit 0 (ucast (bytes ! 0)) OR push_bit 8 (ucast (bytes ! 1)) OR
     push_bit 16 (ucast (bytes ! 2)) OR push_bit 24 (ucast (bytes ! 3)) OR
     push_bit 32 (ucast (bytes ! 4)) OR push_bit 40 (ucast (bytes ! 5)) OR
     push_bit 48 (ucast (bytes ! 6)) OR push_bit 56 (ucast (bytes ! 7))"

definition pb_decode_fixed64 :: "'st pb_istream \<Rightarrow> (u64 option \<times> 'st pb_istream) option" where
  "pb_decode_fixed64 s = ithen (read_bytes s 8) (\<lambda>bytes s1. Some (Some (fixed64_value bytes), s1))"

subsection \<open>Facts: zigzag and fixed-size values\<close>

lemma zigzag_nat_less: "zigzag_nat (sint (v :: u64)) < 2 ^ 64"
  using sint_ge [of v] sint_lt [of v] by (simp add: zigzag_nat_def) linarith

lemma unzigzag_zigzag_nat: "unzigzag (of_nat (zigzag_nat (sint v))) = v"
proof -
  let ?n = "zigzag_nat (sint v)"
  have b: "- (2 ^ 63) \<le> sint v" "sint v < 2 ^ 63" using sint_ge [of v] sint_lt [of v] by simp_all
  have n: "int ?n = (if sint v < 0 then - 2 * sint v - 1 else 2 * sint v)"
    by (simp add: zigzag_nat_def)
  have u: "unat (of_nat ?n :: u64) = ?n" using zigzag_nat_less [of v] by (simp only: unat_of_nat) simp
  have d: "uint (drop_bit 1 (of_nat ?n :: u64)) = int ?n div 2"
    by (simp only: uint_nat unat_drop_bit u) (simp add: zdiv_int)
  have o: "(of_nat ?n :: u64) AND 1 = 0 \<longleftrightarrow> \<not> sint v < 0"
  proof -
    have "(of_nat ?n :: u64) AND 1 = 0 \<longleftrightarrow> even ?n"
      using unat_and_1 [of "of_nat ?n :: u64"] u by (auto simp: word_unat_eq_iff even_iff_mod_2_eq_zero)
    also have "\<dots> \<longleftrightarrow> even (int ?n)" by simp
    also have "\<dots> \<longleftrightarrow> \<not> sint v < 0" unfolding n by simp
    finally show ?thesis .
  qed
  show ?thesis
  proof (cases "sint v < 0")
    case True
    then have "int ?n div 2 = - sint v - 1" using n by simp
    then have "uint (NOT (drop_bit 1 (of_nat ?n :: u64))) = 2 ^ 64 + sint v"
      unfolding uint_not d by simp
    then show ?thesis
      using True o sint_64_cases [of v] b by (auto simp: unzigzag_def word_uint_eq_iff split: if_splits)
  next
    case False
    then have "uint (drop_bit 1 (of_nat ?n :: u64)) = uint v"
      using d n sint_64_cases [of v] b uint_lt2p [of v] by (auto split: if_splits)
    then show ?thesis using False o by (simp add: unzigzag_def word_uint_eq_iff del: drop_bit_eq_div)
  qed
qed

lemma length_4: "length bs = 4 \<Longrightarrow> \<exists>a b c d. bs = [a, b, c, d]"
  by (auto simp: numeral_eq_Suc length_Suc_conv)

lemma fixed32_value_le_word: "length bs = 4 \<Longrightarrow> fixed32_value bs = le_word bs"
  by (auto dest!: length_4 simp: fixed32_value_def push_bit_or push_bit_push_bit or.assoc simp del: push_bit_eq_mult)

lemma fixed64_value_le_word:
  assumes "length bs = 8"
  shows "fixed64_value bs = le_word bs"
proof -
  have "length (take 4 bs) = 4" "length (drop 4 bs) = 4" using assms by auto
  then obtain a b c d e f g h where "take 4 bs = [a, b, c, d]" "drop 4 bs = [e, f, g, h]"
    using length_4 by metis
  then have "bs = [a, b, c, d, e, f, g, h]" by (metis append_take_drop_id append_Cons append_Nil)
  then show ?thesis
    by (simp add: fixed64_value_def push_bit_or push_bit_push_bit or.assoc del: push_bit_eq_mult)
qed

subsection \<open>What a read callback promises\<close>

text \<open>\<open>rest st\<close> is the input still to come, \<open>after st n\<close> the state once \<open>n\<close> bytes of it were read.\<close>

locale byte_source =
  fixes cb :: "'st icallback"
    and rest :: "'st istate \<Rightarrow> byte list"
    and after :: "'st istate \<Rightarrow> nat \<Rightarrow> 'st istate"
  assumes gives: "is_callback s = cb \<Longrightarrow> 0 < count \<Longrightarrow> unat count \<le> length (rest (is_state s)) \<Longrightarrow>
      call_read s count = Some (True, take (unat count) (rest (is_state s)),
        s\<lparr>is_state := after (is_state s) (unat count)\<rparr>)"
    and rest_after: "n \<le> length (rest st) \<Longrightarrow> rest (after st n) = drop n (rest st)"
    and after_0: "after st 0 = st"
    and after_add: "after (after st a) b = after st (a + b)"
begin

definition on_source :: "'st pb_istream \<Rightarrow> bool" where
  "on_source s \<longleftrightarrow> is_callback s = cb \<and> unat (is_bytes_left s) \<le> length (rest (is_state s))"

definition input :: "'st pb_istream \<Rightarrow> byte list" where
  "input s = take (unat (is_bytes_left s)) (rest (is_state s))"

definition advance :: "'st pb_istream \<Rightarrow> nat \<Rightarrow> 'st pb_istream" where
  "advance s n = s\<lparr>is_state := after (is_state s) n, is_bytes_left := is_bytes_left s - of_nat n\<rparr>"

definition consumes :: "('st pb_istream \<Rightarrow> ('a option \<times> 'st pb_istream) option) \<Rightarrow> byte list \<Rightarrow> 'a \<Rightarrow> bool" where
  "consumes A bs v \<longleftrightarrow> (\<forall>s tail. on_source s \<longrightarrow> input s = bs @ tail \<longrightarrow>
     A s = Some (Some v, advance s (length bs)))"

lemma consumesI:
  assumes "\<And>s tail. on_source s \<Longrightarrow> input s = bs @ tail \<Longrightarrow> A s = Some (Some v, advance s (length bs))"
  shows "consumes A bs v"
  using assms by (simp add: consumes_def)

lemma consumesD:
  "consumes A bs v \<Longrightarrow> on_source s \<Longrightarrow> input s = bs @ tail \<Longrightarrow> A s = Some (Some v, advance s (length bs))"
  by (simp add: consumes_def)

lemma length_input: "on_source s \<Longrightarrow> length (input s) = unat (is_bytes_left s)"
  by (simp add: on_source_def input_def)

lemma input_prefix:
  assumes "on_source s" and "input s = bs @ tail"
  shows "length bs \<le> unat (is_bytes_left s)" and "take (length bs) (rest (is_state s)) = bs"
    and "length bs \<le> length (rest (is_state s))" and "length bs < 2 ^ 64"
proof -
  show le: "length bs \<le> unat (is_bytes_left s)"
    using length_input [OF assms(1)] assms(2) by simp
  then show "length bs \<le> length (rest (is_state s))" "length bs < 2 ^ 64"
    using assms(1) unat_64 [of "is_bytes_left s"] by (auto simp: on_source_def)
  have "take (length bs) (input s) = bs" using assms(2) by simp
  then show "take (length bs) (rest (is_state s)) = bs"
    using le by (simp add: input_def min_def)
qed

lemma advance_source:
  assumes "on_source s" and "input s = bs @ tail"
  shows "on_source (advance s (length bs))" and "input (advance s (length bs)) = tail"
    and "unat (is_bytes_left (advance s (length bs))) = unat (is_bytes_left s) - length bs"
proof -
  note pre = input_prefix [OF assms]
  have u: "unat (of_nat (length bs) :: size_t) = length bs"
    using pre(4) by (simp add: unat_of_nat)
  show left: "unat (is_bytes_left (advance s (length bs))) = unat (is_bytes_left s) - length bs"
    using pre(1) u by (simp add: advance_def unat_sub word_le_nat_alt)
  show "on_source (advance s (length bs))"
    using assms(1) pre left by (auto simp: on_source_def advance_def rest_after)
  have "input (advance s (length bs)) = drop (length bs) (input s)"
    using left pre by (simp add: input_def advance_def rest_after drop_take)
  then show "input (advance s (length bs)) = tail" using assms(2) by simp
qed

lemma advance_0 [simp]: "advance s 0 = s"
  by (simp add: advance_def after_0)

lemma advance_add: "advance (advance s a) b = advance s (a + b)"
  by (simp add: advance_def after_add diff_diff_eq)

lemma advance_errmsg [simp]: "is_errmsg (advance s n) = is_errmsg s"
  by (simp add: advance_def)

lemma consumes_return: "consumes (\<lambda>s. Some (Some v, s)) [] v"
  by (simp add: consumes_def)

lemma consumes_then:
  assumes "consumes A as v" and "consumes (B v) bs w"
  shows "consumes (\<lambda>s. ithen (A s) B) (as @ bs) w"
proof (rule consumesI)
  fix s tail assume s: "on_source s" and inp: "input s = (as @ bs) @ tail"
  then have inp': "input s = as @ bs @ tail" by simp
  note adv = advance_source [OF s inp']
  show "ithen (A s) B = Some (Some w, advance s (length (as @ bs)))"
    using consumesD [OF assms(1) s inp'] consumesD [OF assms(2) adv(1,2)]
    by (simp add: advance_add)
qed

lemma consumes_map: "consumes A bs v \<Longrightarrow> consumes (\<lambda>s. ithen (A s) (\<lambda>x s. Some (Some (f x), s))) bs (f v)"
  using consumes_then [of A bs v "\<lambda>x s. Some (Some (f x), s)" "[]" "f v"] consumes_return [of "f v"] by simp

lemma read_checked_gives:
  assumes "on_source s" and "input s = bs @ tail" and "bs \<noteq> []" and "length bs = unat count"
  shows "read_checked s count = Some (True, bs, advance s (length bs))"
proof -
  note pre = input_prefix [OF assms(1,2)]
  have "\<not> is_bytes_left s < count" using pre(1) assms(4) by (simp add: word_less_nat_alt)
  moreover have "0 < count" using assms(3,4) by (auto simp: word_neq_0_conv [symmetric])
  ultimately show ?thesis
    using gives [of s count] pre assms
    by (simp add: read_checked_def on_source_def advance_def)
qed

lemma consumes_read: "length bs = unat count \<Longrightarrow> consumes (\<lambda>s. read_bytes s count) bs bs"
proof (rule consumesI)
  fix s tail assume "length bs = unat count" and "on_source s" "input s = bs @ tail"
  then show "read_bytes s count = Some (Some bs, advance s (length bs))"
    using read_checked_gives [of s bs tail count]
    by (cases "bs = []") (auto simp: read_bytes_def pb_read_def unat_eq_0 [symmetric] simp flip: length_greater_0_conv)
qed

lemma skip_loop_gives:
  "on_source s \<Longrightarrow> input s = bs @ tail \<Longrightarrow> bs \<noteq> [] \<Longrightarrow> length bs = unat count \<Longrightarrow>
     skip_loop s count = Some (True, advance s (length bs))"
proof (induction s count arbitrary: bs rule: skip_loop.induct)
  case (1 s count)
  show ?case
  proof (cases "16 < count")
    case False
    then show ?thesis
      using read_checked_gives [OF "1.prems"] by (simp add: skip_loop.simps [of s count])
  next
    case True
    then have c: "16 < unat count" by (simp add: word_less_nat_alt)
    have u: "unat (count - 16) = unat count - 16"
      using c by (simp add: unat_sub word_le_nat_alt)
    let ?as = "take 16 bs" and ?bs = "drop 16 bs"
    have inp: "input s = ?as @ ?bs @ tail" using "1.prems"(2) by simp
    have as: "length ?as = 16" "?as \<noteq> []" and bs: "?bs \<noteq> []" "length ?bs = unat (count - 16)"
      using c "1.prems"(4) u by auto
    have r: "read_checked s 16 = Some (True, ?as, advance s (length ?as))"
      using read_checked_gives [OF "1.prems"(1) inp as(2), of 16] as(1) by simp
    note adv = advance_source [OF "1.prems"(1) inp]
    have "skip_loop (advance s 16) (count - 16) = Some (True, advance (advance s 16) (length ?bs))"
      using "1.IH" [OF True r refl refl] adv bs as by simp
    with True r as c "1.prems"(4) u show ?thesis
      by (simp add: skip_loop.simps [of s count] advance_add)
  qed
qed

lemma consumes_skip: "length bs = unat count \<Longrightarrow> consumes (\<lambda>s. skip_bytes s count) bs ()"
proof (rule consumesI)
  fix s tail assume len: "length bs = unat count" and s: "on_source s" "input s = bs @ tail"
  show "skip_bytes s count = Some (Some (), advance s (length bs))"
  proof (cases "count = 0")
    case True
    with len show ?thesis by (simp add: skip_bytes_def pb_read_def)
  next
    case False
    then have "bs \<noteq> []" using len by (auto simp: unat_eq_0 [symmetric])
    with False len s show ?thesis
      using read_checked_gives [of s bs tail count] skip_loop_gives [of s bs tail count]
      by (simp add: skip_bytes_def pb_read_def)
  qed
qed

lemma consumes_readbyte: "consumes pb_readbyte [b] b"
proof (rule consumesI)
  fix s tail assume s: "on_source s" and inp: "input s = [b] @ tail"
  note pre = input_prefix [OF s inp]
  then have "is_bytes_left s \<noteq> 0" by auto
  with pre gives [of s 1] s show "pb_readbyte s = Some (Some b, advance s (length [b]))"
    by (simp add: pb_readbyte_def on_source_def advance_def)
qed

lemma consumes_varint_loop:
  "wire_varint bs \<Longrightarrow> j + length bs \<le> 10 \<Longrightarrow>
     consumes (\<lambda>s. varint_loop s (of_nat (7 * j)) r) bs
       (r OR push_bit (7 * j) (of_nat (varint_value bs)))"
proof (induction bs arbitrary: j r)
  case Nil
  then show ?case by simp
next
  case (Cons b bs)
  have j: "j < 10" using Cons.prems by simp
  then have jj: "7 * j \<le> 63" by simp
  have u: "unat (of_nat (7 * j) :: 8 word) = 7 * j"
    using jj by (simp only: unat_of_nat) simp
  have bp: "\<not> 64 \<le> (of_nat (7 * j) :: 8 word)"
    using jj by (simp only: word_le_nat_alt u) simp
  have nxt: "(of_nat (7 * j) :: 8 word) + 7 = of_nat (7 * Suc j)" by simp
  let ?r = "r OR push_bit (7 * j) (ucast (b AND 0x7F))"
  let ?B = "\<lambda>byte s1. let result' = r OR push_bit (7 * j) (ucast (byte AND 0x7F))
     in if byte AND 0x80 \<noteq> 0 then varint_loop s1 (of_nat (7 * Suc j)) result' else Some (Some result', s1)"
  have loop: "varint_loop s (of_nat (7 * j)) r = ithen (pb_readbyte s) ?B" for s :: "'st pb_istream"
    by (subst varint_loop.simps) (simp only: bp nxt u Let_def if_False)
  have val: "r OR push_bit (7 * j) (of_nat (varint_value (b # bs))) =
      ?r OR push_bit (7 * Suc j) (of_nat (varint_value bs))"
  proof -
    have "push_bit (7 * j) (of_nat (varint_value (b # bs)) :: u64) =
       push_bit (7 * j) (ucast (b AND 0x7F)) OR push_bit (7 * j) (push_bit 7 (of_nat (varint_value bs)))"
      by (subst varint_digit) (simp_all only: push_bit_or, simp)
    also have "push_bit (7 * j) (push_bit 7 (of_nat (varint_value bs) :: u64)) =
       push_bit (7 * Suc j) (of_nat (varint_value bs))"
      by (simp only: push_bit_push_bit) (simp add: add.commute)
    finally show ?thesis by (simp only: or.assoc)
  qed
  show ?case
  proof (cases "bs = []")
    case True
    then have "b AND 0x80 = 0" using Cons.prems by simp
    moreover have "?r OR push_bit (7 * Suc j) (of_nat (varint_value bs)) = ?r" using True by simp
    ultimately show ?thesis
      unfolding loop val using consumes_then [OF consumes_readbyte, of ?B b "[]" ?r] True consumes_return [of ?r]
      by simp
  next
    case False
    then have more: "b AND 0x80 \<noteq> 0" "wire_varint bs" using Cons.prems by (cases bs; simp)+
    have "consumes (?B b) bs (?r OR push_bit (7 * Suc j) (of_nat (varint_value bs)))"
      using Cons.IH [OF more(2), of "Suc j" ?r] Cons.prems more(1) by (simp add: Let_def)
    then show ?thesis
      unfolding loop val using consumes_then [OF consumes_readbyte, of ?B b bs] by simp
  qed
qed

text \<open>Any varint of at most ten bytes decodes to its value, modulo \<open>2 ^ 64\<close>.\<close>

lemma consumes_varint:
  "wire_varint bs \<Longrightarrow> length bs \<le> 10 \<Longrightarrow> consumes pb_decode_varint bs (of_nat (varint_value bs))"
  using consumes_varint_loop [of bs 0 0] by (simp add: pb_decode_varint_def [abs_def])

lemma consumes_spec_varint: "consumes pb_decode_varint (spec_varint (unat (v :: u64))) v"
  using consumes_varint [OF wire_varint_spec length_spec_varint_64, of v]
  by (simp add: varint_value_spec)

lemma consumes_varint32_loop:
  "wire_varint bs \<Longrightarrow> j + length bs \<le> 5 \<Longrightarrow>
     consumes (\<lambda>s. varint32_loop s (of_nat (7 * j)) r) bs
       (r OR push_bit (7 * j) (of_nat (varint_value bs)), of_nat (7 * (j + length bs)), last bs)"
proof (induction bs arbitrary: j r)
  case Nil
  then show ?case by simp
next
  case (Cons b bs)
  have j: "j < 5" using Cons.prems by simp
  then have jj: "7 * j \<le> 28" by simp
  have u: "unat (of_nat (7 * j) :: 8 word) = 7 * j"
    using jj by (simp only: unat_of_nat) simp
  have bp: "(32 \<le> (of_nat (7 * j) :: 8 word)) = False"
    using jj by (simp only: word_le_nat_alt u) simp
  have nxt: "(of_nat (7 * j) :: 8 word) + 7 = of_nat (7 * Suc j)" by simp
  let ?r = "r OR push_bit (7 * j) (ucast (b AND 0x7F))"
  let ?B = "\<lambda>byte s1. let result' = r OR push_bit (7 * j) (ucast (byte AND 0x7F))
     in if byte AND 0x80 \<noteq> 0 then varint32_loop s1 (of_nat (7 * Suc j)) result'
        else Some (Some (result', of_nat (7 * Suc j), byte), s1)"
  have loop: "varint32_loop s (of_nat (7 * j)) r = ithen (pb_readbyte s) ?B" for s :: "'st pb_istream"
    by (subst varint32_loop.simps) (simp only: bp nxt u Let_def if_False simp_thms)
  have val: "r OR push_bit (7 * j) (of_nat (varint_value (b # bs))) =
      ?r OR push_bit (7 * Suc j) (of_nat (varint_value bs))"
  proof -
    have "push_bit (7 * j) (of_nat (varint_value (b # bs)) :: u32) =
       push_bit (7 * j) (ucast (b AND 0x7F)) OR push_bit (7 * j) (push_bit 7 (of_nat (varint_value bs)))"
      by (subst varint_digit) (simp_all only: push_bit_or, simp)
    also have "push_bit (7 * j) (push_bit 7 (of_nat (varint_value bs) :: u32)) =
       push_bit (7 * Suc j) (of_nat (varint_value bs))"
      by (simp only: push_bit_push_bit) (simp add: add.commute)
    finally show ?thesis by (simp only: or.assoc)
  qed
  show ?case
  proof (cases "bs = []")
    case True
    then have "b AND 0x80 = 0" using Cons.prems by simp
    moreover have "?r OR push_bit (7 * Suc j) (of_nat (varint_value bs)) = ?r" using True by simp
    ultimately show ?thesis
      unfolding loop val
      using consumes_then [OF consumes_readbyte, of ?B b "[]" "(?r, of_nat (7 * Suc j), b)"] True
        consumes_return [of "(?r, of_nat (7 * Suc j), b)"]
      by simp
  next
    case False
    then have more: "b AND 0x80 \<noteq> 0" "wire_varint bs" using Cons.prems by (cases bs; simp)+
    have "consumes (?B b) bs (?r OR push_bit (7 * Suc j) (of_nat (varint_value bs)),
        of_nat (7 * (j + length (b # bs))), last (b # bs))"
      using Cons.IH [OF more(2), of "Suc j" ?r] Cons.prems more(1) False by (simp add: Let_def)
    then show ?thesis
      unfolding loop val using consumes_then [OF consumes_readbyte, of ?B b bs] by simp
  qed
qed

lemma varint32_eof_gives:
  assumes "wire_varint bs" and "length bs \<le> 5" and "varint_value bs < 2 ^ 32"
    and s: "on_source s" and inp: "input s = bs @ tail"
  shows "pb_decode_varint32_eof s = Some ((Some (of_nat (varint_value bs)), False), advance s (length bs))"
proof -
  obtain b bs' where bs: "bs = b # bs'" using assms(1) by (cases bs) auto
  have inp1: "input s = [b] @ bs' @ tail" using inp bs by simp
  note rd = consumesD [OF consumes_readbyte s inp1]
  note adv = advance_source [OF s inp1]
  show ?thesis
  proof (cases "bs' = []")
    case True
    then have "b AND 0x80 = 0" using assms(1) bs by simp
    moreover from this have "b AND 0x7F = b"
    proof -
      have "b = b AND 0xFF" by (simp add: word_unat_eq_iff mod_less [OF unat_8])
      also have "\<dots> = (b AND 0x7F) OR (b AND 0x80)" by (simp add: bit.conj_disj_distrib [symmetric])
      finally show ?thesis using \<open>b AND 0x80 = 0\<close> by simp
    qed
    ultimately show ?thesis
      using rd bs True by (simp add: pb_decode_varint32_eof_def)
  next
    case False
    then have more: "b AND 0x80 \<noteq> 0" "wire_varint bs'" using assms(1) bs by (cases bs'; simp)+
    have len: "1 + length bs' \<le> 5" using assms(2) bs by simp
    let ?r = "ucast (b AND 0x7F) :: u32"
    have val: "?r OR push_bit 7 (of_nat (varint_value bs')) = of_nat (varint_value bs)"
      unfolding bs by (subst varint_digit) simp_all
    have loop: "varint32_loop (advance s 1) 7 ?r =
        Some (Some (of_nat (varint_value bs), of_nat (7 * length bs), last bs'), advance s (length bs))"
      using consumesD [OF consumes_varint32_loop [OF more(2) len, of ?r], of "advance s 1" tail] adv bs val
      by (simp add: advance_add)
    have "last bs' AND 0x70 = 0" if "(of_nat (7 * length bs) :: 8 word) = 35"
    proof -
      have "unat (of_nat (7 * length bs) :: 8 word) = 7 * length bs"
        using assms(2) by (simp only: unat_of_nat) simp
      then have "length bs = 5" using that by simp
      then have "unat (last bs AND 0x7F) * 128 ^ 4 < 2 ^ 32"
        using varint_value_last [OF assms(1)] assms(3) by simp
      then have "unat (last bs AND 0x7F) < 16" by simp
      then show ?thesis using and_70 bs False by simp
    qed
    then show ?thesis
      using rd loop more(1) by (auto simp: pb_decode_varint32_eof_def)
  qed
qed

lemma consumes_varint32:
  "wire_varint bs \<Longrightarrow> length bs \<le> 5 \<Longrightarrow> varint_value bs < 2 ^ 32 \<Longrightarrow>
     consumes pb_decode_varint32 bs (of_nat (varint_value bs))"
  by (rule consumesI) (simp add: pb_decode_varint32_def varint32_eof_gives)

lemma consumes_spec_varint32:
  assumes "n < 2 ^ 32"
  shows "consumes pb_decode_varint32 (spec_varint n) (of_nat n)"
  using consumes_varint32 [OF wire_varint_spec, of n] length_spec_varint_le [of n 5] assms
  by (simp add: varint_value_spec)

text \<open>A tag that is not zero: field numbers have 29 bits.\<close>

lemma decode_tag_gives:
  assumes "unat fn < 2 ^ 29" and "0 < 8 * unat fn + unat (wt_code wt)"
    and "on_source s" and "input s = spec_tag wt fn @ tail" and "wt = wt_of (ucast (wt_code wt))"
  shows "pb_decode_tag s = Some ((Some (wt, fn), False), advance s (length (spec_tag wt fn)))"
proof -
  let ?n = "8 * unat fn + unat (wt_code wt)"
  have n: "?n < 2 ^ 32" using assms(1) wt_code_less [of wt] by simp
  have eof: "pb_decode_varint32_eof s = Some ((Some (of_nat ?n), False), advance s (length (spec_tag wt fn)))"
    using varint32_eof_gives [OF wire_varint_spec, of ?n s tail] length_spec_varint_le [of ?n 5] n assms(3,4)
    by (simp add: varint_value_spec spec_tag_def)
  have u: "unat (of_nat ?n :: u32) = ?n" using n by (simp only: unat_of_nat) simp
  have "of_nat ?n \<noteq> (0 :: u32)" using u assms(2) by (auto simp: word_unat_eq_iff)
  moreover have "drop_bit 3 (of_nat ?n :: u32) = fn"
    using u wt_code_less [of wt]
    by (simp only: word_unat_eq_iff unat_drop_bit) simp
  moreover have "(of_nat ?n :: u32) AND 7 = ucast (wt_code wt)"
  proof -
    have "unat ((of_nat ?n :: u32) AND 7) = ?n mod 8"
      using unat_and_mask [of "of_nat ?n :: u32" 3] u by (simp add: mask_eq_exp_minus_1)
    then show ?thesis
      using wt_code_less [of wt] by (simp add: word_unat_eq_iff unat_ucast_mod)
  qed
  ultimately show ?thesis
    using eof assms(5) by (simp add: pb_decode_tag_def)
qed

lemma consumes_skip_varint: "wire_varint bs \<Longrightarrow> consumes pb_skip_varint bs ()"
proof (induction bs)
  case Nil
  then show ?case by simp
next
  case (Cons b bs)
  let ?B = "\<lambda>bs s1. case bs of [] \<Rightarrow> None
       | byte # _ \<Rightarrow> if byte AND 0x80 \<noteq> 0 then pb_skip_varint s1 else Some (Some (), s1)"
  have step: "pb_skip_varint = (\<lambda>s :: 'st pb_istream. ithen (read_bytes s 1) ?B)"
    by (rule ext) (rule pb_skip_varint.simps)
  have rd: "consumes (\<lambda>s. read_bytes s 1) [b] [b]" by (rule consumes_read) simp
  have "consumes (?B [b]) bs ()"
    using Cons by (cases bs) (simp_all add: consumes_return)
  from consumes_then [of "\<lambda>s. read_bytes s 1" "[b]" "[b]" ?B bs "()", OF rd this]
  show ?case by (subst step) simp
qed

lemma consumes_skip_string:
  assumes "length bs < 2 ^ 32"
  shows "consumes pb_skip_string (spec_varint (length bs) @ bs) ()"
proof -
  have "unat (ucast (of_nat (length bs) :: u32) :: size_t) = length bs"
    using assms by (simp add: unat_ucast_mod unat_of_nat)
  then show ?thesis
    using consumes_then [OF consumes_spec_varint32 [OF assms] consumes_skip, of bs]
    by (simp add: pb_skip_string_def [abs_def])
qed

lemma consumes_svarint: "consumes pb_decode_svarint (spec_varint (zigzag_nat (sint v))) v"
proof -
  have "unat (of_nat (zigzag_nat (sint v)) :: u64) = zigzag_nat (sint v)"
    using zigzag_nat_less [of v] by (simp only: unat_of_nat) simp
  then show ?thesis
    using consumes_map [OF consumes_spec_varint, of unzigzag "of_nat (zigzag_nat (sint v))"]
    by (simp add: pb_decode_svarint_def [abs_def] unzigzag_zigzag_nat)
qed

lemma consumes_fixed32: "consumes pb_decode_fixed32 (le_bytes 4 v) v"
  using consumes_map [OF consumes_read [of "le_bytes 4 v" 4], of fixed32_value]
  by (simp add: pb_decode_fixed32_def [abs_def] fixed32_value_le_word)

lemma consumes_fixed64: "consumes pb_decode_fixed64 (le_bytes 8 v) v"
  using consumes_map [OF consumes_read [of "le_bytes 8 v" 8], of fixed64_value]
  by (simp add: pb_decode_fixed64_def [abs_def] fixed64_value_le_word)

lemma consumes_skip_field:
  assumes "wire_payload wt bs"
  shows "consumes (\<lambda>s. pb_skip_field s wt) bs ()"
proof (cases wt)
  case PB_WT_VARINT
  then show ?thesis using assms consumes_skip_varint by (simp add: wire_payload_def)
next
  case PB_WT_64BIT
  then show ?thesis using assms consumes_skip [of bs 8] by (simp add: wire_payload_def)
next
  case PB_WT_STRING
  then show ?thesis using assms consumes_skip_string by (auto simp: wire_payload_def)
next
  case PB_WT_32BIT
  then show ?thesis using assms consumes_skip [of bs 4] by (simp add: wire_payload_def)
next
  case (PB_WT_OTHER x)
  then show ?thesis using assms by (simp add: wire_payload_def)
qed

text \<open>A length-delimited value: the substream is on its body alone, the parent keeps count of
  everything and is put after the body when the substream is closed, however much of the
  body was read.\<close>

lemma make_substream_gives:
  assumes len: "length body < 2 ^ 32" and s: "on_source s"
    and inp: "input s = spec_varint (length body) @ body @ tail"
  obtains sub s1 where "pb_make_string_substream s = Some (Some sub, s1)"
    and "on_source sub" and "input sub = body" and "is_errmsg sub = is_errmsg s"
    and "is_state sub = is_state s1"
    and "s1 = (advance s (length (spec_varint (length body))))
           \<lparr>is_bytes_left := is_bytes_left s - of_nat (length (spec_varint (length body)) + length body)\<rparr>"
proof -
  let ?v = "spec_varint (length body)" and ?n = "of_nat (length body) :: u32"
  let ?s1 = "advance s (length ?v)"
  have n: "unat (ucast ?n :: size_t) = length body"
    using len by (simp add: unat_ucast_mod unat_of_nat)
  have c: "(ucast ?n :: size_t) = of_nat (length body)"
  proof (rule word_unat_eq_iff [THEN iffD2])
    show "unat (ucast ?n :: size_t) = unat (of_nat (length body) :: size_t)"
      unfolding n using len by (simp add: unat_of_nat)
  qed
  note rd = consumesD [OF consumes_spec_varint32 [OF len] s inp]
  note adv = advance_source [OF s inp]
  note pre = input_prefix [OF adv(1,2)]
  have fit: "\<not> is_bytes_left ?s1 < ucast ?n"
    using pre(1) n by (simp add: word_less_nat_alt)
  let ?sub = "?s1\<lparr>is_bytes_left := ucast ?n\<rparr>"
  have mk: "pb_make_string_substream s =
      Some (Some ?sub, ?s1\<lparr>is_bytes_left := is_bytes_left ?s1 - ucast ?n\<rparr>)"
    using rd fit by (simp add: pb_make_string_substream_def)
  show ?thesis
  proof (rule that [OF mk])
    show "on_source ?sub" "input ?sub = body"
      using adv(1) pre n by (auto simp: on_source_def input_def)
    show "?s1\<lparr>is_bytes_left := is_bytes_left ?s1 - ucast ?n\<rparr> =
      ?s1\<lparr>is_bytes_left := is_bytes_left s - of_nat (length ?v + length body)\<rparr>"
      using c by (simp add: advance_def algebra_simps)
  qed simp_all
qed

lemma close_substream_gives:
  assumes sub: "on_source sub" "input sub = rest_of_body"
  shows "pb_close_string_substream s sub = Some (True, s\<lparr>is_state := after (is_state sub) (length rest_of_body),
      is_errmsg := is_errmsg sub\<rparr>)"
proof (cases "is_bytes_left sub = 0")
  case True
  then have "rest_of_body = []" using length_input [OF sub(1)] sub(2) by simp
  with True show ?thesis by (simp add: pb_close_string_substream_def after_0)
next
  case False
  have len: "length rest_of_body = unat (is_bytes_left sub)"
    using length_input [OF sub(1)] sub(2) by simp
  have inp: "input sub = rest_of_body @ []" using sub(2) by simp
  have "consumes (\<lambda>s. skip_bytes s (is_bytes_left sub)) rest_of_body ()"
    using consumes_skip [OF len] .
  from consumesD [OF this sub(1) inp]
  obtain bs where "pb_read sub False (is_bytes_left sub) = Some (True, bs, advance sub (length rest_of_body))"
    by (auto simp: skip_bytes_def bind_eq_Some_conv split: if_splits)
  with False show ?thesis
    by (simp add: pb_close_string_substream_def advance_def)
qed

text \<open>Skipping through a substream: make, read some prefix, close.\<close>

lemma substream_roundtrip:
  assumes "length body < 2 ^ 32" and "on_source s" and "input s = spec_varint (length body) @ body @ tail"
    and "pb_make_string_substream s = Some (Some sub, s1)" and "k \<le> length body"
  shows "pb_close_string_substream s1 (advance sub k) =
     Some (True, advance s (length (spec_varint (length body) @ body)))"
proof -
  obtain sub' s1' where mk: "pb_make_string_substream s = Some (Some sub', s1')"
    "on_source sub'" "input sub' = body" "is_errmsg sub' = is_errmsg s" "is_state sub' = is_state s1'"
    "s1' = (advance s (length (spec_varint (length body))))
       \<lparr>is_bytes_left := is_bytes_left s - of_nat (length (spec_varint (length body)) + length body)\<rparr>"
    using make_substream_gives [OF assms(1-3)] by blast
  then have eq: "sub' = sub" "s1' = s1" using assms(4) by auto
  have inp: "input sub = take k body @ drop k body" using mk(3) eq by simp
  have "length (take k body) = k" using assms(5) by simp
  with advance_source(1,2) [OF _ inp] mk(2) eq
  have "on_source (advance sub k)" "input (advance sub k) = drop k body" by auto
  from close_substream_gives [OF this, of s1] show ?thesis
    using mk(4,5,6) eq assms(5)
    by (simp add: advance_def after_add)
qed

lemma varint32_prefix:
  "on_source s \<Longrightarrow> input s = as @ tail \<Longrightarrow> \<forall>b \<in> set as. b AND 0x80 \<noteq> 0 \<Longrightarrow> j + length as \<le> 5 \<Longrightarrow>
     varint32_loop s (of_nat (7 * j)) r =
     varint32_loop (advance s (length as)) (of_nat (7 * (j + length as)))
       (r OR push_bit (7 * j) (of_nat (varint_value as)))"
proof (induction as arbitrary: s j r)
  case Nil
  then show ?case by simp
next
  case (Cons b bs)
  have jj: "7 * j \<le> 28" using Cons.prems(4) by simp
  have u: "unat (of_nat (7 * j) :: 8 word) = 7 * j"
    using jj by (simp only: unat_of_nat) simp
  have bp: "(32 \<le> (of_nat (7 * j) :: 8 word)) = False"
    using jj by (simp only: word_le_nat_alt u) simp
  have nxt: "(of_nat (7 * j) :: 8 word) + 7 = of_nat (7 * Suc j)" by simp
  have inp: "input s = [b] @ bs @ tail" using Cons.prems(2) by simp
  note rd = consumesD [OF consumes_readbyte Cons.prems(1) inp]
  note adv = advance_source [OF Cons.prems(1) inp]
  have "b AND 0x80 \<noteq> 0" using Cons.prems(3) by simp
  then have "varint32_loop s (of_nat (7 * j)) r =
      varint32_loop (advance s 1) (of_nat (7 * Suc j)) (r OR push_bit (7 * j) (ucast (b AND 0x7F)))"
    using rd by (subst varint32_loop.simps) (simp only: bp nxt u Let_def if_False simp_thms, simp)
  also have "\<dots> = varint32_loop (advance (advance s 1) (length bs)) (of_nat (7 * (Suc j + length bs)))
      (r OR push_bit (7 * j) (ucast (b AND 0x7F)) OR push_bit (7 * Suc j) (of_nat (varint_value bs)))"
    using Cons.IH [of "advance s 1" "Suc j"] adv Cons.prems(3,4) by (simp add: or.assoc)
  also have "(r OR push_bit (7 * j) (ucast (b AND 0x7F)) OR push_bit (7 * Suc j) (of_nat (varint_value bs))) =
      r OR push_bit (7 * j) (of_nat (varint_value (b # bs)))"
    by (subst varint_digit) (simp_all add: push_bit_or push_bit_push_bit or.assoc add.commute del: push_bit_eq_mult)
  finally show ?case by (simp add: advance_add)
qed

lemma consumes_sign_extension:
  assumes "drop_bit 31 r \<noteq> (0 :: u32)"
  shows "consumes (\<lambda>s. varint32_loop s 35 r) [0xFF, 0xFF, 0xFF, 0xFF, 0x01] (r, 70, 0x01)"
proof -
  have step: "consumes (\<lambda>s. varint32_loop s bp r) (0xFF # bs) v"
    if "consumes (\<lambda>s. varint32_loop s (bp + 7) r) bs v" "32 \<le> bp" "bp < 63" for bp bs and v :: "u32 \<times> 8 word \<times> byte"
  proof -
    have "(\<lambda>s :: 'st pb_istream. varint32_loop s bp r) = (\<lambda>s. ithen (pb_readbyte s) (\<lambda>byte s1.
       if byte AND 0x7F \<noteq> 0x00 \<and> (drop_bit 31 r = 0 \<or> byte \<noteq> 0xFF)
       then is_return_error s1 ''varint overflow''
       else if byte AND 0x80 \<noteq> 0 then varint32_loop s1 (bp + 7) r
       else Some (Some (r, bp + 7, byte), s1)))"
      using that(2,3) by (intro ext, subst varint32_loop.simps) (simp add: Let_def cong: if_cong)
    moreover have "consumes \<dots> ([0xFF] @ bs) v"
      by (rule consumes_then [OF consumes_readbyte]) (use that(1) assms in simp)
    ultimately show ?thesis by simp
  qed
  have last: "consumes (\<lambda>s. varint32_loop s 63 r) [0x01] (r, 70, 0x01)"
  proof -
    have "(\<lambda>s :: 'st pb_istream. varint32_loop s 63 r) = (\<lambda>s. ithen (pb_readbyte s) (\<lambda>byte s1.
       if byte AND 0x7F \<noteq> 0x00 \<and> (drop_bit 31 r = 0 \<or> byte \<noteq> 0x01)
       then is_return_error s1 ''varint overflow''
       else if byte AND 0x80 \<noteq> 0 then varint32_loop s1 70 r
       else Some (Some (r, 70, byte), s1)))"
      by (intro ext, subst varint32_loop.simps) (simp add: Let_def cong: if_cong)
    moreover have "consumes \<dots> ([0x01] @ []) (r, 70, 0x01)"
      by (rule consumes_then [OF consumes_readbyte]) (use assms consumes_return in simp)
    ultimately show ?thesis by simp
  qed
  show ?thesis by (intro step) (use last in simp_all)
qed

text \<open>Negative 32-bit numbers arrive sign-extended to 64 bits, in ten bytes.\<close>

lemma consumes_varint32_negative:
  assumes "sint (v :: u32) < 0"
  shows "consumes pb_decode_varint32 (spec_varint (unat (scast v :: u64))) v"
proof (rule consumesI)
  fix s tail
  let ?n = "unat (scast v :: u64)"
  assume s: "on_source s" and inp: "input s = spec_varint ?n @ tail"
  note n = scast_negative [OF assms]
  let ?ext = "[0xFF, 0xFF, 0xFF, 0xFF, 0x01] :: byte list"
  have "?n div 128 ^ 5 = 536870911" using n unat_32 [of v] by simp
  moreover have "spec_varint 536870911 = ?ext" by (simp add: spec_varint.simps)
  moreover have "128 ^ 5 \<le> ?n" using n by simp
  ultimately obtain as where as: "spec_varint ?n = as @ ?ext" "length as = 5"
    "\<forall>b \<in> set as. b AND 0x80 \<noteq> 0" "varint_value as = ?n mod 128 ^ 5"
    using spec_varint_split [of 5 ?n] by auto
  obtain b bs where bs: "as = b # bs" "length bs = 4" using as(2) by (cases as) auto
  have inp1: "input s = [b] @ bs @ ?ext @ tail" using inp as(1) bs(1) by simp
  note rd = consumesD [OF consumes_readbyte s inp1]
  note adv1 = advance_source [OF s inp1]
  have inp2: "input (advance s 1) = bs @ ?ext @ tail" using adv1(2) by simp
  note adv2 = advance_source [OF _ inp2]
  have val: "ucast (b AND 0x7F) OR push_bit 7 (of_nat (varint_value bs)) = v"
  proof -
    have "(of_nat (varint_value as) :: u32) = v"
    proof (rule word_unat_eq_iff [THEN iffD2])
      have "unat (of_nat (varint_value as) :: u32) = ?n mod 128 ^ 5 mod 2 ^ 32"
        unfolding as(4) by (simp only: unat_of_nat) simp
      also have "\<dots> = ?n mod 2 ^ 32" by (simp add: mod_mod_cancel)
      also have "?n = unat v + 4294967295 * 2 ^ 32" using n by simp
      also have "\<dots> mod 2 ^ 32 = unat v" using unat_32 [of v] by (simp only: mod_mult_self1) simp
      finally show "unat (of_nat (varint_value as) :: u32) = unat v" .
    qed
    then show ?thesis unfolding bs(1) by (subst (asm) varint_digit) simp_all
  qed
  have "varint32_loop (advance s 1) 7 (ucast (b AND 0x7F)) = varint32_loop (advance s 5) 35 v"
    using varint32_prefix [of "advance s 1" bs "?ext @ tail" 1 "ucast (b AND 0x7F)"] adv1 inp2 bs as(3) val
    by (simp add: advance_add)
  moreover have "drop_bit 31 v \<noteq> 0"
  proof
    assume "drop_bit 31 v = 0"
    then have "unat (drop_bit 31 v) = 0" by simp
    then show False using n(1) by (simp only: unat_drop_bit) simp
  qed
  then have "varint32_loop (advance s 5) 35 v = Some (Some (v, 70, 0x01), advance s 10)"
    using consumesD [OF consumes_sign_extension, of v "advance s 5" tail] adv2 adv1 bs
    by (simp add: advance_add)
  moreover have "b AND 0x80 \<noteq> 0" using as(3) bs(1) by simp
  ultimately show "pb_decode_varint32 s = Some (Some v, advance s (length (spec_varint ?n)))"
    using rd as(1,2) by (simp add: pb_decode_varint32_def pb_decode_varint32_eof_def)
qed

end

subsection \<open>The buffer source\<close>

fun src_rest :: "'st istate \<Rightarrow> byte list" where
  "src_rest (Src bs) = bs"
| "src_rest (St st) = []"

fun src_after :: "'st istate \<Rightarrow> nat \<Rightarrow> 'st istate" where
  "src_after (Src bs) n = Src (drop n bs)"
| "src_after (St st) n = St st"

interpretation src: byte_source Buf_read src_rest src_after
proof
  fix s :: "'a pb_istream" and count :: size_t
  assume "is_callback s = Buf_read" "0 < count" "unat count \<le> length (src_rest (is_state s))"
  then show "call_read s count = Some (True, take (unat count) (src_rest (is_state s)),
      s\<lparr>is_state := src_after (is_state s) (unat count)\<rparr>)"
    by (cases "is_state s") (auto simp: call_read_def word_less_nat_alt)
next
  fix st :: "'a istate" and n a b :: nat
  show "n \<le> length (src_rest st) \<Longrightarrow> src_rest (src_after st n) = drop n (src_rest st)"
    by (cases st) auto
  show "src_after st 0 = st" by (cases st) auto
  show "src_after (src_after st a) b = src_after st (a + b)"
    by (cases st) (auto simp: add.commute)
qed

lemma src_on_source:
  "unat n \<le> length buf \<Longrightarrow> src.on_source (pb_istream_from_buffer buf n)"
  "src.input (pb_istream_from_buffer buf n) = take (unat n) buf"
  by (simp_all add: src.on_source_def src.input_def pb_istream_from_buffer_def)

text \<open>Evaluation on a buffer.\<close>

lemma readbyte_buffer:
  "n \<noteq> 0 \<Longrightarrow> pb_readbyte \<lparr>is_callback = Buf_read, is_state = Src (b # bs), is_bytes_left = n, is_errmsg = e\<rparr> =
     Some (Some b, \<lparr>is_callback = Buf_read, is_state = Src bs, is_bytes_left = n - 1, is_errmsg = e\<rparr>)"
  by (simp add: pb_readbyte_def call_read_def)

lemma replicate_numeral: "replicate (numeral k) x = x # replicate (pred_numeral k) x"
  by (simp add: numeral_eq_Suc)

end
