(* ===== verification/Defaults.thy ===== *)
theory Defaults
  imports FieldIter
begin

section \<open>Default values (nanopb/pb_decode.c)\<close>

text \<open>
  \<open>pb_message_set_to_defaults\<close> and the helpers on extension lists. A message nests through
  static submessages and through extension lists, so both carry a fuel argument; fuel above
  the nesting depth is enough, and a cyclic extension list runs out of any fuel, as the C
  code would not return.

  \<open>dec_ext\<close> stands for the extension types that the pointers in a message refer to: the
  optional decode function and the descriptor in \<open>arg\<close>.
\<close>

subsection \<open>Count and has members\<close>

definition read_count :: "mem \<Rightarrow> psize \<Rightarrow> pb_size_t option" where
  "read_count m ps = (case ps of At a \<Rightarrow> load_u32 m a | Local v \<Rightarrow> Some v)"

definition write_count :: "mem \<Rightarrow> psize \<Rightarrow> pb_size_t \<Rightarrow> (mem \<times> psize) option" where
  "write_count m ps c =
     (case ps of At a \<Rightarrow> map_option (\<lambda>m'. (m', ps)) (store_u32 m a c) | Local _ \<Rightarrow> Some (m, Local c))"

definition write_has :: "mem \<Rightarrow> psize \<Rightarrow> bool \<Rightarrow> mem option" where
  "write_has m ps b = (case ps of At a \<Rightarrow> store_bool m a b | Local _ \<Rightarrow> None)"

subsection \<open>Extension lists\<close>

text \<open>A \<open>pb_extension_t\<close>: \<open>type\<close> at offset 0, \<open>dest\<close> at 8, \<open>next\<close> at 16, \<open>found\<close> at 24.\<close>

definition iter_from_extension :: "(addr \<Rightarrow> pb_field list option) \<Rightarrow> mem \<Rightarrow> addr \<Rightarrow> pb_field_iter option" where
  "iter_from_extension ext_arg m extension = do {
     ty \<leftarrow> load_ptr m extension;
     fs \<leftarrow> ext_arg ty;
     field \<leftarrow> field_at fs 0;
     dest \<leftarrow> load_ptr m (extension + 8);
     (_, it) \<leftarrow> pb_field_iter_begin fs dest;
     Some (it\<lparr>it_pData := (if PB_ATYPE (ftype field) = PB_ATYPE_POINTER then extension + 8 else dest),
              it_pSize := At (extension + 24)\<rparr>)
   }"

fun ext_loop :: "nat \<Rightarrow> (addr \<Rightarrow> mem \<Rightarrow> mem option) \<Rightarrow> addr \<Rightarrow> mem \<Rightarrow> mem option" where
  "ext_loop 0 body ext m = None"
| "ext_loop (Suc k) body ext m =
     (if ext = 0 then Some m
      else do {
        m1 \<leftarrow> body ext m;
        nxt \<leftarrow> load_ptr m1 (ext + 16);
        ext_loop k body nxt m1
      })"

subsection \<open>Fields of a message\<close>

fun fields_loop :: "(pb_field_iter \<Rightarrow> mem \<Rightarrow> mem option) \<Rightarrow> nat \<Rightarrow> pb_field_iter \<Rightarrow> mem \<Rightarrow> mem option" where
  "fields_loop body 0 it m = None"
| "fields_loop body (Suc k) it m = do {
     m1 \<leftarrow> body it m;
     (more, it') \<leftarrow> pb_field_iter_next it;
     if more then fields_loop body k it' m1 else Some m1
   }"

definition message_loop :: "(pb_field_iter \<Rightarrow> mem \<Rightarrow> mem option) \<Rightarrow> pb_field list \<Rightarrow> addr \<Rightarrow> mem \<Rightarrow> mem option" where
  "message_loop body flds dest m = do {
     (nonempty, it) \<leftarrow> pb_field_iter_begin flds dest;
     if \<not> nonempty then Some m else fields_loop body (length flds) it m
   }"

subsection \<open>\<open>pb_field_set_to_default\<close>\<close>

fun pb_field_set_to_default ::
  "nat \<Rightarrow> (addr \<Rightarrow> pb_field list option) \<Rightarrow> pb_field_iter \<Rightarrow> mem \<Rightarrow> mem option" where
  "pb_field_set_to_default 0 xa it m = None"
| "pb_field_set_to_default (Suc n) xa it m = do {
     f \<leftarrow> cur_field it;
     let type = ftype f;
     if PB_LTYPE type = PB_LTYPE_EXTENSION then do {
       ext \<leftarrow> load_ptr m (it_pData it);
       ext_loop (Suc n) (\<lambda>ext m. do {
         m1 \<leftarrow> store_bool m (ext + 24) False;
         ext_iter \<leftarrow> iter_from_extension xa m1 ext;
         pb_field_set_to_default n xa ext_iter m1
       }) ext m
     }
     else if PB_ATYPE type = PB_ATYPE_STATIC then do {
       (init_data, m1) \<leftarrow>
         (if PB_HTYPE type = PB_HTYPE_OPTIONAL \<and> it_pSize it \<noteq> At (it_pData it)
          then do { m1 \<leftarrow> write_has m (it_pSize it) False; Some (True, m1) }
          else if PB_HTYPE type = PB_HTYPE_REPEATED \<or> PB_HTYPE type = PB_HTYPE_ONEOF
          then do { (m1, _) \<leftarrow> write_count m (it_pSize it) 0; Some (False, m1) }
          else Some (True, m));
       if \<not> init_data then Some m1
       else if PB_LTYPE type = PB_LTYPE_SUBMESSAGE then do {
         flds \<leftarrow> ptr_fields (ptr f);
         message_loop (pb_field_set_to_default n xa) flds (it_pData it) m1
       }
       else (case ptr f of
               PNull \<Rightarrow> c_memset0 m1 (it_pData it) (unat (data_size f))
             | PDefault v \<Rightarrow> c_memcpy m1 (it_pData it) v (unat (data_size f))
             | PFields _ \<Rightarrow> None)
     }
     else if PB_ATYPE type = PB_ATYPE_POINTER then do {
       m1 \<leftarrow> store_ptr m (it_pData it) 0;
       if PB_HTYPE type = PB_HTYPE_REPEATED \<or> PB_HTYPE type = PB_HTYPE_ONEOF
       then map_option fst (write_count m1 (it_pSize it) 0)
       else Some m1
     }
     else Some m
   }"

declare pb_field_set_to_default.simps [simp del]

definition pb_message_set_to_defaults ::
  "nat \<Rightarrow> (addr \<Rightarrow> pb_field list option) \<Rightarrow> pb_field list \<Rightarrow> addr \<Rightarrow> mem \<Rightarrow> mem option" where
  "pb_message_set_to_defaults n xa flds dest m = message_loop (pb_field_set_to_default n xa) flds dest m"

end
