(* ===== verification/Release.thy ===== *)
theory Release
  imports Defaults
begin

section \<open>Releasing a message (nanopb/pb_decode.c)\<close>

text \<open>
  \<open>pb_release\<close> and \<open>pb_release_single_field\<close>: free what the pointer fields of a message own,
  inside submessages and extensions first, and null the pointers.
\<close>

fun release_items :: "(addr \<Rightarrow> mem \<Rightarrow> mem option) \<Rightarrow> nat \<Rightarrow> addr \<Rightarrow> int \<Rightarrow> mem \<Rightarrow> mem option" where
  "release_items rel 0 pItem step m = Some m"
| "release_items rel (Suc k) pItem step m = do {
     m1 \<leftarrow> rel pItem m;
     release_items rel k (pItem + step) step m1
   }"

definition free_entry :: "addr \<Rightarrow> mem \<Rightarrow> mem option" where
  "free_entry pItem m = do {
     p \<leftarrow> load_ptr m pItem;
     m1 \<leftarrow> c_free m p;
     store_ptr m1 pItem 0
   }"

fun pb_release_single_field ::
  "nat \<Rightarrow> (addr \<Rightarrow> pb_field list option) \<Rightarrow> pb_field_iter \<Rightarrow> mem \<Rightarrow> mem option" where
  "pb_release_single_field 0 xa it m = None"
| "pb_release_single_field (Suc n) xa it m = do {
     f \<leftarrow> cur_field it;
     let type = ftype f;
     current \<leftarrow> (if PB_HTYPE type = PB_HTYPE_ONEOF
                then map_option (\<lambda>c. c = tag f) (read_count m (it_pSize it)) else Some True);
     if \<not> current then Some m
     else do {
       m1 \<leftarrow>
         (if PB_LTYPE type = PB_LTYPE_EXTENSION then do {
            ext \<leftarrow> load_ptr m (it_pData it);
            ext_loop (Suc n) (\<lambda>ext m. do {
              ext_iter \<leftarrow> iter_from_extension xa m ext;
              pb_release_single_field n xa ext_iter m
            }) ext m
          }
          else if PB_LTYPE type = PB_LTYPE_SUBMESSAGE \<and> PB_ATYPE type \<noteq> PB_ATYPE_CALLBACK then do {
            pItem \<leftarrow> (if PB_ATYPE type = PB_ATYPE_POINTER then load_ptr m (it_pData it)
                     else Some (it_pData it));
            count \<leftarrow>
              (if PB_HTYPE type = PB_HTYPE_REPEATED then do {
                 c \<leftarrow> (if PB_ATYPE type = PB_ATYPE_STATIC \<and> it_pSize it = At (it_pData it)
                      then Some (array_size f) else read_count m (it_pSize it));
                 Some (if PB_ATYPE type = PB_ATYPE_STATIC \<and> c > array_size f then array_size f else c)
               }
               else Some 1);
            if pItem \<noteq> 0 then do {
              flds \<leftarrow> ptr_fields (ptr f);
              release_items (\<lambda>a m. if a = 0 then Some m
                                   else message_loop (pb_release_single_field n xa) flds a m)
                (unat count) pItem (uint (data_size f)) m
            }
            else Some m
          }
          else Some m);
       if PB_ATYPE type = PB_ATYPE_POINTER then do {
         m2 \<leftarrow>
           (if PB_HTYPE type = PB_HTYPE_REPEATED \<and>
               (PB_LTYPE type = PB_LTYPE_STRING \<or> PB_LTYPE type = PB_LTYPE_BYTES)
            then do {
              pItem \<leftarrow> load_ptr m1 (it_pData it);
              count \<leftarrow> read_count m1 (it_pSize it);
              release_items free_entry (unat count) pItem 8 m1
            }
            else Some m1);
         m3 \<leftarrow> (if PB_HTYPE type = PB_HTYPE_REPEATED
               then map_option fst (write_count m2 (it_pSize it) 0) else Some m2);
         free_entry (it_pData it) m3
       }
       else Some m1
     }
   }"

declare pb_release_single_field.simps [simp del]

definition pb_release ::
  "nat \<Rightarrow> (addr \<Rightarrow> pb_field list option) \<Rightarrow> pb_field list \<Rightarrow> addr \<Rightarrow> mem \<Rightarrow> mem option" where
  "pb_release n xa flds dest m =
     (if dest = 0 then Some m else message_loop (pb_release_single_field n xa) flds dest m)"

end
