(* ===== verification/Decode.thy ===== *)
theory Decode
  imports IStream Release
begin

section \<open>Decoding messages (nanopb/pb_decode.c)\<close>

text \<open>
  \<open>pb_decode\<close> and the functions below it. A decoder takes the stream and the memory and
  returns its result with both. The recursion through submessages is a parameter \<open>rec\<close>, tied
  by \<open>pb_decode_noinit\<close> with a fuel argument that bounds the nesting; the loops over a stream
  get fuel from \<open>bytes_left\<close>, since each round reads at least one byte.

  \<open>dec_env\<close> is what is not part of the library: the functions behind the pointers of callback
  fields, extension types, and the allocator behind \<open>pb_realloc\<close> and \<open>pb_free\<close>.
\<close>

type_synonym 'st dres = "(bool \<times> 'st pb_istream \<times> mem) option"
type_synonym 'st decoder = "'st pb_istream \<Rightarrow> mem \<Rightarrow> pb_field \<Rightarrow> addr \<Rightarrow> 'st dres"
type_synonym 'st msg_decoder = "'st pb_istream \<Rightarrow> mem \<Rightarrow> pb_field list \<Rightarrow> addr \<Rightarrow> 'st dres"

record 'st dec_env =
  env_decode :: "addr \<Rightarrow> ('st pb_istream \<Rightarrow> pb_field \<Rightarrow> mem \<Rightarrow> addr \<Rightarrow> 'st dres) option"
  env_ext_arg :: "addr \<Rightarrow> pb_field list option"
  env_ext_decode :: "addr \<Rightarrow> ('st pb_istream \<Rightarrow> mem \<Rightarrow> addr \<Rightarrow> u32 \<Rightarrow> pb_wire_type \<Rightarrow> 'st dres) option"
  env_alloc :: allocator

definition no_dec_callbacks :: "allocator \<Rightarrow> 'st dec_env" where
  "no_dec_callbacks al =
     \<lparr>env_decode = (\<lambda>_. None), env_ext_arg = (\<lambda>_. None), env_ext_decode = (\<lambda>_. None), env_alloc = al\<rparr>"

text \<open>\<open>if (!f(stream, &x)) return false\<close> with the memory, and \<open>PB_RETURN_ERROR\<close>.\<close>

definition dthen :: "('a option \<times> 'st pb_istream) option \<Rightarrow> mem \<Rightarrow> ('a \<Rightarrow> 'st pb_istream \<Rightarrow> 'st dres) \<Rightarrow> 'st dres" where
  "dthen r m k = Option.bind r (\<lambda>(x, s). case x of None \<Rightarrow> Some (False, s, m) | Some v \<Rightarrow> k v s)"

definition dec_error :: "'st pb_istream \<Rightarrow> mem \<Rightarrow> errmsg \<Rightarrow> 'st dres" where
  "dec_error s m msg = Some (False, is_set_error s msg, m)"

lemma dthen_simps [simp]:
  "dthen None m k = None"
  "dthen (Some (Some v, s)) m k = k v s"
  "dthen (Some (None, s)) m k = Some (False, s, m)"
  by (simp_all add: dthen_def)

subsection \<open>Allocation\<close>

definition allocate_field ::
  "allocator \<Rightarrow> 'st pb_istream \<Rightarrow> mem \<Rightarrow> addr \<Rightarrow> size_t \<Rightarrow> size_t \<Rightarrow> 'st dres" where
  "allocate_field al s m pData dsize asize = do {
     p \<leftarrow> load_ptr m pData;
     if dsize = 0 \<or> asize = 0 then dec_error s m ''invalid size''
     else if (dsize \<ge> 2 ^ 32 \<or> asize \<ge> 2 ^ 32) \<and> (- 1) div asize < dsize
     then dec_error s m ''size too large''
     else do {
       (q, m1) \<leftarrow> c_realloc al m p (unat (asize * dsize));
       if q = 0 then dec_error s m1 ''realloc failed''
       else do { m2 \<leftarrow> store_ptr m1 pData q; Some (True, s, m2) }
     }
   }"

definition initialize_pointer_field ::
  "nat \<Rightarrow> (addr \<Rightarrow> pb_field list option) \<Rightarrow> pb_field \<Rightarrow> addr \<Rightarrow> mem \<Rightarrow> mem option" where
  "initialize_pointer_field n xa f pItem m =
     (if PB_LTYPE (ftype f) = PB_LTYPE_STRING \<or> PB_LTYPE (ftype f) = PB_LTYPE_BYTES
      then store_ptr m pItem 0
      else if PB_LTYPE (ftype f) = PB_LTYPE_SUBMESSAGE then do {
        m1 \<leftarrow> c_memset0 m pItem (unat (data_size f));
        flds \<leftarrow> ptr_fields (ptr f);
        pb_message_set_to_defaults n xa flds pItem m1
      }
      else Some m)"

subsection \<open>Field decoders\<close>

text \<open>The descriptor is not used, so \<open>pb_decode_bool\<close>, which has none, has the same body.\<close>

definition pb_decode_bool :: "'st pb_istream \<Rightarrow> mem \<Rightarrow> addr \<Rightarrow> 'st dres" where
  "pb_decode_bool s m dest =
     dthen (pb_decode_varint32 s) m (\<lambda>value s1. do {
       m1 \<leftarrow> store_bool m dest (value \<noteq> 0);
       Some (True, s1, m1)
     })"

definition pb_dec_bool :: "'st decoder" where
  "pb_dec_bool s m field dest = pb_decode_bool s m dest"

text \<open>Storing the low bytes of a 64-bit value and reading it back at the field's width.\<close>

definition narrow_s :: "pb_size_t \<Rightarrow> u64 \<Rightarrow> u64" where
  "narrow_s sz v = (if sz = 8 then v
     else if sz = 4 then scast (ucast v :: 32 word)
     else if sz = 2 then scast (ucast v :: 16 word) else scast (ucast v :: 8 word))"

definition narrow_u :: "pb_size_t \<Rightarrow> u64 \<Rightarrow> u64" where
  "narrow_u sz v = (if sz = 8 then v
     else if sz = 4 then ucast (ucast v :: 32 word)
     else if sz = 2 then ucast (ucast v :: 16 word) else ucast (ucast v :: 8 word))"

definition store_int :: "mem \<Rightarrow> addr \<Rightarrow> pb_size_t \<Rightarrow> u64 \<Rightarrow> mem option" where
  "store_int m dest sz v = store_bytes m dest (le_bytes (unat sz) v)"

definition pb_dec_varint :: "'st decoder" where
  "pb_dec_varint s m field dest =
     dthen (pb_decode_varint s) m (\<lambda>value s1.
       let svalue = (if data_size field = 8 then value else scast (ucast value :: 32 word)) in
       if int_size (data_size field) then do {
         m1 \<leftarrow> store_int m dest (data_size field) svalue;
         if narrow_s (data_size field) svalue \<noteq> svalue then dec_error s1 m1 ''integer too large''
         else Some (True, s1, m1)
       }
       else dec_error s1 m ''invalid data_size'')"

definition pb_dec_uvarint :: "'st decoder" where
  "pb_dec_uvarint s m field dest =
     dthen (pb_decode_varint s) m (\<lambda>value s1.
       if int_size (data_size field) then do {
         m1 \<leftarrow> store_int m dest (data_size field) value;
         if narrow_u (data_size field) value \<noteq> value then dec_error s1 m1 ''integer too large''
         else Some (True, s1, m1)
       }
       else dec_error s1 m ''invalid data_size'')"

definition pb_dec_svarint :: "'st decoder" where
  "pb_dec_svarint s m field dest =
     dthen (pb_decode_svarint s) m (\<lambda>value s1.
       if int_size (data_size field) then do {
         m1 \<leftarrow> store_int m dest (data_size field) value;
         if narrow_s (data_size field) value \<noteq> value then dec_error s1 m1 ''integer too large''
         else Some (True, s1, m1)
       }
       else dec_error s1 m ''invalid data_size'')"

definition pb_dec_fixed32 :: "'st decoder" where
  "pb_dec_fixed32 s m field dest =
     dthen (pb_decode_fixed32 s) m (\<lambda>v s1. do { m1 \<leftarrow> store_u32 m dest v; Some (True, s1, m1) })"

definition pb_dec_fixed64 :: "'st decoder" where
  "pb_dec_fixed64 s m field dest =
     dthen (pb_decode_fixed64 s) m (\<lambda>v s1. do { m1 \<leftarrow> store_bytes m dest (le_bytes 8 v); Some (True, s1, m1) })"

text \<open>\<open>pb_read\<close> into the message.\<close>

definition read_into :: "'st pb_istream \<Rightarrow> mem \<Rightarrow> addr \<Rightarrow> size_t \<Rightarrow> 'st dres" where
  "read_into s m dest count = do {
     (ok, bs, s1) \<leftarrow> pb_read s True count;
     m1 \<leftarrow> store_bytes m dest bs;
     Some (ok, s1, m1)
   }"

definition dec_bytes_body :: "'st pb_istream \<Rightarrow> mem \<Rightarrow> addr \<Rightarrow> u32 \<Rightarrow> 'st dres" where
  "dec_bytes_body s m bdest sz = do {
     m1 \<leftarrow> store_u32 m bdest sz;
     read_into s m1 (bdest + 4) (ucast sz)
   }"

definition pb_dec_bytes :: "allocator \<Rightarrow> 'st decoder" where
  "pb_dec_bytes al s m field dest =
     dthen (pb_decode_varint32 s) m (\<lambda>sz s1.
       let alloc_size = PB_BYTES_ARRAY_T_ALLOCSIZE (ucast sz) in
       if sz > PB_SIZE_MAX then dec_error s1 m ''bytes overflow''
       else if ucast sz > alloc_size then dec_error s1 m ''size too large''
       else if PB_ATYPE (ftype field) = PB_ATYPE_POINTER then do {
         (ok, s2, m1) \<leftarrow> allocate_field al s1 m dest alloc_size 1;
         if \<not> ok then Some (False, s2, m1)
         else do { bdest \<leftarrow> load_ptr m1 dest; dec_bytes_body s2 m1 bdest sz }
       }
       else if alloc_size > ucast (data_size field) then dec_error s1 m ''bytes overflow''
       else dec_bytes_body s1 m dest sz)"

definition dec_string_body :: "'st pb_istream \<Rightarrow> mem \<Rightarrow> addr \<Rightarrow> u32 \<Rightarrow> 'st dres" where
  "dec_string_body s m dest sz = do {
     (status, s1, m1) \<leftarrow> read_into s m dest (ucast sz);
     m2 \<leftarrow> store_bytes m1 (dest + uint sz) [0];
     Some (status, s1, m2)
   }"

text \<open>\<open>size + 1\<close> is computed in 32 bits, then widened.\<close>

definition pb_dec_string :: "allocator \<Rightarrow> 'st decoder" where
  "pb_dec_string al s m field dest =
     dthen (pb_decode_varint32 s) m (\<lambda>sz s1.
       let alloc_size = ucast (sz + 1) :: size_t in
       if alloc_size < ucast sz then dec_error s1 m ''size too large''
       else if PB_ATYPE (ftype field) = PB_ATYPE_POINTER then do {
         (ok, s2, m1) \<leftarrow> allocate_field al s1 m dest alloc_size 1;
         if \<not> ok then Some (False, s2, m1)
         else do { p \<leftarrow> load_ptr m1 dest; dec_string_body s2 m1 p sz }
       }
       else if alloc_size > ucast (data_size field) then dec_error s1 m ''string overflow''
       else dec_string_body s1 m dest sz)"

text \<open>The two entry points into the inner message, \<open>pb_decode\<close> and \<open>pb_decode_noinit\<close>.\<close>

definition pb_dec_submessage :: "'st msg_decoder \<Rightarrow> 'st msg_decoder \<Rightarrow> 'st decoder" where
  "pb_dec_submessage dec dec_noinit s m field dest =
     dthen (pb_make_string_substream s) m (\<lambda>substream s1.
       if ptr field = PNull then dec_error s1 m ''invalid field descriptor''
       else do {
         flds \<leftarrow> ptr_fields (ptr field);
         (status, substream1, m1) \<leftarrow>
           (if PB_HTYPE (ftype field) = PB_HTYPE_REPEATED then dec substream m flds dest
            else dec_noinit substream m flds dest);
         (ok, s2) \<leftarrow> pb_close_string_substream s1 substream1;
         Some (ok \<and> status, s2, m1)
       })"

definition pb_dec_fixed_length_bytes :: "'st decoder" where
  "pb_dec_fixed_length_bytes s m field dest =
     dthen (pb_decode_varint32 s) m (\<lambda>sz s1.
       if sz > PB_SIZE_MAX then dec_error s1 m ''bytes overflow''
       else if sz = 0 then do {
         m1 \<leftarrow> c_memset0 m dest (unat (data_size field));
         Some (True, s1, m1)
       }
       else if sz \<noteq> data_size field then dec_error s1 m ''incorrect fixed length bytes size''
       else read_into s1 m dest (ucast (data_size field)))"

definition PB_DECODERS :: "allocator \<Rightarrow> 'st msg_decoder \<Rightarrow> 'st msg_decoder \<Rightarrow> 'st decoder option list" where
  "PB_DECODERS al dec dec_noinit =
     [Some pb_dec_bool, Some pb_dec_varint, Some pb_dec_uvarint, Some pb_dec_svarint,
      Some pb_dec_fixed32, Some pb_dec_fixed64,
      Some (pb_dec_bytes al), Some (pb_dec_string al), Some (pb_dec_submessage dec dec_noinit),
      None, Some pb_dec_fixed_length_bytes]"

definition dec_call :: "'st decoder option \<Rightarrow> 'st decoder" where
  "dec_call func s m field p = (case func of None \<Rightarrow> None | Some f \<Rightarrow> f s m field p)"

definition decoder_of :: "allocator \<Rightarrow> 'st msg_decoder \<Rightarrow> 'st msg_decoder \<Rightarrow> pb_field \<Rightarrow> 'st decoder option" where
  "decoder_of al dec dec_noinit f = do {
     func \<leftarrow> arr_get (PB_DECODERS al dec dec_noinit) (unat (PB_LTYPE (ftype f)));
     Some (dec_call func)
   }"

subsection \<open>Static fields\<close>

type_synonym 'st fres = "(bool \<times> 'st pb_istream \<times> mem \<times> pb_field_iter) option"

definition with_iter :: "'st dres \<Rightarrow> pb_field_iter \<Rightarrow> 'st fres" where
  "with_iter r it = do { (ok, s, m) \<leftarrow> r; Some (ok, s, m, it) }"

text \<open>The offset of entry \<open>i\<close> of an array: \<open>data_size * i\<close>, both of type \<open>pb_size_t\<close>.\<close>

definition item_offset :: "pb_field \<Rightarrow> pb_size_t \<Rightarrow> int" where
  "item_offset f i = uint (data_size f * i)"

definition incr_count :: "mem \<Rightarrow> psize \<Rightarrow> (mem \<times> psize) option" where
  "incr_count m ps = do { c \<leftarrow> read_count m ps; write_count m ps (c + 1) }"

fun static_packed_loop :: "nat \<Rightarrow> 'st decoder \<Rightarrow> pb_field \<Rightarrow> addr \<Rightarrow> 'st pb_istream \<Rightarrow> mem \<Rightarrow> psize \<Rightarrow>
    (bool \<times> 'st pb_istream \<times> mem \<times> psize) option" where
  "static_packed_loop 0 func f pData sub m ps = None"
| "static_packed_loop (Suc k) func f pData sub m ps = do {
     c \<leftarrow> read_count m ps;
     if is_bytes_left sub > 0 \<and> c < array_size f then do {
       (ok, sub1, m1) \<leftarrow> func sub m f (pData + item_offset f c);
       if \<not> ok then Some (False, sub1, m1, ps)
       else do {
         (m2, ps') \<leftarrow> incr_count m1 ps;
         static_packed_loop k func f pData sub1 m2 ps'
       }
     }
     else Some (True, sub, m, ps)
   }"

definition loop_fuel :: "'st pb_istream \<Rightarrow> nat" where
  "loop_fuel s = Suc (unat (is_bytes_left s))"

definition decode_static_field ::
  "nat \<Rightarrow> (addr \<Rightarrow> pb_field list option) \<Rightarrow> (pb_field \<Rightarrow> 'st decoder option) \<Rightarrow>
     'st pb_istream \<Rightarrow> mem \<Rightarrow> pb_wire_type \<Rightarrow> pb_field_iter \<Rightarrow> 'st fres" where
  "decode_static_field n xa D s m wire_type it = do {
     f \<leftarrow> cur_field it;
     func \<leftarrow> D f;
     let type = ftype f;
     if PB_HTYPE type = PB_HTYPE_REQUIRED then with_iter (func s m f (it_pData it)) it
     else if PB_HTYPE type = PB_HTYPE_OPTIONAL then do {
       m1 \<leftarrow> (if it_pSize it \<noteq> At (it_pData it) then write_has m (it_pSize it) True else Some m);
       with_iter (func s m1 f (it_pData it)) it
     }
     else if PB_HTYPE type = PB_HTYPE_REPEATED then
       (if wire_type = PB_WT_STRING \<and> PB_LTYPE type \<le> PB_LTYPE_LAST_PACKABLE then do {
          (sub, s1) \<leftarrow> pb_make_string_substream s;
          (case sub of
             None \<Rightarrow> Some (False, s1, m, it)
           | Some substream \<Rightarrow> do {
               (status, sub1, m1, ps) \<leftarrow>
                 static_packed_loop (loop_fuel substream) func f (it_pData it) substream m (it_pSize it);
               let it1 = it\<lparr>it_pSize := ps\<rparr>;
               if is_bytes_left sub1 \<noteq> 0 then with_iter (dec_error s1 m1 ''array overflow'') it1
               else do {
                 (ok, s2) \<leftarrow> pb_close_string_substream s1 sub1;
                 Some (ok \<and> status, s2, m1, it1)
               }
             })
        }
        else do {
          c \<leftarrow> read_count m (it_pSize it);
          (m1, ps) \<leftarrow> write_count m (it_pSize it) (c + 1);
          let it1 = it\<lparr>it_pSize := ps\<rparr>;
          if c \<ge> array_size f then with_iter (dec_error s m1 ''array overflow'') it1
          else with_iter (func s m1 f (it_pData it + item_offset f c)) it1
        })
     else do {
       (m1, ps) \<leftarrow> write_count m (it_pSize it) (tag f);
       m2 \<leftarrow> (if PB_LTYPE type = PB_LTYPE_SUBMESSAGE then do {
                m2 \<leftarrow> c_memset0 m1 (it_pData it) (unat (data_size f));
                flds \<leftarrow> ptr_fields (ptr f);
                pb_message_set_to_defaults n xa flds (it_pData it) m2
              }
              else Some m1);
       with_iter (func s m2 f (it_pData it)) (it\<lparr>it_pSize := ps\<rparr>)
     }
   }"

subsection \<open>Pointer fields\<close>

text \<open>Growing the array of a packed field: one \<open>realloc\<close> for a guess of what is to come.\<close>

definition grow_array ::
  "allocator \<Rightarrow> pb_field \<Rightarrow> addr \<Rightarrow> 'st pb_istream \<Rightarrow> mem \<Rightarrow> pb_size_t \<Rightarrow> size_t \<Rightarrow>
     (bool \<times> 'st pb_istream \<times> mem \<times> size_t) option" where
  "grow_array al f pData sub m c allocated =
     (if ucast c + 1 > allocated then
        if data_size f = 0 then None
        else do {
          let remain = (is_bytes_left sub - 1) div ucast (data_size f) + 1;
          let allocated1 = (if remain < ucast PB_SIZE_MAX - allocated then allocated + remain
                            else allocated + 1);
          (ok, sub1, m1) \<leftarrow> allocate_field al sub m pData (ucast (data_size f)) allocated1;
          Some (ok, sub1, m1, allocated1)
        }
      else Some (True, sub, m, allocated))"

fun pointer_packed_loop ::
  "nat \<Rightarrow> allocator \<Rightarrow> (addr \<Rightarrow> mem \<Rightarrow> mem option) \<Rightarrow> 'st decoder \<Rightarrow> pb_field \<Rightarrow> addr \<Rightarrow>
     'st pb_istream \<Rightarrow> 'st pb_istream \<Rightarrow> mem \<Rightarrow> psize \<Rightarrow> size_t \<Rightarrow>
     (bool \<times> 'st pb_istream \<times> 'st pb_istream \<times> mem \<times> psize) option" where
  "pointer_packed_loop 0 al init func f pData s sub m ps allocated = None"
| "pointer_packed_loop (Suc k) al init func f pData s sub m ps allocated =
     (if is_bytes_left sub = 0 then Some (True, s, sub, m, ps)
      else do {
        c \<leftarrow> read_count m ps;
        if c = PB_SIZE_MAX
        then Some (False, s\<lparr>is_errmsg := Some ''too many array entries''\<rparr>, sub, m, ps)
        else do {
          (ok, sub1, m1, allocated1) \<leftarrow> grow_array al f pData sub m c allocated;
          if \<not> ok then Some (False, s, sub1, m1, ps)
          else do {
            base \<leftarrow> load_ptr m1 pData;
            let pItem = base + item_offset f c;
            m2 \<leftarrow> init pItem m1;
            (ok, sub2, m3) \<leftarrow> func sub1 m2 f pItem;
            if \<not> ok then Some (False, s, sub2, m3, ps)
            else do {
              (m4, ps') \<leftarrow> incr_count m3 ps;
              pointer_packed_loop k al init func f pData s sub2 m4 ps' allocated1
            }
          }
        }
      })"

definition decode_pointer_field ::
  "nat \<Rightarrow> allocator \<Rightarrow> (addr \<Rightarrow> pb_field list option) \<Rightarrow> (pb_field \<Rightarrow> 'st decoder option) \<Rightarrow>
     'st pb_istream \<Rightarrow> mem \<Rightarrow> pb_wire_type \<Rightarrow> pb_field_iter \<Rightarrow> 'st fres" where
  "decode_pointer_field n al xa D s m wire_type it = do {
     f \<leftarrow> cur_field it;
     func \<leftarrow> D f;
     let type = ftype f;
     let pData = it_pData it;
     let init = initialize_pointer_field n xa f;
     if PB_HTYPE type = PB_HTYPE_REQUIRED \<or> PB_HTYPE type = PB_HTYPE_OPTIONAL \<or>
        PB_HTYPE type = PB_HTYPE_ONEOF
     then do {
       m1 \<leftarrow> (if PB_LTYPE type = PB_LTYPE_SUBMESSAGE then do {
                p \<leftarrow> load_ptr m pData;
                if p \<noteq> 0 then pb_release_single_field n xa it m else Some m
              }
              else Some m);
       (m2, ps) \<leftarrow> (if PB_HTYPE type = PB_HTYPE_ONEOF then write_count m1 (it_pSize it) (tag f)
                  else Some (m1, it_pSize it));
       let it1 = it\<lparr>it_pSize := ps\<rparr>;
       if PB_LTYPE type = PB_LTYPE_STRING \<or> PB_LTYPE type = PB_LTYPE_BYTES
       then with_iter (func s m2 f pData) it1
       else do {
         (ok, s1, m3) \<leftarrow> allocate_field al s m2 pData (ucast (data_size f)) 1;
         if \<not> ok then Some (False, s1, m3, it1)
         else do {
           p \<leftarrow> load_ptr m3 pData;
           m4 \<leftarrow> init p m3;
           p \<leftarrow> load_ptr m4 pData;
           with_iter (func s1 m4 f p) it1
         }
       }
     }
     else if wire_type = PB_WT_STRING \<and> PB_LTYPE type \<le> PB_LTYPE_LAST_PACKABLE then do {
       c \<leftarrow> read_count m (it_pSize it);
       (sub, s1) \<leftarrow> pb_make_string_substream s;
       (case sub of
          None \<Rightarrow> Some (False, s1, m, it)
        | Some substream \<Rightarrow> do {
            (status, s2, sub1, m1, ps) \<leftarrow>
              pointer_packed_loop (loop_fuel substream) al init func f pData s1 substream m (it_pSize it) (ucast c);
            (ok, s3) \<leftarrow> pb_close_string_substream s2 sub1;
            Some (ok \<and> status, s3, m1, it\<lparr>it_pSize := ps\<rparr>)
          })
     }
     else do {
       c \<leftarrow> read_count m (it_pSize it);
       if c = PB_SIZE_MAX then with_iter (dec_error s m ''too many array entries'') it
       else do {
         (ok, s1, m1) \<leftarrow> allocate_field al s m pData (ucast (data_size f)) (ucast (c + 1));
         if \<not> ok then Some (False, s1, m1, it)
         else do {
           base \<leftarrow> load_ptr m1 pData;
           let pItem = base + item_offset f c;
           (m2, ps) \<leftarrow> incr_count m1 (it_pSize it);
           m3 \<leftarrow> init pItem m2;
           with_iter (func s1 m3 f pItem) (it\<lparr>it_pSize := ps\<rparr>)
         }
       }
     }
   }"

subsection \<open>Callback fields\<close>

text \<open>\<open>do ... while (substream.bytes_left)\<close>; a callback that reads nothing is called again.\<close>

fun callback_loop :: "nat \<Rightarrow> 'st dec_env \<Rightarrow> pb_field \<Rightarrow> addr \<Rightarrow> 'st pb_istream \<Rightarrow> mem \<Rightarrow> 'st dres" where
  "callback_loop 0 env f pData sub m = None"
| "callback_loop (Suc k) env f pData sub m = do {
     fn \<leftarrow> load_ptr m pData;
     decode \<leftarrow> env_decode env fn;
     (ok, sub1, m1) \<leftarrow> decode sub f m (pData + 8);
     if \<not> ok then Some (False, sub1, m1)
     else if is_bytes_left sub1 \<noteq> 0 then callback_loop k env f pData sub1 m1
     else Some (True, sub1, m1)
   }"

definition skip_field_m :: "'st pb_istream \<Rightarrow> mem \<Rightarrow> pb_wire_type \<Rightarrow> 'st dres" where
  "skip_field_m s m wire_type = dthen (pb_skip_field s wire_type) m (\<lambda>_ s1. Some (True, s1, m))"

definition decode_callback_field ::
  "nat \<Rightarrow> 'st dec_env \<Rightarrow> 'st pb_istream \<Rightarrow> mem \<Rightarrow> pb_wire_type \<Rightarrow> pb_field \<Rightarrow> addr \<Rightarrow> 'st dres" where
  "decode_callback_field n env s m wire_type f pData =
     (if pData = 0 then skip_field_m s m wire_type
      else do {
        fn \<leftarrow> load_ptr m pData;
        if fn = 0 then skip_field_m s m wire_type
        else if wire_type = PB_WT_STRING
        then dthen (pb_make_string_substream s) m (\<lambda>substream s1. do {
          (ok, sub1, m1) \<leftarrow> callback_loop n env f pData substream m;
          if \<not> ok then dec_error s1 m1 ''callback failed''
          else do {
            (ok, s2) \<leftarrow> pb_close_string_substream s1 sub1;
            Some (ok, s2, m1)
          }
        })
        else dthen (read_raw_value s wire_type 10) m (\<lambda>buffer s1. do {
          decode \<leftarrow> env_decode env fn;
          (ok, _, m1) \<leftarrow> decode (pb_istream_from_buffer buffer (of_nat (length buffer))) f m (pData + 8);
          Some (ok, s1, m1)
        })
      })"

subsection \<open>One field\<close>

definition pb_release_union_field ::
  "nat \<Rightarrow> (addr \<Rightarrow> pb_field list option) \<Rightarrow> 'st pb_istream \<Rightarrow> mem \<Rightarrow> pb_field_iter \<Rightarrow> 'st fres" where
  "pb_release_union_field n xa s m it = do {
     f \<leftarrow> cur_field it;
     old_tag \<leftarrow> read_count m (it_pSize it);
     let new_tag = tag f;
     if old_tag = 0 \<or> old_tag = new_tag then Some (True, s, m, it)
     else do {
       (found, it1) \<leftarrow> pb_field_iter_find it old_tag;
       if \<not> found then with_iter (dec_error s m ''invalid union tag'') it1
       else do {
         m1 \<leftarrow> pb_release_single_field n xa it1 m;
         (found, it2) \<leftarrow> pb_field_iter_find it1 new_tag;
         if \<not> found then with_iter (dec_error s m1 ''iterator error'') it2
         else Some (True, s, m1, it2)
       }
     }
   }"

definition decode_field ::
  "nat \<Rightarrow> 'st dec_env \<Rightarrow> (pb_field \<Rightarrow> 'st decoder option) \<Rightarrow>
     'st pb_istream \<Rightarrow> mem \<Rightarrow> pb_wire_type \<Rightarrow> pb_field_iter \<Rightarrow> 'st fres" where
  "decode_field n env D s m wire_type it = do {
     f \<leftarrow> cur_field it;
     (ok, s1, m1, it1) \<leftarrow>
       (if PB_HTYPE (ftype f) = PB_HTYPE_ONEOF
        then pb_release_union_field n (env_ext_arg env) s m it else Some (True, s, m, it));
     if \<not> ok then Some (False, s1, m1, it1)
     else do {
       f1 \<leftarrow> cur_field it1;
       if PB_ATYPE (ftype f1) = PB_ATYPE_STATIC
       then decode_static_field n (env_ext_arg env) D s1 m1 wire_type it1
       else if PB_ATYPE (ftype f1) = PB_ATYPE_POINTER
       then decode_pointer_field n (env_alloc env) (env_ext_arg env) D s1 m1 wire_type it1
       else if PB_ATYPE (ftype f1) = PB_ATYPE_CALLBACK
       then with_iter (decode_callback_field n env s1 m1 wire_type f1 (it_pData it1)) it1
       else with_iter (dec_error s1 m1 ''invalid field type'') it1
     }
   }"

subsection \<open>Extensions\<close>

definition default_extension_decoder ::
  "nat \<Rightarrow> 'st dec_env \<Rightarrow> (pb_field \<Rightarrow> 'st decoder option) \<Rightarrow>
     'st pb_istream \<Rightarrow> mem \<Rightarrow> addr \<Rightarrow> u32 \<Rightarrow> pb_wire_type \<Rightarrow> 'st dres" where
  "default_extension_decoder n env D s m extension tg wire_type = do {
     ty \<leftarrow> load_ptr m extension;
     fs \<leftarrow> env_ext_arg env ty;
     field \<leftarrow> field_at fs 0;
     if tag field \<noteq> tg then Some (True, s, m)
     else do {
       it \<leftarrow> iter_from_extension (env_ext_arg env) m extension;
       m1 \<leftarrow> store_bool m (extension + 24) True;
       (ok, s1, m2, _) \<leftarrow> decode_field n env D s m1 wire_type it;
       Some (ok, s1, m2)
     }
   }"

fun decode_extension_loop ::
  "nat \<Rightarrow> nat \<Rightarrow> 'st dec_env \<Rightarrow> (pb_field \<Rightarrow> 'st decoder option) \<Rightarrow> u32 \<Rightarrow> pb_wire_type \<Rightarrow> size_t \<Rightarrow>
     'st pb_istream \<Rightarrow> mem \<Rightarrow> addr \<Rightarrow> 'st dres" where
  "decode_extension_loop 0 n env D tg wire_type pos s m extension = None"
| "decode_extension_loop (Suc k) n env D tg wire_type pos s m extension =
     (if extension \<noteq> 0 \<and> pos = is_bytes_left s then do {
        ty \<leftarrow> load_ptr m extension;
        (status, s1, m1) \<leftarrow>
          (case env_ext_decode env ty of
             Some decode \<Rightarrow> decode s m extension tg wire_type
           | None \<Rightarrow> default_extension_decoder n env D s m extension tg wire_type);
        if \<not> status then Some (False, s1, m1)
        else do {
          nxt \<leftarrow> load_ptr m1 (extension + 16);
          decode_extension_loop k n env D tg wire_type pos s1 m1 nxt
        }
      }
      else Some (True, s, m))"

definition decode_extension ::
  "nat \<Rightarrow> 'st dec_env \<Rightarrow> (pb_field \<Rightarrow> 'st decoder option) \<Rightarrow>
     'st pb_istream \<Rightarrow> mem \<Rightarrow> u32 \<Rightarrow> pb_wire_type \<Rightarrow> pb_field_iter \<Rightarrow> 'st dres" where
  "decode_extension n env D s m tg wire_type it = do {
     extension \<leftarrow> load_ptr m (it_pData it);
     decode_extension_loop n n env D tg wire_type (is_bytes_left s) s m extension
   }"

fun find_ext_loop :: "nat \<Rightarrow> nat \<Rightarrow> pb_field_iter \<Rightarrow> (bool \<times> pb_field_iter) option" where
  "find_ext_loop 0 start it = None"
| "find_ext_loop (Suc k) start it = do {
     f \<leftarrow> cur_field it;
     if PB_LTYPE (ftype f) = PB_LTYPE_EXTENSION then Some (True, it)
     else do {
       (_, it') \<leftarrow> pb_field_iter_next it;
       if it_pos it' \<noteq> start then find_ext_loop k start it' else Some (False, it')
     }
   }"

definition find_extension_field :: "pb_field_iter \<Rightarrow> (bool \<times> pb_field_iter) option" where
  "find_extension_field it = find_ext_loop (length (it_start it)) (it_pos it) it"

end
