(* ===== verification/DecodeMsg.thy ===== *)
theory DecodeMsg
  imports Decode
begin

section \<open>The message decoder (nanopb/pb_decode.c)\<close>

text \<open>
  \<open>pb_decode_noinit\<close> and its callers. The local variables of \<open>pb_decode_noinit\<close> are the
  record \<open>dec_vars\<close>; one round of its loop is \<open>decode_known\<close> or \<open>decode_unknown\<close>. The fuel
  \<open>n\<close> of \<open>pb_decode_noinit\<close> bounds the nesting of submessages and the length of extension
  lists; the loop has fuel for each byte left in the stream.
\<close>

record dec_vars =
  dv_fields_seen :: "u32 list"
  dv_extension_range_start :: u32
  dv_iter :: pb_field_iter
  dv_fixed_count_field :: "nat option"
  dv_fixed_count_size :: pb_size_t

type_synonym 'st vres = "(bool \<times> 'st pb_istream \<times> mem \<times> dec_vars) option"

definition dec_vars_init :: "pb_field_iter \<Rightarrow> dec_vars" where
  "dec_vars_init it =
     \<lparr>dv_fields_seen = [0, 0], dv_extension_range_start = 0, dv_iter = it,
      dv_fixed_count_field = None, dv_fixed_count_size = 0\<rparr>"

subsection \<open>Fields that are not in the descriptor\<close>

text \<open>\<open>decode_unknown\<close> has the new \<open>extension_range_start\<close> and the moved iterator in the
  variables it returns.\<close>

definition skip_unknown :: "'st pb_istream \<Rightarrow> mem \<Rightarrow> pb_wire_type \<Rightarrow> dec_vars \<Rightarrow> 'st vres" where
  "skip_unknown s m wire_type v = do {
     (ok, s1, m1) \<leftarrow> skip_field_m s m wire_type;
     Some (ok, s1, m1, v)
   }"

definition decode_unknown ::
  "nat \<Rightarrow> 'st dec_env \<Rightarrow> (pb_field \<Rightarrow> 'st decoder option) \<Rightarrow> 'st pb_istream \<Rightarrow> mem \<Rightarrow>
     u32 \<Rightarrow> pb_wire_type \<Rightarrow> dec_vars \<Rightarrow> 'st vres" where
  "decode_unknown n env D s m tg wire_type v =
     (if tg \<ge> dv_extension_range_start v then do {
        (found, it1) \<leftarrow> find_extension_field (dv_iter v);
        f \<leftarrow> cur_field it1;
        let range = (if found then tag f else - 1);
        let v1 = v\<lparr>dv_extension_range_start := range, dv_iter := it1\<rparr>;
        if tg \<ge> range then do {
          (ok, s1, m1) \<leftarrow> decode_extension n env D s m tg wire_type it1;
          if \<not> ok then Some (False, s1, m1, v1)
          else if is_bytes_left s \<noteq> is_bytes_left s1 then Some (True, s1, m1, v1)
          else skip_unknown s1 m1 wire_type v1
        }
        else skip_unknown s m wire_type v1
      }
      else skip_unknown s m wire_type v)"

subsection \<open>Fields of the descriptor\<close>

text \<open>\<open>fixed_count_field != NULL && fixed_count_size != fixed_count_field->array_size\<close>.\<close>

definition fixed_count_bad :: "pb_field list \<Rightarrow> dec_vars \<Rightarrow> bool option" where
  "fixed_count_bad flds v =
     (case dv_fixed_count_field v of
        None \<Rightarrow> Some False
      | Some i \<Rightarrow> do { f \<leftarrow> field_at flds i; Some (dv_fixed_count_size v \<noteq> array_size f) })"

text \<open>The count of a fixed-count array is the local variable; None when the field before it is
  incomplete.\<close>

definition track_fixed_count :: "pb_field \<Rightarrow> dec_vars \<Rightarrow> dec_vars option option" where
  "track_fixed_count f v =
     (let it = dv_iter v in
      if PB_HTYPE (ftype f) = PB_HTYPE_REPEATED \<and> it_pSize it = At (it_pData it) then
        if dv_fixed_count_field v \<noteq> Some (it_pos it) then do {
          bad \<leftarrow> fixed_count_bad (it_start it) v;
          Some (if bad then None
                else Some (v\<lparr>dv_fixed_count_field := Some (it_pos it), dv_fixed_count_size := 0,
                             dv_iter := it\<lparr>it_pSize := Local 0\<rparr>\<rparr>))
        }
        else Some (Some (v\<lparr>dv_iter := it\<lparr>it_pSize := Local (dv_fixed_count_size v)\<rparr>\<rparr>))
      else Some (Some v))"

definition mark_seen :: "pb_field \<Rightarrow> dec_vars \<Rightarrow> dec_vars" where
  "mark_seen f v =
     (let rfi = it_required_field_index (dv_iter v) in
      if PB_HTYPE (ftype f) = PB_HTYPE_REQUIRED \<and> rfi < PB_MAX_REQUIRED_FIELDS
      then let w = unat (drop_bit 5 rfi); tmp = push_bit (unat (rfi AND 31)) 1 in
        v\<lparr>dv_fields_seen := (dv_fields_seen v)[w := dv_fields_seen v ! w OR tmp]\<rparr>
      else v)"

text \<open>After \<open>decode_field\<close>: what it wrote through \<open>pSize\<close> into the local variable.\<close>

definition sync_count :: "dec_vars \<Rightarrow> pb_field_iter \<Rightarrow> dec_vars" where
  "sync_count v it =
     (case it_pSize it of
        Local c \<Rightarrow> v\<lparr>dv_iter := it, dv_fixed_count_size := c\<rparr>
      | At _ \<Rightarrow> v\<lparr>dv_iter := it\<rparr>)"

definition decode_known ::
  "nat \<Rightarrow> 'st dec_env \<Rightarrow> (pb_field \<Rightarrow> 'st decoder option) \<Rightarrow> 'st pb_istream \<Rightarrow> mem \<Rightarrow>
     pb_wire_type \<Rightarrow> dec_vars \<Rightarrow> 'st vres" where
  "decode_known n env D s m wire_type v = do {
     f \<leftarrow> cur_field (dv_iter v);
     r \<leftarrow> track_fixed_count f v;
     (case r of
        None \<Rightarrow> Some (False, is_set_error s ''wrong size for fixed count field'', m, v)
      | Some v1 \<Rightarrow> do {
          let v2 = mark_seen f v1;
          (ok, s1, m1, it) \<leftarrow> decode_field n env D s m wire_type (dv_iter v2);
          Some (ok, s1, m1, sync_count v2 it)
        })
   }"

subsection \<open>The loop over the stream\<close>

fun noinit_loop ::
  "nat \<Rightarrow> nat \<Rightarrow> 'st dec_env \<Rightarrow> (pb_field \<Rightarrow> 'st decoder option) \<Rightarrow> 'st pb_istream \<Rightarrow> mem \<Rightarrow>
     dec_vars \<Rightarrow> 'st vres" where
  "noinit_loop 0 n env D s m v = None"
| "noinit_loop (Suc k) n env D s m v =
     (if is_bytes_left s = 0 then Some (True, s, m, v)
      else do {
        ((r, eof), s1) \<leftarrow> pb_decode_tag s;
        (case r of
           None \<Rightarrow> Some (eof, s1, m, v)
         | Some (wire_type, tg) \<Rightarrow> do {
             (found, it) \<leftarrow> pb_field_iter_find (dv_iter v) tg;
             let v1 = v\<lparr>dv_iter := it\<rparr>;
             (ok, s2, m1, v2) \<leftarrow>
               (if found then decode_known n env D s1 m wire_type v1
                else decode_unknown n env D s1 m tg wire_type v1);
             if ok then noinit_loop k n env D s2 m1 v2 else Some (False, s2, m1, v2)
           })
      })"

declare noinit_loop.simps [simp del]

subsection \<open>Required fields\<close>

text \<open>The \<open>do ... while (pb_field_iter_next(&iter))\<close>: the index and the type at the last field.\<close>

fun last_required :: "nat \<Rightarrow> pb_field_iter \<Rightarrow> (u32 \<times> pb_type_t \<times> pb_field_iter) option" where
  "last_required 0 it = None"
| "last_required (Suc k) it = do {
     f \<leftarrow> cur_field it;
     (more, it') \<leftarrow> pb_field_iter_next it;
     if more then last_required k it' else Some (it_required_field_index it, ftype f, it')
   }"

definition req_field_count :: "pb_field_iter \<Rightarrow> u32 option" where
  "req_field_count it = do {
     (rfi, last_type, it') \<leftarrow> last_required (length (it_start it)) it;
     f \<leftarrow> cur_field it';
     let c = (if PB_HTYPE last_type = PB_HTYPE_REQUIRED \<and> tag f \<noteq> 0 then rfi + 1 else rfi);
     Some (if c > PB_MAX_REQUIRED_FIELDS then PB_MAX_REQUIRED_FIELDS else c)
   }"

definition all_required_seen :: "u32 list \<Rightarrow> u32 \<Rightarrow> bool" where
  "all_required_seen fields_seen c \<longleftrightarrow>
     (c > 0 \<longrightarrow>
        (\<forall>i < unat (drop_bit 5 c). fields_seen ! i = NOT 0) \<and>
        (c AND 31 \<noteq> 0 \<longrightarrow>
           fields_seen ! unat (drop_bit 5 c) = drop_bit (unat (32 - (c AND 31))) (NOT 0)))"

subsection \<open>\<open>pb_decode_noinit\<close> and \<open>pb_decode\<close>\<close>

definition noinit_body ::
  "nat \<Rightarrow> 'st dec_env \<Rightarrow> 'st msg_decoder \<Rightarrow> 'st msg_decoder \<Rightarrow> 'st msg_decoder" where
  "noinit_body n env dec dec_noinit s m flds dest = do {
     (_, it) \<leftarrow> pb_field_iter_begin flds dest;
     (ok, s1, m1, v) \<leftarrow>
       noinit_loop (loop_fuel s) n env (decoder_of (env_alloc env) dec dec_noinit) s m (dec_vars_init it);
     if \<not> ok then Some (False, s1, m1)
     else do {
       bad \<leftarrow> fixed_count_bad flds v;
       if bad then dec_error s1 m1 ''wrong size for fixed count field''
       else do {
         c \<leftarrow> req_field_count (dv_iter v);
         if all_required_seen (dv_fields_seen v) c then Some (True, s1, m1)
         else dec_error s1 m1 ''missing required field''
       }
     }
   }"

definition decode_with :: "nat \<Rightarrow> 'st dec_env \<Rightarrow> 'st msg_decoder \<Rightarrow> 'st msg_decoder" where
  "decode_with n env noinit s m flds dest = do {
     m1 \<leftarrow> pb_message_set_to_defaults n (env_ext_arg env) flds dest m;
     (status, s1, m2) \<leftarrow> noinit s m1 flds dest;
     m3 \<leftarrow> (if \<not> status then pb_release n (env_ext_arg env) flds dest m2 else Some m2);
     Some (status, s1, m3)
   }"

fun pb_decode_noinit :: "nat \<Rightarrow> 'st dec_env \<Rightarrow> 'st msg_decoder" where
  "pb_decode_noinit 0 env s m flds dest = None"
| "pb_decode_noinit (Suc n) env s m flds dest =
     noinit_body n env (decode_with n env (pb_decode_noinit n env)) (pb_decode_noinit n env) s m flds dest"

definition pb_decode :: "nat \<Rightarrow> 'st dec_env \<Rightarrow> 'st msg_decoder" where
  "pb_decode n env = decode_with n env (pb_decode_noinit n env)"

text \<open>The delimited entry points, over either decoder.\<close>

definition decode_delimited_by :: "'st msg_decoder \<Rightarrow> 'st msg_decoder" where
  "decode_delimited_by dec s m flds dest =
     dthen (pb_make_string_substream s) m (\<lambda>substream s1. do {
       (status, substream1, m1) \<leftarrow> dec substream m flds dest;
       (ok, s2) \<leftarrow> pb_close_string_substream s1 substream1;
       Some (ok \<and> status, s2, m1)
     })"

definition pb_decode_delimited_noinit :: "nat \<Rightarrow> 'st dec_env \<Rightarrow> 'st msg_decoder" where
  "pb_decode_delimited_noinit n env = decode_delimited_by (pb_decode_noinit n env)"

definition pb_decode_delimited :: "nat \<Rightarrow> 'st dec_env \<Rightarrow> 'st msg_decoder" where
  "pb_decode_delimited n env = decode_delimited_by (pb_decode n env)"

definition pb_decode_nullterminated :: "nat \<Rightarrow> 'st dec_env \<Rightarrow> 'st msg_decoder" where
  "pb_decode_nullterminated n env = pb_decode n env"

end
