(* ===== verification/IterProps.thy ===== *)
theory IterProps
  imports EncodeProps DecodeMsg
begin

section \<open>Iterator: reachable states, search, layout\<close>

text \<open>
  The states the code can bring an iterator into: started by \<open>pb_field_iter_begin\<close>, then moved
  by \<open>pb_field_iter_next\<close> and \<open>pb_field_iter_find\<close>. In all of them the pointers are those of
  the field at the current position. With the layout of the generated structs this says that
  the encoder and the decoder touch exactly the members that the descriptor names.
\<close>

subsection \<open>Reachable iterators\<close>

inductive iter_reachable :: "pb_field list \<Rightarrow> addr \<Rightarrow> pb_field_iter \<Rightarrow> bool" for fs d where
  started: "pb_field_iter_begin fs d = Some (b, it) \<Longrightarrow> iter_reachable fs d it"
| moved: "iter_reachable fs d it \<Longrightarrow> pb_field_iter_next it = Some (b, it') \<Longrightarrow> iter_reachable fs d it'"
| sought: "iter_reachable fs d it \<Longrightarrow> pb_field_iter_find it tg = Some (b, it') \<Longrightarrow> iter_reachable fs d it'"

text \<open>Positions of a message: of an empty one, only the terminator.\<close>

definition valid_pos :: "pb_field list \<Rightarrow> nat \<Rightarrow> bool" where
  "valid_pos fs i \<longleftrightarrow> i < n_fields fs \<or> i = 0"

lemma next_valid:
  assumes "terminated fs" and "valid_pos fs i" and "pb_field_iter_next (iter_at fs d i) = Some (b, it')"
  shows "\<exists>j. it' = iter_at fs d j \<and> valid_pos fs j"
proof (cases "n_fields fs = 0")
  case True
  then show ?thesis using assms iter_next_empty [OF assms(1) True, of d] by (auto simp: valid_pos_def)
next
  case False
  then have "i < n_fields fs" using assms(2) by (auto simp: valid_pos_def)
  from iter_next_at [OF assms(1) this, of d] assms(3) show ?thesis
    by (auto simp: valid_pos_def split: if_splits)
qed

lemma find_valid:
  assumes "terminated fs" and "valid_pos fs i" and "pb_field_iter_find (iter_at fs d i) tg = Some (b, it')"
  shows "\<exists>j. it' = iter_at fs d j \<and> valid_pos fs j"
proof (cases "n_fields fs = 0")
  case True
  then show ?thesis using assms iter_find_empty [OF assms(1) True, of d tg] by (auto simp: valid_pos_def)
next
  case False
  then have "i < n_fields fs" using assms(2) by (auto simp: valid_pos_def)
  from iter_find_at [OF assms(1) this, of d tg] assms(3) False show ?thesis
    unfolding valid_pos_def using assms(2) [unfolded valid_pos_def] by (fastforce split: list.splits)
qed

lemma reachable_at:
  assumes "iter_reachable fs d it" and "terminated fs"
  shows "\<exists>i. it = iter_at fs d i \<and> valid_pos fs i"
  using assms
proof (induction rule: iter_reachable.induct)
  case (started b it)
  then have "it = iter_at fs d 0" by (simp add: iter_begin_at)
  then show ?case by (auto simp: valid_pos_def)
next
  case (moved it b it')
  then show ?case using next_valid by blast
next
  case (sought it tg b it')
  then show ?case using find_valid by blast
qed

lemma reachable_pos:
  "terminated fs \<Longrightarrow> i < n_fields fs \<Longrightarrow> iter_reachable fs d (iter_at fs d i)"
proof (induction i)
  case 0
  then show ?case using iter_reachable.started [OF iter_begin_at] by blast
next
  case (Suc i)
  with iter_next_at [of fs i d] show ?case by (auto intro: iter_reachable.moved)
qed

text \<open>C23. Invariant: wherever the iterator was moved, its data pointer, its size pointer and its
  count of required fields are those of the field it stands on.\<close>

theorem iter_invariant:
  assumes "iter_reachable fs d it" and "terminated fs"
  shows "iter_wf it \<and> it_start it = fs \<and> it_dest_struct it = d"
  using reachable_at [OF assms] assms(2) by (auto simp: valid_pos_def iter_wf_at)

lemma tier_terminated: "terminated gdt_cct_QosTierConfiguration_fields"
  by (simp add: gdt_cct_QosTierConfiguration_fields_eq terminated_def)

lemma tier_fields: "n_fields gdt_cct_QosTierConfiguration_fields = 2"
  by (simp add: gdt_cct_QosTierConfiguration_fields_eq n_fields_def)

lemma iter_invariant_witness:
  "iter_wf (iter_at gdt_cct_QosTierConfiguration_fields 64 1)"
proof -
  have "iter_reachable gdt_cct_QosTierConfiguration_fields 64 (iter_at gdt_cct_QosTierConfiguration_fields 64 1)"
    by (rule reachable_pos [OF tier_terminated]) (simp add: tier_fields)
  from iter_invariant [OF this tier_terminated] show ?thesis by simp
qed

subsection \<open>Search\<close>

text \<open>C24. \<open>pb_field_iter_find\<close> from any reachable state of a message with fields always returns: true
  with the iterator on a field of that tag when the message has one, and otherwise false with
  the iterator back where it was.\<close>

theorem iter_find_correct:
  assumes "iter_reachable fs d it" and "terminated fs" and "0 < n_fields fs"
  shows "if \<exists>p < n_fields fs. has_tag tg (fs ! p)
    then \<exists>p < n_fields fs. has_tag tg (fs ! p) \<and> pb_field_iter_find it tg = Some (True, iter_at fs d p)
    else pb_field_iter_find it tg = Some (False, it)"
proof -
  let ?n = "n_fields fs"
  obtain i where it: "it = iter_at fs d i" "i < ?n"
    using reachable_at [OF assms(1,2)] assms(3) by (auto simp: valid_pos_def)
  let ?ls = "filter (\<lambda>l. has_tag tg (fs ! ((i + l) mod ?n))) [0..<?n]"
  note find = iter_find_at [OF assms(2) it(2), of d tg]
  show ?thesis
  proof (cases ?ls)
    case Nil
    have "\<not> has_tag tg (fs ! p)" if "p < ?n" for p
      using cyclic_cover [OF it(2) that] Nil by (auto simp: filter_empty_conv)
    with find Nil it(1) show ?thesis by auto
  next
    case (Cons l ls)
    then have "l \<in> set ?ls" by simp
    then have l: "has_tag tg (fs ! ((i + l) mod ?n))" by simp
    have "(i + l) mod ?n < ?n" using assms(3) by simp
    with l find Cons it(1) show ?thesis by auto
  qed
qed

lemma iter_find_correct_witness:
  "pb_field_iter_find (iter_at gdt_cct_QosTierConfiguration_fields 64 1) 2 =
     Some (True, iter_at gdt_cct_QosTierConfiguration_fields 64 0)"
proof -
  let ?fs = "gdt_cct_QosTierConfiguration_fields"
  have t0: "has_tag 2 (?fs ! 0)" and t1: "\<not> has_tag 2 (?fs ! 1)"
    by (simp_all add: gdt_cct_QosTierConfiguration_fields_eq has_tag_def type_part_evals)
  have tags: "has_tag 2 (?fs ! p) \<longleftrightarrow> p = 0" if "p < 2" for p
    using less_2_cases [OF that] t0 t1 by auto
  have r: "iter_reachable ?fs 64 (iter_at ?fs 64 1)"
    by (rule reachable_pos [OF tier_terminated]) (simp add: tier_fields)
  have "\<exists>p < n_fields ?fs. has_tag 2 (?fs ! p)" using t0 by (intro exI [of _ 0]) (simp add: tier_fields)
  with iter_find_correct [OF r tier_terminated, of 2]
  obtain p where "p < 2" "has_tag 2 (?fs ! p)"
    "pb_field_iter_find (iter_at ?fs 64 1) 2 = Some (True, iter_at ?fs 64 p)"
    by (auto simp: tier_fields)
  then show ?thesis using tags by auto
qed

subsection \<open>Loops over a message\<close>

text \<open>C32. The \<open>do ... while (pb_field_iter_next(&iter))\<close> loop that sets defaults and releases
  messages runs its body once on every field of the descriptor, in order, and stops.\<close>

lemma fields_loop_at:
  "terminated fs \<Longrightarrow> i < n_fields fs \<Longrightarrow> n_fields fs - i \<le> k \<Longrightarrow>
     fields_loop body k (iter_at fs d i) m =
     foldl (\<lambda>r j. Option.bind r (body (iter_at fs d j))) (Some m) [i..<n_fields fs]"
proof (induction k arbitrary: i m)
  case 0
  then show ?case by simp
next
  case (Suc k)
  have fail: "foldl (\<lambda>r j. Option.bind r (body (iter_at fs d j))) None xs = None" for xs
    by (induction xs) simp_all
  have upt: "[i..<n_fields fs] = i # [Suc i..<n_fields fs]"
    using Suc.prems(2) by (simp add: upt_conv_Cons)
  show ?case
    using Suc.prems Suc.IH [of "Suc i"] iter_next_at [OF Suc.prems(1,2), of d] upt fail
    by (cases "body (iter_at fs d i) m") (auto simp: not_less)
qed

theorem message_loop_visits_all:
  assumes "terminated fs"
  shows "message_loop body fs d m =
    foldl (\<lambda>r i. Option.bind r (body (iter_at fs d i))) (Some m) [0..<n_fields fs]"
  using fields_loop_at [OF assms, of 0 "length fs" body d m] terminated_nth(3) [OF assms]
  by (simp add: message_loop_def iter_begin_at [OF assms])

lemma message_loop_visits_all_witness:
  "message_loop (\<lambda>it m. store_bytes m (it_pData it) [7]) gdt_cct_QosTierConfiguration_fields 8192 response_mem =
    Option.bind (store_bytes response_mem 8196 [7]) (\<lambda>m. store_bytes m 8204 [7])"
proof -
  have "data_pos gdt_cct_QosTierConfiguration_fields 0 = 4"
    "data_pos gdt_cct_QosTierConfiguration_fields (Suc 0) = 12"
    by (simp_all add: gdt_cct_QosTierConfiguration_fields_eq prev_field_size_def in_union_def type_part_evals)
  with message_loop_visits_all [OF tier_terminated,
      of "\<lambda>it m. store_bytes m (it_pData it) [7]" 8192 response_mem]
  show ?thesis by (simp add: tier_fields upt_rec del: data_pos.simps)
qed

subsection \<open>The generated structs\<close>

lemma layout_pointers:
  assumes "layout_ok (st, fs, names)" and "i < n_fields fs"
  shows "\<exists>it. iter_steps fs d i = Some it \<and> it_pData it = d + int (offsetof st (names ! i)) \<and>
    uint (prev_field_size (fs ! i)) = int (pb_membersize st (names ! i))"
proof -
  have "terminated fs" using assms(1) by (simp add: layout_ok_def)
  moreover have "layout_entry st (fs ! i) (names ! i) (data_pos fs i) (size_pos fs i)"
    using assms by (simp add: layout_ok_def list_all_iff)
  ultimately show ?thesis
    using iter_steps_at [of fs i d] assms(2) by (simp add: layout_entry_def)
qed

text \<open>C25. For every field of the nine log-transport messages the iterator stops at the offset of the
  struct member that the descriptor names, and the field has that member's size.\<close>

theorem cct_layout:
  "list_all (\<lambda>(st, fs, names). list_all (\<lambda>i. \<exists>it. iter_steps fs d i = Some it \<and>
      it_pData it = d + int (offsetof st (names ! i)) \<and>
      uint (prev_field_size (fs ! i)) = int (pb_membersize st (names ! i))) [0..<n_fields fs]) cct_messages"
proof -
  have "list_all layout_ok cct_messages"
    by (simp add: cct_messages_def gdt_cct_LogEvent_layout gdt_cct_NetworkConnectionInfo_layout
        gdt_cct_IosClientInfo_layout gdt_cct_ClientInfo_layout gdt_cct_BatchedLogRequest_layout
        gdt_cct_LogRequest_layout gdt_cct_QosTierConfiguration_layout gdt_cct_QosTiersOverride_layout
        gdt_cct_LogResponse_layout)
  then show ?thesis by (auto simp: list_all_iff layout_pointers)
qed

text \<open>A message without fields: a tag of zero is found, although the entry it matches is the
  terminator of the array.\<close>

theorem find_zero_in_empty:
  "pb_field_iter_find (iter_at [PB_LAST_FIELD] d 0) 0 = Some (True, iter_at [PB_LAST_FIELD] d 0)"
  using iter_find_empty [of "[PB_LAST_FIELD]" d 0]
  by (simp add: terminated_def n_fields_def has_tag_def PB_LAST_FIELD_def type_part_evals)

end
