(* ===== verification/WireProps.thy ===== *)
theory WireProps
  imports EncodeProps DecodeMsg
begin

section \<open>Wire values: encoder against decoder\<close>

text \<open>
  What one side of nanopb writes is what the other reads. The encoder's contract (\<open>buf.emits\<close>)
  and the decoder's (\<open>src.consumes\<close>) speak about the same byte strings of Wire; the round
  trips compose the two on memory buffers. Then the behaviour on input that is not well
  formed: overlong and truncated varints, bounds of a read, substreams.
\<close>

subsection \<open>Composing the two contracts\<close>

definition written :: "obuf pb_ostream \<Rightarrow> byte list" where
  "written s = (case os_state s of None \<Rightarrow> [] | Some (out, n) \<Rightarrow> take n out)"

definition reader :: "byte list \<Rightarrow> 'st pb_istream" where
  "reader bs = pb_istream_from_buffer bs (of_nat (length bs))"

lemma emits_written:
  assumes "buf.emits A bs" and "length bs < 2 ^ 32" and "unat bufsize \<le> length buf"
    and "A (pb_ostream_from_buffer buf bufsize) = Some (True, s)"
  shows "written s = bs"
proof -
  have "length bs \<le> unat bufsize"
  proof (rule ccontr)
    assume less: "\<not> length bs \<le> unat bufsize"
    then have "unat bufsize + length bs < 2 ^ 64" using assms(2) by simp
    with emits_buffer_full [OF assms(1,3)] less assms(4) show False by auto
  qed
  with emits_buffer_exact [OF assms(1,3)] assms(4) show ?thesis
    by (auto simp: written_def)
qed

lemma src_reader:
  assumes "length bs < 2 ^ 64"
  shows "src.on_source (reader bs)" and "src.input (reader bs) = bs"
proof -
  have "unat (of_nat (length bs) :: size_t) = length bs"
    using assms by (simp add: unat_of_nat)
  then show "src.on_source (reader bs)" "src.input (reader bs) = bs"
    by (simp_all add: reader_def src_on_source)
qed

lemma advance_reader: "src.advance (reader (bs @ tail)) (length bs) = reader tail"
  by (simp add: src.advance_def reader_def pb_istream_from_buffer_def)

lemma consumes_reader:
  assumes "src.consumes A bs v" and "length (bs @ tail) < 2 ^ 64"
  shows "A (reader (bs @ tail)) = Some (Some v, reader tail)"
  using src.consumesD [OF assms(1) src_reader [OF assms(2)]] by (simp only: advance_reader)

lemma roundtrip:
  assumes "buf.emits A bs" and "src.consumes B bs v" and "length bs < 2 ^ 32"
    and "unat bufsize \<le> length buf" and "A (pb_ostream_from_buffer buf bufsize) = Some (True, s)"
    and "length (written s @ tail) < 2 ^ 64"
  shows "B (reader (written s @ tail)) = Some (Some v, reader tail)"
  using consumes_reader [OF assms(2)] assms(6) emits_written [OF assms(1,3,4,5)] by simp

lemma short_varint: "length (spec_varint (unat (v :: u64))) < 2 ^ 32"
  using length_spec_varint_64 [of v] by simp

subsection \<open>Evaluation of the encoder on a buffer\<close>

lemmas encode_eval = pb_encode_varint_def varint_fill.simps replicate_numeral pb_write_def
  pb_ostream_from_buffer_def arr_upd_def arr_get_def

subsection \<open>Round trips\<close>

text \<open>C26. A 64-bit varint that the encoder put into a buffer is decoded to the same value, and the
  decoder stops right after it.\<close>

theorem varint_roundtrip:
  assumes "pb_encode_varint m (pb_ostream_from_buffer buf bufsize) v = Some (True, s)"
    and "unat bufsize \<le> length buf" and "length (written s @ tail) < 2 ^ 64"
  shows "pb_decode_varint (reader (written s @ tail)) = Some (Some v, reader tail)"
  by (rule roundtrip [OF buf.emits_varint src.consumes_spec_varint short_varint assms(2,1,3)])

text \<open>C14. Zigzag: a signed 64-bit value survives \<open>pb_encode_svarint\<close> and \<open>pb_decode_svarint\<close>.\<close>

theorem svarint_roundtrip:
  assumes "pb_encode_svarint m (pb_ostream_from_buffer buf bufsize) v = Some (True, s)"
    and "unat bufsize \<le> length buf" and "length (written s @ tail) < 2 ^ 64"
  shows "pb_decode_svarint (reader (written s @ tail)) = Some (Some v, reader tail)"
proof (rule roundtrip [OF buf.emits_svarint src.consumes_svarint _ assms(2,1,3)])
  show "length (spec_varint (zigzag_nat (sint v))) < 2 ^ 32"
    using length_spec_varint_le [of "zigzag_nat (sint v)" 10] zigzag_nat_less [of v] by simp
qed

text \<open>C27. A negative 32-bit value, which the encoder widens to a ten-byte varint, is read back by
  the 32-bit decoder.\<close>

theorem negative_roundtrip:
  assumes "pb_encode_varint m (pb_ostream_from_buffer buf bufsize) (scast (v :: u32)) = Some (True, s)"
    and "sint v < 0" and "unat bufsize \<le> length buf" and "length (written s @ tail) < 2 ^ 64"
  shows "pb_decode_varint32 (reader (written s @ tail)) = Some (Some v, reader tail)"
  by (rule roundtrip [OF buf.emits_varint src.consumes_varint32_negative [OF assms(2)] short_varint
        assms(3,1,4)])

text \<open>C16. The little-endian fixed-size values: \<open>pb_encode_fixed64\<close> of a value in memory is read back
  by \<open>pb_decode_fixed64\<close>.\<close>

theorem fixed64_roundtrip:
  assumes "pb_encode_fixed64 m (pb_ostream_from_buffer buf bufsize) a = Some (True, s)"
    and "load_word m a 8 = Some (v :: u64)"
    and "unat bufsize \<le> length buf" and "length (written s @ tail) < 2 ^ 64"
  shows "pb_decode_fixed64 (reader (written s @ tail)) = Some (Some v, reader tail)"
proof -
  obtain bs where bs: "load_bytes m a 8 = Some bs" "v = le_word bs"
    using assms(2) by (auto simp: load_word_def)
  have len: "length bs = 8" using load_bytes_length [OF bs(1)] .
  then have "le_bytes 8 v = bs" unfolding bs(2) using le_bytes_le_word [of bs, where ?'a = 64] by simp
  with src.consumes_fixed64 [of v] have "src.consumes pb_decode_fixed64 bs v" by simp
  from roundtrip [OF buf.emits_fixed64 [OF bs(1)] this _ assms(3,1,4)] len show ?thesis by simp
qed

text \<open>Tags: the field number and the wire type come back, for every field number of 29 bits.\<close>

theorem tag_roundtrip:
  assumes "pb_encode_tag m (pb_ostream_from_buffer buf bufsize) wt fn = Some (True, s)"
    and "unat fn < 2 ^ 29" and "fn \<noteq> 0" and "wt \<in> {PB_WT_VARINT, PB_WT_64BIT, PB_WT_STRING, PB_WT_32BIT}"
    and "unat bufsize \<le> length buf" and "length (written s @ tail) < 2 ^ 64"
  shows "pb_decode_tag (reader (written s @ tail)) = Some ((Some (wt, fn), False), reader tail)"
proof -
  have len: "length (spec_tag wt fn) < 2 ^ 32"
    using length_spec_varint_le [of "8 * unat fn + unat (wt_code wt)" 5] assms(2) wt_code_less [of wt]
    by (simp add: spec_tag_def)
  have w: "written s = spec_tag wt fn" by (rule emits_written [OF buf.emits_tag len assms(5,1)])
  have pos: "0 < 8 * unat fn + unat (wt_code wt)"
    using assms(3) by (metis add_gr_0 mult_pos_pos unat_gt_0 zero_less_numeral)
  have wt: "wt = wt_of (ucast (wt_code wt))"
    using assms(4) by (auto simp: wt_of_def)
  note fit = assms(6) [unfolded w]
  show ?thesis
    unfolding w using src.decode_tag_gives [OF assms(2) pos src_reader [OF fit] wt]
    by (simp only: advance_reader)
qed

text \<open>Concrete runs.\<close>

lemma varint_roundtrip_witness:
  "pb_decode_varint (reader [0xAC, 0x02, 0x07]) = Some (Some 300, reader [0x07])"
proof -
  have "pb_encode_varint response_mem (pb_ostream_from_buffer [0, 0, 0, 0] 4) 300 =
      Some (True, (pb_ostream_from_buffer [0xAC, 0x02, 0, 0] 4)
        \<lparr>os_state := Some ([0xAC, 0x02, 0, 0], 2), os_bytes_written := 2\<rparr>)" (is "?e = Some (True, ?s)")
    by (simp add: encode_eval)
  moreover have "written ?s = [0xAC, 0x02]" by (simp add: written_def)
  ultimately show ?thesis using varint_roundtrip [of response_mem "[0, 0, 0, 0]" 4 300 ?s "[0x07]"] by simp
qed

lemma svarint_roundtrip_witness:
  "pb_decode_svarint (reader [0x03, 0x07]) = Some (Some (- 2), reader [0x07])"
proof -
  have "pb_encode_svarint response_mem (pb_ostream_from_buffer [0, 0] 2) (- 2) =
      Some (True, (pb_ostream_from_buffer [0x03, 0] 2)
        \<lparr>os_state := Some ([0x03, 0], 1), os_bytes_written := 1\<rparr>)" (is "?e = Some (True, ?s)")
    by (simp add: encode_eval pb_encode_svarint_def zigzag_def)
  moreover have "written ?s = [0x03]" by (simp add: written_def)
  ultimately show ?thesis using svarint_roundtrip [of response_mem "[0, 0]" 2 "- 2" ?s "[0x07]"] by simp
qed

lemma negative_roundtrip_witness:
  "pb_decode_varint32 (reader [0xFB, 0xFF, 0xFF, 0xFF, 0xFF, 0xFF, 0xFF, 0xFF, 0xFF, 0x01]) =
     Some (Some (- 5), reader [])"
proof -
  let ?out = "[0xFB, 0xFF, 0xFF, 0xFF, 0xFF, 0xFF, 0xFF, 0xFF, 0xFF, 0x01] :: byte list"
  have "pb_encode_varint response_mem (pb_ostream_from_buffer (replicate 10 0) 10) (scast (- 5 :: u32)) =
      Some (True, (pb_ostream_from_buffer ?out 10)
        \<lparr>os_state := Some (?out, 10), os_bytes_written := 10\<rparr>)" (is "?e = Some (True, ?s)")
    by (simp add: encode_eval)
  moreover have "written ?s = ?out" by (simp add: written_def)
  ultimately show ?thesis
    using negative_roundtrip [of response_mem "replicate 10 0" 10 "- 5" ?s "[]"] by simp
qed

lemma fixed64_roundtrip_witness:
  "pb_decode_fixed64 (reader [0x88, 0x13, 0, 0, 0, 0, 0, 0]) = Some (Some 5000, reader [])"
proof -
  let ?out = "[0x88, 0x13, 0, 0, 0, 0, 0, 0] :: byte list"
  have ld: "load_word response_mem 4104 8 = Some (5000 :: u64)" by (simp add: mem_eval)
  have "pb_encode_fixed64 response_mem (pb_ostream_from_buffer (replicate 8 1) 8) 4104 =
      Some (True, (pb_ostream_from_buffer ?out 8)
        \<lparr>os_state := Some (?out, 8), os_bytes_written := 8\<rparr>)" (is "?e = Some (True, ?s)")
    by (simp add: encode_eval pb_encode_fixed64_def ld fixed64_bytes_def)
  moreover have "written ?s = ?out" by (simp add: written_def)
  ultimately show ?thesis
    using fixed64_roundtrip [of response_mem "replicate 8 1" 8 4104 ?s 5000 "[]"] ld by simp
qed

lemma tag_roundtrip_witness:
  "pb_decode_tag (reader [0x82, 0x08, 0x00]) = Some ((Some (PB_WT_STRING, 128), False), reader [0x00])"
proof -
  have "pb_encode_tag response_mem (pb_ostream_from_buffer [0, 0] 2) PB_WT_STRING 128 =
      Some (True, (pb_ostream_from_buffer [0x82, 0x08] 2)
        \<lparr>os_state := Some ([0x82, 0x08], 2), os_bytes_written := 2\<rparr>)" (is "?e = Some (True, ?s)")
    by (simp add: encode_eval pb_encode_tag_def)
  moreover have "written ?s = [0x82, 0x08]" by (simp add: written_def)
  ultimately show ?thesis
    using tag_roundtrip [of response_mem "[0, 0]" 2 PB_WT_STRING 128 ?s "[0x00]"] by simp
qed

subsection \<open>Input that is not well formed\<close>

lemma readbyte_reader:
  "length (b # bs) < 2 ^ 64 \<Longrightarrow> pb_readbyte (reader (b # bs)) = Some (Some b, reader bs)"
  using consumes_reader [OF src.consumes_readbyte, of b bs] by simp

lemma readbyte_end: "pb_readbyte (reader []) = Some (None, (reader [])\<lparr>is_errmsg := Some ''end-of-stream''\<rparr>)"
  by (simp add: pb_readbyte_def reader_def pb_istream_from_buffer_def is_return_error_def is_set_error_def)

lemma bitpos_less: "j < 10 \<Longrightarrow> \<not> of_nat (7 * j) \<ge> (64 :: 8 word)"
proof -
  assume "j < 10"
  then have "unat (of_nat (7 * j) :: 8 word) = 7 * j" by (simp only: unat_of_nat) simp
  with \<open>j < 10\<close> show ?thesis by (simp only: word_le_nat_alt) simp
qed

lemma varint_loop_unterminated:
  "\<forall>b \<in> set bs. b AND 0x80 \<noteq> 0 \<Longrightarrow> j \<le> 10 \<Longrightarrow> length bs < 2 ^ 64 \<Longrightarrow>
     \<exists>s. varint_loop (reader bs) (of_nat (7 * j)) r = Some (None, s) \<and>
         is_errmsg s = Some (if j + length bs < 10 then ''end-of-stream'' else ''varint overflow'')"
proof (induction bs arbitrary: j r)
  case Nil
  show ?case
  proof (cases "j < 10")
    case True
    with bitpos_less show ?thesis by (subst varint_loop.simps) (simp add: readbyte_end)
  next
    case False
    then have "j = 10" using Nil.prems by simp
    then show ?thesis
      by (subst varint_loop.simps) (simp add: is_return_error_def is_set_error_def reader_def pb_istream_from_buffer_def)
  qed
next
  case (Cons b bs)
  show ?case
  proof (cases "j < 10")
    case True
    note lim = bitpos_less [OF True]
    have nxt: "(of_nat (7 * j) :: 8 word) + 7 = of_nat (7 * Suc j)" by simp
    from Cons.IH [of "Suc j" "r OR push_bit (unat (of_nat (7 * j) :: 8 word)) (ucast (b AND 0x7F))"]
    show ?thesis
      using Cons.prems lim True
      by (subst varint_loop.simps) (simp add: readbyte_reader Let_def nxt del: of_nat_mult of_nat_Suc)
  next
    case False
    then have "j = 10" using Cons.prems by simp
    then show ?thesis
      by (subst varint_loop.simps) (simp add: is_return_error_def is_set_error_def reader_def pb_istream_from_buffer_def)
  qed
qed

text \<open>A varint without a last byte is refused: with fewer than ten bytes because the stream
  ends, with ten or more because no 64-bit value is that long.\<close>

theorem varint_unterminated:
  assumes "\<forall>b \<in> set bs. b AND 0x80 \<noteq> 0" and "length bs < 2 ^ 64"
  shows "\<exists>s. pb_decode_varint (reader bs) = Some (None, s) \<and>
    is_errmsg s = Some (if length bs < 10 then ''end-of-stream'' else ''varint overflow'')"
  using varint_loop_unterminated [OF assms(1) _ assms(2), of 0 0] by (simp add: pb_decode_varint_def)

lemma varint_unterminated_witness:
  "(\<exists>s. pb_decode_varint (reader [0x80, 0xFF]) = Some (None, s) \<and> is_errmsg s = Some ''end-of-stream'') \<and>
   (\<exists>s. pb_decode_varint (reader (replicate 11 0x80)) = Some (None, s) \<and> is_errmsg s = Some ''varint overflow'')"
  using varint_unterminated [of "[0x80, 0xFF]"] varint_unterminated [of "replicate 11 0x80"] by simp


subsection \<open>How far a read goes\<close>



text \<open>Decoding a varint takes at most ten bytes off any stream, whether it succeeds or not.\<close>

lemma readbyte_le:
  assumes "pb_readbyte s = Some (r, s')"
  shows "unat (is_bytes_left s) \<le> unat (is_bytes_left s') + 1 \<and> unat (is_bytes_left s') \<le> unat (is_bytes_left s)"
proof (cases r)
  case None
  then have "is_bytes_left s' = is_bytes_left s"
    using assms by (auto simp: pb_readbyte_def is_return_error_def is_set_error_def bind_eq_Some_conv
        dest: call_read_bytes_left split: if_splits)
  then show ?thesis by simp
next
  case (Some b)
  with readbyte_left [of s b s'] assms
  have "is_bytes_left s \<noteq> 0" "is_bytes_left s' = is_bytes_left s - 1" by auto
  then show ?thesis by (simp add: unat_minus_one)
qed

lemma varint_loop_le:
  "varint_loop s (of_nat (7 * j)) r = Some (v, s') \<Longrightarrow> j \<le> 10 \<Longrightarrow>
     unat (is_bytes_left s) \<le> unat (is_bytes_left s') + (10 - j)"
proof (induction "10 - j" arbitrary: j s r)
  case 0
  then have "j = 10" by simp
  with "0.prems" show ?case
    by (subst (asm) varint_loop.simps) (auto simp: is_return_error_def is_set_error_def)
next
  case (Suc k)
  then have j: "j < 10" "k = 10 - Suc j" by auto
  note lim = bitpos_less [OF j(1)]
  have nxt: "(of_nat (7 * j) :: 8 word) + 7 = of_nat (7 * Suc j)" by simp
  obtain b s1 where rd: "pb_readbyte s = Some (b, s1)"
    using Suc.prems(1) lim by (subst (asm) varint_loop.simps) (cases "pb_readbyte s", auto)
  note le = readbyte_le [OF rd]
  show ?case
  proof (cases "b = None \<or> (\<exists>x. b = Some x \<and> x AND 0x80 = 0)")
    case True
    then have eq: "s1 = s'"
      using Suc.prems(1) lim rd by (subst (asm) varint_loop.simps) (auto simp: Let_def ithen_def)
    have "1 \<le> 10 - j" using j by simp
    then show ?thesis using le [THEN conjunct1] unfolding eq by linarith
  next
    case False
    then obtain x where x: "b = Some x" "x AND 0x80 \<noteq> 0" by auto
    have "varint_loop s1 (of_nat (7 * Suc j)) (r OR push_bit (unat (of_nat (7 * j) :: 8 word)) (ucast (x AND 0x7F))) = Some (v, s')"
      using Suc.prems(1) lim rd x by (subst (asm) varint_loop.simps) (simp add: Let_def nxt del: of_nat_mult of_nat_Suc)
    from Suc.hyps(1) [OF j(2) this] j(1)
    have "unat (is_bytes_left s1) \<le> unat (is_bytes_left s') + (10 - Suc j)" by simp
    moreover have "10 - j = Suc (10 - Suc j)" using j by simp
    ultimately show ?thesis using le [THEN conjunct1] by linarith
  qed
qed

theorem varint_reads_at_most_ten:
  assumes "pb_decode_varint s = Some (v, s')"
  shows "unat (is_bytes_left s) \<le> unat (is_bytes_left s') + 10"
  using varint_loop_le [of s 0 0 v s'] assms by (simp add: pb_decode_varint_def)

lemma varint_reads_at_most_ten_witness:
  "unat (is_bytes_left (reader [0xAC, 0x02, 0x07] :: unit pb_istream)) \<le>
   unat (is_bytes_left (reader [0x07] :: unit pb_istream)) + 10"
  using varint_reads_at_most_ten [OF varint_roundtrip_witness] .

subsection \<open>Skipping and substreams\<close>

text \<open>C31. Skipping a field whose payload is well formed for its wire type takes exactly that
  payload, so that decoding goes on at the next tag.\<close>

theorem skip_field_exact:
  assumes "wire_payload wt bs" and "length (bs @ tail) < 2 ^ 64"
  shows "pb_skip_field (reader (bs @ tail)) wt = Some (Some (), reader tail)"
  by (rule consumes_reader [OF src.consumes_skip_field [OF assms(1)] assms(2)])

lemma skip_field_exact_witness:
  "pb_skip_field (reader [0x02, 0xAA, 0xBB, 0x08]) PB_WT_STRING = Some (Some (), reader [0x08])"
proof -
  have "wire_payload PB_WT_STRING [0x02, 0xAA, 0xBB]"
    by (auto simp: wire_payload_def spec_varint.simps intro!: exI [of _ "[0xAA, 0xBB]"])
  from skip_field_exact [OF this, of "[0x08]"] show ?thesis by simp
qed

text \<open>A submessage's substream: whatever part of the body was read from it, closing it puts the
  parent stream right behind the body.\<close>

theorem substream_closed:
  fixes sub :: "'st pb_istream"
  assumes "length (spec_varint (length body) @ body @ tail) < 2 ^ 32" and "k \<le> length body"
    and "pb_make_string_substream (reader (spec_varint (length body) @ body @ tail)) = Some (Some sub, s1)"
    and "read_bytes sub (of_nat k) = Some (r, sub')"
  shows "r = Some (take k body) \<and> pb_close_string_substream s1 sub' = Some (True, reader tail)"
proof -
  let ?s = "reader (spec_varint (length body) @ body @ tail) :: 'st pb_istream"
  have lt: "length (spec_varint (length body) @ body @ tail) < 2 ^ 64" using assms(1) by simp
  note on = src_reader [OF lt]
  have len: "length body < 2 ^ 32" using assms(1) by simp
  obtain sub2 s2 where mk: "pb_make_string_substream ?s = Some (Some sub2, s2)" "src.on_source sub2"
    "src.input sub2 = body"
    using src.make_substream_gives [OF len on] by metis
  have sub: "src.on_source sub" "src.input sub = take k body @ drop k body" using mk assms(3) by auto
  have kk: "length (take k body) = unat (of_nat k :: size_t)" "length (take k body) = k"
    using assms(2) len by (simp_all add: unat_of_nat)
  have "sub' = src.advance sub k" "r = Some (take k body)"
    using src.consumesD [OF src.consumes_read [OF kk(1)] sub] assms(4) kk(2) by auto
  moreover have "src.advance ?s (length (spec_varint (length body) @ body)) = reader tail"
    using advance_reader [of "spec_varint (length body) @ body" tail] by simp
  ultimately show ?thesis
    using src.substream_roundtrip [OF len on assms(3,2)] by simp
qed

lemma substream_closed_witness:
  "\<exists>sub s1 sub'. pb_make_string_substream (reader [0x03, 1, 2, 3, 9] :: unit pb_istream) = Some (Some sub, s1) \<and>
     read_bytes sub 2 = Some (Some [1, 2], sub') \<and>
     pb_close_string_substream s1 sub' = Some (True, reader [9])"
proof -
  let ?s = "reader [0x03, 1, 2, 3, 9] :: unit pb_istream"
  let ?p = "\<lambda>bs n. \<lparr>is_callback = Buf_read, is_state = Src bs, is_bytes_left = n, is_errmsg = None\<rparr> :: unit pb_istream"
  have mk: "pb_make_string_substream ?s = Some (Some (?p [1, 2, 3, 9] 3), ?p [1, 2, 3, 9] 1)"
    by (simp add: pb_make_string_substream_def pb_decode_varint32_def pb_decode_varint32_eof_def
        reader_def pb_istream_from_buffer_def readbyte_buffer)
  have rd: "read_bytes (?p [1, 2, 3, 9] 3) 2 = Some (Some [1, 2], ?p [3, 9] 1)"
    by (simp add: read_bytes_def pb_read_def read_checked_def call_read_def)
  have sv: "spec_varint (Suc (Suc (Suc 0))) = [0x03]" by (simp add: spec_varint_small)
  have "Some [1, 2] = Some (take 2 [1, 2, 3 :: byte]) \<and>
      pb_close_string_substream (?p [1, 2, 3, 9] 1) (?p [3, 9] 1) = Some (True, reader [9])"
    by (rule substream_closed [of "[1, 2, 3]" "[9]"]) (use mk rd sv in simp_all)
  with mk rd show ?thesis by blast
qed

end
