(* ===== verification/RoundTrip.thy ===== *)
theory RoundTrip
  imports IterProps WireProps
begin

section \<open>Decoding an encoded message\<close>

text \<open>
  \<open>pb_decode\<close> on the wire format of a message rebuilds a struct with the same wire format. It
  is shown for the messages whose fields are stored in the struct itself: required and
  optional (with a has-field) booleans, integers of any width, fixed-size values, fixed-length
  bytes, and submessages of the same kind, nested to any depth.

  \<open>plain\<close> is that class, with its memory layout; \<open>blank\<close> is the state after
  \<open>pb_message_set_to_defaults\<close>: no optional field present. \<open>item_decodes\<close>: reading one value
  stores bytes that encode to it and touches nothing but the field. The loop of
  \<open>pb_decode_noinit\<close> goes through the fields in order; the search of the iterator, the
  has-fields and the bitmap of required fields are dealt with once per field.
\<close>

declare load_bytes.simps [simp del] mapped.simps [simp del]

subsection \<open>Integers in memory\<close>

lemma bit_le_bytes: "i < n \<Longrightarrow> bit (le_bytes n v ! i) k \<longleftrightarrow> k < 8 \<and> bit v (8 * i + k)"
proof (induction n arbitrary: v i)
  case 0
  then show ?case by simp
next
  case (Suc n)
  then show ?case
    by (cases i) (auto simp: bit_simps add.assoc add.left_commute dest: bit_imp_le_length)
qed

lemma le_word_low:
  assumes "LENGTH('b) = 8 * n" and "8 * n \<le> LENGTH('a)"
  shows "(le_word (le_bytes n (v :: 'a::len word)) :: 'b::len word) = ucast v"
proof (rule bit_word_eqI)
  fix k assume k: "k < LENGTH('b)"
  then have "k div 8 < n" using assms(1) by auto
  then show "bit (le_word (le_bytes n v) :: 'b word) k \<longleftrightarrow> bit (ucast v :: 'b word) k"
    using k by (simp add: bit_le_word bit_le_bytes bit_simps)
qed

lemma store_int_load:
  assumes "store_int m a sz v = Some m'"
  shows "load_bytes m' a (unat sz) = Some (le_bytes (unat sz) v)"
  using load_store_same [of m a "le_bytes (unat sz) v" m'] assms by (simp add: store_int_def)

lemma ucast_scast_up:
  assumes "LENGTH('a) \<le> LENGTH('b)"
  shows "ucast (scast (w :: 'a::len word) :: 'b::len word) = w"
  using assms by (intro bit_word_eqI) (auto simp: bit_simps)

lemma ucast_ucast_up:
  assumes "LENGTH('a) \<le> LENGTH('b)"
  shows "ucast (ucast (w :: 'a::len word) :: 'b::len word) = w"
  using assms by (intro bit_word_eqI) (auto simp: bit_simps dest: bit_imp_le_length)

lemma scast_scast_up:
  assumes "LENGTH('a) \<le> LENGTH('b)" and "LENGTH('b) \<le> LENGTH('c)"
  shows "scast (ucast (scast (w :: 'a::len word) :: 'c::len word) :: 'b::len word) = (scast w :: 'c word)"
  using assms by (intro bit_word_eqI) (auto simp: bit_simps min_def)

lemma load_sx_narrow:
  assumes "load_sx m a sz = Some v" and "int_size sz"
  shows "narrow_s sz v = v" and "(if sz = 8 then v else scast (ucast v :: 32 word)) = v"
  using assms
  by (auto simp: load_sx_def int_size_def narrow_s_def scast_scast_up ucast_scast_up split: if_splits)

lemma load_zx_narrow:
  assumes "load_zx m a sz = Some v" and "int_size sz"
  shows "narrow_u sz v = v"
  using assms by (auto simp: load_zx_def int_size_def narrow_u_def ucast_ucast_up split: if_splits)

lemma load_sx_store:
  assumes "store_int m a sz v = Some m'" and "int_size sz" and "narrow_s sz v = v"
  shows "load_sx m' a sz = Some v"
  using store_int_load [OF assms(1)] assms(2,3)
  by (auto simp: load_sx_def load_word_def int_size_def narrow_s_def le_word_low)

lemma load_zx_store:
  assumes "store_int m a sz v = Some m'" and "int_size sz" and "narrow_u sz v = v"
  shows "load_zx m' a sz = Some v"
  using store_int_load [OF assms(1)] assms(2,3)
  by (auto simp: load_zx_def load_word_def int_size_def narrow_u_def le_word_low)

subsection \<open>Plain messages\<close>

definition apart :: "int \<times> nat \<Rightarrow> int \<times> nat \<Rightarrow> bool" where
  "apart x y \<longleftrightarrow> fst x + int (snd x) \<le> fst y \<or> fst y + int (snd y) \<le> fst x"

text \<open>The parts of the struct that belong to a field at \<open>p\<close>: its data and its has-field.\<close>

definition has_spans :: "pb_field \<Rightarrow> int \<Rightarrow> (int \<times> nat) list" where
  "has_spans f p = (if PB_HTYPE (ftype f) = PB_HTYPE_OPTIONAL then [(p + size_off f, 1)] else [])"

definition field_spans :: "pb_field \<Rightarrow> int \<Rightarrow> (int \<times> nat) list" where
  "field_spans f p = (p, unat (data_size f)) # has_spans f p"

definition plain_item :: "(pb_field list \<Rightarrow> nat \<Rightarrow> bool) \<Rightarrow> pb_field \<Rightarrow> bool" where
  "plain_item P f \<longleftrightarrow>
     (let lt = PB_LTYPE (ftype f); sz = data_size f in
      if lt = PB_LTYPE_SUBMESSAGE
      then (case ptr f of PFields sub \<Rightarrow> P sub (unat sz) | _ \<Rightarrow> False)
      else (case ptr f of PNull \<Rightarrow> True | PDefault v \<Rightarrow> unat sz \<le> length v | PFields _ \<Rightarrow> False) \<and>
        (lt = PB_LTYPE_BOOL \<and> sz = 1 \<or>
         lt \<in> {PB_LTYPE_VARINT, PB_LTYPE_UVARINT, PB_LTYPE_SVARINT} \<and> int_size sz \<or>
         lt = PB_LTYPE_FIXED32 \<and> sz = 4 \<or> lt = PB_LTYPE_FIXED64 \<and> sz = 8 \<or>
         lt = PB_LTYPE_FIXED_LENGTH_BYTES))"

definition plain_field :: "(pb_field list \<Rightarrow> nat \<Rightarrow> bool) \<Rightarrow> pb_field \<Rightarrow> bool" where
  "plain_field P f \<longleftrightarrow>
     unat (tag f) < 2 ^ 29 \<and> PB_ATYPE (ftype f) = PB_ATYPE_STATIC \<and>
     (PB_HTYPE (ftype f) = PB_HTYPE_REQUIRED \<or>
      PB_HTYPE (ftype f) = PB_HTYPE_OPTIONAL \<and> size_offset f \<noteq> 0 \<and>
        apart (0, unat (data_size f)) (size_off f, 1)) \<and>
     plain_item P f"

text \<open>A struct of \<open>sz\<close> bytes whose fields lie in it and do not overlap.\<close>

fun plain :: "nat \<Rightarrow> pb_field list \<Rightarrow> nat \<Rightarrow> bool" where
  "plain 0 fs sz \<longleftrightarrow> False"
| "plain (Suc n) fs sz \<longleftrightarrow>
     terminated fs \<and> 0 < n_fields fs \<and> distinct (map tag fs) \<and>
     required_before fs (n_fields fs) \<le> 64 \<and>
     list_all (\<lambda>i. plain_field (plain n) (fs ! i) \<and>
       list_all (\<lambda>(a, k). 0 \<le> a \<and> a + int k \<le> int sz) (field_spans (fs ! i) (data_pos fs i)))
       [0..<n_fields fs] \<and>
     list_all (\<lambda>j. list_all (\<lambda>i.
       list_all (\<lambda>x. list_all (apart x) (field_spans (fs ! j) (data_pos fs j)))
         (field_spans (fs ! i) (data_pos fs i))) [0..<j]) [0..<n_fields fs]"

text \<open>No optional field present, at any depth.\<close>

definition blank_field :: "(mem \<Rightarrow> pb_field list \<Rightarrow> addr \<Rightarrow> bool) \<Rightarrow> mem \<Rightarrow> pb_field \<Rightarrow> addr \<Rightarrow> bool" where
  [simp]: "blank_field B m f p \<longleftrightarrow>
     (PB_HTYPE (ftype f) = PB_HTYPE_OPTIONAL \<longrightarrow> mbytes m (p + size_off f) = Some 0) \<and>
     (\<forall>sub. ptr f = PFields sub \<longrightarrow> B m sub p)"

fun blank :: "nat \<Rightarrow> mem \<Rightarrow> pb_field list \<Rightarrow> addr \<Rightarrow> bool" where
  "blank 0 m fs a \<longleftrightarrow> True"
| "blank (Suc n) m fs a \<longleftrightarrow>
     (\<forall>i < n_fields fs. blank_field (blank n) m (fs ! i) (a + data_pos fs i))"

text \<open>The addresses of a field.\<close>

definition region :: "pb_field \<Rightarrow> addr \<Rightarrow> addr set" where
  "region f p = (\<Union>(a, k) \<in> set (field_spans f p). span a k)"

lemma region_eq:
  "region f p = span p (unat (data_size f)) \<union>
     (if PB_HTYPE (ftype f) = PB_HTYPE_OPTIONAL then {p + size_off f} else {})"
  by (auto simp: region_def field_spans_def has_spans_def span_def)

lemma span_shift: "span (d + a) k = (\<lambda>x. d + x) ` span a k"
  by (simp add: span_def image_add_atLeastLessThan ac_simps)

lemma region_shift: "region f (d + p) = (\<lambda>x. d + x) ` region f p"
  unfolding region_eq span_shift image_Un by (simp add: add.assoc)

lemma apart_span: "apart (a, k) (b, l) \<Longrightarrow> span a k \<inter> span b l = {}"
  by (auto simp: apart_def span_def)

lemma apart_region:
  assumes "list_all (\<lambda>x. list_all (apart x) (field_spans g q)) (field_spans f p)"
  shows "region f p \<inter> region g q = {}"
  using assms by (fastforce simp: region_def list_all_iff disjoint_iff dest!: apart_span bspec)

lemma plainD:
  assumes "plain (Suc n) fs sz"
  shows "terminated fs" and "0 < n_fields fs" and "required_before fs (n_fields fs) \<le> 64"
    and "distinct (map tag fs)" and "i < n_fields fs \<Longrightarrow> plain_field (plain n) (fs ! i)"
  using assms by (simp_all add: list_all_iff)

lemma region_in:
  assumes plain: "plain (Suc n) fs sz" and "i < n_fields fs"
  shows "region (fs ! i) (d + data_pos fs i) \<subseteq> span d sz"
proof -
  have "\<forall>(a, k) \<in> set (field_spans (fs ! i) (data_pos fs i)). 0 \<le> a \<and> a + int k \<le> int sz"
    using plain assms by (auto simp: list_all_iff)
  then have "region (fs ! i) (data_pos fs i) \<subseteq> span 0 sz" by (auto simp: region_def span_def)
  then show ?thesis unfolding region_shift by (auto simp: span_def)
qed

lemma region_disjoint:
  assumes plain: "plain (Suc n) fs sz" and "i < n_fields fs" and "j < n_fields fs" and "i \<noteq> j"
  shows "region (fs ! i) (d + data_pos fs i) \<inter> region (fs ! j) (d + data_pos fs j) = {}"
proof -
  have *: "region (fs ! k) (data_pos fs k) \<inter> region (fs ! l) (data_pos fs l) = {}"
    if "k < l" "l < n_fields fs" for k l
    using plain that by (intro apart_region) (simp add: list_all_iff)
  have "region (fs ! i) (data_pos fs i) \<inter> region (fs ! j) (data_pos fs j) = {}"
    using * [of i j] * [of j i] assms by (cases "i < j") auto
  then show ?thesis by (auto simp: region_shift)
qed

lemma data_in: "plain (Suc n) fs sz \<Longrightarrow> i < n_fields fs \<Longrightarrow> 0 \<le> data_pos fs i"
  by (auto simp: list_all_iff field_spans_def)

lemma plain_size_pos:
  "plain (Suc n) fs sz \<Longrightarrow> i < n_fields fs \<Longrightarrow> size_pos fs i = data_pos fs i + size_off (fs ! i)"
  using plainD(5) [of n fs sz i] by (cases i) (auto simp: in_union_def plain_field_def)

lemma sub_plain:
  "plain (Suc n) fs sz \<Longrightarrow> i < n_fields fs \<Longrightarrow> ptr (fs ! i) = PFields sub \<Longrightarrow>
     plain n sub (unat (data_size (fs ! i)))"
  using plainD(5) [of n fs sz i] by (auto simp: plain_field_def plain_item_def Let_def split: if_splits)

subsection \<open>What the encoding reads\<close>

definition agree :: "addr set \<Rightarrow> mem \<Rightarrow> mem \<Rightarrow> bool" where
  "agree A m m' \<longleftrightarrow> (\<forall>x \<in> A. mbytes m' x = mbytes m x)"

lemma agree_load: "agree (span p k) m m' \<Longrightarrow> j \<le> k \<Longrightarrow> load_bytes m' p j = load_bytes m p j"
  by (rule load_bytes_cong) (auto simp: agree_def span_def)

lemma agree_mono: "agree A m m' \<Longrightarrow> B \<subseteq> A \<Longrightarrow> agree B m m'"
  by (auto simp: agree_def)

lemma writes_agree: "writes_in A m m' \<Longrightarrow> A \<inter> B = {} \<Longrightarrow> agree B m m'"
  by (auto simp: agree_def writes_in_def)

text \<open>The encoding of a plain field, with the case analysis of \<open>spec_basic\<close> done.\<close>

lemma spec_field_plain:
  assumes "plain_field P f"
  shows "spec_field n m R f p =
     (if PB_HTYPE (ftype f) = PB_HTYPE_REQUIRED
      then (if p = 0 then None else spec_tagged f (spec_item m R f p))
      else do {
        has \<leftarrow> safe_read_bool m (p + size_off f);
        if has then spec_tagged f (spec_item m R f p) else Some []
      })"
proof -
  have "PB_LTYPE (ftype f) \<le> PB_LTYPE_FIXED_LENGTH_BYTES" "PB_LTYPE (ftype f) \<noteq> PB_LTYPE_EXTENSION"
    using assms by (auto simp: plain_field_def plain_item_def Let_def split: if_splits)
  with assms show ?thesis
    by (auto simp: plain_field_def spec_field_def spec_basic_def spec_has_def not_less)
qed

lemma spec_item_frame:
  assumes "plain_item P f" and "agree (span p (unat (data_size f))) m m'"
    and "\<And>sub. ptr f = PFields sub \<Longrightarrow> R' sub p = R sub p"
  shows "spec_item m' R' f p = spec_item m R f p"
proof -
  note ld = agree_load [OF assms(2)]
  consider (sub) "PB_LTYPE (ftype f) = 8" | (bool) "PB_LTYPE (ftype f) = 0" "data_size f = 1"
    | (int) "PB_LTYPE (ftype f) \<in> {1, 2, 3}" "int_size (data_size f)"
    | (f32) "PB_LTYPE (ftype f) = 4" "data_size f = 4" | (f64) "PB_LTYPE (ftype f) = 5" "data_size f = 8"
    | (bytes) "PB_LTYPE (ftype f) = 10"
    using assms(1) by (auto simp: plain_item_def Let_def split: if_splits)
  then show ?thesis
  proof cases
    case sub
    with assms(1,3) show ?thesis
      by (auto simp: spec_item_def plain_item_def split: field_ptr.splits)
  next
    case int
    then have "load_sx m' p (data_size f) = load_sx m p (data_size f)"
      "load_zx m' p (data_size f) = load_zx m p (data_size f)"
      using ld by (auto simp: load_sx_def load_zx_def load_word_def int_size_def)
    with int show ?thesis by (auto simp: spec_item_def Let_def)
  qed (use ld [of "unat (data_size f)"] in \<open>simp_all add: spec_item_def safe_read_bool_def Let_def\<close>)
qed

lemma spec_field_frame:
  assumes "plain_field P f" and "agree (region f p) m m'"
    and "\<And>sub. ptr f = PFields sub \<Longrightarrow> R' sub p = R sub p"
  shows "spec_field n m' R' f p = spec_field n m R f p"
proof -
  have item: "plain_item P f" using assms(1) by (simp add: plain_field_def)
  have "agree (span p (unat (data_size f))) m m'"
    using assms(2) by (rule agree_mono) (auto simp: region_eq)
  note it = spec_item_frame [OF item this, of R' R]
  have "safe_read_bool m' (p + size_off f) = safe_read_bool m (p + size_off f)"
    if "PB_HTYPE (ftype f) = PB_HTYPE_OPTIONAL"
  proof -
    have "agree (span (p + size_off f) 1) m m'"
      using assms(2) by (rule agree_mono) (use that in \<open>auto simp: region_eq span_def\<close>)
    then show ?thesis using agree_load [of "p + size_off f" 1 m m' 1] by (simp add: safe_read_bool_def)
  qed
  then show ?thesis
    using assms(1,3) it by (auto simp: spec_field_plain [OF assms(1)] plain_field_def cong: if_cong)
qed

lemma spec_fields_cong:
  "(\<And>i. i \<in> set is \<Longrightarrow> enc (fs ! i) (a + data_pos fs i) = enc' (fs ! i) (b + data_pos fs i)) \<Longrightarrow>
     spec_fields enc fs a is = spec_fields enc' fs b is"
  by (induction "is") simp_all

lemma spec_msg_frame:
  "plain n fs sz \<Longrightarrow> agree (span a sz) m m' \<Longrightarrow> spec_msg n m' fs a = spec_msg n m fs a"
proof (induction n arbitrary: fs sz a)
  case 0
  then show ?case by simp
next
  case (Suc n)
  have "spec_field (Suc n) m' (spec_msg n m') (fs ! i) (a + data_pos fs i) =
      spec_field (Suc n) m (spec_msg n m) (fs ! i) (a + data_pos fs i)" if i: "i < n_fields fs" for i
  proof -
    note f = plainD(5) [OF Suc.prems(1) i]
    have ag: "agree (region (fs ! i) (a + data_pos fs i)) m m'"
      using Suc.prems(2) region_in [OF Suc.prems(1) i] by (rule agree_mono)
    have "spec_msg n m' sub (a + data_pos fs i) = spec_msg n m sub (a + data_pos fs i)"
      if "ptr (fs ! i) = PFields sub" for sub
    proof (rule Suc.IH)
      show "plain n sub (unat (data_size (fs ! i)))"
        using f that by (auto simp: plain_field_def plain_item_def Let_def split: if_splits)
      show "agree (span (a + data_pos fs i) (unat (data_size (fs ! i)))) m m'"
        using ag by (rule agree_mono) (auto simp: region_eq)
    qed
    then show ?thesis by (rule spec_field_frame [OF f ag])
  qed
  then have "spec_fields (spec_field (Suc n) m' (spec_msg n m')) fs a [0..<n_fields fs] =
      spec_fields (spec_field (Suc n) m (spec_msg n m)) fs a [0..<n_fields fs]"
    by (intro spec_fields_cong) simp
  then show ?case by (simp add: spec_msg.simps)
qed

lemma blank_frame:
  "plain n fs sz \<Longrightarrow> agree (span a sz) m m' \<Longrightarrow> blank n m fs a \<Longrightarrow> blank n m' fs a"
proof (induction n arbitrary: fs sz a)
  case 0
  then show ?case by simp
next
  case (Suc n)
  show ?case
  proof (simp, intro allI impI conjI)
    fix i assume i: "i < n_fields fs"
    note f = plainD(5) [OF Suc.prems(1) i]
    have ag: "agree (region (fs ! i) (a + data_pos fs i)) m m'"
      using Suc.prems(2) region_in [OF Suc.prems(1) i] by (rule agree_mono)
    show "mbytes m' (a + data_pos fs i + size_off (fs ! i)) = Some 0"
      if "PB_HTYPE (ftype (fs ! i)) = 16"
      using ag Suc.prems(3) i that by (auto simp: agree_def region_eq)
    show "blank n m' sub (a + data_pos fs i)" if "ptr (fs ! i) = PFields sub" for sub
    proof (rule Suc.IH)
      show "plain n sub (unat (data_size (fs ! i)))"
        using f that by (auto simp: plain_field_def plain_item_def Let_def split: if_splits)
      show "agree (span (a + data_pos fs i) (unat (data_size (fs ! i)))) m m'"
        using ag by (rule agree_mono) (auto simp: region_eq)
      show "blank n m sub (a + data_pos fs i)" using Suc.prems(3) i that by simp
    qed
  qed
qed

subsection \<open>Reading one value\<close>

lemma store_gives:
  assumes "mapped m p (length bs)"
  obtains m' where "store_bytes m p bs = Some m'" and "writes_in (span p (length bs)) m m'"
    and "load_bytes m' p (length bs) = Some bs"
  using assms store_bytes_defined [of m p bs] store_bytes_writes load_store_same by blast

lemma store_bytes_Nil [simp]: "store_bytes m a [] = Some m"
  by (cases m) (auto simp: store_bytes_Some_iff mapped.simps fun_eq_iff)

context byte_source
begin

text \<open>What the recursive call does on a submessage.\<close>

definition rebuilds :: "nat \<Rightarrow> 'st msg_decoder \<Rightarrow> bool" where
  "rebuilds n dec \<longleftrightarrow>
     (\<forall>ms a fs sz bs s m p. plain n fs sz \<longrightarrow> spec_msg n ms fs a = Some bs \<longrightarrow> length bs < 2 ^ 32 \<longrightarrow>
        on_source s \<longrightarrow> input s = bs \<longrightarrow> mapped m p sz \<longrightarrow> 0 < p \<longrightarrow> blank n m fs p \<longrightarrow>
        (\<exists>m'. dec s m fs p = Some (True, advance s (length bs), m') \<and> writes_in (span p sz) m m' \<and>
           spec_msg n m' fs p = Some bs))"

definition item_read :: "nat \<Rightarrow> 'st decoder \<Rightarrow> pb_field \<Rightarrow> 'st pb_istream \<Rightarrow> mem \<Rightarrow> addr \<Rightarrow> byte list \<Rightarrow> bool" where
  "item_read n func f s m p x \<longleftrightarrow>
     (\<exists>m'. func s m f p = Some (True, advance s (length x), m') \<and>
        writes_in (span p (unat (data_size f))) m m' \<and> spec_item m' (spec_msg n m') f p = Some x)"

lemma item_readI:
  "func s m f p = Some (True, advance s (length x), m') \<Longrightarrow>
     writes_in (span p (unat (data_size f))) m m' \<Longrightarrow> spec_item m' (spec_msg n m') f p = Some x \<Longrightarrow>
     item_read n func f s m p x"
  by (auto simp: item_read_def)

lemma read_into_gives:
  assumes "on_source s" and "input s = bs @ tail" and "length bs = unat count" and "mapped m p (length bs)"
  obtains m' where "read_into s m p count = Some (True, advance s (length bs), m')"
    and "writes_in (span p (length bs)) m m'" and "load_bytes m' p (length bs) = Some bs"
proof -
  have "read_bytes s count = Some (Some bs, advance s (length bs))"
    using consumesD [OF consumes_read [OF assms(3)] assms(1,2)] .
  then have "pb_read s True count = Some (True, bs, advance s (length bs))"
    by (auto simp: read_bytes_def bind_eq_Some_conv split: if_splits)
  with store_gives [OF assms(4)] that show thesis by (fastforce simp: read_into_def)
qed

lemma bool_read:
  assumes lt: "PB_LTYPE (ftype f) = 0" "data_size f = 1" and item: "spec_item ms R f a = Some x"
    and s: "on_source s" "input s = x @ tail" and m: "mapped m p (unat (data_size f))"
  shows "item_read n pb_dec_bool f s m p x"
proof -
  obtain v where x: "x = spec_varint (if v then 1 else 0)"
    using item lt by (auto simp: spec_item_def)
  have rd: "pb_decode_varint32 s = Some (Some (if v then 1 else 0), advance s (length x))"
    using consumesD [OF consumes_spec_varint32 [of "if v then 1 else 0"], of s tail] s x by (simp split: if_splits)
  obtain m' where m': "store_bytes m p [if v then 1 else 0] = Some m'"
    "writes_in (span p 1) m m'" "load_bytes m' p 1 = Some [if v then 1 else 0]"
    using store_gives [of m p "[if v then 1 else 0]"] m lt by auto
  show ?thesis
    by (rule item_readI [where m' = m'])
      (use rd m' lt x in \<open>auto simp: pb_dec_bool_def pb_decode_bool_def store_bool_def spec_item_def
        safe_read_bool_def split: if_splits\<close>)
qed

lemma store_int_gives:
  assumes "mapped m p (unat sz)"
  obtains m' where "store_int m p sz v = Some m'" and "writes_in (span p (unat sz)) m m'"
  using store_gives [of m p "le_bytes (unat sz) v"] assms by (auto simp: store_int_def)

lemma varint_read:
  assumes lt: "PB_LTYPE (ftype f) = 1" "int_size (data_size f)" and item: "spec_item ms R f a = Some x"
    and s: "on_source s" "input s = x @ tail" and m: "mapped m p (unat (data_size f))"
  shows "item_read n pb_dec_varint f s m p x"
proof -
  obtain v where x: "x = spec_varint (unat v)" and v: "load_sx ms a (data_size f) = Some v"
    using item lt by (auto simp: spec_item_def)
  note nar = load_sx_narrow [OF v lt(2)]
  have rd: "pb_decode_varint s = Some (Some v, advance s (length x))"
    using consumesD [OF consumes_spec_varint] s x by simp
  obtain m' where m': "store_int m p (data_size f) v = Some m'" "writes_in (span p (unat (data_size f))) m m'"
    using store_int_gives [OF m] .
  show ?thesis
    by (rule item_readI [where m' = m', OF _ m'(2)])
      (use rd m' lt x nar load_sx_store [OF m'(1) lt(2) nar(1)] in \<open>simp_all add: pb_dec_varint_def spec_item_def\<close>)
qed

lemma uvarint_read:
  assumes lt: "PB_LTYPE (ftype f) = 2" "int_size (data_size f)" and item: "spec_item ms R f a = Some x"
    and s: "on_source s" "input s = x @ tail" and m: "mapped m p (unat (data_size f))"
  shows "item_read n pb_dec_uvarint f s m p x"
proof -
  obtain v where x: "x = spec_varint (unat v)" and v: "load_zx ms a (data_size f) = Some v"
    using item lt by (auto simp: spec_item_def)
  note nar = load_zx_narrow [OF v lt(2)]
  have rd: "pb_decode_varint s = Some (Some v, advance s (length x))"
    using consumesD [OF consumes_spec_varint] s x by simp
  obtain m' where m': "store_int m p (data_size f) v = Some m'" "writes_in (span p (unat (data_size f))) m m'"
    using store_int_gives [OF m] .
  show ?thesis
    by (rule item_readI [where m' = m', OF _ m'(2)])
      (use rd m' lt x nar load_zx_store [OF m'(1) lt(2) nar] in \<open>simp_all add: pb_dec_uvarint_def spec_item_def\<close>)
qed

lemma svarint_read:
  assumes lt: "PB_LTYPE (ftype f) = 3" "int_size (data_size f)" and item: "spec_item ms R f a = Some x"
    and s: "on_source s" "input s = x @ tail" and m: "mapped m p (unat (data_size f))"
  shows "item_read n pb_dec_svarint f s m p x"
proof -
  obtain v where x: "x = spec_varint (zigzag_nat (sint v))" and v: "load_sx ms a (data_size f) = Some v"
    using item lt by (auto simp: spec_item_def)
  note nar = load_sx_narrow [OF v lt(2)]
  have rd: "pb_decode_svarint s = Some (Some v, advance s (length x))"
    using consumesD [OF consumes_svarint] s x by simp
  obtain m' where m': "store_int m p (data_size f) v = Some m'" "writes_in (span p (unat (data_size f))) m m'"
    using store_int_gives [OF m] .
  show ?thesis
    by (rule item_readI [where m' = m', OF _ m'(2)])
      (use rd m' lt x nar load_sx_store [OF m'(1) lt(2) nar(1)] in \<open>simp_all add: pb_dec_svarint_def spec_item_def\<close>)
qed

lemma fixed32_read:
  assumes lt: "PB_LTYPE (ftype f) = 4" "data_size f = 4" and item: "spec_item ms R f a = Some x"
    and s: "on_source s" "input s = x @ tail" and m: "mapped m p (unat (data_size f))"
  shows "item_read n pb_dec_fixed32 f s m p x"
proof -
  have len: "length x = 4" and x: "le_bytes 4 (le_word x :: u32) = x"
    using item lt load_bytes_length [of ms a 4 x] le_bytes_le_word [of x, where ?'a = 32]
    by (auto simp: spec_item_def)
  have rd: "pb_decode_fixed32 s = Some (Some (le_word x), advance s (length x))"
    using consumesD [OF consumes_fixed32 [of "le_word x"], of s tail] s x len by simp
  obtain m' where m': "store_bytes m p x = Some m'" "writes_in (span p 4) m m'" "load_bytes m' p 4 = Some x"
    using store_gives [of m p x] m lt len by auto
  show ?thesis
    by (rule item_readI [where m' = m'])
      (use rd m' lt x in \<open>simp_all add: pb_dec_fixed32_def spec_item_def store_u32_def\<close>)
qed

lemma fixed64_read:
  assumes lt: "PB_LTYPE (ftype f) = 5" "data_size f = 8" and item: "spec_item ms R f a = Some x"
    and s: "on_source s" "input s = x @ tail" and m: "mapped m p (unat (data_size f))"
  shows "item_read n pb_dec_fixed64 f s m p x"
proof -
  have len: "length x = 8" and x: "le_bytes 8 (le_word x :: u64) = x"
    using item lt load_bytes_length [of ms a 8 x] le_bytes_le_word [of x, where ?'a = 64]
    by (auto simp: spec_item_def)
  have rd: "pb_decode_fixed64 s = Some (Some (le_word x), advance s (length x))"
    using consumesD [OF consumes_fixed64 [of "le_word x"], of s tail] s x len by simp
  obtain m' where m': "store_bytes m p x = Some m'" "writes_in (span p 8) m m'" "load_bytes m' p 8 = Some x"
    using store_gives [of m p x] m lt len by auto
  show ?thesis
    by (rule item_readI [where m' = m'])
      (use rd m' lt x in \<open>simp_all add: pb_dec_fixed64_def spec_item_def\<close>)
qed

lemma fixed_length_read:
  assumes lt: "PB_LTYPE (ftype f) = 10" and item: "spec_item ms R f a = Some x"
    and s: "on_source s" "input s = x @ tail" and m: "mapped m p (unat (data_size f))"
  shows "item_read n pb_dec_fixed_length_bytes f s m p x"
proof -
  let ?sz = "data_size f"
  obtain y where y: "load_bytes ms a (unat ?sz) = Some y" and x: "x = spec_varint (length y) @ y"
    using item lt by (auto simp: spec_item_def spec_delimited_def)
  have len: "length y = unat ?sz" by (rule load_bytes_length [OF y])
  have inp: "input s = spec_varint (length y) @ y @ tail" using s x by simp
  let ?s1 = "advance s (length (spec_varint (length y)))"
  have rd: "pb_decode_varint32 s = Some (Some ?sz, ?s1)"
    using consumesD [OF consumes_spec_varint32 s(1) inp] len unat_32 [of ?sz] by simp
  note adv = advance_source [OF s(1) inp]
  have le: "\<not> PB_SIZE_MAX < ?sz" by (simp add: not_less)
  show ?thesis
  proof (cases "?sz = 0")
    case True
    then show ?thesis
      by (intro item_readI [where m' = m])
        (use rd lt x len in \<open>simp_all add: pb_dec_fixed_length_bytes_def spec_item_def spec_delimited_def
          c_memset0_def load_bytes.simps\<close>)
  next
    case False
    have "length y = unat (ucast ?sz :: size_t)" using len unat_32 [of ?sz] by (simp add: unat_ucast_mod)
    moreover have "mapped m p (length y)" using m len by simp
    ultimately obtain m' where m': "read_into ?s1 m p (ucast ?sz) = Some (True, advance ?s1 (length y), m')"
      "writes_in (span p (length y)) m m'" "load_bytes m' p (length y) = Some y"
      using read_into_gives [OF adv(1,2)] by blast
    show ?thesis
      by (rule item_readI [where m' = m'])
        (use rd m' lt x len False le in \<open>simp_all add: pb_dec_fixed_length_bytes_def spec_item_def
          spec_delimited_def advance_add\<close>)
  qed
qed

lemma submessage_read:
  assumes lt: "PB_LTYPE (ftype f) = 8" "plain_item (plain n) f" "PB_HTYPE (ftype f) \<noteq> PB_HTYPE_REPEATED"
    and item: "spec_item ms (spec_msg n ms) f a = Some x" and R: "rebuilds n dec_noinit"
    and s: "on_source s" "input s = x @ tail" "length x < 2 ^ 32"
    and m: "mapped m p (unat (data_size f))" "0 < p" and b: "\<And>sub. ptr f = PFields sub \<Longrightarrow> blank n m sub p"
  shows "item_read n (pb_dec_submessage dec dec_noinit) f s m p x"
proof -
  obtain fs where fs: "ptr f = PFields fs" "plain n fs (unat (data_size f))"
    using lt by (auto simp: plain_item_def split: field_ptr.splits)
  obtain y where y: "spec_msg n ms fs a = Some y" and x: "x = spec_varint (length y) @ y"
    using item lt fs by (auto simp: spec_item_def spec_delimited_def)
  have len: "length y < 2 ^ 32" using s(3) x by simp
  have inp: "input s = spec_varint (length y) @ y @ tail" using s x by simp
  obtain sub s1 where mk: "pb_make_string_substream s = Some (Some sub, s1)" "on_source sub" "input sub = y"
    by (rule make_substream_gives [OF len s(1) inp])
  obtain m' where m': "dec_noinit sub m fs p = Some (True, advance sub (length y), m')"
    "writes_in (span p (unat (data_size f))) m m'" "spec_msg n m' fs p = Some y"
    using R fs y len mk(2,3) m b unfolding rebuilds_def by blast
  have "pb_close_string_substream s1 (advance sub (length y)) = Some (True, advance s (length x))"
    using substream_roundtrip [OF len s(1) inp mk(1)] x by simp
  then show ?thesis
    by (intro item_readI [where m' = m'])
      (use mk m' lt x fs in \<open>simp_all add: pb_dec_submessage_def spec_item_def spec_delimited_def\<close>)
qed

lemma item_decodes:
  assumes f: "plain_item (plain n) f" "PB_HTYPE (ftype f) \<noteq> PB_HTYPE_REPEATED"
    and item: "spec_item ms (spec_msg n ms) f a = Some x" and R: "rebuilds n dec_noinit"
    and s: "on_source s" "input s = x @ tail" "length x < 2 ^ 32"
    and m: "mapped m p (unat (data_size f))" "0 < p" and b: "\<And>sub. ptr f = PFields sub \<Longrightarrow> blank n m sub p"
  shows "\<exists>func. decoder_of al dec dec_noinit f = Some func \<and> item_read n func f s m p x"
proof -
  let ?g = "PB_DECODERS al dec dec_noinit"
  have D: "decoder_of al dec dec_noinit f = Some func"
    if "?g ! unat (PB_LTYPE (ftype f)) = Some func" "unat (PB_LTYPE (ftype f)) < 11" for func
    using that by (simp add: decoder_of_def PB_DECODERS_def dec_call_def fun_eq_iff)
  consider (sub) "PB_LTYPE (ftype f) = 8" | (bool) "PB_LTYPE (ftype f) = 0" "data_size f = 1"
    | (v) "PB_LTYPE (ftype f) = 1" "int_size (data_size f)" | (u) "PB_LTYPE (ftype f) = 2" "int_size (data_size f)"
    | (sv) "PB_LTYPE (ftype f) = 3" "int_size (data_size f)"
    | (f32) "PB_LTYPE (ftype f) = 4" "data_size f = 4" | (f64) "PB_LTYPE (ftype f) = 5" "data_size f = 8"
    | (bytes) "PB_LTYPE (ftype f) = 10"
    using f(1) by (auto simp: plain_item_def Let_def split: if_splits)
  then show ?thesis
  proof cases
    case sub
    have "item_read n (pb_dec_submessage dec dec_noinit) f s m p x"
      by (rule submessage_read [OF sub f item R s m b])
    with sub D show ?thesis by (auto simp: PB_DECODERS_def)
  next
    case bool
    from bool_read [OF this item s(1,2) m(1)] bool D show ?thesis by (auto simp: PB_DECODERS_def)
  next
    case v
    from varint_read [OF this item s(1,2) m(1)] v D show ?thesis by (auto simp: PB_DECODERS_def)
  next
    case u
    from uvarint_read [OF this item s(1,2) m(1)] u D show ?thesis by (auto simp: PB_DECODERS_def)
  next
    case sv
    from svarint_read [OF this item s(1,2) m(1)] sv D show ?thesis by (auto simp: PB_DECODERS_def)
  next
    case f32
    from fixed32_read [OF this item s(1,2) m(1)] f32 D show ?thesis by (auto simp: PB_DECODERS_def)
  next
    case f64
    from fixed64_read [OF this item s(1,2) m(1)] f64 D show ?thesis by (auto simp: PB_DECODERS_def)
  next
    case bytes
    from fixed_length_read [OF this item s(1,2) m(1)] bytes D show ?thesis by (auto simp: PB_DECODERS_def)
  qed
qed

end

subsection \<open>The bitmap of required fields\<close>

definition seen :: "nat \<Rightarrow> u32 list" where
  "seen k = [mask (min k 32), mask (k - 32)]"

lemma seen_table:
  "list_all (\<lambda>k. let w = unat (drop_bit 5 (of_nat k :: u32)); tmp = push_bit (unat ((of_nat k :: u32) AND 31)) 1
     in (of_nat k :: u32) < 64 \<and> (seen k)[w := seen k ! w OR tmp] = seen (Suc k)) [0..<64]"
  by code_simp

lemma required_table: "list_all (\<lambda>k. all_required_seen (seen k) (of_nat k) \<and> (of_nat k :: u32) \<le> 64) [0..<65]"
  by code_simp

lemma seen_step:
  assumes "k < 64"
  shows "(of_nat k :: u32) < 64"
    and "(seen k)[unat (drop_bit 5 (of_nat k :: u32)) :=
      seen k ! unat (drop_bit 5 (of_nat k :: u32)) OR push_bit (unat ((of_nat k :: u32) AND 31)) 1] = seen (Suc k)"
  using seen_table assms by (simp_all add: list_all_iff Let_def del: upt_rec_numeral)

lemma required_seen: "k \<le> 64 \<Longrightarrow> all_required_seen (seen k) (of_nat k) \<and> (of_nat k :: u32) \<le> 64"
  using required_table by (simp add: list_all_iff del: upt_rec_numeral)

lemma required_before_mono: "i \<le> j \<Longrightarrow> required_before fs i \<le> required_before fs j"
  unfolding required_before_def
  by (metis le_add_diff_inverse length_append filter_append take_add le_add1)

text \<open>The variables of \<open>pb_decode_noinit\<close> once the fields before \<open>i\<close> have arrived.\<close>

definition vars_at :: "pb_field list \<Rightarrow> addr \<Rightarrow> nat \<Rightarrow> dec_vars \<Rightarrow> bool" where
  "vars_at fs d i v \<longleftrightarrow> (\<exists>p < n_fields fs. dv_iter v = iter_at fs d p) \<and>
     dv_fields_seen v = seen (required_before fs i) \<and> dv_fixed_count_field v = None"

lemma find_field:
  assumes "plain (Suc n) fs sz" and "p < n_fields fs" and "i < n_fields fs"
  shows "pb_field_iter_find (iter_at fs d p) (tag (fs ! i)) = Some (True, iter_at fs d i)"
proof -
  let ?n = "n_fields fs" and ?tg = "tag (fs ! i)"
  note pl = plainD [OF assms(1)]
  have len: "length fs = Suc ?n" by (rule terminated_nth(3) [OF pl(1)])
  have uniq: "j = i" if "tag (fs ! j) = ?tg" "j < ?n" for j
    using nth_eq_iff_index_eq [OF pl(4), of j i] that assms(3) len by simp
  let ?ls = "filter (\<lambda>l. has_tag ?tg (fs ! ((p + l) mod ?n))) [0..<?n]"
  have ht: "has_tag ?tg (fs ! i)"
    using pl(5) [OF assms(3)]
    by (auto simp: has_tag_def plain_field_def plain_item_def Let_def split: if_splits)
  obtain l0 where "l0 < ?n" "(p + l0) mod ?n = i" using cyclic_cover [OF assms(2,3)] by blast
  with ht have "l0 \<in> set ?ls" by simp
  then obtain l ls where ls: "?ls = l # ls" by (cases ?ls) auto
  then have "l \<in> set ?ls" by simp
  then have "tag (fs ! ((p + l) mod ?n)) = ?tg" by (simp add: has_tag_def)
  then have "(p + l) mod ?n = i" using uniq [of "(p + l) mod ?n"] assms(2) by simp
  with iter_find_at [OF pl(1) assms(2), of d ?tg] ls show ?thesis by simp
qed

lemma mark_step:
  assumes "plain (Suc n) fs sz" and "i < n_fields fs" and "dv_iter v = iter_at fs d i"
    and "dv_fields_seen v = seen (required_before fs i)"
  shows "dv_fields_seen (mark_seen (fs ! i) v) = seen (required_before fs (Suc i))"
    and "dv_iter (mark_seen (fs ! i) v) = iter_at fs d i"
    and "dv_fixed_count_field (mark_seen (fs ! i) v) = dv_fixed_count_field v"
proof -
  note pl = plainD [OF assms(1)]
  have "i < length fs" using terminated_nth(3) [OF pl(1)] assms(2) by simp
  note suc = required_before_Suc [OF this]
  have "required_before fs (Suc i) \<le> required_before fs (n_fields fs)"
    by (rule required_before_mono) (use assms(2) in simp)
  then have "required_before fs (Suc i) \<le> 64" using pl(3) by simp
  then show "dv_fields_seen (mark_seen (fs ! i) v) = seen (required_before fs (Suc i))"
    using suc seen_step [of "required_before fs i"] assms(3,4)
    by (auto simp: mark_seen_def Let_def split: if_splits)
  show "dv_iter (mark_seen (fs ! i) v) = iter_at fs d i"
    "dv_fixed_count_field (mark_seen (fs ! i) v) = dv_fixed_count_field v"
    using assms(3) by (simp_all add: mark_seen_def Let_def)
qed

lemma tagged_cases:
  assumes "spec_tagged f r = Some y"
  obtains wt x where "y = spec_tag wt (tag f) @ x" and "r = Some x" and "wt = wt_of (ucast (wt_code wt))"
    and "spec_field_tag f = Some (spec_tag wt (tag f))"
proof -
  obtain wt x where wt: "wire_type_of (PB_LTYPE (ftype f)) = Some wt" "r = Some x" "y = spec_tag wt (tag f) @ x"
    using assms by (auto simp: spec_tagged_def spec_field_tag_def bind_eq_Some_conv)
  then have "wt \<in> {PB_WT_VARINT, PB_WT_64BIT, PB_WT_STRING, PB_WT_32BIT}"
    by (auto simp: wire_type_of_def split: if_splits)
  then have "wt = wt_of (ucast (wt_code wt))" by auto
  with wt that [of wt x] show thesis by (simp add: spec_field_tag_def)
qed

lemma required_tail:
  "terminated fs \<Longrightarrow> p < n_fields fs \<Longrightarrow> n_fields fs - p \<le> k \<Longrightarrow>
     last_required k (iter_at fs d p) =
       Some (of_nat (required_before fs (n_fields fs - 1)), ftype (fs ! (n_fields fs - 1)), iter_at fs d 0)"
proof (induction k arbitrary: p)
  case 0
  then show ?case by simp
next
  case (Suc k)
  have len: "p < length fs" using terminated_nth(3) [OF Suc.prems(1)] Suc.prems(2) by simp
  show ?case
  proof (cases "Suc p < n_fields fs")
    case True
    then show ?thesis using iter_next_at [OF Suc.prems(1,2), of d] Suc.IH [of "Suc p"] Suc.prems len by simp
  next
    case False
    then have "p = n_fields fs - 1" using Suc.prems(2) by simp
    then show ?thesis using iter_next_at [OF Suc.prems(1,2), of d] False len by simp
  qed
qed

lemma req_count:
  assumes "plain (Suc n) fs sz" and "p < n_fields fs"
  shows "req_field_count (iter_at fs d p) = Some (of_nat (required_before fs (n_fields fs)))"
proof -
  note pl = plainD [OF assms(1)]
  have len: "length fs = Suc (n_fields fs)" by (rule terminated_nth(3) [OF pl(1)])
  have "Suc (n_fields fs - 1) = n_fields fs" using pl(2) by simp
  then have suc: "required_before fs (n_fields fs) = required_before fs (n_fields fs - 1) +
      (if PB_HTYPE (ftype (fs ! (n_fields fs - 1))) = PB_HTYPE_REQUIRED then 1 else 0)"
    using required_before_Suc [of "n_fields fs - 1" fs] len by simp
  have "tag (fs ! 0) \<noteq> 0" using terminated_nth(1) [OF pl(1) pl(2)] .
  moreover have "\<not> (64 :: u32) < of_nat (required_before fs (n_fields fs))"
    using required_seen [OF pl(3)] by (simp add: not_less)
  ultimately show ?thesis
    using required_tail [OF pl(1) assms(2), of "length fs" d] suc len
    by (auto simp: req_field_count_def Let_def add.commute split: if_splits)
qed

subsection \<open>The loop over the fields\<close>

context byte_source
begin

text \<open>The memory once the fields before \<open>i\<close> have arrived: those encode as in the source, the
  others have not been touched.\<close>

definition arrived :: "nat \<Rightarrow> mem \<Rightarrow> pb_field list \<Rightarrow> addr \<Rightarrow> addr \<Rightarrow> nat \<Rightarrow> mem \<Rightarrow> bool" where
  "arrived n ms fs a d i m \<longleftrightarrow>
     (\<forall>j < i. spec_field (Suc n) m (spec_msg n m) (fs ! j) (d + data_pos fs j) =
             spec_field (Suc n) ms (spec_msg n ms) (fs ! j) (a + data_pos fs j)) \<and>
     (\<forall>j < n_fields fs. i \<le> j \<longrightarrow> blank_field (blank n) m (fs ! j) (d + data_pos fs j))"

lemma arrived_step:
  assumes pl: "plain (Suc n) fs sz" and i: "i < n_fields fs" and old: "arrived n ms fs a d i m"
    and w: "writes_in (region (fs ! i) (d + data_pos fs i)) m m'"
    and new: "spec_field (Suc n) m' (spec_msg n m') (fs ! i) (d + data_pos fs i) =
             spec_field (Suc n) ms (spec_msg n ms) (fs ! i) (a + data_pos fs i)"
  shows "arrived n ms fs a d (Suc i) m'"
proof -
  have ag: "agree (region (fs ! j) (d + data_pos fs j)) m m'" if "j < n_fields fs" "j \<noteq> i" for j
    using writes_agree [OF w] region_disjoint [OF pl i that(1)] that(2) by simp
  have agd: "agree (span (d + data_pos fs j) (unat (data_size (fs ! j)))) m m'" if "j < n_fields fs" "j \<noteq> i" for j
    using ag [OF that] by (rule agree_mono) (auto simp: region_eq)
  have "spec_field (Suc n) m' (spec_msg n m') (fs ! j) (d + data_pos fs j) =
      spec_field (Suc n) m (spec_msg n m) (fs ! j) (d + data_pos fs j)" if "j < i" for j
  proof (rule spec_field_frame [OF plainD(5) [OF pl] ag])
    show "j < n_fields fs" "j < n_fields fs" "j \<noteq> i" using that i by simp_all
    then show "spec_msg n m' sub (d + data_pos fs j) = spec_msg n m sub (d + data_pos fs j)"
      if "ptr (fs ! j) = PFields sub" for sub
      using spec_msg_frame [OF sub_plain [OF pl _ that] agd] by simp
  qed
  moreover have "mbytes m' (d + data_pos fs j + size_off (fs ! j)) = Some 0"
    if "j < n_fields fs" "Suc i \<le> j" "PB_HTYPE (ftype (fs ! j)) = PB_HTYPE_OPTIONAL" for j
    using ag [of j] that old by (auto simp: arrived_def agree_def region_eq)
  moreover have "blank n m' sub (d + data_pos fs j)"
    if "j < n_fields fs" "Suc i \<le> j" "ptr (fs ! j) = PFields sub" for j sub
    using blank_frame [OF sub_plain [OF pl that(1,3)] agd] that old by (auto simp: arrived_def)
  ultimately show ?thesis
    using old new by (auto simp: arrived_def less_Suc_eq)
qed

text \<open>A field that is not in the input.\<close>

lemma absent_step:
  assumes pl: "plain (Suc n) fs sz" and i: "i < n_fields fs" and old: "arrived n ms fs a d i m"
    and x: "spec_field (Suc n) ms (spec_msg n ms) (fs ! i) (a + data_pos fs i) = Some []"
  shows "arrived n ms fs a d (Suc i) m" and "required_before fs (Suc i) = required_before fs i"
proof -
  note f = plainD(5) [OF pl i]
  have tagged: "spec_tagged (fs ! i) r \<noteq> Some []" for r
    by (auto simp: spec_tagged_def spec_field_tag_def spec_tag_def bind_eq_Some_conv)
  have opt: "PB_HTYPE (ftype (fs ! i)) = PB_HTYPE_OPTIONAL"
    using x f tagged by (auto simp: spec_field_plain [OF f] plain_field_def split: if_splits)
  then have "safe_read_bool m (d + data_pos fs i + size_off (fs ! i)) = Some False"
    using old i by (simp add: arrived_def safe_read_bool_def load_bytes.simps)
  then have "spec_field (Suc n) m (spec_msg n m) (fs ! i) (d + data_pos fs i) = Some []"
    using opt by (simp add: spec_field_plain [OF f])
  then show "arrived n ms fs a d (Suc i) m" using arrived_step [OF pl i old writes_in_refl] x by simp
  have "i < length fs" using terminated_nth(3) [OF plainD(1) [OF pl]] i by simp
  then show "required_before fs (Suc i) = required_before fs i" using opt by (simp add: required_before_Suc)
qed

text \<open>A field that is: after its tag, \<open>decode_known\<close> reads it into its place.\<close>

lemma present_step:
  assumes pl: "plain (Suc n) fs sz" and i: "i < n_fields fs" and old: "arrived n ms fs a d i m"
    and R: "rebuilds n dec_noinit" and m: "mapped m d sz" "0 < d"
    and y: "spec_field (Suc n) ms (spec_msg n ms) (fs ! i) (a + data_pos fs i) = Some y"
      "spec_field_tag (fs ! i) = Some t" "y = t @ x" "t \<noteq> []"
      "spec_item ms (spec_msg n ms) (fs ! i) (a + data_pos fs i) = Some x"
    and s: "on_source s" "input s = x @ tail" "length x < 2 ^ 32"
    and v: "dv_iter v = iter_at fs d i"
  shows "\<exists>m'. decode_known N env (decoder_of al dec dec_noinit) s m wt v =
      Some (True, advance s (length x), m', mark_seen (fs ! i) v) \<and>
    writes_in (region (fs ! i) (d + data_pos fs i)) m m' \<and> arrived n ms fs a d (Suc i) m'"
proof -
  let ?f = "fs ! i" and ?p = "d + data_pos fs i"
  note f = plainD(5) [OF pl i]
  have len: "i < length fs" using terminated_nth(3) [OF plainD(1) [OF pl]] i by simp
  have item: "plain_item (plain n) ?f" and nrep: "PB_HTYPE (ftype ?f) \<noteq> PB_HTYPE_REPEATED"
    and none: "PB_HTYPE (ftype ?f) \<noteq> PB_HTYPE_ONEOF" and stat: "PB_ATYPE (ftype ?f) = PB_ATYPE_STATIC"
    using f by (auto simp: plain_field_def)
  have pos: "0 < ?p" using data_in [OF pl i] m(2) by simp
  have sub: "span ?p (unat (data_size ?f)) \<subseteq> region ?f ?p" by (auto simp: region_eq)
  have reg: "region ?f ?p \<subseteq> span d sz" by (rule region_in [OF pl i])
  have map_iff: "mapped m' q k \<longleftrightarrow> (\<forall>x \<in> span q k. mbytes m' x \<noteq> None)" for m' q k
    by (auto simp: mapped_iff span_def)
  obtain m1 where m1: "(if PB_HTYPE (ftype ?f) = PB_HTYPE_OPTIONAL
        then write_has m (At (d + size_pos fs i)) True else Some m) = Some m1"
      "writes_in (region ?f ?p - span ?p (unat (data_size ?f))) m m1"
      "PB_HTYPE (ftype ?f) = PB_HTYPE_OPTIONAL \<Longrightarrow> mbytes m1 (?p + size_off ?f) = Some 1"
  proof (cases "PB_HTYPE (ftype ?f) = PB_HTYPE_OPTIONAL")
    case True
    have "mapped m (?p + size_off ?f) (length [1 :: byte])"
      using m(1) reg True by (auto simp: map_iff region_eq span_def)
    then obtain m1 where st: "store_bytes m (?p + size_off ?f) [1] = Some m1"
      "writes_in (span (?p + size_off ?f) 1) m m1" "load_bytes m1 (?p + size_off ?f) 1 = Some [1]"
      using store_gives [of m "?p + size_off ?f" "[1]"] by auto
    have "apart (0, unat (data_size ?f)) (size_off ?f, 1)" using f True by (simp add: plain_field_def)
    then have "span (?p + size_off ?f) 1 \<subseteq> region ?f ?p - span ?p (unat (data_size ?f))"
      using True by (auto simp: region_eq span_def apart_def)
    then have "writes_in (region ?f ?p - span ?p (unat (data_size ?f))) m m1" by (rule writes_in_mono [OF st(2)])
    moreover have "mbytes m1 (?p + size_off ?f) = Some 1"
      using load_bytes_nth [OF st(3), of 0] by simp
    moreover have "write_has m (At (d + size_pos fs i)) True = Some m1"
      using st(1) plain_size_pos [OF pl i] by (simp add: write_has_def store_bool_def add.assoc)
    ultimately show thesis using that [of m1] True by simp
  next
    case False
    then show thesis using that [of m] by simp
  qed
  have mp: "mapped m1 ?p (unat (data_size ?f))"
    using m(1) sub reg writes_in_mapped [OF m1(2)] by (auto simp: map_iff)
  have b: "blank n m1 q ?p" if "ptr ?f = PFields q" for q
  proof (rule blank_frame [OF sub_plain [OF pl i that]])
    show "agree (span ?p (unat (data_size ?f))) m m1" by (rule writes_agree [OF m1(2)]) auto
    show "blank n m q ?p" using old i that by (simp add: arrived_def)
  qed
  obtain func where func: "decoder_of al dec dec_noinit ?f = Some func" "item_read n func ?f s m1 ?p x"
    using item_decodes [OF item nrep y(5) R s mp pos b] by blast
  then obtain m' where m': "func s m1 ?f ?p = Some (True, advance s (length x), m')"
    "writes_in (span ?p (unat (data_size ?f))) m1 m'" "spec_item m' (spec_msg n m') ?f ?p = Some x"
    by (auto simp: item_read_def)
  have w: "writes_in (region ?f ?p) m m'"
    using writes_in_trans [OF writes_in_mono [OF m1(2)] writes_in_mono [OF m'(2) sub]] by auto
  have has: "safe_read_bool m' (?p + size_off ?f) = Some True" if "PB_HTYPE (ftype ?f) = PB_HTYPE_OPTIONAL"
  proof -
    have "?p + size_off ?f \<notin> span ?p (unat (data_size ?f))"
      using f that by (auto simp: plain_field_def apart_def span_def)
    then have "mbytes m' (?p + size_off ?f) = Some 1" using m'(2) m1(3) [OF that] by (simp add: writes_in_def)
    then show ?thesis by (simp add: safe_read_bool_def load_bytes.simps)
  qed
  have "spec_field (Suc n) m' (spec_msg n m') ?f ?p = Some y"
    using f pos has m'(3) y(2,3) by (auto simp: spec_field_plain [OF f] plain_field_def spec_tagged_def)
  then have arr: "arrived n ms fs a d (Suc i) m'" using arrived_step [OF pl i old w] y(1) by simp
  have it: "dv_iter (mark_seen ?f v) = iter_at fs d i" using v by (simp add: mark_seen_def Let_def)
  have track: "track_fixed_count ?f v = Some (Some v)" using nrep by (simp add: track_fixed_count_def Let_def)
  have ne: "PB_HTYPE (ftype ?f) = PB_HTYPE_OPTIONAL \<Longrightarrow> size_pos fs i \<noteq> data_pos fs i"
    using plain_size_pos [OF pl i] f
    by (auto simp: plain_field_def size_off_def signed_eq_0_iff)
  have field: "decode_field N env (decoder_of al dec dec_noinit) s m wt (iter_at fs d i) =
      Some (True, advance s (length x), m', iter_at fs d i)"
    using len none stat func(1) m'(1) m1(1) ne f
    by (auto simp: decode_field_def decode_static_field_def with_iter_def plain_field_def split: if_splits)
  have "sync_count (mark_seen ?f v) (iter_at fs d i) = mark_seen ?f v"
    using it by (cases "mark_seen ?f v") (simp add: sync_count_def)
  then have "decode_known N env (decoder_of al dec dec_noinit) s m wt v =
      Some (True, advance s (length x), m', mark_seen ?f v)"
    using v len track it field by (simp add: decode_known_def)
  with w arr show ?thesis by blast
qed

lemma loop_rebuilds:
  assumes pl: "plain (Suc n) fs sz" and R: "rebuilds n dec_noinit" and d: "0 < d"
  shows "i \<le> n_fields fs \<Longrightarrow>
     spec_fields (spec_field (Suc n) ms (spec_msg n ms)) fs a [i..<n_fields fs] = Some bs \<Longrightarrow>
     length bs < 2 ^ 32 \<Longrightarrow> on_source s \<Longrightarrow> input s = bs \<Longrightarrow> mapped m d sz \<Longrightarrow>
     arrived n ms fs a d i m \<Longrightarrow> vars_at fs d i v \<Longrightarrow> unat (is_bytes_left s) < k \<Longrightarrow>
     \<exists>m' v'. noinit_loop k N env (decoder_of al dec dec_noinit) s m v =
         Some (True, advance s (length bs), m', v') \<and>
       writes_in (span d sz) m m' \<and> arrived n ms fs a d (n_fields fs) m' \<and> vars_at fs d (n_fields fs) v'"
proof (induction "n_fields fs - i" arbitrary: i bs s m v k)
  case 0
  then have "i = n_fields fs" "bs = []" by simp_all
  moreover from 0 obtain k' where "k = Suc k'" by (cases k) auto
  moreover have "is_bytes_left s = 0"
    using length_input [OF 0(5)] 0(6) \<open>bs = []\<close> by (simp add: unat_eq_0)
  ultimately show ?case using 0 by (auto simp: noinit_loop.simps)
next
  case (Suc g)
  then have i: "i < n_fields fs" by simp
  let ?f = "fs ! i" and ?D = "decoder_of al dec dec_noinit"
  note f = plainD(5) [OF pl i]
  obtain y zs where y: "spec_field (Suc n) ms (spec_msg n ms) ?f (a + data_pos fs i) = Some y"
    and zs: "spec_fields (spec_field (Suc n) ms (spec_msg n ms)) fs a [Suc i..<n_fields fs] = Some zs"
    and bs: "bs = y @ zs"
    using Suc.prems(2) i by (auto simp: upt_conv_Cons bind_eq_Some_conv)
  have g: "g = n_fields fs - Suc i" using Suc.hyps(2) by simp
  have vs: "dv_fields_seen v = seen (required_before fs i)" "dv_fixed_count_field v = None"
    using Suc.prems(8) by (simp_all add: vars_at_def)
  obtain p where p: "p < n_fields fs" "dv_iter v = iter_at fs d p"
    using Suc.prems(8) by (auto simp: vars_at_def)
  show ?case
  proof (cases "y = []")
    case True
    have ar: "arrived n ms fs a d (Suc i) m" and rq: "required_before fs (Suc i) = required_before fs i"
      using absent_step [OF pl i Suc.prems(7)] y True by auto
    have "vars_at fs d (Suc i) v" using Suc.prems(8) rq by (simp add: vars_at_def)
    with Suc.hyps(1) [OF g _ zs _ Suc.prems(4) _ Suc.prems(6) ar _ Suc.prems(9)] i bs True Suc.prems(3,5)
    show ?thesis by simp
  next
    case False
    have tagged: "spec_tagged ?f (spec_item ms (spec_msg n ms) ?f (a + data_pos fs i)) = Some y"
      using y False by (auto simp: spec_field_plain [OF f] bind_eq_Some_conv split: if_splits)
    obtain wt x where yx: "y = spec_tag wt (tag ?f) @ x"
      "spec_item ms (spec_msg n ms) ?f (a + data_pos fs i) = Some x" "wt = wt_of (ucast (wt_code wt))"
      "spec_field_tag ?f = Some (spec_tag wt (tag ?f))"
      by (rule tagged_cases [OF tagged])
    let ?t = "spec_tag wt (tag ?f)" and ?v1 = "v\<lparr>dv_iter := iter_at fs d i\<rparr>"
    have inp: "input s = ?t @ x @ zs" using Suc.prems(5) bs yx(1) by simp
    note adv = advance_source [OF Suc.prems(4) inp]
    have t: "?t \<noteq> []" by (simp add: spec_tag_def)
    have "tag ?f \<noteq> 0" using terminated_nth(1) [OF plainD(1) [OF pl] i] .
    then have "0 < 8 * unat (tag ?f) + unat (wt_code wt)" by (simp add: unat_gt_0)
    moreover have "unat (tag ?f) < 2 ^ 29" using f by (simp add: plain_field_def)
    ultimately have tg: "pb_decode_tag s = Some ((Some (wt, tag ?f), False), advance s (length ?t))"
      using decode_tag_gives [OF _ _ Suc.prems(4) inp yx(3)] by simp
    have lx: "length x < 2 ^ 32" using Suc.prems(3) bs yx(1) by simp
    let ?s1 = "advance s (length ?t)" and ?s2 = "advance s (length (?t @ x))"
    obtain m1 where m1: "decode_known N env ?D ?s1 m wt ?v1 = Some (True, ?s2, m1, mark_seen ?f ?v1)"
      "writes_in (region ?f (d + data_pos fs i)) m m1" "arrived n ms fs a d (Suc i) m1"
      using present_step [OF pl i Suc.prems(7) R Suc.prems(6) d y yx(4,1) t yx(2) adv(1,2) lx, of ?v1 N env al dec wt]
      by (auto simp: advance_add)
    have w1: "writes_in (span d sz) m m1" using m1(2) region_in [OF pl i] by (rule writes_in_mono)
    have find: "pb_field_iter_find (dv_iter v) (tag ?f) = Some (True, iter_at fs d i)"
      using find_field [OF pl p(1) i] p(2) by simp
    obtain k' where k: "k = Suc k'" using Suc.prems(9) by (cases k) auto
    have inp2: "input s = (?t @ x) @ zs" using inp by simp
    note adv2 = advance_source [OF Suc.prems(4) inp2]
    have nz: "is_bytes_left s \<noteq> 0"
    proof
      assume "is_bytes_left s = 0"
      then have "input s = []" using length_input [OF Suc.prems(4)] by simp
      with inp t show False by simp
    qed
    have step: "noinit_loop k N env ?D s m v = noinit_loop k' N env ?D ?s2 m1 (mark_seen ?f ?v1)"
      using nz tg find m1(1) by (simp add: k noinit_loop.simps(2))
    note mark = mark_step [OF pl i, of ?v1 d]
    have "vars_at fs d (Suc i) (mark_seen ?f ?v1)"
      using mark vs i by (auto simp: vars_at_def)
    moreover have "unat (is_bytes_left ?s2) < k'"
    proof -
      have "0 < length (?t @ x)" using t by simp
      moreover have "length (?t @ x) \<le> unat (is_bytes_left s)" using input_prefix(1) [OF Suc.prems(4) inp2] .
      ultimately show ?thesis using adv2(3) Suc.prems(9) k by linarith
    qed
    moreover have "length zs < 2 ^ 32" using Suc.prems(3) bs by simp
    moreover have "mapped m1 d sz" using Suc.prems(6) writes_in_mapped [OF w1] by simp
    ultimately obtain m' v' where m': "noinit_loop k' N env ?D ?s2 m1 (mark_seen ?f ?v1) =
         Some (True, advance ?s2 (length zs), m', v')"
       "writes_in (span d sz) m1 m'" "arrived n ms fs a d (n_fields fs) m'" "vars_at fs d (n_fields fs) v'"
      using Suc.hyps(1) [OF g _ zs _ adv2(1,2) _ m1(3)] i by force
    have "advance ?s2 (length zs) = advance s (length bs)" using bs yx(1) by (simp add: advance_add add.assoc)
    with m' step writes_in_trans [OF w1 m'(2)] show ?thesis by auto
  qed
qed

lemma noinit_rebuilds: "rebuilds n (pb_decode_noinit n env)"
proof (induction n)
  case 0
  then show ?case by (simp add: rebuilds_def)
next
  case (Suc n)
  show ?case
    unfolding rebuilds_def
  proof (intro allI impI)
    fix ms a fs sz bs m d and s :: "'st pb_istream"
    assume pl: "plain (Suc n) fs sz" and spec: "spec_msg (Suc n) ms fs a = Some bs" and len: "length bs < 2 ^ 32"
      and s: "on_source s" "input s = bs" and m: "mapped m d sz" "0 < d" and bl: "blank (Suc n) m fs d"
    note tm = plainD(1) [OF pl]
    let ?rec = "pb_decode_noinit n env" and ?k = "loop_fuel s"
    let ?D = "decoder_of (env_alloc env) (decode_with n env ?rec) ?rec"
    have fields: "spec_fields (spec_field (Suc n) ms (spec_msg n ms)) fs a [0..<n_fields fs] = Some bs"
      using spec tm by (simp add: spec_msg.simps)
    have ar: "arrived n ms fs a d 0 m" using bl by (simp add: arrived_def)
    have "seen 0 = [0, 0]" by (simp add: seen_def)
    then have va: "vars_at fs d 0 (dec_vars_init (iter_at fs d 0))"
      using plainD(2) [OF pl] by (auto simp: vars_at_def dec_vars_init_def required_before_def)
    have k: "unat (is_bytes_left s) < ?k" by (simp add: loop_fuel_def)
    obtain m' v' where m': "noinit_loop ?k n env ?D s m (dec_vars_init (iter_at fs d 0)) =
         Some (True, advance s (length bs), m', v')"
       "writes_in (span d sz) m m'" "arrived n ms fs a d (n_fields fs) m'" "vars_at fs d (n_fields fs) v'"
      using loop_rebuilds [OF pl Suc m(2) _ fields len s m(1) ar va k] by blast
    obtain p where p: "p < n_fields fs" "dv_iter v' = iter_at fs d p" "dv_fixed_count_field v' = None"
      "dv_fields_seen v' = seen (required_before fs (n_fields fs))"
      using m'(4) by (auto simp: vars_at_def)
    have "pb_decode_noinit (Suc n) env s m fs d = Some (True, advance s (length bs), m')"
      using m'(1) p req_count [OF pl p(1), of d] required_seen [OF plainD(3) [OF pl]]
      by (simp add: noinit_body_def iter_begin_at [OF tm] fixed_count_bad_def)
    moreover have "spec_msg (Suc n) m' fs d = Some bs"
    proof -
      have "spec_fields (spec_field (Suc n) m' (spec_msg n m')) fs d [0..<n_fields fs] =
          spec_fields (spec_field (Suc n) ms (spec_msg n ms)) fs a [0..<n_fields fs]"
        using m'(3) by (intro spec_fields_cong) (simp add: arrived_def)
      with fields tm show ?thesis by (simp add: spec_msg.simps)
    qed
    ultimately show "\<exists>m'. pb_decode_noinit (Suc n) env s m fs d = Some (True, advance s (length bs), m') \<and>
        writes_in (span d sz) m m' \<and> spec_msg (Suc n) m' fs d = Some bs"
      using m'(2) by blast
  qed
qed

end

subsection \<open>Defaults\<close>

lemma message_loop_inv:
  assumes "terminated fs" and "P 0 m"
    and step: "\<And>i m. i < n_fields fs \<Longrightarrow> P i m \<Longrightarrow> \<exists>m'. body (iter_at fs d i) m = Some m' \<and> P (Suc i) m'"
  shows "\<exists>m'. message_loop body fs d m = Some m' \<and> P (n_fields fs) m'"
proof -
  have "\<exists>m'. foldl (\<lambda>r i. Option.bind r (body (iter_at fs d i))) (Some m) [0..<k] = Some m' \<and> P k m'"
    if "k \<le> n_fields fs" for k
    using that
  proof (induction k)
    case 0
    with assms(2) show ?case by simp
  next
    case (Suc k)
    then obtain m' where "foldl (\<lambda>r i. Option.bind r (body (iter_at fs d i))) (Some m) [0..<k] = Some m'" "P k m'"
      by auto
    with step [of k m'] Suc.prems show ?case by auto
  qed
  then show ?thesis
    using fields_loop_at [OF assms(1), of 0 "length fs" body d m] terminated_nth(3) [OF assms(1)] assms(2)
    by (cases "n_fields fs = 0") (auto simp: message_loop_def iter_begin_at [OF assms(1)])
qed

lemma store_span:
  assumes "mapped m p k" and "length bs = k"
  obtains m' where "store_bytes m p bs = Some m'" and "writes_in (span p k) m m'"
  using store_gives [of m p bs] assms by auto

lemma default_field:
  assumes pl: "plain (Suc n) fs sz" and i: "i < n_fields fs" and m: "mapped m d sz"
    and IH: "\<And>sub k m d. plain n sub k \<Longrightarrow> mapped m d k \<Longrightarrow>
      \<exists>m'. pb_message_set_to_defaults n xa sub d m = Some m' \<and> writes_in (span d k) m m' \<and> blank n m' sub d"
  shows "\<exists>m'. pb_field_set_to_default (Suc n) xa (iter_at fs d i) m = Some m' \<and>
    writes_in (region (fs ! i) (d + data_pos fs i)) m m' \<and> blank_field (blank n) m' (fs ! i) (d + data_pos fs i)"
proof -
  let ?f = "fs ! i" and ?p = "d + data_pos fs i"
  let ?S = "span ?p (unat (data_size ?f))"
  note f = plainD(5) [OF pl i]
  have len: "i < length fs" using terminated_nth(3) [OF plainD(1) [OF pl]] i by simp
  have reg: "region ?f ?p \<subseteq> span d sz" by (rule region_in [OF pl i])
  have map_iff: "mapped m' q k \<longleftrightarrow> (\<forall>x \<in> span q k. mbytes m' x \<noteq> None)" for m' q k
    by (auto simp: mapped_iff span_def)
  have ext: "PB_LTYPE (ftype ?f) \<noteq> PB_LTYPE_EXTENSION" and stat: "PB_ATYPE (ftype ?f) = PB_ATYPE_STATIC"
    using f by (auto simp: plain_field_def plain_item_def Let_def split: if_splits)
  have apt: "?p + size_off ?f \<notin> ?S" and ne: "size_pos fs i \<noteq> data_pos fs i"
    if "PB_HTYPE (ftype ?f) = PB_HTYPE_OPTIONAL"
    using f that plain_size_pos [OF pl i]
    by (auto simp: plain_field_def apart_def span_def size_off_def signed_eq_0_iff)
  obtain m1 where m1: "(if PB_HTYPE (ftype ?f) = PB_HTYPE_OPTIONAL
        then write_has m (At (d + size_pos fs i)) False else Some m) = Some m1"
      "writes_in (region ?f ?p) m m1" "PB_HTYPE (ftype ?f) = PB_HTYPE_OPTIONAL \<Longrightarrow> mbytes m1 (?p + size_off ?f) = Some 0"
  proof (cases "PB_HTYPE (ftype ?f) = PB_HTYPE_OPTIONAL")
    case True
    have "mapped m (?p + size_off ?f) (length [0 :: byte])"
      using m reg True by (auto simp: map_iff region_eq span_def)
    then obtain m1 where st: "store_bytes m (?p + size_off ?f) [0] = Some m1"
      "writes_in (span (?p + size_off ?f) 1) m m1" "load_bytes m1 (?p + size_off ?f) 1 = Some [0]"
      using store_gives [of m "?p + size_off ?f" "[0]"] by auto
    have "span (?p + size_off ?f) 1 \<subseteq> region ?f ?p" using True by (auto simp: region_eq span_def)
    then have "writes_in (region ?f ?p) m m1" by (rule writes_in_mono [OF st(2)])
    moreover have "mbytes m1 (?p + size_off ?f) = Some 0" using load_bytes_nth [OF st(3), of 0] by simp
    moreover have "write_has m (At (d + size_pos fs i)) False = Some m1"
      using st(1) plain_size_pos [OF pl i] by (simp add: write_has_def store_bool_def add.assoc)
    ultimately show thesis using that [of m1] True by simp
  next
    case False
    then show thesis using that [of m] by simp
  qed
  have "?S \<subseteq> region ?f ?p" by (auto simp: region_eq)
  have mp: "mapped m1 ?p (unat (data_size ?f))"
    using m reg \<open>?S \<subseteq> region ?f ?p\<close> writes_in_mapped [OF m1(2)] by (auto simp: map_iff)
  have "\<exists>m'. (if PB_LTYPE (ftype ?f) = PB_LTYPE_SUBMESSAGE
       then Option.bind (ptr_fields (ptr ?f)) (\<lambda>flds. message_loop (pb_field_set_to_default n xa) flds ?p m1)
       else (case ptr ?f of PNull \<Rightarrow> c_memset0 m1 ?p (unat (data_size ?f))
               | PDefault v \<Rightarrow> c_memcpy m1 ?p v (unat (data_size ?f)) | PFields _ \<Rightarrow> None)) = Some m' \<and>
     writes_in ?S m1 m' \<and> (\<forall>sub. ptr ?f = PFields sub \<longrightarrow> blank n m' sub ?p)"
  proof (cases "PB_LTYPE (ftype ?f) = PB_LTYPE_SUBMESSAGE")
    case True
    then obtain sub where sub: "ptr ?f = PFields sub"
      using f by (auto simp: plain_field_def plain_item_def split: field_ptr.splits)
    from IH [OF sub_plain [OF pl i sub] mp] True sub show ?thesis
      by (auto simp: pb_message_set_to_defaults_def)
  next
    case False
    obtain m' where z: "store_bytes m1 ?p (replicate (unat (data_size ?f)) 0) = Some m'" "writes_in ?S m1 m'"
      by (rule store_span [OF mp, of "replicate (unat (data_size ?f)) 0"]) simp_all
    show ?thesis
    proof (cases "ptr ?f")
      case PNull
      with z False show ?thesis by (auto simp: c_memset0_def)
    next
      case (PDefault v)
      then have le: "unat (data_size ?f) \<le> length v"
        using f False by (auto simp: plain_field_def plain_item_def Let_def)
      obtain m' where "store_bytes m1 ?p (take (unat (data_size ?f)) v) = Some m'" "writes_in ?S m1 m'"
        by (rule store_span [OF mp, of "take (unat (data_size ?f)) v"]) (use le in simp_all)
      with PDefault False le show ?thesis by (auto simp: c_memcpy_def)
    next
      case (PFields sub)
      then show ?thesis using f False by (auto simp: plain_field_def plain_item_def Let_def)
    qed
  qed
  then obtain m' where m': "(if PB_LTYPE (ftype ?f) = PB_LTYPE_SUBMESSAGE
       then Option.bind (ptr_fields (ptr ?f)) (\<lambda>flds. message_loop (pb_field_set_to_default n xa) flds ?p m1)
       else (case ptr ?f of PNull \<Rightarrow> c_memset0 m1 ?p (unat (data_size ?f))
               | PDefault v \<Rightarrow> c_memcpy m1 ?p v (unat (data_size ?f)) | PFields _ \<Rightarrow> None)) = Some m'"
     "writes_in ?S m1 m'" "\<forall>sub. ptr ?f = PFields sub \<longrightarrow> blank n m' sub ?p"
    by blast
  have set: "pb_field_set_to_default (Suc n) xa (iter_at fs d i) m = Some m'"
    using f ext stat len ne m1(1) m'(1)
    by (auto simp: pb_field_set_to_default.simps(2) Let_def plain_field_def split: if_splits
        cong: field_ptr.case_cong)
  have "writes_in (region ?f ?p) m m'"
    using writes_in_trans [OF m1(2) writes_in_mono [OF m'(2) \<open>?S \<subseteq> region ?f ?p\<close>]] .
  moreover have "mbytes m' (?p + size_off ?f) = Some 0" if "PB_HTYPE (ftype ?f) = PB_HTYPE_OPTIONAL"
    using m'(2) apt [OF that] m1(3) [OF that] by (simp add: writes_in_def)
  ultimately show ?thesis using set m'(3) by auto
qed

lemma defaults_blank:
  "plain n fs sz \<Longrightarrow> mapped m d sz \<Longrightarrow>
     \<exists>m'. pb_message_set_to_defaults n xa fs d m = Some m' \<and> writes_in (span d sz) m m' \<and> blank n m' fs d"
proof (induction n arbitrary: fs sz m d)
  case 0
  then show ?case by simp
next
  case (Suc n)
  note pl = Suc.prems(1)
  let ?P = "\<lambda>i m'. writes_in (span d sz) m m' \<and>
    (\<forall>j < i. j < n_fields fs \<longrightarrow> blank_field (blank n) m' (fs ! j) (d + data_pos fs j))"
  have "\<exists>m2. pb_field_set_to_default (Suc n) xa (iter_at fs d i) m1 = Some m2 \<and> ?P (Suc i) m2"
    if i: "i < n_fields fs" and P: "?P i m1" for i m1
  proof -
    have "mapped m1 d sz" using Suc.prems(2) P writes_in_mapped by auto
    from default_field [OF pl i this Suc.IH]
    obtain m2 where m2: "pb_field_set_to_default (Suc n) xa (iter_at fs d i) m1 = Some m2"
      "writes_in (region (fs ! i) (d + data_pos fs i)) m1 m2" "blank_field (blank n) m2 (fs ! i) (d + data_pos fs i)"
      by blast
    have "blank_field (blank n) m2 (fs ! j) (d + data_pos fs j)" if j: "j < i" for j
    proof -
      have jn: "j < n_fields fs" using j i by simp
      have ag: "agree (region (fs ! j) (d + data_pos fs j)) m1 m2"
        using writes_agree [OF m2(2)] region_disjoint [OF pl i jn] j by simp
      have agd: "agree (span (d + data_pos fs j) (unat (data_size (fs ! j)))) m1 m2"
        using ag by (rule agree_mono) (auto simp: region_eq)
      have old: "blank_field (blank n) m1 (fs ! j) (d + data_pos fs j)" using P j jn by simp
      then have "blank n m2 sub (d + data_pos fs j)" if "ptr (fs ! j) = PFields sub" for sub
        using blank_frame [OF sub_plain [OF pl jn that] agd] that by simp
      then show ?thesis using old ag by (auto simp: agree_def region_eq)
    qed
    moreover have "writes_in (span d sz) m m2"
      using P writes_in_trans writes_in_mono [OF m2(2) region_in [OF pl i]] by blast
    ultimately show ?thesis using m2 by (auto simp: less_Suc_eq simp del: blank_field_def)
  qed
  from message_loop_inv [of fs ?P m "pb_field_set_to_default (Suc n) xa" d, OF plainD(1) [OF pl] _ this]
  show ?case by (auto simp: pb_message_set_to_defaults_def simp del: blank_field_def)
qed

subsection \<open>Properties\<close>

lemma decode_rebuilds:
  fixes env :: "'st dec_env"
  assumes "plain n fs sz" and "spec_msg n m fs src = Some bs" and "length bs < 2 ^ 32"
    and "mapped m' dest sz" and "0 < dest"
  shows "\<exists>m''. pb_decode n env (reader bs) m' fs dest = Some (True, reader [], m'') \<and>
    writes_in (span dest sz) m' m'' \<and> spec_msg n m'' fs dest = Some bs"
proof -
  obtain m1 where m1: "pb_message_set_to_defaults n (env_ext_arg env) fs dest m' = Some m1"
    "writes_in (span dest sz) m' m1" "blank n m1 fs dest"
    using defaults_blank [OF assms(1,4)] by blast
  have rd: "src.on_source (reader bs)" "src.input (reader bs) = bs"
    using src_reader [of bs] assms(3) by simp_all
  have "mapped m1 dest sz" using assms(4) writes_in_mapped [OF m1(2)] by simp
  then obtain m2 where m2: "pb_decode_noinit n env (reader bs) m1 fs dest =
      Some (True, src.advance (reader bs) (length bs), m2)"
    "writes_in (span dest sz) m1 m2" "spec_msg n m2 fs dest = Some bs"
    using src.noinit_rebuilds [of n env] assms rd m1(3) unfolding src.rebuilds_def by blast
  have "pb_decode n env (reader bs) m' fs dest = Some (True, reader [], m2)"
    using m1(1) m2(1) advance_reader [of bs "[]"] by (simp add: pb_decode_def decode_with_def)
  with m2 writes_in_trans [OF m1(2)] show ?thesis by blast
qed

text \<open>C3. Round trip of messages: what \<open>pb_encode\<close> wrote for a struct of a plain type, \<open>pb_decode\<close>
  reads into any other struct of the type, whatever that held before. It succeeds, takes all of
  the input, writes nothing outside the struct, and the struct it leaves has the same wire
  format as the source.\<close>

theorem message_roundtrip:
  fixes env :: "'st dec_env"
  assumes "plain n fs sz" and "spec_msg n m fs src = Some bs" and "length bs < 2 ^ 32"
    and "unat bufsize \<le> length buf"
    and "pb_encode n eenv m (pb_ostream_from_buffer buf bufsize) fs src = Some (True, s)"
    and "mapped m' dest sz" and "0 < dest"
  shows "\<exists>m''. pb_decode n env (reader (written s)) m' fs dest = Some (True, reader [], m'') \<and>
    writes_in (span dest sz) m' m'' \<and> spec_msg n m'' fs dest = Some bs"
  using decode_rebuilds [OF assms(1-3,6,7)] emits_written [OF buf.emits_msg [OF assms(2)] assms(3-5)] by simp

lemma tier_plain: "plain (Suc 0) gdt_cct_QosTierConfiguration_fields 16"
proof -
  let ?fs = "gdt_cct_QosTierConfiguration_fields"
  have pos: "data_pos ?fs 0 = 4" "data_pos ?fs (Suc 0) = 12"
    by (simp_all add: gdt_cct_QosTierConfiguration_fields_eq prev_field_size_def in_union_def type_part_evals)
  have req: "required_before ?fs 2 = 0"
    by (simp add: gdt_cct_QosTierConfiguration_fields_eq required_before_def type_part_evals)
  show ?thesis
    by (simp add: tier_terminated tier_fields pos req upt_rec [of _ 2] del: data_pos.simps)
      (simp add: gdt_cct_QosTierConfiguration_fields_eq plain_field_def plain_item_def type_part_evals
        apart_def field_spans_def has_spans_def size_off_def int_size_def
        gdt_cct_QosTierConfiguration_log_source_default_def enum_bytes_def)
qed

lemma message_roundtrip_witness:
  "\<exists>m''. pb_decode (Suc 0) (no_dec_callbacks (pool_allocator []) :: unit dec_env)
      (reader [0x10, 0x02, 0x18, 0xFA, 0x07]) response_mem gdt_cct_QosTierConfiguration_fields 4096 =
      Some (True, reader [], m'') \<and>
    spec_msg (Suc 0) m'' gdt_cct_QosTierConfiguration_fields 4096 = Some [0x10, 0x02, 0x18, 0xFA, 0x07]"
proof -
  have "mapped response_mem 4096 16" by (simp add: mapped_iff response_mem_bytes)
  obtain s where s: "pb_encode (Suc 0) no_callbacks response_mem (pb_ostream_from_buffer (replicate 8 0) 8)
      gdt_cct_QosTierConfiguration_fields 8192 = Some (True, s)"
    "os_state s = Some ([0x10, 0x02, 0x18, 0xFA, 0x07] @ drop 5 (replicate 8 0), 5)"
    using emits_buffer_exact [OF buf.emits_msg [OF tier_bytes], of 8 "replicate 8 0" no_callbacks] by auto
  have "written s = [0x10, 0x02, 0x18, 0xFA, 0x07]" using s(2) by (simp add: written_def)
  with message_roundtrip [OF tier_plain tier_bytes _ _ s(1) \<open>mapped response_mem 4096 16\<close>,
      of "no_dec_callbacks (pool_allocator []) :: unit dec_env"]
  show ?thesis by auto
qed

end
