(* ===== verification/CoreDiagnostics.thy ===== *)
theory CoreDiagnostics
  imports CctMessages
begin

section \<open>The core-diagnostics message (firebasecore.nanopb.h, firebasecore.nanopb.c)\<close>

text \<open>The one message of FirebaseCoreDiagnostics: its struct and descriptor.\<close>

definition logs_proto_mobilesdk_ios_ICoreConfiguration :: cstruct where
  "logs_proto_mobilesdk_ios_ICoreConfiguration =
     [c_bool ''has_configuration_type'',
      c_enum ''configuration_type'',
      c_u32 ''sdk_service_installed_count'',
      c_ptr ''sdk_service_installed'' 4,
      c_ptr ''device_model'' 8,
      c_ptr ''app_id'' 8,
      c_ptr ''bundle_id'' 8,
      c_bool ''has_pod_name'',
      c_enum ''pod_name'',
      c_ptr ''icore_version'' 8,
      c_ptr ''sdk_version'' 8,
      c_bool ''has_sdk_name'',
      c_enum ''sdk_name'',
      c_bool ''has_app_count'',
      c_int32 ''app_count'',
      c_ptr ''os_version'' 8,
      c_ptr ''min_supported_ios_version'' 8,
      c_bool ''has_use_default_app'',
      c_bool ''use_default_app'',
      c_bool ''has_deployed_in_app_store'',
      c_bool ''deployed_in_app_store'',
      c_bool ''has_dynamic_framework_count'',
      c_int32 ''dynamic_framework_count'',
      c_ptr ''apple_framework_version'' 8,
      c_bool ''has_using_zip_file'',
      c_bool ''using_zip_file'',
      c_bool ''has_deployment_type'',
      c_enum ''deployment_type'',
      c_ptr ''platform_info'' 8,
      c_bool ''has_swizzling_enabled'',
      c_bool ''swizzling_enabled'',
      c_bool ''has_using_gdt'',
      c_bool ''using_gdt'']"

definition logs_proto_mobilesdk_ios_ICoreConfiguration_fields :: "pb_field list" where
  "logs_proto_mobilesdk_ios_ICoreConfiguration_fields =
     [PB_FIELD 1 UENUM OPTIONAL STATIC FIRST logs_proto_mobilesdk_ios_ICoreConfiguration
        ''configuration_type'' ''configuration_type'' PNull,
      PB_FIELD 7 UENUM REPEATED POINTER OTHER logs_proto_mobilesdk_ios_ICoreConfiguration
        ''sdk_service_installed'' ''configuration_type'' PNull,
      PB_FIELD 9 BYTES OPTIONAL POINTER OTHER logs_proto_mobilesdk_ios_ICoreConfiguration
        ''device_model'' ''sdk_service_installed'' PNull,
      PB_FIELD 10 BYTES OPTIONAL POINTER OTHER logs_proto_mobilesdk_ios_ICoreConfiguration
        ''app_id'' ''device_model'' PNull,
      PB_FIELD 12 BYTES OPTIONAL POINTER OTHER logs_proto_mobilesdk_ios_ICoreConfiguration
        ''bundle_id'' ''app_id'' PNull,
      PB_FIELD 16 UENUM OPTIONAL STATIC OTHER logs_proto_mobilesdk_ios_ICoreConfiguration
        ''pod_name'' ''bundle_id'' PNull,
      PB_FIELD 18 BYTES OPTIONAL POINTER OTHER logs_proto_mobilesdk_ios_ICoreConfiguration
        ''icore_version'' ''pod_name'' PNull,
      PB_FIELD 19 BYTES OPTIONAL POINTER OTHER logs_proto_mobilesdk_ios_ICoreConfiguration
        ''sdk_version'' ''icore_version'' PNull,
      PB_FIELD 20 UENUM OPTIONAL STATIC OTHER logs_proto_mobilesdk_ios_ICoreConfiguration
        ''sdk_name'' ''sdk_version'' PNull,
      PB_FIELD 21 INT32 OPTIONAL STATIC OTHER logs_proto_mobilesdk_ios_ICoreConfiguration
        ''app_count'' ''sdk_name'' PNull,
      PB_FIELD 22 BYTES OPTIONAL POINTER OTHER logs_proto_mobilesdk_ios_ICoreConfiguration
        ''os_version'' ''app_count'' PNull,
      PB_FIELD 24 BYTES OPTIONAL POINTER OTHER logs_proto_mobilesdk_ios_ICoreConfiguration
        ''min_supported_ios_version'' ''os_version'' PNull,
      PB_FIELD 25 BOOL OPTIONAL STATIC OTHER logs_proto_mobilesdk_ios_ICoreConfiguration
        ''use_default_app'' ''min_supported_ios_version'' PNull,
      PB_FIELD 26 BOOL OPTIONAL STATIC OTHER logs_proto_mobilesdk_ios_ICoreConfiguration
        ''deployed_in_app_store'' ''use_default_app'' PNull,
      PB_FIELD 27 INT32 OPTIONAL STATIC OTHER logs_proto_mobilesdk_ios_ICoreConfiguration
        ''dynamic_framework_count'' ''deployed_in_app_store'' PNull,
      PB_FIELD 28 BYTES OPTIONAL POINTER OTHER logs_proto_mobilesdk_ios_ICoreConfiguration
        ''apple_framework_version'' ''dynamic_framework_count'' PNull,
      PB_FIELD 29 BOOL OPTIONAL STATIC OTHER logs_proto_mobilesdk_ios_ICoreConfiguration
        ''using_zip_file'' ''apple_framework_version'' PNull,
      PB_FIELD 30 UENUM OPTIONAL STATIC OTHER logs_proto_mobilesdk_ios_ICoreConfiguration
        ''deployment_type'' ''using_zip_file'' PNull,
      PB_FIELD 31 BYTES OPTIONAL POINTER OTHER logs_proto_mobilesdk_ios_ICoreConfiguration
        ''platform_info'' ''deployment_type'' PNull,
      PB_FIELD 33 BOOL OPTIONAL STATIC OTHER logs_proto_mobilesdk_ios_ICoreConfiguration
        ''swizzling_enabled'' ''platform_info'' PNull,
      PB_FIELD 36 BOOL OPTIONAL STATIC OTHER logs_proto_mobilesdk_ios_ICoreConfiguration
        ''using_gdt'' ''swizzling_enabled'' PNull,
      PB_LAST_FIELD]"

definition core_diagnostics_messages :: "(cstruct \<times> pb_field list \<times> string list) list" where
  "core_diagnostics_messages =
    [(logs_proto_mobilesdk_ios_ICoreConfiguration, logs_proto_mobilesdk_ios_ICoreConfiguration_fields,
       [''configuration_type'', ''sdk_service_installed'', ''device_model'', ''app_id'',
        ''bundle_id'', ''pod_name'', ''icore_version'', ''sdk_version'', ''sdk_name'',
        ''app_count'', ''os_version'', ''min_supported_ios_version'', ''use_default_app'',
        ''deployed_in_app_store'', ''dynamic_framework_count'', ''apple_framework_version'',
        ''using_zip_file'', ''deployment_type'', ''platform_info'', ''swizzling_enabled'',
        ''using_gdt''])]"

end
