(* ===== verification/CctTransport.thy ===== *)
theory CctTransport
  imports EncodeProps DecodeMsg CoreDiagnostics
begin

section \<open>Messages and buffers of the log transport (GDTCCTNanopbHelpers.m, FIRCoreDiagnostics.m)\<close>

text \<open>
  The Objective-C functions around nanopb: a message is encoded twice, once to find its size
  and once into a buffer of that size; a response is decoded into a fresh struct; \<open>NSData\<close>
  becomes a heap block with a length, as bytes fields need it. The error logging has no result
  and is left out. \<open>calloc\<close> is the C library's, over the allocator of Memory.

  \<open>FIRCoreDiagnostics.m\<close> has the same two functions for its own message; there the data object
  is cut to the bytes written.
\<close>

subsection \<open>Bytes\<close>

text \<open>\<open>calloc(1, n)\<close>: null, or a block of zeros.\<close>

definition c_calloc :: "allocator \<Rightarrow> mem \<Rightarrow> nat \<Rightarrow> (addr \<times> mem) option" where
  "c_calloc al m n = do {
     (q, m1) \<leftarrow> c_realloc al m 0 n;
     if q = 0 then Some (0, m)
     else do { m2 \<leftarrow> c_memset0 m1 q n; Some (q, m2) }
   }"

text \<open>\<open>data.length\<close> has 64 bits, the \<open>size\<close> member 32.\<close>

definition GDTCCTEncodeData :: "allocator \<Rightarrow> mem \<Rightarrow> byte list \<Rightarrow> (addr \<times> mem) option" where
  "GDTCCTEncodeData al m data = do {
     (pbBytesArray, m1) \<leftarrow> c_calloc al m (unat (PB_BYTES_ARRAY_T_ALLOCSIZE (of_nat (length data))));
     if pbBytesArray = 0 then Some (0, m1)
     else do {
       m2 \<leftarrow> store_bytes m1 (pbBytesArray + 4) data;
       m3 \<leftarrow> store_u32 m2 pbBytesArray (ucast (of_nat (length data) :: size_t));
       Some (pbBytesArray, m3)
     }
   }"

subsection \<open>Encoding in two passes\<close>

text \<open>Both passes, and what is in the data object after the second. Errors are only logged.\<close>

definition encode_two_pass :: "nat \<Rightarrow> obuf enc_env \<Rightarrow> mem \<Rightarrow> pb_field list \<Rightarrow> addr \<Rightarrow>
    (byte list \<times> obuf pb_ostream) option" where
  "encode_two_pass n env m flds src = do {
     (_, sizestream) \<leftarrow> pb_encode n env m PB_OSTREAM_SIZING flds src;
     let bufferSize = os_bytes_written sizestream;
     (_, ostream) \<leftarrow> pb_encode n env m
        (pb_ostream_from_buffer (replicate (unat bufferSize) 0) bufferSize) flds src;
     (data, _) \<leftarrow> os_state ostream;
     Some (data, ostream)
   }"

definition GDTCCTEncodeBatchedLogRequest :: "nat \<Rightarrow> obuf enc_env \<Rightarrow> mem \<Rightarrow> addr \<Rightarrow> byte list option" where
  "GDTCCTEncodeBatchedLogRequest n env m batchedLogRequest = do {
     (data, ostream) \<leftarrow> encode_two_pass n env m gdt_cct_BatchedLogRequest_fields batchedLogRequest;
     Some data
   }"

text \<open>\<open>CFDataSetLength(dataRef, ostream.bytes_written)\<close>; growing would add zeros.\<close>

definition set_length :: "byte list \<Rightarrow> nat \<Rightarrow> byte list" where
  "set_length data n = take n data @ replicate (n - length data) 0"

definition transportBytes :: "nat \<Rightarrow> obuf enc_env \<Rightarrow> mem \<Rightarrow> addr \<Rightarrow> byte list option" where
  "transportBytes n env m config = do {
     (data, ostream) \<leftarrow> encode_two_pass n env m logs_proto_mobilesdk_ios_ICoreConfiguration_fields config;
     Some (set_length data (unat (os_bytes_written ostream)))
   }"

subsection \<open>The response\<close>

text \<open>The response struct is at \<open>response\<close>; \<open>gdt_cct_LogResponse_init_default\<close> is all zeros.
  Returned with the memory: the error of nanopb, when decoding failed.\<close>

definition PB_GET_ERROR :: "'st pb_istream \<Rightarrow> errmsg" where
  "PB_GET_ERROR s = (case is_errmsg s of None \<Rightarrow> ''(none)'' | Some e \<Rightarrow> e)"

definition GDTCCTDecodeLogResponse ::
  "nat \<Rightarrow> 'st dec_env \<Rightarrow> mem \<Rightarrow> addr \<Rightarrow> byte list \<Rightarrow> (mem \<times> errmsg option) option" where
  "GDTCCTDecodeLogResponse n env m response data = do {
     m1 \<leftarrow> c_memset0 m response (struct_size gdt_cct_LogResponse);
     (ok, istream, m2) \<leftarrow> pb_decode n env (pb_istream_from_buffer data (of_nat (length data))) m1
        gdt_cct_LogResponse_fields response;
     if \<not> ok then do {
       m3 \<leftarrow> c_memset0 m2 response (struct_size gdt_cct_LogResponse);
       Some (m3, Some (PB_GET_ERROR istream))
     }
     else Some (m2, None)
   }"

subsection \<open>Properties\<close>

lemma two_pass_exact:
  assumes "spec_msg n m fs src = Some bs" and "length bs < 2 ^ 64"
  obtains ostream where "encode_two_pass n env m fs src = Some (bs, ostream)"
    and "os_bytes_written ostream = of_nat (length bs)"
proof -
  let ?n = "of_nat (length bs) :: size_t"
  have u: "unat ?n = length bs" using assms(2) by (simp add: unat_of_nat)
  have "pb_encode n env m PB_OSTREAM_SIZING fs src = Some (True, PB_OSTREAM_SIZING\<lparr>os_bytes_written := ?n\<rparr>)"
    using buf.emits_sizing [OF buf.emits_msg [OF assms(1)], of PB_OSTREAM_SIZING env] assms(2)
    by (simp add: PB_OSTREAM_SIZING_def)
  moreover obtain s where "pb_encode n env m (pb_ostream_from_buffer (replicate (length bs) 0) ?n) fs src = Some (True, s)"
    "os_state s = Some (bs, length bs)" "os_bytes_written s = ?n"
    using emits_buffer_exact [OF buf.emits_msg [OF assms(1)], of ?n "replicate (length bs) 0" env] u by auto
  ultimately show thesis using u that [of s] by (simp add: encode_two_pass_def Let_def)
qed

text \<open>C6. Functional: the data that the transport uploads for a batch of log requests is exactly the
  wire format of the structs it was given; the size pass and the writing pass agree.\<close>

theorem batched_request_exact:
  assumes "spec_msg n m gdt_cct_BatchedLogRequest_fields req = Some bs" and "length bs < 2 ^ 64"
  shows "GDTCCTEncodeBatchedLogRequest n env m req = Some bs"
proof -
  obtain s where "encode_two_pass n env m gdt_cct_BatchedLogRequest_fields req = Some (bs, s)"
    using two_pass_exact [OF assms] by blast
  then show ?thesis by (simp add: GDTCCTEncodeBatchedLogRequest_def)
qed

text \<open>The same for a diagnostics message.\<close>

lemma transportBytes_exact:
  assumes "spec_msg n m logs_proto_mobilesdk_ios_ICoreConfiguration_fields config = Some bs" and "length bs < 2 ^ 64"
  shows "transportBytes n env m config = Some bs"
proof -
  obtain s where "encode_two_pass n env m logs_proto_mobilesdk_ios_ICoreConfiguration_fields config = Some (bs, s)"
    "os_bytes_written s = of_nat (length bs)"
    using two_pass_exact [OF assms] by blast
  with assms(2) show ?thesis by (simp add: transportBytes_def set_length_def unat_of_nat)
qed

text \<open>A batch at 4096 of one request, at 8192, with one event, at 12288, whose payload is at 16384.\<close>

definition batch_mem :: mem where
  "batch_mem =
     \<lparr>mbytes = (\<lambda>x.
        if 4096 \<le> x \<and> x < 4112 then Some ([1, 0, 0, 0,  0, 0, 0, 0,  0, 0x20, 0, 0, 0, 0, 0, 0] ! nat (x - 4096))
        else if 8272 \<le> x \<and> x < 8296 then
          Some ([1, 0, 0, 0,  0xFA, 3, 0, 0,  1, 0, 0, 0,  0, 0, 0, 0,  0, 0x30, 0, 0, 0, 0, 0, 0] ! nat (x - 8272))
        else if 8192 \<le> x \<and> x < 8336 then Some 0
        else if 12288 \<le> x \<and> x < 12312 then
          Some ([1, 0, 0, 0, 0, 0, 0, 0,  0x88, 0x13, 0, 0, 0, 0, 0, 0,  0, 0x40, 0, 0, 0, 0, 0, 0] ! nat (x - 12288))
        else if 12312 \<le> x \<and> x < 12376 then Some 0
        else if 16384 \<le> x \<and> x < 16391 then Some ([3, 0, 0, 0, 65, 66, 67] ! nat (x - 16384))
        else None),
      mblocks = Map.empty\<rparr>"

lemma source_extension_default:
  "pb_check_proto3_default_value 2 m (PbField 6 150 0 0 8 0 PNull) a = map_option (\<lambda>p. p = 0) (load_ptr m a)"
proof -
  have "2 = Suc (Suc 0)" by simp
  then show ?thesis
    by (simp only: pb_check_proto3_default_value.simps) (simp add: type_part_evals)
qed

lemmas batch_mem_bytes = arg_cong [OF batch_mem_def, of mbytes, THEN fun_cong, simplified mem.simps]

lemmas batch_eval = load_bytes_numeral load_word_def load_u32_def load_ptr_def batch_mem_bytes

lemma event_bytes:
  "spec_msg 2 batch_mem gdt_cct_LogEvent_fields 12288 = Some [0x08, 0x88, 0x27, 0x32, 0x03, 65, 66, 67]"
  unfolding spec_msg_numeral [where fs = gdt_cct_LogEvent_fields]
  by (simp add: spec_step gdt_cct_LogEvent_fields_eq source_extension_default batch_eval spec_delimited_def spec_tag_def spec_varint.simps)

lemma request_bytes:
  "spec_msg 3 batch_mem gdt_cct_LogRequest_fields 8192 =
     Some [0x10, 0xFA, 0x07, 0x1A, 0x08, 0x08, 0x88, 0x27, 0x32, 0x03, 65, 66, 67]"
  unfolding spec_msg_numeral [where fs = gdt_cct_LogRequest_fields]
  by (simp add: spec_step gdt_cct_LogRequest_fields_eq batch_eval event_bytes
      spec_delimited_def spec_tag_def spec_varint.simps)

lemma batch_bytes:
  "spec_msg 4 batch_mem gdt_cct_BatchedLogRequest_fields 4096 =
     Some [0x0A, 0x0D, 0x10, 0xFA, 0x07, 0x1A, 0x08, 0x08, 0x88, 0x27, 0x32, 0x03, 65, 66, 67]"
  unfolding spec_msg_numeral [where fs = gdt_cct_BatchedLogRequest_fields]
  by (simp add: spec_step gdt_cct_BatchedLogRequest_fields_eq batch_eval request_bytes
      spec_delimited_def spec_tag_def spec_varint.simps)

lemma batched_request_exact_witness:
  "GDTCCTEncodeBatchedLogRequest 4 no_callbacks batch_mem 4096 =
     Some [0x0A, 0x0D, 0x10, 0xFA, 0x07, 0x1A, 0x08, 0x08, 0x88, 0x27, 0x32, 0x03, 65, 66, 67]"
  by (rule batched_request_exact [OF batch_bytes]) simp

lemma calloc_block:
  assumes "heap_alloc al" and "c_calloc al m n = Some (q, m')" and "q \<noteq> 0"
  shows "0 < q" and "mapped m' q n"
proof -
  obtain m1 where m1: "c_realloc al m 0 n = Some (q, m1)" "c_memset0 m1 q n = Some m'"
    using assms(2,3) by (auto simp: c_calloc_def bind_eq_Some_conv split: if_splits)
  note blk = heap_alloc.realloc_null_or_block [OF assms(1) m1(1) assms(3)]
  then show "0 < q" by simp
  have "writes_in (span q n) m1 m'"
    using store_bytes_writes [of m1 q "replicate n 0" m'] m1(2) by (simp add: c_memset0_def)
  with blk(3) show "mapped m' q n" using writes_in_mapped by simp
qed



end
