(* ===== verification/B64Props.thy ===== *)
theory B64Props
  imports B64
begin

section \<open>Base64: correctness\<close>

text \<open>
  The specification \<open>rfc_base64\<close> reads three bytes as one 24-bit number and writes its base-64
  digits. The encoder refines it on every input and every size of target; the decoder inverts
  it; on strings that are not base64 the decoder stays inside its objects.
\<close>

subsection \<open>The alphabet\<close>

lemma Base64_eq: "Base64 = [65, 66, 67, 68, 69, 70, 71, 72, 73, 74, 75, 76, 77, 78, 79, 80, 81, 82, 83, 84,
    85, 86, 87, 88, 89, 90, 97, 98, 99, 100, 101, 102, 103, 104, 105, 106, 107, 108, 109, 110, 111,
    112, 113, 114, 115, 116, 117, 118, 119, 120, 121, 122, 48, 49, 50, 51, 52, 53, 54, 55, 56, 57,
    43, 47]"
  by (simp add: Base64_def byte_string_def)

lemma length_Base64 [simp]: "length Base64 = 64"
  by (simp add: Base64_eq)

lemma distinct_Base64: "distinct Base64"
  by (simp add: Base64_eq)

lemma Base64_plain: "list_all (\<lambda>c. c \<noteq> 0 \<and> c \<noteq> Pad64 \<and> \<not> isspace c) Base64"
  by (simp add: Base64_eq Pad64_def isspace_def)

lemma Base64_nth_plain:
  "k < 64 \<Longrightarrow> Base64 ! k \<noteq> 0 \<and> Base64 ! k \<noteq> Pad64 \<and> \<not> isspace (Base64 ! k)"
  using Base64_plain by (simp add: list_all_length)

lemma takeWhile_nth_distinct:
  "distinct xs \<Longrightarrow> k < length xs \<Longrightarrow> length (takeWhile (\<lambda>c. c \<noteq> xs ! k) xs) = k"
proof (induction xs arbitrary: k)
  case (Cons x xs)
  then show ?case by (cases k) auto
qed simp

lemma b64_index_nth: "k < 64 \<Longrightarrow> b64_index (Base64 ! k) = Some (of_nat k)"
  by (simp add: b64_index_def takeWhile_nth_distinct distinct_Base64)

lemma b64_char_nth: "unat d < 64 \<Longrightarrow> b64_char d = Some (Base64 ! unat d)"
  by (simp add: b64_char_def)

subsection \<open>Groups of bits\<close>

lemma and_masks: "(x AND 0x03 :: byte) = take_bit 2 x" "(x AND 0x0f :: byte) = take_bit 4 x"
  "(x AND 0x3f :: byte) = take_bit 6 x"
  by (simp_all add: take_bit_eq_mask mask_eq_exp_minus_1)

lemma byte_bit: "bit (x :: byte) n \<Longrightarrow> n < 8"
  using bit_imp_le_length by fastforce

lemma Suc_Suc_diff: "2 \<le> n \<Longrightarrow> Suc (Suc (n - 2)) = n"
  by simp

lemma sextets_or:
  "sextets a b c = [drop_bit 2 a, push_bit 4 (take_bit 2 a) OR drop_bit 4 b,
     push_bit 2 (take_bit 4 b) OR drop_bit 6 c, take_bit 6 c]"
proof -
  have "push_bit 4 (take_bit 2 a) + drop_bit 4 b = push_bit 4 (take_bit 2 a) OR drop_bit 4 b"
    by (rule disjunctive_add) (auto simp: bit_simps dest: bit_imp_le_length)
  moreover have "push_bit 2 (take_bit 4 b) + drop_bit 6 c = push_bit 2 (take_bit 4 b) OR drop_bit 6 c"
    by (rule disjunctive_add) (auto simp: bit_simps dest: bit_imp_le_length)
  ultimately show ?thesis by (simp only: sextets_def and_masks)
qed

lemma sextets_small: "d \<in> set (sextets a b c) \<Longrightarrow> unat d < 64"
proof -
  have small: "unat d < 64" if "\<forall>n. bit d n \<longrightarrow> n < 6" for d :: byte
  proof -
    have "take_bit 6 d = d" using that by (intro bit_eqI) (auto simp: bit_simps)
    then have "unat d = unat (take_bit 6 d)" by simp
    also have "\<dots> = unat d mod 64" by (simp add: take_bit_eq_mod unat_mod)
    finally show ?thesis by (metis mod_less_divisor zero_less_numeral)
  qed
  show "d \<in> set (sextets a b c) \<Longrightarrow> unat d < 64"
    by (rule small) (auto simp: sextets_or bit_simps; drule byte_bit; simp)
qed

lemma join_sextets:
  "push_bit 2 (sextets a b c ! 0) OR drop_bit 4 (sextets a b c ! 1) = a"
  "push_bit 4 (sextets a b c ! 1 AND 0x0f) OR drop_bit 2 (sextets a b c ! 2) = b"
  "push_bit 6 (sextets a b c ! 2 AND 0x03) OR sextets a b c ! 3 = c"
  unfolding sextets_or and_masks
  by (auto intro!: bit_eqI simp: bit_simps Suc_Suc_diff dest: byte_bit)

subsection \<open>Base-64 digits\<close>

lemma div_mod_at: "r < d \<Longrightarrow> (d * q + r) div d = (q::nat)" "r < d \<Longrightarrow> (d * q + r) mod d = (r::nat)"
  by simp_all

lemma split_div:
  fixes P :: "nat \<Rightarrow> nat \<Rightarrow> nat \<Rightarrow> bool"
  assumes "\<And>q r. P (d * q + r) q r" shows "P n (n div d) (n mod d)"
  using assms [of "n div d" "n mod d"] by simp

lemma digit0: "B < 256 \<Longrightarrow> C < 256 \<Longrightarrow> (A * 65536 + B * 256 + C) div 262144 = A div (4::nat)"
proof -
  assume b: "B < 256" "C < 256"
  have "A * 65536 + B * 256 + C = 262144 * (A div 4) + ((A mod 4) * 65536 + B * 256 + C)"
    using div_mult_mod_eq [of A 4] by linarith
  moreover have "A mod 4 < 4" by simp
  then have "(A mod 4) * 65536 + B * 256 + C < 262144" using b by linarith
  ultimately show ?thesis by (metis div_mod_at(1))
qed

lemma digit1: "B < 256 \<Longrightarrow> C < 256 \<Longrightarrow>
    (A * 65536 + B * 256 + C) div 4096 mod 64 = (A mod 4) * 16 + B div (16::nat)"
proof -
  assume b: "B < 256" "C < 256"
  have "A * 65536 + B * 256 + C = 4096 * (16 * A + B div 16) + ((B mod 16) * 256 + C)"
    by (rule split_div [of _ 16 B]) (simp add: algebra_simps)
  moreover have "B mod 16 < 16" by simp
  then have "(B mod 16) * 256 + C < 4096" using b by linarith
  ultimately have "(A * 65536 + B * 256 + C) div 4096 = 16 * A + B div 16" by (metis div_mod_at(1))
  also have "\<dots> = 64 * (A div 4) + ((A mod 4) * 16 + B div 16)"
    using div_mult_mod_eq [of A 4] by linarith
  finally have e: "(A * 65536 + B * 256 + C) div 4096 = 64 * (A div 4) + ((A mod 4) * 16 + B div 16)" .
  have "A mod 4 < 4" "B div 16 < 16" using b by simp_all
  then have "(A mod 4) * 16 + B div 16 < 64" by linarith
  with e show ?thesis by (metis div_mod_at(2))
qed

lemma digit2: "C < 256 \<Longrightarrow>
    (A * 65536 + B * 256 + C) div 64 mod 64 = (B mod 16) * 4 + C div (64::nat)"
proof -
  assume b: "C < 256"
  have "A * 65536 + B * 256 + C = 64 * (1024 * A + 4 * B + C div 64) + C mod 64"
    by (rule split_div [of _ 64 C]) (simp add: algebra_simps)
  moreover have "C mod 64 < 64" by simp
  ultimately have "(A * 65536 + B * 256 + C) div 64 = 1024 * A + 4 * B + C div 64" by (metis div_mod_at(1))
  also have "\<dots> = 64 * (16 * A + B div 16) + ((B mod 16) * 4 + C div 64)"
    by (rule split_div [of _ 16 B]) (simp add: algebra_simps)
  finally have e: "(A * 65536 + B * 256 + C) div 64 = 64 * (16 * A + B div 16) + ((B mod 16) * 4 + C div 64)" .
  have "B mod 16 < 16" "C div 64 < 4" using b by simp_all
  then have "(B mod 16) * 4 + C div 64 < 64" by linarith
  with e show ?thesis by (metis div_mod_at(2))
qed

lemma digit3: "(A * 65536 + B * 256 + C) mod 64 = C mod (64::nat)"
proof -
  have "A * 65536 + B * 256 + C = 64 * (1024 * A + 4 * B) + C" by (simp add: algebra_simps)
  then show ?thesis by (metis mod_mult_self4)
qed

subsection \<open>RFC 1521\<close>

text \<open>Three bytes as one number of 24 bits, its digits in base 64.\<close>

definition rfc_digits :: "byte \<Rightarrow> byte \<Rightarrow> byte \<Rightarrow> nat list" where
  "rfc_digits a b c =
     (let n = unat a * 2 ^ 16 + unat b * 2 ^ 8 + unat c
      in [n div 2 ^ 18, n div 2 ^ 12 mod 64, n div 2 ^ 6 mod 64, n mod 64])"

definition rfc_group :: "byte \<Rightarrow> byte \<Rightarrow> byte \<Rightarrow> byte list" where
  "rfc_group a b c = map ((!) Base64) (rfc_digits a b c)"

fun rfc_base64 :: "byte list \<Rightarrow> byte list" where
  "rfc_base64 [] = []"
| "rfc_base64 [a] = take 2 (rfc_group a 0 0) @ [Pad64, Pad64]"
| "rfc_base64 [a, b] = take 3 (rfc_group a b 0) @ [Pad64]"
| "rfc_base64 (a # b # c # src) = rfc_group a b c @ rfc_base64 src"

lemma length_rfc_group [simp]: "length (rfc_group a b c) = 4"
  by (simp add: rfc_group_def rfc_digits_def Let_def)

lemma length_rfc_base64: "length (rfc_base64 src) = 4 * ((length src + 2) div 3)"
proof (induction src rule: rfc_base64.induct)
  case (4 a b c src)
  moreover have "(5 + n) div 3 = Suc ((n + 2) div 3)" for n :: nat by presburger
  ultimately show ?case by simp
qed simp_all

lemma byte_shift_sum:
  fixes x y :: byte
  assumes "unat x * 2 ^ k + unat y < 256"
  shows "unat (push_bit k x + y) = unat x * 2 ^ k + unat y"
proof -
  have "x = of_nat (unat x)" "y = of_nat (unat y)" by simp_all
  then have "push_bit k x + y = of_nat (unat x * 2 ^ k + unat y)"
    by (simp add: push_bit_eq_mult)
  then show ?thesis using assms by (simp only: unat_of_nat) simp
qed

lemma unat_sextets_div: "map unat (sextets a b c) =
    [unat a div 4, unat a mod 4 * 16 + unat b div 16, unat b mod 16 * 4 + unat c div 64, unat c mod 64]"
proof -
  have lt: "unat x < 256" for x :: byte using unsigned_less [of x] by simp
  have m: "unat (a AND 0x03) = unat a mod 4" "unat (b AND 0x0f) = unat b mod 16" "unat (c AND 0x3f) = unat c mod 64"
    using unat_and_mask [of a 2] unat_and_mask [of b 4] unat_and_mask [of c 6]
    by (simp_all add: mask_eq_exp_minus_1)
  have d: "unat b div 16 < 16" "unat c div 64 < 4" "unat a mod 4 < 4" "unat b mod 16 < 16"
    using lt [of b] lt [of c] by simp_all
  have "unat (a AND 0x03) * 2 ^ 4 + unat (drop_bit 4 b) < 256"
    unfolding m unat_drop_bit using d by simp
  note s1 = byte_shift_sum [OF this]
  have "unat (b AND 0x0f) * 2 ^ 2 + unat (drop_bit 6 c) < 256"
    unfolding m unat_drop_bit using d by simp
  note s2 = byte_shift_sum [OF this]
  show ?thesis unfolding sextets_def list.map s1 s2 m unat_drop_bit by simp
qed
lemma unat_sextets: "map unat (sextets a b c) = rfc_digits a b c"
proof -
  note lt = unat_8 [of b] unat_8 [of c]
  show ?thesis
    using digit0 [OF lt, of "unat a"] digit1 [OF lt, of "unat a"]
      digit2 [OF lt(2), of "unat a" "unat b"] digit3 [of "unat a" "unat b" "unat c"]
    by (simp add: unat_sextets_div rfc_digits_def Let_def)
qed

lemma length_rfc_digits [simp]: "length (rfc_digits a b c) = 4"
  by (simp add: rfc_digits_def Let_def)

lemma sextet_char:
  assumes "k < 4"
  shows "b64_char (sextets a b c ! k) = Some (rfc_group a b c ! k)"
proof -
  have len: "length (sextets a b c) = 4" by (simp add: sextets_def)
  then have "sextets a b c ! k \<in> set (sextets a b c)" using assms by (metis nth_mem)
  moreover have "map unat (sextets a b c) ! k = rfc_digits a b c ! k" by (simp only: unat_sextets)
  then have "unat (sextets a b c ! k) = rfc_digits a b c ! k"
    using assms len by simp
  moreover from calculation(1) have "unat (sextets a b c ! k) < 64" by (rule sextets_small)
  ultimately show ?thesis using assms by (simp add: b64_char_nth rfc_group_def)
qed

lemma list4: "length xs = 4 \<Longrightarrow> xs = [xs ! 0, xs ! 1, xs ! 2, xs ! 3]"
  by (auto simp: numeral_eq_Suc length_Suc_conv)

subsection \<open>The encoder\<close>

lemma put_chars_at:
  "length pre + length cs \<le> length (pre @ junk) \<Longrightarrow> length (pre @ junk) < 2 ^ 64 \<Longrightarrow>
     put_chars (pre @ junk) (of_nat (length pre)) cs =
     Some (pre @ cs @ drop (length cs) junk, of_nat (length pre + length cs))"
proof (induction cs arbitrary: pre junk)
  case (Cons c cs)
  then obtain x junk' where junk: "junk = x # junk'" by (cases junk) auto
  have u: "unat (of_nat (length pre) :: size_t) = length pre"
    using Cons.prems(2) by (simp add: unat_of_nat)
  show ?case
    using Cons.IH [of "pre @ [c]" junk'] Cons.prems junk u by (simp add: add.commute)
qed simp

text \<open>The rest of the function from \<open>datalength\<close> on.\<close>

definition ntop_from :: "byte list \<Rightarrow> byte list \<Rightarrow> size_t \<Rightarrow> size_t \<Rightarrow> (int \<times> byte list) option" where
  "ntop_from src target dl targsize = do {
     r \<leftarrow> ntop_loop src target dl targsize;
     (case r of
        Inl target1 \<Rightarrow> Some (- 1, target1)
      | Inr (src1, target1, datalength1) \<Rightarrow> do {
          r \<leftarrow> ntop_rest src1 target1 datalength1 targsize;
          (case r of
             Inl target2 \<Rightarrow> Some (- 1, target2)
           | Inr (target2, datalength2) \<Rightarrow>
               if datalength2 \<ge> targsize then Some (- 1, target2)
               else do {
                 target3 \<leftarrow> arr_upd target2 (unat datalength2) 0;
                 Some (sint (ucast datalength2 :: u32), target3)
               })
        })
   }"

lemma ntop_is_from: "f_b64_ntop src target targsize = ntop_from src target 0 targsize"
  by (simp add: f_b64_ntop_def ntop_from_def)

lemma room_iff:
  assumes "n < 2 ^ 62"
  shows "(of_nat n + 4 > (ts :: size_t)) = (n + 4 > unat ts)"
    and "((of_nat n :: size_t) \<ge> ts) = (n \<ge> unat ts)"
proof -
  have "(of_nat n + 4 :: size_t) = of_nat (n + 4)" by simp
  moreover have "unat (of_nat (n + 4) :: size_t) = n + 4" "unat (of_nat n :: size_t) = n"
    using assms by (simp_all only: unat_of_nat) simp_all
  ultimately show "(of_nat n + 4 > ts) = (n + 4 > unat ts)" "((of_nat n :: size_t) \<ge> ts) = (n \<ge> unat ts)"
    by (simp_all only: word_less_nat_alt word_le_nat_alt)
qed

lemma length_result:
  assumes "n < 2 ^ 31"
  shows "sint (ucast (of_nat n :: size_t) :: u32) = int n"
proof -
  have "uint (ucast (of_nat n :: size_t) :: u32) = int n"
    using assms by (simp add: uint_up_ucast unsigned_ucast_eq unsigned_of_nat take_bit_nat_eq_self)
  then show ?thesis
    using assms by (simp add: sint_uint signed_take_bit_int_eq_self)
qed

lemma sextet_chars:
  "b64_char (sextets a b c ! 0) = Some (rfc_group a b c ! 0)"
  "b64_char (sextets a b c ! Suc 0) = Some (rfc_group a b c ! 1)"
  "b64_char (sextets a b c ! 2) = Some (rfc_group a b c ! 2)"
  "b64_char (sextets a b c ! 3) = Some (rfc_group a b c ! 3)"
  by (simp_all add: sextet_char)

lemma rfc_group_nths: "[rfc_group a b c ! 0, rfc_group a b c ! Suc 0, rfc_group a b c ! 2, rfc_group a b c ! 3] = rfc_group a b c"
  using list4 [of "rfc_group a b c"] by simp

lemma take_rfc_group:
  "take 2 (rfc_group a b c) = [rfc_group a b c ! 0, rfc_group a b c ! Suc 0]"
  "take 3 (rfc_group a b c) = [rfc_group a b c ! 0, rfc_group a b c ! Suc 0, rfc_group a b c ! 2]"
  by (simp_all add: rfc_group_def rfc_digits_def Let_def)

text \<open>The last group of a source: its four characters and the zero byte after them.\<close>

lemma ntop_tail:
  fixes ts :: size_t
  assumes cs: "length cs = 4" and fit: "length pre + 4 < unat ts" and ts: "unat ts \<le> length (pre @ junk)"
    and big: "length (pre @ junk) < 2 ^ 62" "length pre + 4 < 2 ^ 31"
  shows "put_chars (pre @ junk) (of_nat (length pre)) cs =
      Some (pre @ cs @ drop 4 junk, of_nat (length pre + 4))"
    and "\<not> (of_nat (length pre) + 4 > ts)"
    and "\<not> (of_nat (length pre + 4) \<ge> ts)"
    and "arr_upd (pre @ cs @ drop 4 junk) (unat (of_nat (length pre + 4) :: size_t)) 0 =
      Some (pre @ cs @ 0 # drop 5 junk)"
proof -
  show "put_chars (pre @ junk) (of_nat (length pre)) cs =
      Some (pre @ cs @ drop 4 junk, of_nat (length pre + 4))"
    using put_chars_at [of pre cs junk] assms by simp
  show "\<not> (of_nat (length pre) + 4 > ts)" "\<not> (of_nat (length pre + 4) \<ge> ts)"
    using room_iff [of "length pre" ts] room_iff [of "length pre + 4" ts] assms by auto
  have u: "unat (of_nat (length pre + 4) :: size_t) = length pre + 4"
    using big by (simp only: unat_of_nat) simp
  obtain x xs where "drop 4 junk = x # xs"
    using fit ts by (cases "drop 4 junk") auto
  moreover from this have "drop 5 junk = xs"
    using drop_drop [of 1 4 junk] by simp
  ultimately show "arr_upd (pre @ cs @ drop 4 junk) (unat (of_nat (length pre + 4) :: size_t)) 0 =
      Some (pre @ cs @ 0 # drop 5 junk)"
    unfolding u using cs by (simp add: list_update_append)
qed

lemma drop_5: "drop 5 xs = drop (Suc (Suc (Suc (Suc (Suc 0))))) xs"
  by (simp add: eval_nat_numeral)

lemma drop_4: "drop 4 xs = drop (Suc (Suc (Suc (Suc 0)))) xs"
  by (simp add: eval_nat_numeral)

lemma ntop_from_fits:
  "length pre + length (rfc_base64 src) < unat ts \<Longrightarrow> unat ts \<le> length (pre @ junk) \<Longrightarrow>
     length (pre @ junk) < 2 ^ 62 \<Longrightarrow> length pre + length (rfc_base64 src) < 2 ^ 31 \<Longrightarrow>
     ntop_from src (pre @ junk) (of_nat (length pre)) ts =
     Some (int (length pre + length (rfc_base64 src)),
       pre @ rfc_base64 src @ 0 # drop (Suc (length (rfc_base64 src))) junk)"
proof (induction src arbitrary: pre junk rule: rfc_base64.induct)
  case 1
  have u: "unat (of_nat (length pre) :: size_t) = length pre"
    using "1.prems"(3) by (simp only: unat_of_nat) simp
  obtain x xs where "junk = x # xs" using "1.prems"(1,2) by (cases junk) auto
  with "1.prems" u room_iff(2) [of "length pre" ts] length_result [of "length pre"]
  show ?case by (simp add: ntop_from_def ntop_rest_def list_update_append)
next
  case (2 a)
  let ?cs = "[rfc_group a 0 0 ! 0, rfc_group a 0 0 ! Suc 0, Pad64, Pad64]"
  have cs: "length ?cs = 4" by simp
  note tail = ntop_tail [OF cs, of pre ts junk]
  show ?case
    using 2 tail length_result [of "length pre + 4"]
    by (simp add: ntop_from_def ntop_rest_def sextet_chars take_rfc_group Let_def drop_5
        del: put_chars.simps of_nat_add)
next
  case (3 a b)
  let ?cs = "[rfc_group a b 0 ! 0, rfc_group a b 0 ! Suc 0, rfc_group a b 0 ! 2, Pad64]"
  have cs: "length ?cs = 4" by simp
  note tail = ntop_tail [OF cs, of pre ts junk]
  show ?case
    using 3 tail length_result [of "length pre + 4"]
    by (simp add: ntop_from_def ntop_rest_def sextet_chars take_rfc_group Let_def drop_5
        del: put_chars.simps of_nat_add)
next
  case (4 a b c src)
  let ?g = "rfc_group a b c"
  have put: "put_chars (pre @ junk) (of_nat (length pre)) ?g =
      Some ((pre @ ?g) @ drop 4 junk, of_nat (length (pre @ ?g)))"
    using put_chars_at [of pre ?g junk] "4.prems" by simp
  have room: "\<not> (of_nat (length pre) + 4 > ts)"
    using room_iff [of "length pre" ts] "4.prems" by simp
  have "ntop_from (a # b # c # src) (pre @ junk) (of_nat (length pre)) ts =
      ntop_from src ((pre @ ?g) @ drop 4 junk) (of_nat (length (pre @ ?g))) ts"
    unfolding ntop_from_def ntop_loop.simps
    using put room by (simp only: sextet_chars One_nat_def rfc_group_nths if_False Option.bind.simps split_conv)
  also have "\<dots> = Some (int (length (pre @ ?g) + length (rfc_base64 src)),
       (pre @ ?g) @ rfc_base64 src @ 0 # drop (Suc (length (rfc_base64 src))) (drop 4 junk))"
    by (rule "4.IH") (use "4.prems" in simp_all)
  finally show ?case by (simp add: add.commute)
qed

text \<open>A target that is too small: -1, and the bytes from \<open>targsize\<close> on are as they were.\<close>

lemma ntop_from_small:
  "unat ts \<le> length pre + length (rfc_base64 src) \<Longrightarrow> length pre \<le> unat ts \<Longrightarrow>
     unat ts \<le> length (pre @ junk) \<Longrightarrow> length (pre @ junk) < 2 ^ 62 \<Longrightarrow>
     \<exists>out. ntop_from src (pre @ junk) (of_nat (length pre)) ts = Some (- 1, pre @ out) \<and>
       length out = length junk \<and> drop (unat ts - length pre) out = drop (unat ts - length pre) junk"
proof (induction src arbitrary: pre junk rule: rfc_base64.induct)
  case 1
  then have "unat ts = length pre" by simp
  moreover have "unat (of_nat (length pre) :: size_t) = length pre"
    using "1.prems"(4) by (simp only: unat_of_nat) simp
  ultimately show ?case
    using room_iff(2) [of "length pre" ts] "1.prems" by (simp add: ntop_from_def ntop_rest_def)
next
  case (2 a)
  let ?cs = "[rfc_group a 0 0 ! 0, rfc_group a 0 0 ! Suc 0, Pad64, Pad64]"
  show ?case
  proof (cases "length pre + 4 > unat ts")
    case True
    with 2 room_iff(1) [of "length pre" ts] show ?thesis
      by (simp add: ntop_from_def ntop_rest_def Let_def)
  next
    case False
    with 2 have ts: "unat ts = length pre + 4" by simp
    have put: "put_chars (pre @ junk) (of_nat (length pre)) ?cs =
        Some (pre @ ?cs @ drop 4 junk, of_nat (length pre + 4))"
      using put_chars_at [of pre ?cs junk] 2 ts by (simp add: drop_4)
    show ?thesis
      using put ts 2 room_iff [of "length pre" ts] room_iff [of "length pre + 4" ts] drop_4 [of junk]
      by (simp add: ntop_from_def ntop_rest_def sextet_chars take_rfc_group Let_def
          del: put_chars.simps of_nat_add)
  qed
next
  case (3 a b)
  let ?cs = "[rfc_group a b 0 ! 0, rfc_group a b 0 ! Suc 0, rfc_group a b 0 ! 2, Pad64]"
  show ?case
  proof (cases "length pre + 4 > unat ts")
    case True
    with 3 room_iff(1) [of "length pre" ts] show ?thesis
      by (simp add: ntop_from_def ntop_rest_def Let_def)
  next
    case False
    with 3 have ts: "unat ts = length pre + 4" by simp
    have put: "put_chars (pre @ junk) (of_nat (length pre)) ?cs =
        Some (pre @ ?cs @ drop 4 junk, of_nat (length pre + 4))"
      using put_chars_at [of pre ?cs junk] 3 ts by (simp add: drop_4)
    show ?thesis
      using put ts 3 room_iff [of "length pre" ts] room_iff [of "length pre + 4" ts] drop_4 [of junk]
      by (simp add: ntop_from_def ntop_rest_def sextet_chars take_rfc_group Let_def
          del: put_chars.simps of_nat_add)
  qed
next
  case (4 a b c src)
  let ?g = "rfc_group a b c"
  show ?case
  proof (cases "length pre + 4 > unat ts")
    case True
    with 4 room_iff(1) [of "length pre" ts] show ?thesis by (simp add: ntop_from_def)
  next
    case False
    have put: "put_chars (pre @ junk) (of_nat (length pre)) ?g =
        Some ((pre @ ?g) @ drop 4 junk, of_nat (length (pre @ ?g)))"
      using put_chars_at [of pre ?g junk] "4.prems" False by simp
    have room: "\<not> (of_nat (length pre) + 4 > ts)"
      using room_iff [of "length pre" ts] "4.prems" False by simp
    have step: "ntop_from (a # b # c # src) (pre @ junk) (of_nat (length pre)) ts =
        ntop_from src ((pre @ ?g) @ drop 4 junk) (of_nat (length (pre @ ?g))) ts"
      unfolding ntop_from_def ntop_loop.simps
      using put room by (simp only: sextet_chars One_nat_def rfc_group_nths if_False Option.bind.simps split_conv)
    have "\<exists>out. ntop_from src ((pre @ ?g) @ drop 4 junk) (of_nat (length (pre @ ?g))) ts = Some (- 1, (pre @ ?g) @ out) \<and>
       length out = length (drop 4 junk) \<and>
       drop (unat ts - length (pre @ ?g)) out = drop (unat ts - length (pre @ ?g)) (drop 4 junk)"
      by (rule "4.IH") (use "4.prems" False in simp_all)
    then obtain out where out: "ntop_from src ((pre @ ?g) @ drop 4 junk) (of_nat (length (pre @ ?g))) ts =
         Some (- 1, (pre @ ?g) @ out)" "length out = length junk - 4"
       "drop (unat ts - (length pre + 4)) out = drop (unat ts - (length pre + 4)) (drop 4 junk)" by auto
    have "drop (unat ts - length pre) (?g @ out) = drop (unat ts - length pre) junk"
      using out(3) False by (simp add: drop_drop)
    with step out(1,2) False "4.prems" show ?thesis by (intro exI [of _ "?g @ out"]) simp
  qed
qed

subsection \<open>The decoder\<close>

lemma put_index:
  assumes "i < 2 ^ 32"
  shows "unat (of_nat i :: u32) = i" and "(ucast (of_nat i :: u32) \<ge> (ts :: size_t)) = (i \<ge> unat ts)"
proof -
  show u: "unat (of_nat i :: u32) = i" using assms by (simp only: unat_of_nat) simp
  have "unat (ucast (of_nat i :: u32) :: size_t) = i"
    using u assms by (simp add: unat_ucast_mod)
  then show "(ucast (of_nat i :: u32) \<ge> ts) = (i \<ge> unat ts)" by (simp add: word_le_nat_alt)
qed

text \<open>The four characters of a group, from a state on a byte boundary.\<close>

abbreviation at_byte :: "byte list \<Rightarrow> nat \<Rightarrow> nat \<Rightarrow> pton_state" where
  "at_byte t i s \<equiv> \<lparr>ps_target = Some t, ps_tarindex = of_nat i, ps_state = s\<rparr>"

lemma pton_put_0:
  "length pre < unat ts \<Longrightarrow> length pre < 2 ^ 31 \<Longrightarrow>
     pton_put ts d (at_byte (pre @ x # js) (length pre) 0) =
     Some (Some (at_byte (pre @ push_bit 2 d # js) (length pre) 1))"
  using put_index(1) [of "length pre"] put_index(2) [of "length pre" ts] by (simp add: pton_put_def list_update_append del: push_bit_eq_mult)

lemma pton_put_1:
  "length pre + 1 < unat ts \<Longrightarrow> length pre < 2 ^ 31 \<Longrightarrow>
     pton_put ts d (at_byte (pre @ x # y # js) (length pre) 1) =
     Some (Some (at_byte (pre @ (x OR drop_bit 4 d) # push_bit 4 (d AND 0x0f) # js) (length pre + 1) 2))"
  using put_index(1) [of "length pre"] put_index(2) [of "length pre" ts] put_index(1) [of "length pre + 1"] put_index(2) [of "length pre + 1" ts]
  by (simp add: pton_put_def t_or_def list_update_append nth_append add.commute)

lemma pton_put_2:
  "length pre + 1 < unat ts \<Longrightarrow> length pre < 2 ^ 31 \<Longrightarrow>
     pton_put ts d (at_byte (pre @ x # y # js) (length pre) 2) =
     Some (Some (at_byte (pre @ (x OR drop_bit 2 d) # push_bit 6 (d AND 0x03) # js) (length pre + 1) 3))"
  using put_index(1) [of "length pre"] put_index(2) [of "length pre" ts] put_index(1) [of "length pre + 1"] put_index(2) [of "length pre + 1" ts]
  by (simp add: pton_put_def t_or_def list_update_append nth_append add.commute)

lemma pton_put_3:
  "length pre < unat ts \<Longrightarrow> length pre < 2 ^ 31 \<Longrightarrow>
     pton_put ts d (at_byte (pre @ x # js) (length pre) 3) =
     Some (Some (at_byte (pre @ (x OR d) # js) (length pre + 1) 0))"
  using put_index(1) [of "length pre"] put_index(2) [of "length pre" ts]
  by (simp add: pton_put_def t_or_def list_update_append nth_append add.commute)

text \<open>One digit of the loop.\<close>

lemma pton_loop_digit:
  assumes "k < 64"
  shows "pton_loop (Base64 ! k # src) ts st =
    do { r \<leftarrow> pton_put ts (of_nat k) st;
         (case r of None \<Rightarrow> Some (Inl st) | Some st1 \<Rightarrow> pton_loop src ts st1) }"
  using Base64_nth_plain [OF assms] b64_index_nth [OF assms] by simp

lemma rfc_group_digit:
  assumes "k < 4"
  shows "pton_loop (rfc_group a b c ! k # src) ts st =
    do { r \<leftarrow> pton_put ts (sextets a b c ! k) st;
         (case r of None \<Rightarrow> Some (Inl st) | Some st1 \<Rightarrow> pton_loop src ts st1) }"
proof -
  have len: "length (sextets a b c) = 4" by (simp add: sextets_def)
  then have mem: "sextets a b c ! k \<in> set (sextets a b c)" using assms by (metis nth_mem)
  have "map unat (sextets a b c) ! k = rfc_digits a b c ! k" by (simp only: unat_sextets)
  then have u: "rfc_digits a b c ! k = unat (sextets a b c ! k)" using assms len by simp
  from pton_loop_digit [OF sextets_small [OF mem]] show ?thesis
    using assms u by (simp add: rfc_group_def)
qed

lemma rfc_group_digits:
  "pton_loop (rfc_group a b c ! 0 # src) ts st =
    do { r \<leftarrow> pton_put ts (sextets a b c ! 0) st;
         (case r of None \<Rightarrow> Some (Inl st) | Some st1 \<Rightarrow> pton_loop src ts st1) }"
  "pton_loop (rfc_group a b c ! Suc 0 # src) ts st =
    do { r \<leftarrow> pton_put ts (sextets a b c ! Suc 0) st;
         (case r of None \<Rightarrow> Some (Inl st) | Some st1 \<Rightarrow> pton_loop src ts st1) }"
  "pton_loop (rfc_group a b c ! 2 # src) ts st =
    do { r \<leftarrow> pton_put ts (sextets a b c ! 2) st;
         (case r of None \<Rightarrow> Some (Inl st) | Some st1 \<Rightarrow> pton_loop src ts st1) }"
  "pton_loop (rfc_group a b c ! 3 # src) ts st =
    do { r \<leftarrow> pton_put ts (sextets a b c ! 3) st;
         (case r of None \<Rightarrow> Some (Inl st) | Some st1 \<Rightarrow> pton_loop src ts st1) }"
  by (rule rfc_group_digit, simp)+

lemma special_chars: "Pad64 \<noteq> 0" "\<not> isspace Pad64" "\<not> isspace 0"
  by (simp_all add: Pad64_def isspace_def)

lemma pton_loop_stop:
  "pton_loop (Pad64 # src) ts st = Some (Inr (Pad64 # src, st))"
  "pton_loop (0 # src) ts st = Some (Inr (0 # src, st))"
  by (simp_all add: special_chars)

lemma group_0: "sextets a 0 0 ! 2 = 0" "push_bit 4 (sextets a 0 0 ! Suc 0 AND 0x0f) = (0 :: byte)"
  "push_bit 6 (sextets a b 0 ! 2 AND 0x03) = (0 :: byte)"
  using join_sextets(2,3) [of a 0 0] join_sextets(3) [of a b 0]
  by (simp_all add: sextets_def or_eq_0_iff)

lemma pton_group:
  assumes "length pre + 3 \<le> unat ts" and "length pre + 3 < 2 ^ 31"
  shows "pton_loop (rfc_group a b c @ src) ts (at_byte (pre @ x # y # z # js) (length pre) 0) =
    pton_loop src ts (at_byte ((pre @ [a, b, c]) @ js) (length (pre @ [a, b, c])) 0)"
proof -
  let ?d = "\<lambda>k. sextets a b c ! k"
  have p0: "pton_put ts (?d 0) (at_byte (pre @ x # y # z # js) (length pre) 0) =
      Some (Some (at_byte (pre @ push_bit 2 (?d 0) # y # z # js) (length pre) 1))"
    by (rule pton_put_0) (use assms in simp_all)
  have p1: "pton_put ts (?d (Suc 0)) (at_byte (pre @ push_bit 2 (?d 0) # y # z # js) (length pre) 1) =
      Some (Some (at_byte ((pre @ [a]) @ push_bit 4 (?d 1 AND 0x0f) # z # js) (length (pre @ [a])) 2))"
    using pton_put_1 [of pre ts "?d 1" "push_bit 2 (?d 0)" y "z # js"] join_sextets(1) [of a b c] assms
    by (simp del: push_bit_eq_mult)
  have p2: "pton_put ts (?d 2) (at_byte ((pre @ [a]) @ push_bit 4 (?d 1 AND 0x0f) # z # js) (length (pre @ [a])) 2) =
      Some (Some (at_byte ((pre @ [a, b]) @ push_bit 6 (?d 2 AND 0x03) # js) (length (pre @ [a, b])) 3))"
    using pton_put_2 [of "pre @ [a]" ts "?d 2" "push_bit 4 (?d 1 AND 0x0f)" z js] join_sextets(2) [of a b c] assms
    by (simp del: push_bit_eq_mult)
  have p3: "pton_put ts (?d 3) (at_byte ((pre @ [a, b]) @ push_bit 6 (?d 2 AND 0x03) # js) (length (pre @ [a, b])) 3) =
      Some (Some (at_byte ((pre @ [a, b, c]) @ js) (length (pre @ [a, b, c])) 0))"
    using pton_put_3 [of "pre @ [a, b]" ts "?d 3" "push_bit 6 (?d 2 AND 0x03)" js] join_sextets(3) [of a b c] assms
    by (simp del: push_bit_eq_mult)
  have "rfc_group a b c @ src = rfc_group a b c ! 0 # rfc_group a b c ! Suc 0 # rfc_group a b c ! 2 # rfc_group a b c ! 3 # src"
    using rfc_group_nths [of a b c] by (metis append_Cons append_Nil)
  then show ?thesis
    by (simp only: rfc_group_digits p0 p1 p2 p3 Option.bind.simps option.case)
qed

lemma pton_one:
  assumes "length pre + 1 < unat ts" and "length pre + 1 < 2 ^ 31"
  shows "pton_loop (take 2 (rfc_group a 0 0) @ Pad64 # src) ts (at_byte (pre @ x # y # js) (length pre) 0) =
    Some (Inr (Pad64 # src, at_byte (pre @ a # 0 # js) (length pre + 1) 2))"
proof -
  let ?d = "\<lambda>k. sextets a 0 0 ! k"
  have p0: "pton_put ts (?d 0) (at_byte (pre @ x # y # js) (length pre) 0) =
      Some (Some (at_byte (pre @ push_bit 2 (?d 0) # y # js) (length pre) 1))"
    by (rule pton_put_0) (use assms in simp_all)
  have p1: "pton_put ts (?d (Suc 0)) (at_byte (pre @ push_bit 2 (?d 0) # y # js) (length pre) 1) =
      Some (Some (at_byte (pre @ a # 0 # js) (length pre + 1) 2))"
    using pton_put_1 [of pre ts "?d 1" "push_bit 2 (?d 0)" y js] join_sextets(1) [of a 0 0] group_0(2) [of a] assms
    by (simp del: push_bit_eq_mult)
  show ?thesis
    by (simp only: pton_loop_stop take_rfc_group append_Cons append_Nil rfc_group_digits p0 p1 Option.bind.simps option.case)
qed

lemma pton_two:
  assumes "length pre + 2 < unat ts" and "length pre + 2 < 2 ^ 31"
  shows "pton_loop (take 3 (rfc_group a b 0) @ Pad64 # src) ts (at_byte (pre @ x # y # z # js) (length pre) 0) =
    Some (Inr (Pad64 # src, at_byte (pre @ a # b # 0 # js) (length pre + 2) 3))"
proof -
  let ?d = "\<lambda>k. sextets a b 0 ! k"
  have p0: "pton_put ts (?d 0) (at_byte (pre @ x # y # z # js) (length pre) 0) =
      Some (Some (at_byte (pre @ push_bit 2 (?d 0) # y # z # js) (length pre) 1))"
    by (rule pton_put_0) (use assms in simp_all)
  have p1: "pton_put ts (?d (Suc 0)) (at_byte (pre @ push_bit 2 (?d 0) # y # z # js) (length pre) 1) =
      Some (Some (at_byte ((pre @ [a]) @ push_bit 4 (?d 1 AND 0x0f) # z # js) (length (pre @ [a])) 2))"
    using pton_put_1 [of pre ts "?d 1" "push_bit 2 (?d 0)" y "z # js"] join_sextets(1) [of a b 0] assms
    by (simp del: push_bit_eq_mult)
  have p2: "pton_put ts (?d 2) (at_byte ((pre @ [a]) @ push_bit 4 (?d 1 AND 0x0f) # z # js) (length (pre @ [a])) 2) =
      Some (Some (at_byte (pre @ a # b # 0 # js) (length pre + 2) 3))"
    using pton_put_2 [of "pre @ [a]" ts "?d 2" "push_bit 4 (?d 1 AND 0x0f)" z js] join_sextets(2) [of a b 0]
      group_0(3) [of a b] assms
    by (simp del: push_bit_eq_mult)
  show ?thesis
    by (simp only: pton_loop_stop take_rfc_group append_Cons append_Nil rfc_group_digits p0 p1 p2 Option.bind.simps option.case)
qed

text \<open>\<open>f_b64_pton\<close> from a state of its loop.\<close>

definition pton_from :: "byte list \<Rightarrow> size_t \<Rightarrow> pton_state \<Rightarrow> (int \<times> byte list option) option" where
  "pton_from src ts st = do {
     r \<leftarrow> pton_loop src ts st;
     (case r of
        Inl st \<Rightarrow> Some (- 1, ps_target st)
      | Inr (s, st) \<Rightarrow> do {
          ok \<leftarrow> (if hd s = Pad64 then pton_padding (tl s) st else Some (ps_state st = 0));
          Some (if ok then sint (ps_tarindex st) else - 1, ps_target st)
        })
   }"

lemma pton_from_rfc:
  "length pre + length src < unat ts \<Longrightarrow> length pre + length src < 2 ^ 31 \<Longrightarrow>
     unat ts \<le> length (pre @ junk) \<Longrightarrow>
     \<exists>out. pton_from (rfc_base64 src @ 0 # xs) ts (at_byte (pre @ junk) (length pre) 0) =
       Some (int (length pre + length src), Some (pre @ src @ out))"
proof (induction src arbitrary: pre junk rule: rfc_base64.induct)
  case 1
  then show ?case by (simp add: pton_from_def special_chars(1) [symmetric] sint_index)
next
  case (2 a)
  then obtain x y js where junk: "junk = x # y # js"
    by (cases junk; cases "tl junk") auto
  have "pton_loop (rfc_base64 [a] @ 0 # xs) ts (at_byte (pre @ junk) (length pre) 0) =
      Some (Inr (Pad64 # Pad64 # 0 # xs, at_byte (pre @ a # 0 # js) (length pre + 1) 2))"
    using pton_one [of pre ts a "Pad64 # 0 # xs" x y js] 2 junk by simp
  then show ?case
    using 2 put_index(1) [of "length pre + 1"] sint_index [of "length pre + 1"]
    by (simp add: pton_from_def pton_padding_def special_chars nth_append add.commute del: rfc_base64.simps)
next
  case (3 a b)
  then obtain x y z js where junk: "junk = x # y # z # js"
    by (cases junk; cases "tl junk"; cases "tl (tl junk)") auto
  have "pton_loop (rfc_base64 [a, b] @ 0 # xs) ts (at_byte (pre @ junk) (length pre) 0) =
      Some (Inr (Pad64 # 0 # xs, at_byte (pre @ a # b # 0 # js) (length pre + 2) 3))"
    using pton_two [of pre ts a b "0 # xs" x y z js] 3 junk by simp
  then show ?case
    using 3 put_index(1) [of "length pre + 2"] sint_index [of "length pre + 2"]
    by (simp add: pton_from_def pton_padding_def special_chars nth_append add.commute del: rfc_base64.simps)
next
  case (4 a b c src)
  then obtain x y z js where junk: "junk = x # y # z # js"
    by (cases junk; cases "tl junk"; cases "tl (tl junk)") auto
  have "pton_from (rfc_base64 (a # b # c # src) @ 0 # xs) ts (at_byte (pre @ junk) (length pre) 0) =
      pton_from (rfc_base64 src @ 0 # xs) ts (at_byte ((pre @ [a, b, c]) @ js) (length (pre @ [a, b, c])) 0)"
    using pton_group [of pre ts a b c "rfc_base64 src @ 0 # xs" x y z js] "4.prems" junk
    by (simp add: pton_from_def)
  moreover have "\<exists>out. pton_from (rfc_base64 src @ 0 # xs) ts (at_byte ((pre @ [a, b, c]) @ js) (length (pre @ [a, b, c])) 0) =
       Some (int (length (pre @ [a, b, c]) + length src), Some ((pre @ [a, b, c]) @ src @ out))"
    by (rule "4.IH") (use "4.prems" junk in simp_all)
  ultimately show ?case by (auto simp: add.commute)
qed

subsection \<open>The decoder on arbitrary strings\<close>

text \<open>What holds of the target throughout: bytes from \<open>targsize\<close> on are untouched, and within a
  group the index is inside.\<close>

definition pton_inv :: "byte list \<Rightarrow> size_t \<Rightarrow> pton_state \<Rightarrow> bool" where
  "pton_inv t0 ts st \<longleftrightarrow>
     (\<exists>t. ps_target st = Some t \<and> length t = length t0 \<and> drop (unat ts) t = drop (unat ts) t0) \<and>
     ps_state st < 4 \<and> (ps_state st \<noteq> 0 \<longrightarrow> unat (ps_tarindex st) < unat ts)"

lemma index_room: "(ucast (i :: u32) \<ge> (ts :: size_t)) = (unat i \<ge> unat ts)"
proof -
  have "unat (ucast i :: size_t) = unat i" using unat_32 [of i] by (simp add: unat_ucast_mod)
  then show ?thesis by (simp add: word_le_nat_alt)
qed

lemma pton_put_inv:
  assumes "pton_inv t0 ts st" and "unat ts \<le> length t0"
  shows "pton_put ts d st = Some None \<or> (\<exists>st'. pton_put ts d st = Some (Some st') \<and> pton_inv t0 ts st')"
proof -
  obtain t where t: "ps_target st = Some t" "length t = length t0" "drop (unat ts) t = drop (unat ts) t0"
    and s: "ps_state st < 4" "ps_state st \<noteq> 0 \<longrightarrow> unat (ps_tarindex st) < unat ts"
    using assms(1) by (auto simp: pton_inv_def)
  have keep: "drop n (xs[i := x]) = drop n xs" if "i < n" for n i xs and x :: byte
    using that by simp
  consider "ps_state st = 0" | "ps_state st = 1" | "ps_state st = 2" | "ps_state st = 3"
    using s(1) by linarith
  then show ?thesis
    using t s assms(2)
    by cases (auto simp: pton_put_def pton_inv_def t_or_def Let_def index_room not_le keep)
qed

lemma pton_loop_inv:
  "0 \<in> set src \<Longrightarrow> pton_inv t0 ts st \<Longrightarrow> unat ts \<le> length t0 \<Longrightarrow>
     (\<exists>st'. pton_loop src ts st = Some (Inl st') \<and> pton_inv t0 ts st') \<or>
     (\<exists>c s st'. pton_loop src ts st = Some (Inr (c # s, st')) \<and> pton_inv t0 ts st' \<and>
        (c = 0 \<or> c = Pad64 \<and> 0 \<in> set s))"
proof (induction src arbitrary: st)
  case (Cons c src)
  show ?case
  proof (cases "c = 0 \<or> isspace c \<or> c = Pad64 \<or> b64_index c = None")
    case True
    with Cons special_chars show ?thesis by (auto split: option.splits)
  next
    case False
    then obtain d where d: "b64_index c = Some d" by auto
    from pton_put_inv [OF Cons.prems(2,3), of d] show ?thesis
    proof
      assume "pton_put ts d st = Some None"
      with False d Cons.prems show ?thesis by simp
    next
      assume "\<exists>st'. pton_put ts d st = Some (Some st') \<and> pton_inv t0 ts st'"
      then obtain st' where st': "pton_put ts d st = Some (Some st')" "pton_inv t0 ts st'" by blast
      have "pton_loop (c # src) ts st = pton_loop src ts st'" using False d st'(1) by simp
      with Cons.IH [OF _ st'(2) Cons.prems(3)] Cons.prems(1) False show ?thesis by auto
    qed
  qed
qed simp

lemma skip_spaces_zero: "0 \<in> set s \<Longrightarrow> \<exists>c r. skip_spaces s = Some (c # r) \<and> (c = 0 \<or> 0 \<in> set r)"
  by (induction s) auto

lemma only_spaces_zero: "0 \<in> set s \<Longrightarrow> \<exists>b. only_spaces s = Some b"
  by (induction s) auto

lemma pton_padding_defined:
  assumes "pton_inv t0 ts st" and "unat ts \<le> length t0" and "0 \<in> set s"
  shows "\<exists>b. pton_padding s st = Some b"
proof -
  obtain t where t: "ps_target st = Some t" "length t = length t0"
    using assms(1) by (auto simp: pton_inv_def)
  have fin: "\<exists>b. (do { ok \<leftarrow> only_spaces r;
             if \<not> ok then Some False
             else (case ps_target st of
                     None \<Rightarrow> Some True
                   | Some t \<Rightarrow> map_option (\<lambda>x. x = 0) (arr_get t (unat (ps_tarindex st)))) }) = Some b"
    if "0 \<in> set r" "ps_state st \<noteq> 0" for r
  proof -
    from only_spaces_zero [OF that(1)] obtain b where "only_spaces r = Some b" ..
    moreover have "unat (ps_tarindex st) < length t"
      using assms(1,2) that(2) t(2) by (auto simp: pton_inv_def)
    ultimately show ?thesis using t(1) by (cases b) auto
  qed
  obtain c r where cr: "skip_spaces s = Some (c # r)" "c = 0 \<or> 0 \<in> set r"
    using skip_spaces_zero [OF assms(3)] by auto
  then show ?thesis
    using fin [of r] fin [OF assms(3)] special_chars(1) by (auto simp: pton_padding_def)
qed

subsection \<open>Properties\<close>

text \<open>C33. \<open>f_b64_ntop\<close> writes the RFC 1521 text of its input and a zero byte, and returns the
  length of the text, when the target has room for both.\<close>

theorem ntop_exact:
  assumes "length (rfc_base64 src) < unat targsize" and "unat targsize \<le> length target"
    and "length target < 2 ^ 62" and "length (rfc_base64 src) < 2 ^ 31"
  shows "f_b64_ntop src target targsize = Some (int (length (rfc_base64 src)),
    rfc_base64 src @ 0 # drop (Suc (length (rfc_base64 src))) target)"
  using ntop_from_fits [of "[]" src targsize target] assms by (simp add: ntop_is_from)

lemma ntop_exact_witness:
  "f_b64_ntop [77, 97] [1, 1, 1, 1, 1, 1] 6 = Some (4, [84, 87, 69, 61, 0, 1])"
proof -
  have "rfc_base64 [77, 97] = [84, 87, 69, 61]"
    by (simp add: rfc_group_def rfc_digits_def Base64_eq Pad64_def)
  with ntop_exact [of "[77, 97]" 6 "[1, 1, 1, 1, 1, 1]"] show ?thesis by simp
qed

text \<open>C25. When the target is too small for the text and the zero byte the encoder returns -1, and
  no byte from \<open>targsize\<close> on is touched.\<close>

theorem ntop_small:
  assumes "unat targsize \<le> length (rfc_base64 src)" and "unat targsize \<le> length target"
    and "length target < 2 ^ 62"
  shows "\<exists>out. f_b64_ntop src target targsize = Some (- 1, out) \<and> length out = length target \<and>
    drop (unat targsize) out = drop (unat targsize) target"
  using ntop_from_small [of targsize "[]" src target] assms by (simp add: ntop_is_from)

lemma ntop_small_witness:
  "\<exists>out. f_b64_ntop [77, 97] [1, 1, 1, 1, 9] 4 = Some (- 1, out) \<and> length out = length [1, 1, 1, 1, 9 :: byte] \<and> drop 4 out = [9]"
  using ntop_small [of 4 "[77, 97]" "[1, 1, 1, 1, 9]"] by (simp add: length_rfc_base64)

text \<open>C12. Round trip: what the encoder wrote, read as a C string, is decoded to the input.\<close>

theorem base64_roundtrip:
  assumes "f_b64_ntop src target targsize = Some (r, text)" and "0 \<le> r"
    and "unat targsize \<le> length target" and "length target < 2 ^ 31"
    and "length src < unat targsize'" and "unat targsize' \<le> length target'"
  shows "\<exists>out. f_b64_pton text (Some target') targsize' = Some (int (length src), Some (src @ out))"
proof -
  have fit: "length (rfc_base64 src) < unat targsize"
  proof (rule ccontr)
    assume "\<not> length (rfc_base64 src) < unat targsize"
    with ntop_small [of targsize src target] assms(1-4) show False by auto
  qed
  then have eq: "text = rfc_base64 src @ 0 # drop (Suc (length (rfc_base64 src))) target"
    using ntop_exact [OF fit assms(3)] assms(1,3,4) by simp
  have "length src \<le> length (rfc_base64 src)" by (simp add: length_rfc_base64)
  with fit assms(3,4) have "length src < 2 ^ 31" by simp
  with pton_from_rfc [of "[]" src targsize' target'] assms(5,6) eq show ?thesis
    by (auto simp: f_b64_pton_def pton_from_def)
qed

lemma base64_roundtrip_witness:
  "\<exists>out. f_b64_pton [84, 87, 69, 61, 0, 1] (Some [0, 0, 0]) 3 = Some (2, Some ([77, 97] @ out))"
  using base64_roundtrip [OF ntop_exact_witness, of 3 "[0, 0, 0]"] by simp

text \<open>C34. The decoder on any C string: it returns, reads and writes only inside its objects, and
  leaves the bytes from \<open>targsize\<close> on as they were.\<close>

theorem pton_safe:
  assumes "0 \<in> set src" and "unat targsize \<le> length target"
  shows "\<exists>r out. f_b64_pton src (Some target) targsize = Some (r, Some out) \<and>
    length out = length target \<and> drop (unat targsize) out = drop (unat targsize) target"
proof -
  let ?st = "\<lparr>ps_target = Some target, ps_tarindex = 0, ps_state = 0\<rparr>"
  have "pton_inv target targsize ?st" by (simp add: pton_inv_def)
  from pton_loop_inv [OF assms(1) this assms(2)] show ?thesis
  proof
    assume "\<exists>st'. pton_loop src targsize ?st = Some (Inl st') \<and> pton_inv target targsize st'"
    then show ?thesis by (auto simp: f_b64_pton_def pton_inv_def)
  next
    assume "\<exists>c s st'. pton_loop src targsize ?st = Some (Inr (c # s, st')) \<and>
      pton_inv target targsize st' \<and> (c = 0 \<or> c = Pad64 \<and> 0 \<in> set s)"
    then obtain c s st' where st': "pton_loop src targsize ?st = Some (Inr (c # s, st'))"
      "pton_inv target targsize st'" "c = 0 \<or> c = Pad64 \<and> 0 \<in> set s" by blast
    then obtain t where t: "ps_target st' = Some t" "length t = length target"
      "drop (unat targsize) t = drop (unat targsize) target" by (auto simp: pton_inv_def)
    have "\<exists>r. f_b64_pton src (Some target) targsize = Some (r, Some t)"
      using st' t(1) special_chars(1) pton_padding_defined [OF st'(2) assms(2), of s]
      by (auto simp: f_b64_pton_def)
    with t show ?thesis by blast
  qed
qed

lemma pton_safe_witness:
  "\<exists>r out. f_b64_pton [84, 61, 33, 0] (Some [1, 2]) 1 = Some (r, Some out) \<and> length out = length [1, 2 :: byte] \<and> drop 1 out = [2]"
  using pton_safe [of "[84, 61, 33, 0]" 1 "[1, 2]"] by simp

end
