(* ===== verification/LdbCoding.thy ===== *)
theory LdbCoding
  imports Wire
begin

section \<open>Slices and number coding of LevelDB (include/leveldb/slice.h, util/coding.cc, util/coding.h)\<close>

text \<open>
  A \<open>Slice\<close>, a \<open>std::string\<close> and the range between two pointers \<open>p\<close> and \<open>limit\<close> are all the
  list of their bytes. A parser that returns a pointer, or null, returns the value and the
  bytes from that pointer to \<open>limit\<close>, or None; a parser that moves a \<open>Slice*\<close> returns the
  success flag with the slice as it was left.

  Shown: the unrolled and the looping encoders write the base-128 digits of Wire, and every
  reader inverts its writer and leaves what comes after.
\<close>

subsection \<open>Slices\<close>

text \<open>Only the sign of \<open>memcmp\<close> is specified; here it is -1, 0 or 1.\<close>

fun memcmp :: "byte list \<Rightarrow> byte list \<Rightarrow> int" where
  "memcmp (x # xs) (y # ys) = (if x < y then - 1 else if y < x then 1 else memcmp xs ys)"
| "memcmp _ _ = 0"

definition slice_compare :: "byte list \<Rightarrow> byte list \<Rightarrow> int" where
  "slice_compare a b =
     (let min_len = (if length a < length b then length a else length b);
          r = memcmp (take min_len a) (take min_len b)
      in if r = 0 then (if length a < length b then - 1 else if length a > length b then 1 else r)
         else r)"

definition starts_with :: "byte list \<Rightarrow> byte list \<Rightarrow> bool" where
  "starts_with a x \<longleftrightarrow> length a \<ge> length x \<and> memcmp (take (length x) a) x = 0"

definition slice_eq :: "byte list \<Rightarrow> byte list \<Rightarrow> bool" where
  "slice_eq x y \<longleftrightarrow> length x = length y \<and> memcmp x y = 0"

definition remove_prefix :: "nat \<Rightarrow> byte list \<Rightarrow> byte list" where
  "remove_prefix n s = drop n s"

subsection \<open>Fixed-size numbers\<close>

text \<open>The target is little endian: a plain copy of the object.\<close>

definition EncodeFixed32 :: "u32 \<Rightarrow> byte list" where
  "EncodeFixed32 v = le_bytes 4 v"

definition EncodeFixed64 :: "u64 \<Rightarrow> byte list" where
  "EncodeFixed64 v = le_bytes 8 v"

definition PutFixed32 :: "byte list \<Rightarrow> u32 \<Rightarrow> byte list" where
  "PutFixed32 dst v = dst @ EncodeFixed32 v"

definition PutFixed64 :: "byte list \<Rightarrow> u64 \<Rightarrow> byte list" where
  "PutFixed64 dst v = dst @ EncodeFixed64 v"

definition DecodeFixed32 :: "byte list \<Rightarrow> u32 option" where
  "DecodeFixed32 p = (if length p < 4 then None else Some (le_word (take 4 p)))"

definition DecodeFixed64 :: "byte list \<Rightarrow> u64 option" where
  "DecodeFixed64 p = (if length p < 8 then None else Some (le_word (take 8 p)))"

subsection \<open>Varints\<close>

definition EncodeVarint32 :: "u32 \<Rightarrow> byte list" where
  "EncodeVarint32 v =
     (if v < push_bit 7 1 then [ucast v]
      else if v < push_bit 14 1 then [ucast (v OR 128), ucast (drop_bit 7 v)]
      else if v < push_bit 21 1 then [ucast (v OR 128), ucast (drop_bit 7 v OR 128), ucast (drop_bit 14 v)]
      else if v < push_bit 28 1 then
        [ucast (v OR 128), ucast (drop_bit 7 v OR 128), ucast (drop_bit 14 v OR 128), ucast (drop_bit 21 v)]
      else
        [ucast (v OR 128), ucast (drop_bit 7 v OR 128), ucast (drop_bit 14 v OR 128),
         ucast (drop_bit 21 v OR 128), ucast (drop_bit 28 v)])"

definition PutVarint32 :: "byte list \<Rightarrow> u32 \<Rightarrow> byte list" where
  "PutVarint32 dst v = dst @ EncodeVarint32 v"

function EncodeVarint64 :: "u64 \<Rightarrow> byte list" where
  "EncodeVarint64 v = (if v \<ge> 128 then ucast (v OR 128) # EncodeVarint64 (drop_bit 7 v) else [ucast v])"
  by pat_completeness auto

termination
  by (relation "measure unat") (auto simp: unat_drop_bit word_le_nat_alt)

declare EncodeVarint64.simps [simp del]

definition PutVarint64 :: "byte list \<Rightarrow> u64 \<Rightarrow> byte list" where
  "PutVarint64 dst v = dst @ EncodeVarint64 v"

text \<open>The size is converted to 32 bits.\<close>

definition PutLengthPrefixedSlice :: "byte list \<Rightarrow> byte list \<Rightarrow> byte list" where
  "PutLengthPrefixedSlice dst v = PutVarint32 dst (of_nat (length v)) @ v"

function VarintLength :: "u64 \<Rightarrow> int" where
  "VarintLength v = (if v \<ge> 128 then VarintLength (drop_bit 7 v) + 1 else 1)"
  by pat_completeness auto

termination
  by (relation "measure unat") (auto simp: unat_drop_bit word_le_nat_alt)

declare VarintLength.simps [simp del]

text \<open>The loop of \<open>GetVarint32PtrFallback\<close> from \<open>shift\<close> on; the digit is shifted in 32 bits.\<close>

fun varint32_from :: "nat \<Rightarrow> u32 \<Rightarrow> byte list \<Rightarrow> (u32 \<times> byte list) option" where
  "varint32_from shift result [] = None"
| "varint32_from shift result (b # p) =
     (if shift \<le> 28 then
        if b AND 128 \<noteq> 0
        then varint32_from (shift + 7) (result OR push_bit shift (ucast b AND 127)) p
        else Some (result OR push_bit shift (ucast b), p)
      else None)"

definition GetVarint32PtrFallback :: "byte list \<Rightarrow> (u32 \<times> byte list) option" where
  "GetVarint32PtrFallback p = varint32_from 0 0 p"

definition GetVarint32Ptr :: "byte list \<Rightarrow> (u32 \<times> byte list) option" where
  "GetVarint32Ptr p =
     (case p of
        b # q \<Rightarrow> if b AND 128 = 0 then Some (ucast b, q) else GetVarint32PtrFallback p
      | [] \<Rightarrow> GetVarint32PtrFallback p)"

fun varint64_from :: "nat \<Rightarrow> u64 \<Rightarrow> byte list \<Rightarrow> (u64 \<times> byte list) option" where
  "varint64_from shift result [] = None"
| "varint64_from shift result (b # p) =
     (if shift \<le> 63 then
        if b AND 128 \<noteq> 0
        then varint64_from (shift + 7) (result OR push_bit shift (ucast b AND 127)) p
        else Some (result OR push_bit shift (ucast b), p)
      else None)"

definition GetVarint64Ptr :: "byte list \<Rightarrow> (u64 \<times> byte list) option" where
  "GetVarint64Ptr p = varint64_from 0 0 p"

definition GetVarint32 :: "byte list \<Rightarrow> u32 option \<times> byte list" where
  "GetVarint32 input =
     (case GetVarint32Ptr input of None \<Rightarrow> (None, input) | Some (v, q) \<Rightarrow> (Some v, q))"

definition GetVarint64 :: "byte list \<Rightarrow> u64 option \<times> byte list" where
  "GetVarint64 input =
     (case GetVarint64Ptr input of None \<Rightarrow> (None, input) | Some (v, q) \<Rightarrow> (Some v, q))"

text \<open>The two overloads: over pointers, and over a slice, which stays moved past the length when
  the bytes after it are too few.\<close>

definition GetLengthPrefixedSlicePtr :: "byte list \<Rightarrow> (byte list \<times> byte list) option" where
  "GetLengthPrefixedSlicePtr p =
     (case GetVarint32Ptr p of
        None \<Rightarrow> None
      | Some (len, q) \<Rightarrow>
          if unat len > length q then None else Some (take (unat len) q, drop (unat len) q))"

definition GetLengthPrefixedSlice :: "byte list \<Rightarrow> byte list option \<times> byte list" where
  "GetLengthPrefixedSlice input =
     (case GetVarint32 input of
        (None, q) \<Rightarrow> (None, q)
      | (Some len, q) \<Rightarrow>
          if length q \<ge> unat len then (Some (take (unat len) q), remove_prefix (unat len) q)
          else (None, q))"

subsection \<open>Facts: slices\<close>

lemma memcmp_zero: "length a = length b \<Longrightarrow> memcmp a b = 0 \<longleftrightarrow> a = b"
  by (induction a b rule: memcmp.induct) (auto split: if_splits)

lemma slice_eq_iff: "slice_eq a b \<longleftrightarrow> a = b"
  by (auto simp: slice_eq_def memcmp_zero)

lemma starts_with_iff: "starts_with a x \<longleftrightarrow> (\<exists>r. a = x @ r)"
proof
  assume "starts_with a x"
  then have "take (length x) a = x"
    using memcmp_zero [of "take (length x) a" x] by (simp add: starts_with_def)
  then show "\<exists>r. a = x @ r" by (metis append_take_drop_id)
qed (auto simp: starts_with_def memcmp_zero)

text \<open>Comparison is the lexicographic order of unsigned bytes.\<close>

definition bytes_less :: "byte list \<Rightarrow> byte list \<Rightarrow> bool" where
  "bytes_less a b \<longleftrightarrow> (a, b) \<in> lexord {(x, y). x < y}"

lemma slice_compare_Cons:
  "slice_compare (x # xs) (y # ys) =
     (if x < y then - 1 else if y < x then 1 else slice_compare xs ys)"
  by (simp add: slice_compare_def Let_def)

lemma slice_compare_Nil [simp]:
  "slice_compare [] b = (if b = [] then 0 else - 1)" "slice_compare a [] = (if a = [] then 0 else 1)"
  by (simp_all add: slice_compare_def)

lemma slice_compare_cases:
  "slice_compare a b = (if bytes_less a b then - 1 else if a = b then 0 else 1)"
proof (induction a arbitrary: b)
  case Nil
  then show ?case by (cases b) (simp_all add: bytes_less_def)
next
  case (Cons x xs)
  then show ?case
    by (cases b) (auto simp: slice_compare_Cons bytes_less_def)
qed

subsection \<open>Facts: writers\<close>

lemma byte_or_high: "(b :: byte) OR 128 = of_nat (unat b mod 128 + 128)"
proof -
  have "(b AND 0x7F) OR 128 = (b OR 128) AND (0x7F OR 128)" by (rule bit.disj_conj_distrib2)
  also have "(0x7F OR 128 :: byte) = - 1" by simp
  finally have "b OR 128 = (b AND 0x7F) OR 128" by simp
  also have "\<dots> = (b AND 0x7F) + 128" by (rule byte_or_80) simp
  also have "b AND 0x7F = of_nat (unat b mod 128)"
    by (rule word_unat_eq_iff [THEN iffD2]) (simp add: unat_of_nat)
  finally show ?thesis by simp
qed

lemma low_or_32: "(ucast (v OR 128 :: u32) :: byte) = of_nat (unat v mod 128 + 128)"
  by (simp add: unsigned_or_eq byte_or_high unat_ucast_mod mod_mod_cancel)

lemma low_or_64: "(ucast (v OR 128 :: u64) :: byte) = of_nat (unat v mod 128 + 128)"
  by (simp add: unsigned_or_eq byte_or_high unat_ucast_mod mod_mod_cancel)

lemma ucast_of_unat: "(ucast (v :: 'a::len word) :: byte) = of_nat (unat v)"
  by simp

lemma EncodeVarint64_spec: "EncodeVarint64 v = spec_varint (unat v)"
proof (induction v rule: EncodeVarint64.induct)
  case (1 v)
  show ?case
  proof (cases "v \<ge> 128")
    case True
    then have "128 \<le> unat v" by (simp add: word_le_nat_alt)
    with True 1 show ?thesis
      by (subst EncodeVarint64.simps) (simp add: spec_varint_step low_or_64 unat_drop_bit)
  next
    case False
    then have "unat v < 128" by (simp add: word_le_nat_alt)
    with False show ?thesis
      by (subst EncodeVarint64.simps) (simp add: spec_varint_small)
  qed
qed

lemma VarintLength_spec: "VarintLength v = int (length (spec_varint (unat v)))"
proof (induction v rule: VarintLength.induct)
  case (1 v)
  show ?case
  proof (cases "v \<ge> 128")
    case True
    then have "128 \<le> unat v" by (simp add: word_le_nat_alt)
    with True 1 show ?thesis
      by (subst VarintLength.simps) (simp add: spec_varint_step unat_drop_bit)
  next
    case False
    then have "unat v < 128" by (simp add: word_le_nat_alt)
    with False show ?thesis
      by (subst VarintLength.simps) (simp add: spec_varint_small)
  qed
qed

lemma EncodeVarint32_spec: "EncodeVarint32 v = spec_varint (unat v)"
proof -
  let ?n = "unat v"
  have d: "unat (drop_bit k v) = ?n div 2 ^ k" for k by (rule unat_drop_bit)
  have step: "of_nat (n mod 128 + 128) # spec_varint (n div 128) = spec_varint n" if "128 \<le> n" for n
    using spec_varint_step [OF that] by simp
  have lt: "(v < push_bit 7 1) = (?n < 128)" "(v < push_bit 14 1) = (?n < 16384)"
    "(v < push_bit 21 1) = (?n < 2097152)" "(v < push_bit 28 1) = (?n < 268435456)"
    by (simp_all add: word_less_nat_alt)
  have e: "(ucast (drop_bit 7 v) :: byte) = of_nat (?n div 128)" "(ucast (drop_bit 14 v) :: byte) = of_nat (?n div 16384)"
    "(ucast (drop_bit 21 v) :: byte) = of_nat (?n div 2097152)" "(ucast (drop_bit 28 v) :: byte) = of_nat (?n div 268435456)"
    using d [of 7] d [of 14] d [of 21] d [of 28] 
    by (simp_all add: ucast_of_unat del: of_nat_unat)
  note spec = spec_varint_step spec_varint_small div_mult2_eq [symmetric] low_or_32 d e
  consider "?n < 128" | "128 \<le> ?n" "?n < 16384" | "16384 \<le> ?n" "?n < 2097152"
    | "2097152 \<le> ?n" "?n < 268435456" | "268435456 \<le> ?n"
    by linarith
  then show ?thesis
  proof cases
    case 1
    then show ?thesis using lt by (simp add: EncodeVarint32_def spec_varint_small)
  next
    case 2
    then show ?thesis using lt
      by (simp add: EncodeVarint32_def spec)
  next
    case 3
    then show ?thesis using lt
      by (simp add: EncodeVarint32_def spec)
  next
    case 4
    then show ?thesis using lt
      by (simp add: EncodeVarint32_def spec)
  next
    case 5
    then have "?n div 268435456 < 128" using unat_32 [of v] by simp
    with 5 show ?thesis using lt
      by (simp add: EncodeVarint32_def spec)
  qed
qed

subsection \<open>Facts: readers\<close>

lemma ucast_and_127: "(ucast (b :: byte) AND 127 :: 'a::len word) = ucast (b AND 0x7F)"
  by (simp add: unsigned_and_eq)

lemma and_FF_byte: "b AND 0xFF = (b :: byte)"
  using unat_8 [of b] by (simp add: word_unat_eq_iff)

lemma low_byte: "b AND 0x80 = 0 \<Longrightarrow> b AND 0x7F = (b :: byte)"
proof -
  assume "b AND 0x80 = 0"
  moreover have "(b AND 0x7F) OR (b AND 0x80) = b AND (0x7F OR 0x80)"
    by (simp only: bit.conj_disj_distrib)
  moreover have "b AND (0x7F OR 0x80) = b" using and_FF_byte [of b] by simp
  ultimately show ?thesis by simp
qed

lemma varint32_from_gives:
  "wire_varint bs \<Longrightarrow> j + length bs \<le> 5 \<Longrightarrow>
     varint32_from (7 * j) r (bs @ rest) = Some (r OR push_bit (7 * j) (of_nat (varint_value bs)), rest)"
proof (induction bs arbitrary: j r)
  case (Cons b bs)
  have s: "7 * j \<le> 28" using Cons.prems(2) by simp
  show ?case
  proof (cases bs)
    case Nil
    then have b: "b AND 0x80 = 0" using Cons.prems(1) by simp
    have "(of_nat (varint_value [b]) :: u32) = ucast (b AND 0x7F)" by (subst varint_digit) simp_all
    then have "ucast b = (of_nat (varint_value [b]) :: u32)" using low_byte [OF b] by simp
    then show ?thesis using Nil b s by simp
  next
    case (Cons c cs)
    then have b: "b AND 128 \<noteq> 0" and bs: "wire_varint bs" using Cons.prems(1) by simp_all
    have "varint32_from (7 * j) r ((b # bs) @ rest) =
        varint32_from (7 * Suc j) (r OR push_bit (7 * j) (ucast (b AND 0x7F))) (bs @ rest)"
      using b s by (simp add: ucast_and_127 add.commute)
    also have "\<dots> = Some (r OR push_bit (7 * j) (ucast (b AND 0x7F)) OR
        push_bit (7 * Suc j) (of_nat (varint_value bs)), rest)"
      using Cons.IH [of "Suc j"] bs Cons.prems(2) by (simp add: or.assoc)
    also have "r OR push_bit (7 * j) (ucast (b AND 0x7F)) OR push_bit (7 * Suc j) (of_nat (varint_value bs)) =
        r OR push_bit (7 * j) (of_nat (varint_value (b # bs)))"
      by (subst varint_digit) (simp_all add: push_bit_or push_bit_push_bit or.assoc add.commute del: push_bit_eq_mult)
    finally show ?thesis .
  qed
qed simp

lemma varint64_from_gives:
  "wire_varint bs \<Longrightarrow> j + length bs \<le> 10 \<Longrightarrow>
     varint64_from (7 * j) r (bs @ rest) = Some (r OR push_bit (7 * j) (of_nat (varint_value bs)), rest)"
proof (induction bs arbitrary: j r)
  case (Cons b bs)
  have s: "7 * j \<le> 63" using Cons.prems(2) by simp
  show ?case
  proof (cases bs)
    case Nil
    then have b: "b AND 0x80 = 0" using Cons.prems(1) by simp
    have "(of_nat (varint_value [b]) :: u64) = ucast (b AND 0x7F)" by (subst varint_digit) simp_all
    then have "ucast b = (of_nat (varint_value [b]) :: u64)" using low_byte [OF b] by simp
    then show ?thesis using Nil b s by simp
  next
    case (Cons c cs)
    then have b: "b AND 128 \<noteq> 0" and bs: "wire_varint bs" using Cons.prems(1) by simp_all
    have "varint64_from (7 * j) r ((b # bs) @ rest) =
        varint64_from (7 * Suc j) (r OR push_bit (7 * j) (ucast (b AND 0x7F))) (bs @ rest)"
      using b s by (simp add: ucast_and_127 add.commute)
    also have "\<dots> = Some (r OR push_bit (7 * j) (ucast (b AND 0x7F)) OR
        push_bit (7 * Suc j) (of_nat (varint_value bs)), rest)"
      using Cons.IH [of "Suc j"] bs Cons.prems(2) by (simp add: or.assoc)
    also have "r OR push_bit (7 * j) (ucast (b AND 0x7F)) OR push_bit (7 * Suc j) (of_nat (varint_value bs)) =
        r OR push_bit (7 * j) (of_nat (varint_value (b # bs)))"
      by (subst varint_digit) (simp_all add: push_bit_or push_bit_push_bit or.assoc add.commute del: push_bit_eq_mult)
    finally show ?thesis .
  qed
qed simp

lemma GetVarint32Ptr_fallback: "GetVarint32Ptr p = varint32_from 0 0 p"
  by (auto simp: GetVarint32Ptr_def GetVarint32PtrFallback_def split: list.splits)

lemma GetVarint32Ptr_spec:
  assumes "n < 2 ^ 32"
  shows "GetVarint32Ptr (spec_varint n @ rest) = Some (of_nat n, rest)"
  using varint32_from_gives [OF wire_varint_spec, of 0 n 0 rest] length_spec_varint_le [of n 5] assms
  by (simp add: GetVarint32Ptr_fallback varint_value_spec)

lemma GetVarint32Ptr_encode: "GetVarint32Ptr (EncodeVarint32 v @ rest) = Some (v, rest)"
  using GetVarint32Ptr_spec [of "unat v" rest] unat_32 [of v] by (simp add: EncodeVarint32_spec)

lemma GetVarint64Ptr_encode: "GetVarint64Ptr (EncodeVarint64 v @ rest) = Some (v, rest)"
  using varint64_from_gives [OF wire_varint_spec, of 0 "unat v" 0 rest] length_spec_varint_64 [of v]
  by (simp add: GetVarint64Ptr_def EncodeVarint64_spec varint_value_spec)

lemma GetVarint32_encode [simp]: "GetVarint32 (EncodeVarint32 v @ rest) = (Some v, rest)"
  by (simp add: GetVarint32_def GetVarint32Ptr_encode)

lemma GetVarint64_encode [simp]: "GetVarint64 (EncodeVarint64 v @ rest) = (Some v, rest)"
  by (simp add: GetVarint64_def GetVarint64Ptr_encode)

lemma DecodeFixed32_encode [simp]: "DecodeFixed32 (EncodeFixed32 v @ rest) = Some v"
  by (simp add: DecodeFixed32_def EncodeFixed32_def)

lemma DecodeFixed64_encode [simp]: "DecodeFixed64 (EncodeFixed64 v @ rest) = Some v"
  by (simp add: DecodeFixed64_def EncodeFixed64_def)

lemma length_EncodeFixed [simp]: "length (EncodeFixed32 v) = 4" "length (EncodeFixed64 w) = 8"
  by (simp_all add: EncodeFixed32_def EncodeFixed64_def)

lemma GetLengthPrefixedSlice_put [simp]:
  "length v < 2 ^ 32 \<Longrightarrow> GetLengthPrefixedSlice (PutLengthPrefixedSlice [] v @ rest) = (Some v, rest)"
  by (simp add: GetLengthPrefixedSlice_def PutLengthPrefixedSlice_def PutVarint32_def remove_prefix_def
      unat_of_nat)

lemma GetLengthPrefixedSlicePtr_put [simp]:
  "length v < 2 ^ 32 \<Longrightarrow> GetLengthPrefixedSlicePtr (PutLengthPrefixedSlice [] v @ rest) = Some (v, rest)"
  by (simp add: GetLengthPrefixedSlicePtr_def PutLengthPrefixedSlice_def PutVarint32_def
      GetVarint32Ptr_encode unat_of_nat)

text \<open>A reader that succeeds has used up bytes, so the loops over records end.\<close>

lemma varint32_from_shorter: "varint32_from s r p = Some (v, q) \<Longrightarrow> length q < length p"
  by (induction s r p rule: varint32_from.induct) (auto split: if_splits)

lemma varint64_from_shorter: "varint64_from s r p = Some (v, q) \<Longrightarrow> length q < length p"
  by (induction s r p rule: varint64_from.induct) (auto split: if_splits)

lemma reader_shorter:
  "GetVarint32 p = (Some v, q) \<Longrightarrow> length q < length p"
  "GetVarint64 p = (Some w, q) \<Longrightarrow> length q < length p"
  "GetLengthPrefixedSlice p = (Some s, q) \<Longrightarrow> length q < length p"
proof -
  show v: "GetVarint32 p = (Some v, q) \<Longrightarrow> length q < length p" for v q
    by (auto simp: GetVarint32_def GetVarint32Ptr_fallback dest: varint32_from_shorter split: option.splits)
  show "GetVarint64 p = (Some w, q) \<Longrightarrow> length q < length p"
    by (auto simp: GetVarint64_def GetVarint64Ptr_def dest: varint64_from_shorter split: option.splits)
  show "GetLengthPrefixedSlice p = (Some s, q) \<Longrightarrow> length q < length p"
    by (auto simp: GetLengthPrefixedSlice_def remove_prefix_def dest!: v split: option.splits if_splits prod.splits)
qed

lemma PutLengthPrefixedSlice_app: "PutLengthPrefixedSlice dst v = dst @ PutLengthPrefixedSlice [] v"
  by (simp add: PutLengthPrefixedSlice_def PutVarint32_def)

subsection \<open>Properties\<close>

text \<open>C40. The unrolled 32-bit writer, the looping 64-bit writer and \<open>VarintLength\<close> agree: the same
  bytes for the same number, and as many of them as announced.\<close>

theorem varint_writers_agree:
  "EncodeVarint64 (ucast v) = EncodeVarint32 v \<and>
   int (length (EncodeVarint32 v)) = VarintLength (ucast v)"
proof -
  have "unat (ucast (v :: u32) :: u64) = unat v" using unat_32 [of v] by (simp add: unat_ucast_mod)
  then show ?thesis by (simp add: EncodeVarint64_spec EncodeVarint32_spec VarintLength_spec)
qed

text \<open>C39. What the writers of LevelDB append is read back by the matching readers, which stop right
  after it: fixed and variable numbers and length-prefixed slices.\<close>

theorem coding_roundtrip:
  assumes "length s < 2 ^ 32"
  shows "GetVarint32 (EncodeVarint32 v @ rest) = (Some v, rest) \<and>
    GetVarint64 (EncodeVarint64 w @ rest) = (Some w, rest) \<and>
    DecodeFixed32 (EncodeFixed32 v @ rest) = Some v \<and>
    DecodeFixed64 (EncodeFixed64 w @ rest) = Some w \<and>
    GetLengthPrefixedSlice (PutLengthPrefixedSlice [] s @ rest) = (Some s, rest)"
  using assms by simp

lemma coding_roundtrip_witness:
  "GetVarint32 (EncodeVarint32 300 @ [9]) = (Some 300, [9]) \<and>
    GetVarint64 (EncodeVarint64 300 @ [9]) = (Some 300, [9]) \<and>
    DecodeFixed32 (EncodeFixed32 300 @ [9]) = Some 300 \<and>
    DecodeFixed64 (EncodeFixed64 300 @ [9]) = Some 300 \<and>
    GetLengthPrefixedSlice (PutLengthPrefixedSlice [] [1, 2] @ [9]) = (Some [1, 2], [9])"
  using coding_roundtrip [of "[1, 2]" 300 "[9]" 300] by simp

text \<open>The fifth byte of a 32-bit varint: bits that do not fit are dropped without an error.\<close>

theorem varint32_high_bits_dropped:
  "GetVarint32 [0xFF, 0xFF, 0xFF, 0xFF, 0x7F] = (Some 0xFFFFFFFF, [])"
  by (simp add: GetVarint32_def GetVarint32Ptr_fallback)

end
