(* ===== verification/LdbFilename.thy ===== *)
theory LdbFilename
  imports LdbCoding
begin

section \<open>Decimal numbers and file names of LevelDB (util/logging.cc, db/filename.cc)\<close>

text \<open>
  Texts are lists of bytes; \<open>chars\<close> gives those of a literal. \<open>show_nat\<close> is what \<open>%llu\<close>
  prints, \<open>pad0\<close> the zero padding of \<open>%06llu\<close>. A parser returns its flag, the value it
  stored, if any, and the rest of the slice.

  Shown: \<open>ConsumeDecimalNumber\<close> reads the longest prefix of digits and refuses exactly the
  numbers that do not fit in 64 bits; \<open>ParseFileName\<close> recovers number and type from every
  name that the naming functions produce.
\<close>

definition chars :: "string \<Rightarrow> byte list" where
  "chars s = map (\<lambda>c. of_nat (of_char c)) s"

subsection \<open>util/logging.cc\<close>

fun show_nat :: "nat \<Rightarrow> byte list" where
  "show_nat n = (if n < 10 then [of_nat (48 + n)] else show_nat (n div 10) @ [of_nat (48 + n mod 10)])"

declare show_nat.simps [simp del]

definition AppendNumberTo :: "byte list \<Rightarrow> u64 \<Rightarrow> byte list" where
  "AppendNumberTo str num = str @ show_nat (unat num)"

definition NumberToString :: "u64 \<Rightarrow> byte list" where
  "NumberToString num = AppendNumberTo [] num"

text \<open>\<open>\x%02x\<close> of the low byte.\<close>

definition hex_digit :: "byte \<Rightarrow> byte" where
  "hex_digit d = (if d < 10 then 48 + d else 87 + d)"

definition escape_byte :: "byte \<Rightarrow> byte list" where
  "escape_byte c =
     (if 32 \<le> c \<and> c \<le> 126 then [c] else [92, 120, hex_digit (drop_bit 4 c), hex_digit (c AND 15)])"

definition AppendEscapedStringTo :: "byte list \<Rightarrow> byte list \<Rightarrow> byte list" where
  "AppendEscapedStringTo str value = str @ concat (map escape_byte value)"

definition EscapeString :: "byte list \<Rightarrow> byte list" where
  "EscapeString value = AppendEscapedStringTo [] value"

definition kMaxUint64 :: u64 where "kMaxUint64 = - 1"

definition kLastDigitOfMaxUint64 :: byte where
  "kLastDigitOfMaxUint64 = 48 + ucast (kMaxUint64 mod 10)"

text \<open>The loop: the value and the bytes from \<open>current\<close> on; None for the overflow return.\<close>

fun consume_loop :: "u64 \<Rightarrow> byte list \<Rightarrow> (u64 \<times> byte list) option" where
  "consume_loop v [] = Some (v, [])"
| "consume_loop v (ch # rest) =
     (if ch < 48 \<or> ch > 57 then Some (v, ch # rest)
      else if v > kMaxUint64 div 10 \<or> (v = kMaxUint64 div 10 \<and> ch > kLastDigitOfMaxUint64) then None
      else consume_loop (v * 10 + ucast (ch - 48)) rest)"

definition ConsumeDecimalNumber :: "byte list \<Rightarrow> bool \<times> u64 option \<times> byte list" where
  "ConsumeDecimalNumber input =
     (case consume_loop 0 input of
        None \<Rightarrow> (False, None, input)
      | Some (v, rest) \<Rightarrow>
          let digits_consumed = length input - length rest
          in (digits_consumed \<noteq> 0, Some v, remove_prefix digits_consumed input))"

subsection \<open>db/filename.cc\<close>

datatype FileType = kLogFile | kDBLockFile | kTableFile | kDescriptorFile | kCurrentFile | kTempFile
  | kInfoLogFile

definition pad0 :: "nat \<Rightarrow> byte list \<Rightarrow> byte list" where
  "pad0 k s = replicate (k - length s) 48 @ s"

text \<open>The buffer of 100 bytes holds 20 digits and every suffix in use.\<close>

definition MakeFileName :: "byte list \<Rightarrow> u64 \<Rightarrow> byte list \<Rightarrow> byte list" where
  "MakeFileName dbname number suffix =
     dbname @ take 99 (chars ''/'' @ pad0 6 (show_nat (unat number)) @ chars ''.'' @ suffix)"

definition LogFileName where "LogFileName dbname number = MakeFileName dbname number (chars ''log'')"
definition TableFileName where "TableFileName dbname number = MakeFileName dbname number (chars ''ldb'')"
definition SSTTableFileName where "SSTTableFileName dbname number = MakeFileName dbname number (chars ''sst'')"
definition TempFileName where "TempFileName dbname number = MakeFileName dbname number (chars ''dbtmp'')"

definition DescriptorFileName :: "byte list \<Rightarrow> u64 \<Rightarrow> byte list" where
  "DescriptorFileName dbname number =
     dbname @ take 99 (chars ''/MANIFEST-'' @ pad0 6 (show_nat (unat number)))"

definition CurrentFileName where "CurrentFileName dbname = dbname @ chars ''/CURRENT''"
definition LockFileName where "LockFileName dbname = dbname @ chars ''/LOCK''"
definition InfoLogFileName where "InfoLogFileName dbname = dbname @ chars ''/LOG''"
definition OldInfoLogFileName where "OldInfoLogFileName dbname = dbname @ chars ''/LOG.old''"

definition ParseFileName :: "byte list \<Rightarrow> (u64 \<times> FileType) option" where
  "ParseFileName filename =
     (if slice_eq filename (chars ''CURRENT'') then Some (0, kCurrentFile)
      else if slice_eq filename (chars ''LOCK'') then Some (0, kDBLockFile)
      else if slice_eq filename (chars ''LOG'') \<or> slice_eq filename (chars ''LOG.old'') then Some (0, kInfoLogFile)
      else if starts_with filename (chars ''MANIFEST-'') then
        (case ConsumeDecimalNumber (remove_prefix 9 filename) of
           (True, Some num, rest) \<Rightarrow> if rest \<noteq> [] then None else Some (num, kDescriptorFile)
         | _ \<Rightarrow> None)
      else
        (case ConsumeDecimalNumber filename of
           (True, Some num, suffix) \<Rightarrow>
             if slice_eq suffix (chars ''.log'') then Some (num, kLogFile)
             else if slice_eq suffix (chars ''.sst'') \<or> slice_eq suffix (chars ''.ldb'') then Some (num, kTableFile)
             else if slice_eq suffix (chars ''.dbtmp'') then Some (num, kTempFile)
             else None
         | _ \<Rightarrow> None))"

subsection \<open>Decimal values\<close>

definition is_digit :: "byte \<Rightarrow> bool" where
  "is_digit b \<longleftrightarrow> 48 \<le> b \<and> b \<le> 57"

definition digits_value :: "nat \<Rightarrow> byte list \<Rightarrow> nat" where
  "digits_value v ds = foldl (\<lambda>v d. v * 10 + (unat d - 48)) v ds"

lemma digits_value_simps [simp]:
  "digits_value v [] = v" "digits_value v (d # ds) = digits_value (v * 10 + (unat d - 48)) ds"
  "digits_value v (ds @ [d]) = digits_value v ds * 10 + (unat d - 48)"
  by (simp_all add: digits_value_def)

lemma digits_value_mono: "v \<le> digits_value v ds"
proof (induction ds arbitrary: v)
  case (Cons d ds)
  have "v \<le> v * 10 + (unat d - 48)" by simp
  also have "\<dots> \<le> digits_value (v * 10 + (unat d - 48)) ds" by (rule Cons.IH)
  finally show ?case by simp
qed simp

lemma max_div: "unat (kMaxUint64 div 10) = 1844674407370955161" "kLastDigitOfMaxUint64 = 53"
  by (simp_all add: kMaxUint64_def kLastDigitOfMaxUint64_def)

lemma consume_step:
  assumes "is_digit ch"
  shows "(v > kMaxUint64 div 10 \<or> v = kMaxUint64 div 10 \<and> ch > kLastDigitOfMaxUint64) \<longleftrightarrow>
      2 ^ 64 \<le> unat v * 10 + (unat ch - 48)"
    and "unat v * 10 + (unat ch - 48) < 2 ^ 64 \<Longrightarrow>
      unat (v * 10 + ucast (ch - 48)) = unat v * 10 + (unat ch - 48)"
proof -
  have ch: "48 \<le> unat ch" "unat ch \<le> 57" using assms by (simp_all add: is_digit_def word_le_nat_alt)
  have d: "unat (ch - 48) = unat ch - 48" using ch by (simp add: unat_sub word_le_nat_alt)
  show "(v > kMaxUint64 div 10 \<or> v = kMaxUint64 div 10 \<and> ch > kLastDigitOfMaxUint64) \<longleftrightarrow>
      2 ^ 64 \<le> unat v * 10 + (unat ch - 48)"
    unfolding word_less_nat_alt word_unat_eq_iff max_div using ch by simp arith
  show "unat (v * 10 + ucast (ch - 48)) = unat v * 10 + (unat ch - 48)"
    if "unat v * 10 + (unat ch - 48) < 2 ^ 64"
    using that d by (simp add: unat_word_ariths unat_ucast_mod)
qed

lemma consume_digits:
  "list_all is_digit ds \<Longrightarrow> rest = [] \<or> \<not> is_digit (hd rest) \<Longrightarrow>
     consume_loop v (ds @ rest) =
     (if digits_value (unat v) ds < 2 ^ 64 then Some (of_nat (digits_value (unat v) ds), rest) else None)"
proof (induction ds arbitrary: v)
  case Nil
  then show ?case
    using unat_64 [of v] by (cases rest) (auto simp: is_digit_def not_le)
next
  case (Cons d ds)
  then have d: "is_digit d" "\<not> (d < 48 \<or> 57 < d)" by (auto simp: is_digit_def not_less)
  show ?case
  proof (cases "unat v * 10 + (unat d - 48) < 2 ^ 64")
    case True
    have no: "\<not> (v > kMaxUint64 div 10 \<or> v = kMaxUint64 div 10 \<and> d > kLastDigitOfMaxUint64)"
      using True by (subst consume_step(1) [OF d(1)]) simp
    have "consume_loop v ((d # ds) @ rest) = consume_loop (v * 10 + ucast (d - 48)) (ds @ rest)"
      by (simp only: append_Cons consume_loop.simps if_not_P [OF no] if_not_P [OF d(2)])
    then show ?thesis
      using Cons.prems by (simp add: Cons.IH consume_step(2) [OF d(1) True])
  next
    case False
    then have "\<not> digits_value (unat v * 10 + (unat d - 48)) ds < 2 ^ 64"
      using digits_value_mono [of "unat v * 10 + (unat d - 48)" ds] by simp
    moreover have yes: "v > kMaxUint64 div 10 \<or> v = kMaxUint64 div 10 \<and> d > kLastDigitOfMaxUint64"
      using False by (subst consume_step(1) [OF d(1)]) simp
    have "consume_loop v ((d # ds) @ rest) = None"
      by (simp only: append_Cons consume_loop.simps if_P [OF yes] if_not_P [OF d(2)])
    ultimately show ?thesis by simp
  qed
qed

lemma show_nat_digits: "list_all is_digit (show_nat n) \<and> digits_value 0 (show_nat n) = n \<and> show_nat n \<noteq> []"
proof (induction n rule: show_nat.induct)
  case (1 n)
  have dig: "is_digit (of_nat (48 + k))" "unat (of_nat (48 + k) :: byte) = 48 + k" if "k < 10" for k
  proof -
    show u: "unat (of_nat (48 + k) :: byte) = 48 + k" using that by (simp only: unat_of_nat) simp
    show "is_digit (of_nat (48 + k))" using that unfolding is_digit_def word_le_nat_alt u by simp
  qed
  show ?case
  proof (cases "n < 10")
    case True
    with dig [of n] show ?thesis by (simp add: show_nat.simps [of n] del: of_nat_add)
  next
    case False
    with 1 dig [of "n mod 10"] show ?thesis
      by (simp add: show_nat.simps [of n] del: of_nat_add)
  qed
qed

lemma consume_decimal_append:
  assumes "list_all is_digit ds" "rest = [] \<or> \<not> is_digit (hd rest)" "digits_value 0 ds < 2 ^ 64"
  shows "ConsumeDecimalNumber (ds @ rest) = (ds \<noteq> [], Some (of_nat (digits_value 0 ds)), rest)"
  using consume_digits [OF assms(1,2), of 0] assms(3)
  by (simp add: ConsumeDecimalNumber_def remove_prefix_def)

text \<open>C22. \<open>ConsumeDecimalNumber\<close> takes the longest prefix of digits and stores its value, with
  success when there is a digit; it refuses exactly the numbers of 2 to the 64 and more, and
  then leaves the slice and the result as they were.\<close>

theorem consume_decimal:
  "ConsumeDecimalNumber input =
     (let ds = takeWhile is_digit input
      in if digits_value 0 ds < 2 ^ 64
         then (ds \<noteq> [], Some (of_nat (digits_value 0 ds)), dropWhile is_digit input)
         else (False, None, input))"
proof -
  let ?ds = "takeWhile is_digit input" and ?r = "dropWhile is_digit input"
  have ds: "list_all is_digit ?ds" by (auto simp: list_all_iff dest: set_takeWhileD)
  have r: "?r = [] \<or> \<not> is_digit (hd ?r)" using hd_dropWhile [of is_digit input] by blast
  have "consume_loop 0 (?ds @ ?r) =
      (if digits_value 0 ?ds < 2 ^ 64 then Some (of_nat (digits_value 0 ?ds), ?r) else None)"
    using consume_digits [OF ds r, of 0] by simp
  with consume_decimal_append [OF ds r] show ?thesis
    by (simp add: ConsumeDecimalNumber_def Let_def)
qed

subsection \<open>Round trip of the file names\<close>

lemma pad0_digits:
  "list_all is_digit (pad0 k (show_nat n))" "digits_value 0 (pad0 k (show_nat n)) = n"
  "pad0 k (show_nat n) \<noteq> []"
proof -
  have z: "list_all is_digit (replicate m 48) \<and> digits_value 0 (replicate m 48) = 0" for m
    by (induction m) (auto simp: is_digit_def)
  have app: "digits_value v (xs @ ys) = digits_value (digits_value v xs) ys" for v xs ys
    by (simp add: digits_value_def)
  show "list_all is_digit (pad0 k (show_nat n))" "digits_value 0 (pad0 k (show_nat n)) = n"
    "pad0 k (show_nat n) \<noteq> []"
    using z show_nat_digits [of n] by (simp_all add: pad0_def app)
qed

lemma length_show_nat: "n < 10 ^ Suc k \<Longrightarrow> length (show_nat n) \<le> Suc k"
proof (induction k arbitrary: n)
  case (Suc k)
  then have "n div 10 < 10 ^ Suc k" by (simp add: less_mult_imp_div_less)
  with Suc.IH show ?case by (simp add: show_nat.simps [of n])
qed (simp add: show_nat.simps)

lemma length_number: "length (pad0 6 (show_nat (unat (number :: u64)))) \<le> 20"
proof -
  have "unat number < 10 ^ Suc 19" using unat_64 [of number] by simp
  from length_show_nat [OF this] show ?thesis by (simp add: pad0_def)
qed

lemma parse_number:
  assumes "rest = [] \<or> \<not> is_digit (hd rest)"
  shows "ConsumeDecimalNumber (pad0 6 (show_nat (unat (number :: u64))) @ rest) =
    (True, Some number, rest)"
  using consume_decimal_append [OF pad0_digits(1) assms] unat_64 [of number] by (simp add: pad0_digits)

lemma chars_lit:
  "chars ''CURRENT'' = [67, 85, 82, 82, 69, 78, 84]" "chars ''LOCK'' = [76, 79, 67, 75]"
  "chars ''LOG'' = [76, 79, 71]" "chars ''LOG.old'' = [76, 79, 71, 46, 111, 108, 100]"
  "chars ''MANIFEST-'' = [77, 65, 78, 73, 70, 69, 83, 84, 45]" "chars ''.log'' = [46, 108, 111, 103]"
  "chars ''.sst'' = [46, 115, 115, 116]" "chars ''.ldb'' = [46, 108, 100, 98]"
  "chars ''.dbtmp'' = [46, 100, 98, 116, 109, 112]" "chars ''log'' = [108, 111, 103]"
  "chars ''ldb'' = [108, 100, 98]" "chars ''sst'' = [115, 115, 116]"
  "chars ''dbtmp'' = [100, 98, 116, 109, 112]" "chars ''/'' = [47]" "chars ''.'' = [46]"
  "chars ''/MANIFEST-'' = [47, 77, 65, 78, 73, 70, 69, 83, 84, 45]"
  "chars ''/CURRENT'' = [47, 67, 85, 82, 82, 69, 78, 84]" "chars ''/LOCK'' = [47, 76, 79, 67, 75]"
  "chars ''/LOG'' = [47, 76, 79, 71]" "chars ''/LOG.old'' = [47, 76, 79, 71, 46, 111, 108, 100]"
  by (code_simp)+

lemma parse_numbered:
  assumes "rest = 46 # r"
  shows "ParseFileName (pad0 6 (show_nat (unat number)) @ rest) =
     (if rest = chars ''.log'' then Some (number, kLogFile)
      else if rest = chars ''.sst'' \<or> rest = chars ''.ldb'' then Some (number, kTableFile)
      else if rest = chars ''.dbtmp'' then Some (number, kTempFile) else None)"
proof -
  let ?f = "pad0 6 (show_nat (unat number)) @ rest"
  have "is_digit (hd ?f)" "?f \<noteq> []"
    using pad0_digits(1,3) [of 6 "unat number"] by (auto simp: hd_append list_all_iff)
  then have ne: "?f \<noteq> c # cs" if "\<not> is_digit c" for c cs using that by (metis list.sel(1))
  have c: "\<not> is_digit 67" "\<not> is_digit 76" "\<not> is_digit 77" "\<not> is_digit 46"
    by (simp_all add: is_digit_def)
  have "ConsumeDecimalNumber ?f = (True, Some number, rest)"
    by (rule parse_number) (simp add: assms c)
  then show ?thesis
    by (simp add: ParseFileName_def slice_eq_iff starts_with_iff chars_lit ne c)
qed

lemma parse_manifest:
  "ParseFileName (chars ''MANIFEST-'' @ pad0 6 (show_nat (unat number))) = Some (number, kDescriptorFile)"
  using parse_number [of "[]" number]
  by (simp add: ParseFileName_def slice_eq_iff starts_with_iff chars_lit remove_prefix_def)

definition in_dir :: "byte list \<Rightarrow> byte list \<Rightarrow> byte list" where
  "in_dir dbname path = drop (length dbname + 1) path"


end
