(* ===== verification/LdbCrc.thy ===== *)
theory LdbCrc
  imports LdbCoding
begin

section \<open>Checksums of LevelDB (util/crc32c.cc, util/crc32c.h)\<close>

text \<open>
  CRC-32C the way the library computes it: a table for single bytes, and four tables that carry
  a register over sixteen bytes, for four interleaved registers. \<open>Extend\<close> takes the address of
  the data as well, since the loop over bytes runs up to a four-byte boundary.
  \<open>AcceleratedCRC32C\<close> is the one of port_stdcxx.h without the crc32c library.

  Shown: \<open>Extend\<close> is the bitwise CRC with the reversed polynomial \<open>0x82F63B78\<close>, wherever the
  data lies. The bitwise step is linear over exclusive or, so that a table is right when its
  entries at the powers of two are, and these all lie on one chain of shifts of \<open>1\<close>.
\<close>

subsection \<open>Tables\<close>

definition kByteExtensionTable :: "u32 list" where
  "kByteExtensionTable =
     [0x00000000, 0xF26B8303, 0xE13B70F7, 0x1350F3F4, 0xC79A971F, 0x35F1141C, 0x26A1E7E8, 0xD4CA64EB,
      0x8AD958CF, 0x78B2DBCC, 0x6BE22838, 0x9989AB3B, 0x4D43CFD0, 0xBF284CD3, 0xAC78BF27, 0x5E133C24,
      0x105EC76F, 0xE235446C, 0xF165B798, 0x030E349B, 0xD7C45070, 0x25AFD373, 0x36FF2087, 0xC494A384,
      0x9A879FA0, 0x68EC1CA3, 0x7BBCEF57, 0x89D76C54, 0x5D1D08BF, 0xAF768BBC, 0xBC267848, 0x4E4DFB4B,
      0x20BD8EDE, 0xD2D60DDD, 0xC186FE29, 0x33ED7D2A, 0xE72719C1, 0x154C9AC2, 0x061C6936, 0xF477EA35,
      0xAA64D611, 0x580F5512, 0x4B5FA6E6, 0xB93425E5, 0x6DFE410E, 0x9F95C20D, 0x8CC531F9, 0x7EAEB2FA,
      0x30E349B1, 0xC288CAB2, 0xD1D83946, 0x23B3BA45, 0xF779DEAE, 0x05125DAD, 0x1642AE59, 0xE4292D5A,
      0xBA3A117E, 0x4851927D, 0x5B016189, 0xA96AE28A, 0x7DA08661, 0x8FCB0562, 0x9C9BF696, 0x6EF07595,
      0x417B1DBC, 0xB3109EBF, 0xA0406D4B, 0x522BEE48, 0x86E18AA3, 0x748A09A0, 0x67DAFA54, 0x95B17957,
      0xCBA24573, 0x39C9C670, 0x2A993584, 0xD8F2B687, 0x0C38D26C, 0xFE53516F, 0xED03A29B, 0x1F682198,
      0x5125DAD3, 0xA34E59D0, 0xB01EAA24, 0x42752927, 0x96BF4DCC, 0x64D4CECF, 0x77843D3B, 0x85EFBE38,
      0xDBFC821C, 0x2997011F, 0x3AC7F2EB, 0xC8AC71E8, 0x1C661503, 0xEE0D9600, 0xFD5D65F4, 0x0F36E6F7,
      0x61C69362, 0x93AD1061, 0x80FDE395, 0x72966096, 0xA65C047D, 0x5437877E, 0x4767748A, 0xB50CF789,
      0xEB1FCBAD, 0x197448AE, 0x0A24BB5A, 0xF84F3859, 0x2C855CB2, 0xDEEEDFB1, 0xCDBE2C45, 0x3FD5AF46,
      0x7198540D, 0x83F3D70E, 0x90A324FA, 0x62C8A7F9, 0xB602C312, 0x44694011, 0x5739B3E5, 0xA55230E6,
      0xFB410CC2, 0x092A8FC1, 0x1A7A7C35, 0xE811FF36, 0x3CDB9BDD, 0xCEB018DE, 0xDDE0EB2A, 0x2F8B6829,
      0x82F63B78, 0x709DB87B, 0x63CD4B8F, 0x91A6C88C, 0x456CAC67, 0xB7072F64, 0xA457DC90, 0x563C5F93,
      0x082F63B7, 0xFA44E0B4, 0xE9141340, 0x1B7F9043, 0xCFB5F4A8, 0x3DDE77AB, 0x2E8E845F, 0xDCE5075C,
      0x92A8FC17, 0x60C37F14, 0x73938CE0, 0x81F80FE3, 0x55326B08, 0xA759E80B, 0xB4091BFF, 0x466298FC,
      0x1871A4D8, 0xEA1A27DB, 0xF94AD42F, 0x0B21572C, 0xDFEB33C7, 0x2D80B0C4, 0x3ED04330, 0xCCBBC033,
      0xA24BB5A6, 0x502036A5, 0x4370C551, 0xB11B4652, 0x65D122B9, 0x97BAA1BA, 0x84EA524E, 0x7681D14D,
      0x2892ED69, 0xDAF96E6A, 0xC9A99D9E, 0x3BC21E9D, 0xEF087A76, 0x1D63F975, 0x0E330A81, 0xFC588982,
      0xB21572C9, 0x407EF1CA, 0x532E023E, 0xA145813D, 0x758FE5D6, 0x87E466D5, 0x94B49521, 0x66DF1622,
      0x38CC2A06, 0xCAA7A905, 0xD9F75AF1, 0x2B9CD9F2, 0xFF56BD19, 0x0D3D3E1A, 0x1E6DCDEE, 0xEC064EED,
      0xC38D26C4, 0x31E6A5C7, 0x22B65633, 0xD0DDD530, 0x0417B1DB, 0xF67C32D8, 0xE52CC12C, 0x1747422F,
      0x49547E0B, 0xBB3FFD08, 0xA86F0EFC, 0x5A048DFF, 0x8ECEE914, 0x7CA56A17, 0x6FF599E3, 0x9D9E1AE0,
      0xD3D3E1AB, 0x21B862A8, 0x32E8915C, 0xC083125F, 0x144976B4, 0xE622F5B7, 0xF5720643, 0x07198540,
      0x590AB964, 0xAB613A67, 0xB831C993, 0x4A5A4A90, 0x9E902E7B, 0x6CFBAD78, 0x7FAB5E8C, 0x8DC0DD8F,
      0xE330A81A, 0x115B2B19, 0x020BD8ED, 0xF0605BEE, 0x24AA3F05, 0xD6C1BC06, 0xC5914FF2, 0x37FACCF1,
      0x69E9F0D5, 0x9B8273D6, 0x88D28022, 0x7AB90321, 0xAE7367CA, 0x5C18E4C9, 0x4F48173D, 0xBD23943E,
      0xF36E6F75, 0x0105EC76, 0x12551F82, 0xE03E9C81, 0x34F4F86A, 0xC69F7B69, 0xD5CF889D, 0x27A40B9E,
      0x79B737BA, 0x8BDCB4B9, 0x988C474D, 0x6AE7C44E, 0xBE2DA0A5, 0x4C4623A6, 0x5F16D052, 0xAD7D5351]"

definition kStrideExtensionTable0 :: "u32 list" where
  "kStrideExtensionTable0 =
     [0x00000000, 0x30D23865, 0x61A470CA, 0x517648AF, 0xC348E194, 0xF39AD9F1, 0xA2EC915E, 0x923EA93B,
      0x837DB5D9, 0xB3AF8DBC, 0xE2D9C513, 0xD20BFD76, 0x4035544D, 0x70E76C28, 0x21912487, 0x11431CE2,
      0x03171D43, 0x33C52526, 0x62B36D89, 0x526155EC, 0xC05FFCD7, 0xF08DC4B2, 0xA1FB8C1D, 0x9129B478,
      0x806AA89A, 0xB0B890FF, 0xE1CED850, 0xD11CE035, 0x4322490E, 0x73F0716B, 0x228639C4, 0x125401A1,
      0x062E3A86, 0x36FC02E3, 0x678A4A4C, 0x57587229, 0xC566DB12, 0xF5B4E377, 0xA4C2ABD8, 0x941093BD,
      0x85538F5F, 0xB581B73A, 0xE4F7FF95, 0xD425C7F0, 0x461B6ECB, 0x76C956AE, 0x27BF1E01, 0x176D2664,
      0x053927C5, 0x35EB1FA0, 0x649D570F, 0x544F6F6A, 0xC671C651, 0xF6A3FE34, 0xA7D5B69B, 0x97078EFE,
      0x8644921C, 0xB696AA79, 0xE7E0E2D6, 0xD732DAB3, 0x450C7388, 0x75DE4BED, 0x24A80342, 0x147A3B27,
      0x0C5C750C, 0x3C8E4D69, 0x6DF805C6, 0x5D2A3DA3, 0xCF149498, 0xFFC6ACFD, 0xAEB0E452, 0x9E62DC37,
      0x8F21C0D5, 0xBFF3F8B0, 0xEE85B01F, 0xDE57887A, 0x4C692141, 0x7CBB1924, 0x2DCD518B, 0x1D1F69EE,
      0x0F4B684F, 0x3F99502A, 0x6EEF1885, 0x5E3D20E0, 0xCC0389DB, 0xFCD1B1BE, 0xADA7F911, 0x9D75C174,
      0x8C36DD96, 0xBCE4E5F3, 0xED92AD5C, 0xDD409539, 0x4F7E3C02, 0x7FAC0467, 0x2EDA4CC8, 0x1E0874AD,
      0x0A724F8A, 0x3AA077EF, 0x6BD63F40, 0x5B040725, 0xC93AAE1E, 0xF9E8967B, 0xA89EDED4, 0x984CE6B1,
      0x890FFA53, 0xB9DDC236, 0xE8AB8A99, 0xD879B2FC, 0x4A471BC7, 0x7A9523A2, 0x2BE36B0D, 0x1B315368,
      0x096552C9, 0x39B76AAC, 0x68C12203, 0x58131A66, 0xCA2DB35D, 0xFAFF8B38, 0xAB89C397, 0x9B5BFBF2,
      0x8A18E710, 0xBACADF75, 0xEBBC97DA, 0xDB6EAFBF, 0x49500684, 0x79823EE1, 0x28F4764E, 0x18264E2B,
      0x18B8EA18, 0x286AD27D, 0x791C9AD2, 0x49CEA2B7, 0xDBF00B8C, 0xEB2233E9, 0xBA547B46, 0x8A864323,
      0x9BC55FC1, 0xAB1767A4, 0xFA612F0B, 0xCAB3176E, 0x588DBE55, 0x685F8630, 0x3929CE9F, 0x09FBF6FA,
      0x1BAFF75B, 0x2B7DCF3E, 0x7A0B8791, 0x4AD9BFF4, 0xD8E716CF, 0xE8352EAA, 0xB9436605, 0x89915E60,
      0x98D24282, 0xA8007AE7, 0xF9763248, 0xC9A40A2D, 0x5B9AA316, 0x6B489B73, 0x3A3ED3DC, 0x0AECEBB9,
      0x1E96D09E, 0x2E44E8FB, 0x7F32A054, 0x4FE09831, 0xDDDE310A, 0xED0C096F, 0xBC7A41C0, 0x8CA879A5,
      0x9DEB6547, 0xAD395D22, 0xFC4F158D, 0xCC9D2DE8, 0x5EA384D3, 0x6E71BCB6, 0x3F07F419, 0x0FD5CC7C,
      0x1D81CDDD, 0x2D53F5B8, 0x7C25BD17, 0x4CF78572, 0xDEC92C49, 0xEE1B142C, 0xBF6D5C83, 0x8FBF64E6,
      0x9EFC7804, 0xAE2E4061, 0xFF5808CE, 0xCF8A30AB, 0x5DB49990, 0x6D66A1F5, 0x3C10E95A, 0x0CC2D13F,
      0x14E49F14, 0x2436A771, 0x7540EFDE, 0x4592D7BB, 0xD7AC7E80, 0xE77E46E5, 0xB6080E4A, 0x86DA362F,
      0x97992ACD, 0xA74B12A8, 0xF63D5A07, 0xC6EF6262, 0x54D1CB59, 0x6403F33C, 0x3575BB93, 0x05A783F6,
      0x17F38257, 0x2721BA32, 0x7657F29D, 0x4685CAF8, 0xD4BB63C3, 0xE4695BA6, 0xB51F1309, 0x85CD2B6C,
      0x948E378E, 0xA45C0FEB, 0xF52A4744, 0xC5F87F21, 0x57C6D61A, 0x6714EE7F, 0x3662A6D0, 0x06B09EB5,
      0x12CAA592, 0x22189DF7, 0x736ED558, 0x43BCED3D, 0xD1824406, 0xE1507C63, 0xB02634CC, 0x80F40CA9,
      0x91B7104B, 0xA165282E, 0xF0136081, 0xC0C158E4, 0x52FFF1DF, 0x622DC9BA, 0x335B8115, 0x0389B970,
      0x11DDB8D1, 0x210F80B4, 0x7079C81B, 0x40ABF07E, 0xD2955945, 0xE2476120, 0xB331298F, 0x83E311EA,
      0x92A00D08, 0xA272356D, 0xF3047DC2, 0xC3D645A7, 0x51E8EC9C, 0x613AD4F9, 0x304C9C56, 0x009EA433]"

definition kStrideExtensionTable1 :: "u32 list" where
  "kStrideExtensionTable1 =
     [0x00000000, 0x54075546, 0xA80EAA8C, 0xFC09FFCA, 0x55F123E9, 0x01F676AF, 0xFDFF8965, 0xA9F8DC23,
      0xABE247D2, 0xFFE51294, 0x03ECED5E, 0x57EBB818, 0xFE13643B, 0xAA14317D, 0x561DCEB7, 0x021A9BF1,
      0x5228F955, 0x062FAC13, 0xFA2653D9, 0xAE21069F, 0x07D9DABC, 0x53DE8FFA, 0xAFD77030, 0xFBD02576,
      0xF9CABE87, 0xADCDEBC1, 0x51C4140B, 0x05C3414D, 0xAC3B9D6E, 0xF83CC828, 0x043537E2, 0x503262A4,
      0xA451F2AA, 0xF056A7EC, 0x0C5F5826, 0x58580D60, 0xF1A0D143, 0xA5A78405, 0x59AE7BCF, 0x0DA92E89,
      0x0FB3B578, 0x5BB4E03E, 0xA7BD1FF4, 0xF3BA4AB2, 0x5A429691, 0x0E45C3D7, 0xF24C3C1D, 0xA64B695B,
      0xF6790BFF, 0xA27E5EB9, 0x5E77A173, 0x0A70F435, 0xA3882816, 0xF78F7D50, 0x0B86829A, 0x5F81D7DC,
      0x5D9B4C2D, 0x099C196B, 0xF595E6A1, 0xA192B3E7, 0x086A6FC4, 0x5C6D3A82, 0xA064C548, 0xF463900E,
      0x4D4F93A5, 0x1948C6E3, 0xE5413929, 0xB1466C6F, 0x18BEB04C, 0x4CB9E50A, 0xB0B01AC0, 0xE4B74F86,
      0xE6ADD477, 0xB2AA8131, 0x4EA37EFB, 0x1AA42BBD, 0xB35CF79E, 0xE75BA2D8, 0x1B525D12, 0x4F550854,
      0x1F676AF0, 0x4B603FB6, 0xB769C07C, 0xE36E953A, 0x4A964919, 0x1E911C5F, 0xE298E395, 0xB69FB6D3,
      0xB4852D22, 0xE0827864, 0x1C8B87AE, 0x488CD2E8, 0xE1740ECB, 0xB5735B8D, 0x497AA447, 0x1D7DF101,
      0xE91E610F, 0xBD193449, 0x4110CB83, 0x15179EC5, 0xBCEF42E6, 0xE8E817A0, 0x14E1E86A, 0x40E6BD2C,
      0x42FC26DD, 0x16FB739B, 0xEAF28C51, 0xBEF5D917, 0x170D0534, 0x430A5072, 0xBF03AFB8, 0xEB04FAFE,
      0xBB36985A, 0xEF31CD1C, 0x133832D6, 0x473F6790, 0xEEC7BBB3, 0xBAC0EEF5, 0x46C9113F, 0x12CE4479,
      0x10D4DF88, 0x44D38ACE, 0xB8DA7504, 0xECDD2042, 0x4525FC61, 0x1122A927, 0xED2B56ED, 0xB92C03AB,
      0x9A9F274A, 0xCE98720C, 0x32918DC6, 0x6696D880, 0xCF6E04A3, 0x9B6951E5, 0x6760AE2F, 0x3367FB69,
      0x317D6098, 0x657A35DE, 0x9973CA14, 0xCD749F52, 0x648C4371, 0x308B1637, 0xCC82E9FD, 0x9885BCBB,
      0xC8B7DE1F, 0x9CB08B59, 0x60B97493, 0x34BE21D5, 0x9D46FDF6, 0xC941A8B0, 0x3548577A, 0x614F023C,
      0x635599CD, 0x3752CC8B, 0xCB5B3341, 0x9F5C6607, 0x36A4BA24, 0x62A3EF62, 0x9EAA10A8, 0xCAAD45EE,
      0x3ECED5E0, 0x6AC980A6, 0x96C07F6C, 0xC2C72A2A, 0x6B3FF609, 0x3F38A34F, 0xC3315C85, 0x973609C3,
      0x952C9232, 0xC12BC774, 0x3D2238BE, 0x69256DF8, 0xC0DDB1DB, 0x94DAE49D, 0x68D31B57, 0x3CD44E11,
      0x6CE62CB5, 0x38E179F3, 0xC4E88639, 0x90EFD37F, 0x39170F5C, 0x6D105A1A, 0x9119A5D0, 0xC51EF096,
      0xC7046B67, 0x93033E21, 0x6F0AC1EB, 0x3B0D94AD, 0x92F5488E, 0xC6F21DC8, 0x3AFBE202, 0x6EFCB744,
      0xD7D0B4EF, 0x83D7E1A9, 0x7FDE1E63, 0x2BD94B25, 0x82219706, 0xD626C240, 0x2A2F3D8A, 0x7E2868CC,
      0x7C32F33D, 0x2835A67B, 0xD43C59B1, 0x803B0CF7, 0x29C3D0D4, 0x7DC48592, 0x81CD7A58, 0xD5CA2F1E,
      0x85F84DBA, 0xD1FF18FC, 0x2DF6E736, 0x79F1B270, 0xD0096E53, 0x840E3B15, 0x7807C4DF, 0x2C009199,
      0x2E1A0A68, 0x7A1D5F2E, 0x8614A0E4, 0xD213F5A2, 0x7BEB2981, 0x2FEC7CC7, 0xD3E5830D, 0x87E2D64B,
      0x73814645, 0x27861303, 0xDB8FECC9, 0x8F88B98F, 0x267065AC, 0x727730EA, 0x8E7ECF20, 0xDA799A66,
      0xD8630197, 0x8C6454D1, 0x706DAB1B, 0x246AFE5D, 0x8D92227E, 0xD9957738, 0x259C88F2, 0x719BDDB4,
      0x21A9BF10, 0x75AEEA56, 0x89A7159C, 0xDDA040DA, 0x74589CF9, 0x205FC9BF, 0xDC563675, 0x88516333,
      0x8A4BF8C2, 0xDE4CAD84, 0x2245524E, 0x76420708, 0xDFBADB2B, 0x8BBD8E6D, 0x77B471A7, 0x23B324E1]"

definition kStrideExtensionTable2 :: "u32 list" where
  "kStrideExtensionTable2 =
     [0x00000000, 0x678EFD01, 0xCF1DFA02, 0xA8930703, 0x9BD782F5, 0xFC597FF4, 0x54CA78F7, 0x334485F6,
      0x3243731B, 0x55CD8E1A, 0xFD5E8919, 0x9AD07418, 0xA994F1EE, 0xCE1A0CEF, 0x66890BEC, 0x0107F6ED,
      0x6486E636, 0x03081B37, 0xAB9B1C34, 0xCC15E135, 0xFF5164C3, 0x98DF99C2, 0x304C9EC1, 0x57C263C0,
      0x56C5952D, 0x314B682C, 0x99D86F2F, 0xFE56922E, 0xCD1217D8, 0xAA9CEAD9, 0x020FEDDA, 0x658110DB,
      0xC90DCC6C, 0xAE83316D, 0x0610366E, 0x619ECB6F, 0x52DA4E99, 0x3554B398, 0x9DC7B49B, 0xFA49499A,
      0xFB4EBF77, 0x9CC04276, 0x34534575, 0x53DDB874, 0x60993D82, 0x0717C083, 0xAF84C780, 0xC80A3A81,
      0xAD8B2A5A, 0xCA05D75B, 0x6296D058, 0x05182D59, 0x365CA8AF, 0x51D255AE, 0xF94152AD, 0x9ECFAFAC,
      0x9FC85941, 0xF846A440, 0x50D5A343, 0x375B5E42, 0x041FDBB4, 0x639126B5, 0xCB0221B6, 0xAC8CDCB7,
      0x97F7EE29, 0xF0791328, 0x58EA142B, 0x3F64E92A, 0x0C206CDC, 0x6BAE91DD, 0xC33D96DE, 0xA4B36BDF,
      0xA5B49D32, 0xC23A6033, 0x6AA96730, 0x0D279A31, 0x3E631FC7, 0x59EDE2C6, 0xF17EE5C5, 0x96F018C4,
      0xF371081F, 0x94FFF51E, 0x3C6CF21D, 0x5BE20F1C, 0x68A68AEA, 0x0F2877EB, 0xA7BB70E8, 0xC0358DE9,
      0xC1327B04, 0xA6BC8605, 0x0E2F8106, 0x69A17C07, 0x5AE5F9F1, 0x3D6B04F0, 0x95F803F3, 0xF276FEF2,
      0x5EFA2245, 0x3974DF44, 0x91E7D847, 0xF6692546, 0xC52DA0B0, 0xA2A35DB1, 0x0A305AB2, 0x6DBEA7B3,
      0x6CB9515E, 0x0B37AC5F, 0xA3A4AB5C, 0xC42A565D, 0xF76ED3AB, 0x90E02EAA, 0x387329A9, 0x5FFDD4A8,
      0x3A7CC473, 0x5DF23972, 0xF5613E71, 0x92EFC370, 0xA1AB4686, 0xC625BB87, 0x6EB6BC84, 0x09384185,
      0x083FB768, 0x6FB14A69, 0xC7224D6A, 0xA0ACB06B, 0x93E8359D, 0xF466C89C, 0x5CF5CF9F, 0x3B7B329E,
      0x2A03AAA3, 0x4D8D57A2, 0xE51E50A1, 0x8290ADA0, 0xB1D42856, 0xD65AD557, 0x7EC9D254, 0x19472F55,
      0x1840D9B8, 0x7FCE24B9, 0xD75D23BA, 0xB0D3DEBB, 0x83975B4D, 0xE419A64C, 0x4C8AA14F, 0x2B045C4E,
      0x4E854C95, 0x290BB194, 0x8198B697, 0xE6164B96, 0xD552CE60, 0xB2DC3361, 0x1A4F3462, 0x7DC1C963,
      0x7CC63F8E, 0x1B48C28F, 0xB3DBC58C, 0xD455388D, 0xE711BD7B, 0x809F407A, 0x280C4779, 0x4F82BA78,
      0xE30E66CF, 0x84809BCE, 0x2C139CCD, 0x4B9D61CC, 0x78D9E43A, 0x1F57193B, 0xB7C41E38, 0xD04AE339,
      0xD14D15D4, 0xB6C3E8D5, 0x1E50EFD6, 0x79DE12D7, 0x4A9A9721, 0x2D146A20, 0x85876D23, 0xE2099022,
      0x878880F9, 0xE0067DF8, 0x48957AFB, 0x2F1B87FA, 0x1C5F020C, 0x7BD1FF0D, 0xD342F80E, 0xB4CC050F,
      0xB5CBF3E2, 0xD2450EE3, 0x7AD609E0, 0x1D58F4E1, 0x2E1C7117, 0x49928C16, 0xE1018B15, 0x868F7614,
      0xBDF4448A, 0xDA7AB98B, 0x72E9BE88, 0x15674389, 0x2623C67F, 0x41AD3B7E, 0xE93E3C7D, 0x8EB0C17C,
      0x8FB73791, 0xE839CA90, 0x40AACD93, 0x27243092, 0x1460B564, 0x73EE4865, 0xDB7D4F66, 0xBCF3B267,
      0xD972A2BC, 0xBEFC5FBD, 0x166F58BE, 0x71E1A5BF, 0x42A52049, 0x252BDD48, 0x8DB8DA4B, 0xEA36274A,
      0xEB31D1A7, 0x8CBF2CA6, 0x242C2BA5, 0x43A2D6A4, 0x70E65352, 0x1768AE53, 0xBFFBA950, 0xD8755451,
      0x74F988E6, 0x137775E7, 0xBBE472E4, 0xDC6A8FE5, 0xEF2E0A13, 0x88A0F712, 0x2033F011, 0x47BD0D10,
      0x46BAFBFD, 0x213406FC, 0x89A701FF, 0xEE29FCFE, 0xDD6D7908, 0xBAE38409, 0x1270830A, 0x75FE7E0B,
      0x107F6ED0, 0x77F193D1, 0xDF6294D2, 0xB8EC69D3, 0x8BA8EC25, 0xEC261124, 0x44B51627, 0x233BEB26,
      0x223C1DCB, 0x45B2E0CA, 0xED21E7C9, 0x8AAF1AC8, 0xB9EB9F3E, 0xDE65623F, 0x76F6653C, 0x1178983D]"

definition kStrideExtensionTable3 :: "u32 list" where
  "kStrideExtensionTable3 =
     [0x00000000, 0xF20C0DFE, 0xE1F46D0D, 0x13F860F3, 0xC604ACEB, 0x3408A115, 0x27F0C1E6, 0xD5FCCC18,
      0x89E52F27, 0x7BE922D9, 0x6811422A, 0x9A1D4FD4, 0x4FE183CC, 0xBDED8E32, 0xAE15EEC1, 0x5C19E33F,
      0x162628BF, 0xE42A2541, 0xF7D245B2, 0x05DE484C, 0xD0228454, 0x222E89AA, 0x31D6E959, 0xC3DAE4A7,
      0x9FC30798, 0x6DCF0A66, 0x7E376A95, 0x8C3B676B, 0x59C7AB73, 0xABCBA68D, 0xB833C67E, 0x4A3FCB80,
      0x2C4C517E, 0xDE405C80, 0xCDB83C73, 0x3FB4318D, 0xEA48FD95, 0x1844F06B, 0x0BBC9098, 0xF9B09D66,
      0xA5A97E59, 0x57A573A7, 0x445D1354, 0xB6511EAA, 0x63ADD2B2, 0x91A1DF4C, 0x8259BFBF, 0x7055B241,
      0x3A6A79C1, 0xC866743F, 0xDB9E14CC, 0x29921932, 0xFC6ED52A, 0x0E62D8D4, 0x1D9AB827, 0xEF96B5D9,
      0xB38F56E6, 0x41835B18, 0x527B3BEB, 0xA0773615, 0x758BFA0D, 0x8787F7F3, 0x947F9700, 0x66739AFE,
      0x5898A2FC, 0xAA94AF02, 0xB96CCFF1, 0x4B60C20F, 0x9E9C0E17, 0x6C9003E9, 0x7F68631A, 0x8D646EE4,
      0xD17D8DDB, 0x23718025, 0x3089E0D6, 0xC285ED28, 0x17792130, 0xE5752CCE, 0xF68D4C3D, 0x048141C3,
      0x4EBE8A43, 0xBCB287BD, 0xAF4AE74E, 0x5D46EAB0, 0x88BA26A8, 0x7AB62B56, 0x694E4BA5, 0x9B42465B,
      0xC75BA564, 0x3557A89A, 0x26AFC869, 0xD4A3C597, 0x015F098F, 0xF3530471, 0xE0AB6482, 0x12A7697C,
      0x74D4F382, 0x86D8FE7C, 0x95209E8F, 0x672C9371, 0xB2D05F69, 0x40DC5297, 0x53243264, 0xA1283F9A,
      0xFD31DCA5, 0x0F3DD15B, 0x1CC5B1A8, 0xEEC9BC56, 0x3B35704E, 0xC9397DB0, 0xDAC11D43, 0x28CD10BD,
      0x62F2DB3D, 0x90FED6C3, 0x8306B630, 0x710ABBCE, 0xA4F677D6, 0x56FA7A28, 0x45021ADB, 0xB70E1725,
      0xEB17F41A, 0x191BF9E4, 0x0AE39917, 0xF8EF94E9, 0x2D1358F1, 0xDF1F550F, 0xCCE735FC, 0x3EEB3802,
      0xB13145F8, 0x433D4806, 0x50C528F5, 0xA2C9250B, 0x7735E913, 0x8539E4ED, 0x96C1841E, 0x64CD89E0,
      0x38D46ADF, 0xCAD86721, 0xD92007D2, 0x2B2C0A2C, 0xFED0C634, 0x0CDCCBCA, 0x1F24AB39, 0xED28A6C7,
      0xA7176D47, 0x551B60B9, 0x46E3004A, 0xB4EF0DB4, 0x6113C1AC, 0x931FCC52, 0x80E7ACA1, 0x72EBA15F,
      0x2EF24260, 0xDCFE4F9E, 0xCF062F6D, 0x3D0A2293, 0xE8F6EE8B, 0x1AFAE375, 0x09028386, 0xFB0E8E78,
      0x9D7D1486, 0x6F711978, 0x7C89798B, 0x8E857475, 0x5B79B86D, 0xA975B593, 0xBA8DD560, 0x4881D89E,
      0x14983BA1, 0xE694365F, 0xF56C56AC, 0x07605B52, 0xD29C974A, 0x20909AB4, 0x3368FA47, 0xC164F7B9,
      0x8B5B3C39, 0x795731C7, 0x6AAF5134, 0x98A35CCA, 0x4D5F90D2, 0xBF539D2C, 0xACABFDDF, 0x5EA7F021,
      0x02BE131E, 0xF0B21EE0, 0xE34A7E13, 0x114673ED, 0xC4BABFF5, 0x36B6B20B, 0x254ED2F8, 0xD742DF06,
      0xE9A9E704, 0x1BA5EAFA, 0x085D8A09, 0xFA5187F7, 0x2FAD4BEF, 0xDDA14611, 0xCE5926E2, 0x3C552B1C,
      0x604CC823, 0x9240C5DD, 0x81B8A52E, 0x73B4A8D0, 0xA64864C8, 0x54446936, 0x47BC09C5, 0xB5B0043B,
      0xFF8FCFBB, 0x0D83C245, 0x1E7BA2B6, 0xEC77AF48, 0x398B6350, 0xCB876EAE, 0xD87F0E5D, 0x2A7303A3,
      0x766AE09C, 0x8466ED62, 0x979E8D91, 0x6592806F, 0xB06E4C77, 0x42624189, 0x519A217A, 0xA3962C84,
      0xC5E5B67A, 0x37E9BB84, 0x2411DB77, 0xD61DD689, 0x03E11A91, 0xF1ED176F, 0xE215779C, 0x10197A62,
      0x4C00995D, 0xBE0C94A3, 0xADF4F450, 0x5FF8F9AE, 0x8A0435B6, 0x78083848, 0x6BF058BB, 0x99FC5545,
      0xD3C39EC5, 0x21CF933B, 0x3237F3C8, 0xC03BFE36, 0x15C7322E, 0xE7CB3FD0, 0xF4335F23, 0x063F52DD,
      0x5A26B1E2, 0xA82ABC1C, 0xBBD2DCEF, 0x49DED111, 0x9C221D09, 0x6E2E10F7, 0x7DD67004, 0x8FDA7DFA]"

definition kCRC32Xor :: u32 where "kCRC32Xor = 0xFFFFFFFF"
definition kMaskDelta :: u32 where "kMaskDelta = 0xA282EAD8"

definition Mask :: "u32 \<Rightarrow> u32" where
  "Mask crc = (drop_bit 15 crc OR push_bit 17 crc) + kMaskDelta"

definition Unmask :: "u32 \<Rightarrow> u32" where
  "Unmask masked_crc = (let rot = masked_crc - kMaskDelta in drop_bit 17 rot OR push_bit 15 rot)"

subsection \<open>The computation\<close>

definition ReadUint32LE :: "byte list \<Rightarrow> u32" where
  "ReadUint32LE buffer = le_word (take 4 buffer)"

definition RoundUp :: "nat \<Rightarrow> nat \<Rightarrow> nat" where
  "RoundUp N pointer = (pointer + (N - 1)) div N * N"

definition STEP1 :: "u32 \<Rightarrow> byte \<Rightarrow> u32" where
  "STEP1 l b = kByteExtensionTable ! unat ((l AND 0xFF) XOR ucast b) XOR drop_bit 8 l"

fun step1_loop :: "u32 \<Rightarrow> byte list \<Rightarrow> u32" where
  "step1_loop l [] = l"
| "step1_loop l (b # p) = step1_loop (STEP1 l b) p"

definition STEP4 :: "u32 \<Rightarrow> u32 \<Rightarrow> u32" where
  "STEP4 c w =
     w XOR kStrideExtensionTable3 ! unat (c AND 0xFF) XOR
     kStrideExtensionTable2 ! unat (drop_bit 8 c AND 0xFF) XOR
     kStrideExtensionTable1 ! unat (drop_bit 16 c AND 0xFF) XOR
     kStrideExtensionTable0 ! unat (drop_bit 24 c)"

type_synonym strides = "u32 \<times> u32 \<times> u32 \<times> u32"

function step16_loop :: "strides \<Rightarrow> byte list \<Rightarrow> strides \<times> byte list" where
  "step16_loop (c0, c1, c2, c3) p =
     (if length p \<ge> 16 then
        step16_loop (STEP4 c0 (ReadUint32LE p), STEP4 c1 (ReadUint32LE (drop 4 p)),
          STEP4 c2 (ReadUint32LE (drop 8 p)), STEP4 c3 (ReadUint32LE (drop 12 p))) (drop 16 p)
      else ((c0, c1, c2, c3), p))"
  by pat_completeness auto

termination by (relation "measure (length \<circ> snd)") auto

function step4_loop :: "strides \<Rightarrow> byte list \<Rightarrow> strides \<times> byte list" where
  "step4_loop (c0, c1, c2, c3) p =
     (if length p \<ge> 4 then step4_loop (c1, c2, c3, STEP4 c0 (ReadUint32LE p)) (drop 4 p)
      else ((c0, c1, c2, c3), p))"
  by pat_completeness auto

termination by (relation "measure (length \<circ> snd)") auto

declare step16_loop.simps [simp del] step4_loop.simps [simp del]

definition STEP4W :: "u32 \<Rightarrow> u32 \<Rightarrow> u32" where
  "STEP4W l w = ((\<lambda>w. drop_bit 8 w XOR kByteExtensionTable ! unat (w AND 0xFF)) ^^ 4) (w XOR l)"

definition combine :: "strides \<Rightarrow> u32" where
  "combine cs = (case cs of (c0, c1, c2, c3) \<Rightarrow> STEP4W (STEP4W (STEP4W (STEP4W 0 c0) c1) c2) c3)"

definition AcceleratedCRC32C :: "u32 \<Rightarrow> byte list \<Rightarrow> u32" where
  "AcceleratedCRC32C crc buf = 0"

text \<open>The test buffer is the string \<open>TestCRCBuffer\<close>.\<close>

definition CanAccelerateCRC32C :: bool where
  "CanAccelerateCRC32C \<longleftrightarrow>
     AcceleratedCRC32C 0 [84, 101, 115, 116, 67, 82, 67, 66, 117, 102, 102, 101, 114] = 0xDCBC59FA"

definition Extend :: "u32 \<Rightarrow> nat \<Rightarrow> byte list \<Rightarrow> u32" where
  "Extend crc p data =
     (if CanAccelerateCRC32C then AcceleratedCRC32C crc data
      else
        let l = crc XOR kCRC32Xor;
            k = RoundUp 4 p - p;
            (l, rest) = (if k \<le> length data then (step1_loop l (take k data), drop k data) else (l, data));
            (l, rest) =
              (if length rest \<ge> 16 then
                 let (cs, rest) = step16_loop
                       (ReadUint32LE rest XOR l, ReadUint32LE (drop 4 rest),
                        ReadUint32LE (drop 8 rest), ReadUint32LE (drop 12 rest)) (drop 16 rest);
                     (cs, rest) = step4_loop cs rest
                 in (combine cs, rest)
               else (l, rest))
        in step1_loop l rest XOR kCRC32Xor)"

definition crc_Value :: "nat \<Rightarrow> byte list \<Rightarrow> u32" where
  "crc_Value p data = Extend 0 p data"

subsection \<open>The bitwise CRC\<close>

definition crc_bit :: "u32 \<Rightarrow> u32" where
  "crc_bit w = drop_bit 1 w XOR (if bit w 0 then 0x82F63B78 else 0)"

definition crc_byte :: "byte \<Rightarrow> u32 \<Rightarrow> u32" where
  "crc_byte b l = (crc_bit ^^ 8) (l XOR ucast b)"

definition crc_bytes :: "u32 \<Rightarrow> byte list \<Rightarrow> u32" where
  "crc_bytes l data = fold crc_byte data l"

definition crc32c :: "u32 \<Rightarrow> byte list \<Rightarrow> u32" where
  "crc32c crc data = NOT (crc_bytes (NOT crc) data)"

subsection \<open>Linearity\<close>

definition xor_linear :: "(u32 \<Rightarrow> u32) \<Rightarrow> bool" where
  "xor_linear f \<longleftrightarrow> f 0 = 0 \<and> (\<forall>x y. f (x XOR y) = f x XOR f y)"

lemma linear_crc_bit: "xor_linear crc_bit"
  by (auto simp: xor_linear_def crc_bit_def drop_bit_xor bit_xor_iff xor.assoc xor.left_commute)

lemma linear_pow: "xor_linear f \<Longrightarrow> xor_linear (f ^^ n)"
  by (induction n) (auto simp: xor_linear_def)

lemma linear_push: "xor_linear f \<Longrightarrow> xor_linear (\<lambda>x. f (push_bit k x))"
  by (auto simp: xor_linear_def push_bit_xor simp del: push_bit_eq_mult)

text \<open>A linear function on \<open>0..<2^k\<close>, from its values at the powers of two.\<close>

fun doubling :: "u32 list \<Rightarrow> u32 list \<Rightarrow> u32 list" where
  "doubling xs [] = xs"
| "doubling xs (p # ps) = doubling (xs @ map ((XOR) p) xs) ps"

lemma xor_disjoint: "i < 2 ^ k \<Longrightarrow> k < 32 \<Longrightarrow> (of_nat (2 ^ k + i) :: u32) = of_nat (2 ^ k) XOR of_nat i"
proof -
  assume i: "i < 2 ^ k" and k: "k < 32"
  have "(of_nat (2 ^ k) :: u32) AND of_nat i = 0"
  proof (rule bit_word_eqI)
    fix j assume "j < LENGTH(32)"
    have "bit (of_nat i :: u32) j \<longrightarrow> j < k"
      using i by (metis bit_of_nat_iff bit_take_bit_iff take_bit_nat_eq_self_iff)
    then show "bit ((of_nat (2 ^ k) :: u32) AND of_nat i) j \<longleftrightarrow> bit (0 :: u32) j"
      by (auto simp: bit_simps)
  qed
  from disjunctive_add_eq_xor [OF this] show ?thesis by simp
qed

lemma doubling_linear:
  assumes f: "xor_linear f"
  shows "k \<le> n \<Longrightarrow> n \<le> 32 \<Longrightarrow>
     doubling (map (\<lambda>i. f (of_nat i)) [0..<2 ^ k]) (map (\<lambda>j. f (of_nat (2 ^ j))) [k..<n]) =
     map (\<lambda>i. f (of_nat i)) [0..<2 ^ n]"
proof (induction "n - k" arbitrary: k)
  case 0
  then show ?case by simp
next
  case (Suc g)
  then have k: "k < n" "k < 32" by simp_all
  have "map ((XOR) (f (of_nat (2 ^ k)))) (map (\<lambda>i. f (of_nat i)) [0..<2 ^ k]) =
      map (\<lambda>i. f (of_nat (2 ^ k + i))) [0..<2 ^ k]"
    using f k(2) by (simp add: xor_linear_def xor_disjoint del: of_nat_power of_nat_add)
  also have "\<dots> = map (\<lambda>i. f (of_nat i)) [2 ^ k..<2 ^ Suc k]"
    by (rule nth_equalityI) (simp_all del: of_nat_power)
  finally have half: "map ((XOR) (f (of_nat (2 ^ k)))) (map (\<lambda>i. f (of_nat i)) [0..<2 ^ k]) =
      map (\<lambda>i. f (of_nat i)) [2 ^ k..<2 ^ Suc k]" .
  have "[0..<2 ^ Suc k] = [0..<2 ^ k] @ [2 ^ k..<2 ^ Suc k]"
    by (metis le0 one_le_numeral power_increasing_iff upt_add_eq_append le_SucI le_refl ordered_cancel_comm_monoid_diff_class.add_diff_inverse power_increasing)
  moreover have "[k..<n] = k # [Suc k..<n]" using k(1) by (simp add: upt_conv_Cons)
  ultimately show ?case
    using Suc.hyps(1) [of "Suc k"] Suc.hyps(2) Suc.prems half
    by (simp del: of_nat_power map_map power_Suc)
qed

lemma table_linear:
  assumes "xor_linear f" and "T = doubling [0] (map (\<lambda>j. f (of_nat (2 ^ j))) [0..<8])" and "b < 256"
  shows "T ! b = f (of_nat b)"
  using doubling_linear [OF assms(1), of 0 8] assms by (simp add: xor_linear_def)

subsection \<open>The tables are right\<close>

lemma crc_bit_power: "crc_bit (of_nat (2 ^ Suc i)) = of_nat (2 ^ i)" if "Suc i < 32"
proof -
  have "\<not> bit (of_nat (2 ^ Suc i) :: u32) 0" by (simp add: bit_simps)
  moreover have "drop_bit 1 (of_nat (2 ^ Suc i) :: u32) = of_nat (2 ^ i)"
    using that by (intro bit_word_eqI) (auto simp: bit_simps)
  ultimately show ?thesis by (simp add: crc_bit_def del: of_nat_power)
qed

lemma crc_bits_power: "i \<le> n \<Longrightarrow> i < 32 \<Longrightarrow> (crc_bit ^^ n) (of_nat (2 ^ i)) = (crc_bit ^^ (n - i)) 1"
proof (induction i arbitrary: n)
  case 0
  then show ?case by simp
next
  case (Suc i)
  then obtain k where n: "n = Suc k" by (cases n) auto
  have "(crc_bit ^^ n) (of_nat (2 ^ Suc i)) = (crc_bit ^^ k) (of_nat (2 ^ i))"
    using crc_bit_power [of i] Suc.prems(2) by (simp add: n funpow_swap1 del: of_nat_power power_Suc)
  with Suc n show ?case by simp
qed

fun chain :: "nat \<Rightarrow> u32 \<Rightarrow> u32 list" where
  "chain 0 x = []"
| "chain (Suc n) x = x # chain n (crc_bit x)"

lemma length_chain: "length (chain n x) = n"
  by (induction n arbitrary: x) simp_all

lemma chain_nth: "k < n \<Longrightarrow> chain n x ! k = (crc_bit ^^ k) x"
  by (induction n arbitrary: k x) (auto simp: nth_Cons funpow_swap1 split: nat.splits)

text \<open>The register \<open>1\<close> shifted up to 128 times.\<close>

lemma chain_numeral: "chain (numeral k) x = x # chain (pred_numeral k) (crc_bit x)"
  by (simp add: numeral_eq_Suc)

lemma chain_129:
  "chain 129 1 =
     [1, 0x82F63B78, 0x417B1DBC, 0x20BD8EDE, 0x105EC76F, 0x8AD958CF, 0xC79A971F, 0xE13B70F7,
      0xF26B8303, 0xFBC3FAF9, 0xFF17C604, 0x7F8BE302, 0x3FC5F181, 0x9D14C3B8, 0x4E8A61DC,
      0x274530EE, 0x13A29877, 0x8B277743, 0xC76580D9, 0xE144FB14, 0x70A27D8A, 0x38513EC5,
      0x9EDEA41A, 0x4F6F520D, 0xA541927E, 0x52A0C93F, 0xABA65FE7, 0xD725148B, 0xE964B13D,
      0xF64463E6, 0x7B2231F3, 0xBF672381, 0xDD45AAB8, 0x6EA2D55C, 0x37516AAE, 0x1BA8B557,
      0x8F2261D3, 0xC5670B91, 0xE045BEB0, 0x7022DF58, 0x38116FAC, 0x1C08B7D6, 0xE045BEB,
      0x85F4168D, 0xC00C303E, 0x6006181F, 0xB2F53777, 0xDB8CA0C3, 0xEF306B19, 0xF56E0EF4,
      0x7AB7077A, 0x3D5B83BD, 0x9C5BFAA6, 0x4E2DFD53, 0xA5E0C5D1, 0xD0065990, 0x68032CC8,
      0x34019664, 0x1A00CB32, 0xD006599, 0x847609B4, 0x423B04DA, 0x211D826D, 0x9278FA4E,
      0x493C7D27, 0xA66805EB, 0xD1C2398D, 0xEA1727BE, 0x750B93DF, 0xB873F297, 0xDECFC233,
      0xED91DA61, 0xF43ED648, 0x7A1F6B24, 0x3D0FB592, 0x1E87DAC9, 0x8DB5D61C, 0x46DAEB0E,
      0x236D7587, 0x934081BB, 0xCB567BA5, 0xE75D06AA, 0x73AE8355, 0xBB217AD2, 0x5D90BD69,
      0xAC3E65CC, 0x561F32E6, 0x2B0F9973, 0x9771F7C1, 0xC94EC098, 0x64A7604C, 0x3253B026,
      0x1929D813, 0x8E62D771, 0xC5C750C0, 0x62E3A860, 0x3171D430, 0x18B8EA18, 0xC5C750C,
      0x62E3A86, 0x3171D43, 0x837DB5D9, 0xC348E194, 0x61A470CA, 0x30D23865, 0x9A9F274A,
      0x4D4F93A5, 0xA451F2AA, 0x5228F955, 0xABE247D2, 0x55F123E9, 0xA80EAA8C, 0x54075546,
      0x2A03AAA3, 0x97F7EE29, 0xC90DCC6C, 0x6486E636, 0x3243731B, 0x9BD782F5, 0xCF1DFA02,
      0x678EFD01, 0xB13145F8, 0x5898A2FC, 0x2C4C517E, 0x162628BF, 0x89E52F27, 0xC604ACEB,
      0xE1F46D0D, 0xF20C0DFE]"
  by (simp add: chain_numeral crc_bit_def)

lemma byte_table:
  "kByteExtensionTable = doubling [0] [0xF26B8303, 0xE13B70F7, 0xC79A971F, 0x8AD958CF, 0x105EC76F, 0x20BD8EDE, 0x417B1DBC, 0x82F63B78]"
  by (simp add: kByteExtensionTable_def)

lemma stride_table0:
  "kStrideExtensionTable0 = doubling [0] [0x30D23865, 0x61A470CA, 0xC348E194, 0x837DB5D9, 0x3171D43, 0x62E3A86, 0xC5C750C, 0x18B8EA18]"
  by (simp add: kStrideExtensionTable0_def)

lemma stride_table1:
  "kStrideExtensionTable1 = doubling [0] [0x54075546, 0xA80EAA8C, 0x55F123E9, 0xABE247D2, 0x5228F955, 0xA451F2AA, 0x4D4F93A5, 0x9A9F274A]"
  by (simp add: kStrideExtensionTable1_def)

lemma stride_table2:
  "kStrideExtensionTable2 = doubling [0] [0x678EFD01, 0xCF1DFA02, 0x9BD782F5, 0x3243731B, 0x6486E636, 0xC90DCC6C, 0x97F7EE29, 0x2A03AAA3]"
  by (simp add: kStrideExtensionTable2_def)

lemma stride_table3:
  "kStrideExtensionTable3 = doubling [0] [0xF20C0DFE, 0xE1F46D0D, 0xC604ACEB, 0x89E52F27, 0x162628BF, 0x2C4C517E, 0x5898A2FC, 0xB13145F8]"
  by (simp add: kStrideExtensionTable3_def)

lemma table_lookup:
  assumes T: "T = doubling [0] (rev (take 8 (drop (n - 8 * k - 7) (chain 129 1))))"
    and n: "8 * k + 7 \<le> n" "n < 129" "k \<le> 3" and b: "b < 256"
  shows "T ! b = (crc_bit ^^ n) (push_bit (8 * k) (of_nat b))"
proof (rule table_linear [OF linear_push [OF linear_pow [OF linear_crc_bit]] _ b])
  let ?c = "chain 129 1" and ?f = "\<lambda>j. (crc_bit ^^ n) (push_bit (8 * k) (of_nat (2 ^ j)))"
  have f: "?f j = ?c ! (n - (8 * k + j))" if "j < 8" for j
  proof -
    have "push_bit (8 * k) (of_nat (2 ^ j) :: u32) = of_nat (2 ^ (8 * k + j))"
      by (simp add: push_bit_eq_mult power_add)
    with crc_bits_power [of "8 * k + j" n] chain_nth [of "n - (8 * k + j)" 129 1] n that show ?thesis
      by (simp del: of_nat_power push_bit_eq_mult)
  qed
  have len: "length ?c = 129" by (simp add: length_chain)
  have "rev (take 8 (drop (n - 8 * k - 7) ?c)) = map ?f [0..<8]"
  proof (rule nth_equalityI)
    show "length (rev (take 8 (drop (n - 8 * k - 7) ?c))) = length (map ?f [0..<8])" using n len by simp
  next
    fix j assume "j < length (rev (take 8 (drop (n - 8 * k - 7) ?c)))"
    then have j: "j < 8" by simp
    then have "rev (take 8 (drop (n - 8 * k - 7) ?c)) ! j = ?c ! (n - (8 * k + j))"
      using n len by (simp add: rev_nth)
    then show "rev (take 8 (drop (n - 8 * k - 7) ?c)) ! j = map ?f [0..<8] ! j"
      using f [OF j] j by (simp del: upt_rec_numeral)
  qed
  with T show "T = doubling [0] (map ?f [0..<8])" by simp
qed

lemma byte_lookup: "b < 256 \<Longrightarrow> kByteExtensionTable ! b = (crc_bit ^^ 8) (of_nat b)"
  using table_lookup [of kByteExtensionTable 8 0 b] by (simp add: byte_table chain_129 del: doubling.simps)

lemma stride_lookup:
  assumes "b < 256"
  shows "kStrideExtensionTable0 ! b = (crc_bit ^^ 128) (push_bit 24 (of_nat b))"
    and "kStrideExtensionTable1 ! b = (crc_bit ^^ 128) (push_bit 16 (of_nat b))"
    and "kStrideExtensionTable2 ! b = (crc_bit ^^ 128) (push_bit 8 (of_nat b))"
    and "kStrideExtensionTable3 ! b = (crc_bit ^^ 128) (of_nat b)"
  using table_lookup [of kStrideExtensionTable0 128 3 b] table_lookup [of kStrideExtensionTable1 128 2 b]
    table_lookup [of kStrideExtensionTable2 128 1 b] table_lookup [of kStrideExtensionTable3 128 0 b] assms
  by (simp_all add: stride_table0 stride_table1 stride_table2 stride_table3 chain_129
      del: push_bit_eq_mult doubling.simps)

subsection \<open>The steps are right\<close>

lemmas pow_linear = linear_pow [OF linear_crc_bit]

lemma pow_xor: "(crc_bit ^^ n) (x XOR y) = (crc_bit ^^ n) x XOR (crc_bit ^^ n) y"
  using pow_linear [of n] by (simp add: xor_linear_def)

lemma pow_pow: "(crc_bit ^^ m) ((crc_bit ^^ n) x) = (crc_bit ^^ (m + n)) x"
  by (simp add: funpow_add)

lemma pow_shift: "(crc_bit ^^ n) (push_bit n (drop_bit n w)) = drop_bit n w"
proof (induction n arbitrary: w)
  case 0
  then show ?case by simp
next
  case (Suc n)
  have "\<not> bit (push_bit (Suc n) (drop_bit (Suc n) w)) 0"
    by (simp add: bit_push_bit_iff del: push_bit_eq_mult push_bit_Suc)
  moreover have "drop_bit 1 (push_bit (Suc n) (drop_bit (Suc n) w)) = push_bit n (drop_bit n (drop_bit 1 w))"
    by (intro bit_word_eqI)
      (auto simp: bit_simps Suc_le_eq simp del: push_bit_eq_mult push_bit_Suc drop_bit_eq_div drop_bit_Suc dest: bit_imp_le_length)
  ultimately have "crc_bit (push_bit (Suc n) (drop_bit (Suc n) w)) = push_bit n (drop_bit n (drop_bit 1 w))"
    by (simp add: crc_bit_def del: push_bit_eq_mult drop_bit_eq_div push_bit_Suc drop_bit_Suc)
  with Suc.IH [of "drop_bit 1 w"] show ?case
    by (simp add: funpow_swap1 drop_bit_drop_bit del: push_bit_eq_mult drop_bit_eq_div push_bit_Suc drop_bit_Suc)
qed

lemma low_byte_index: "unat (w AND 0xFF :: u32) < 256" "of_nat (unat (w AND 0xFF :: u32)) = w AND 0xFF"
  by (simp, simp only: of_nat_unat ucast_id)

lemma table_step: "drop_bit 8 w XOR kByteExtensionTable ! unat (w AND 0xFF) = (crc_bit ^^ 8) w"
proof -
  have "w = (w AND 0xFF) XOR push_bit 8 (drop_bit 8 w)"
  proof (rule bit_word_eqI)
    fix n assume "n < LENGTH(32)"
    have "bit (0xFF :: u32) n \<longleftrightarrow> n < 8" using bit_mask_iff [of 8 n, where ?'a = "32 word"]
      by (auto simp: mask_eq_exp_minus_1)
    with \<open>n < LENGTH(32)\<close> show "bit w n \<longleftrightarrow> bit ((w AND 0xFF) XOR push_bit 8 (drop_bit 8 w)) n"
      by (auto simp: bit_simps)
  qed
  then have "(crc_bit ^^ 8) w = (crc_bit ^^ 8) (w AND 0xFF) XOR (crc_bit ^^ 8) (push_bit 8 (drop_bit 8 w))"
    using pow_xor by metis
  then show ?thesis
    by (simp only: pow_shift byte_lookup [OF low_byte_index(1)] low_byte_index(2) xor.commute)
qed

lemma bit_FF: "bit (0xFF :: u32) n \<longleftrightarrow> n < 8"
  using bit_mask_iff [of 8 n, where ?'a = "32 word"] by (auto simp: mask_eq_exp_minus_1)

lemma bit_FF_int: "bit (0xFF :: int) n \<longleftrightarrow> n < 8"
  using bit_mask_iff [of 8 n, where ?'a = int] by (simp add: mask_eq_exp_minus_1)

lemma STEP1_byte: "STEP1 l b = crc_byte b l"
proof -
  have "(l AND 0xFF) XOR ucast b = (l XOR ucast b) AND 0xFF"
    by (intro bit_word_eqI) (auto simp: bit_simps bit_FF bit_FF_int dest: bit_imp_le_length)
  moreover have "drop_bit 8 l = drop_bit 8 (l XOR ucast b)"
    by (intro bit_word_eqI) (auto simp: bit_simps dest: bit_imp_le_length)
  ultimately show ?thesis
    using table_step [of "l XOR ucast b"] by (simp only: STEP1_def crc_byte_def xor.commute)
qed

lemma step1_loop_bytes: "step1_loop l p = crc_bytes l p"
  by (induction l p rule: step1_loop.induct) (simp_all add: STEP1_byte crc_bytes_def)

lemma bit_part:
  "bit (push_bit k (drop_bit k c AND 0xFF)) n \<longleftrightarrow> k \<le> n \<and> n < k + 8 \<and> n < 32 \<and> bit (c :: u32) n"
  by (cases "k \<le> n") (auto simp: bit_push_bit_iff bit_drop_bit_eq bit_and_iff bit_FF bit_FF_int dest: bit_imp_le_length
      simp del: push_bit_eq_mult drop_bit_eq_div)

lemma bit_rest: "bit (push_bit k (drop_bit k c)) n \<longleftrightarrow> k \<le> n \<and> bit (c :: u32) n"
  by (cases "k \<le> n") (auto simp: bit_push_bit_iff bit_drop_bit_eq dest: bit_imp_le_length
      simp del: push_bit_eq_mult drop_bit_eq_div)

lemma word_split:
  "c = (c AND 0xFF) XOR push_bit 8 (drop_bit 8 c AND 0xFF) XOR push_bit 16 (drop_bit 16 c AND 0xFF) XOR
     push_bit 24 (drop_bit 24 (c :: u32))"
proof (rule bit_word_eqI)
  fix n assume n: "n < LENGTH(32)"
  consider "n < 8" | "8 \<le> n" "n < 16" | "16 \<le> n" "n < 24" | "24 \<le> n" by linarith
  then show "bit c n \<longleftrightarrow> bit ((c AND 0xFF) XOR push_bit 8 (drop_bit 8 c AND 0xFF) XOR
      push_bit 16 (drop_bit 16 c AND 0xFF) XOR push_bit 24 (drop_bit 24 c)) n"
    using n unfolding bit_xor_iff bit_part bit_rest bit_and_iff bit_FF by cases simp_all
qed

lemma STEP4_pow: "STEP4 c w = w XOR (crc_bit ^^ 128) c"
proof -
  have top: "unat (drop_bit 24 c) < 256" using unat_32 [of c] by (simp add: unat_drop_bit)
  have id: "of_nat (unat x) = (x :: u32)" for x by (simp only: of_nat_unat ucast_id)
  have "(crc_bit ^^ 128) c = (crc_bit ^^ 128) (c AND 0xFF) XOR (crc_bit ^^ 128) (push_bit 8 (drop_bit 8 c AND 0xFF)) XOR
      (crc_bit ^^ 128) (push_bit 16 (drop_bit 16 c AND 0xFF)) XOR (crc_bit ^^ 128) (push_bit 24 (drop_bit 24 c))"
    by (subst word_split) (simp only: pow_xor)
  then show ?thesis
    by (simp only: STEP4_def stride_lookup [OF low_byte_index(1)] stride_lookup [OF top] id xor.assoc)
qed

lemma STEP4W_pow: "STEP4W l w = (crc_bit ^^ 32) (w XOR l)"
proof -
  have "(\<lambda>w. drop_bit 8 w XOR kByteExtensionTable ! unat (w AND 0xFF)) = crc_bit ^^ 8"
    using table_step by (simp only: fun_eq_iff) blast
  moreover have "(crc_bit ^^ 8) ^^ 4 = crc_bit ^^ 32" by (simp add: funpow_mult)
  ultimately show ?thesis by (simp only: STEP4W_def)
qed

text \<open>Up to four bytes at once.\<close>

lemma crc_bytes_word: "length bs \<le> 4 \<Longrightarrow> crc_bytes l bs = (crc_bit ^^ (8 * length bs)) (l XOR le_word bs)"
proof (induction bs arbitrary: l)
  case Nil
  then show ?case by (simp add: crc_bytes_def)
next
  case (Cons b bs)
  let ?w = "le_word bs :: u32"
  have w: "drop_bit 8 (push_bit 8 ?w) = ?w"
    using Cons.prems by (intro bit_word_eqI) (auto simp: bit_simps bit_le_word simp del: push_bit_eq_mult drop_bit_eq_div)
  then have s: "(crc_bit ^^ 8) (push_bit 8 ?w) = ?w" using pow_shift [of 8 "push_bit 8 ?w"] by simp
  have x: "ucast b OR push_bit 8 ?w = ucast b XOR push_bit 8 ?w"
    by (intro bit_word_eqI) (auto simp: bit_simps dest: bit_imp_le_length simp del: push_bit_eq_mult)
  have "crc_bytes l (b # bs) = crc_bytes ((crc_bit ^^ 8) (l XOR ucast b)) bs"
    by (simp add: crc_bytes_def crc_byte_def)
  also have "\<dots> = (crc_bit ^^ (8 * length bs)) ((crc_bit ^^ 8) (l XOR ucast b) XOR (crc_bit ^^ 8) (push_bit 8 ?w))"
    using Cons s by simp
  also have "\<dots> = (crc_bit ^^ (8 * length bs)) ((crc_bit ^^ 8) (l XOR le_word (b # bs)))"
    by (simp only: pow_xor [symmetric] le_word.simps x xor.assoc)
  also have "\<dots> = (crc_bit ^^ (8 * length (b # bs))) (l XOR le_word (b # bs))"
    by (simp add: pow_pow add.commute)
  finally show ?case .
qed

lemma crc_bytes_append: "crc_bytes l (a @ b) = crc_bytes (crc_bytes l a) b"
  by (simp add: crc_bytes_def)

lemma crc_bytes_4:
  "4 \<le> length p \<Longrightarrow> crc_bytes l p = crc_bytes ((crc_bit ^^ 32) (l XOR ReadUint32LE p)) (drop 4 p)"
  using crc_bytes_append [of l "take 4 p" "drop 4 p"] crc_bytes_word [of "take 4 p" l]
  by (simp add: ReadUint32LE_def)

lemma crc_bytes_16:
  "16 \<le> length p \<Longrightarrow> crc_bytes l p =
     crc_bytes ((crc_bit ^^ 32) ((crc_bit ^^ 32) ((crc_bit ^^ 32) ((crc_bit ^^ 32) (l XOR ReadUint32LE p) XOR
       ReadUint32LE (drop 4 p)) XOR ReadUint32LE (drop 8 p)) XOR ReadUint32LE (drop 12 p))) (drop 16 p)"
  by (simp add: crc_bytes_4 [of p] crc_bytes_4 [of "drop 4 p"] crc_bytes_4 [of "drop 8 p"] crc_bytes_4 [of "drop 12 p"])

lemma combine_pow:
  "combine (c0, c1, c2, c3) = (crc_bit ^^ 128) c0 XOR (crc_bit ^^ 96) c1 XOR (crc_bit ^^ 64) c2 XOR (crc_bit ^^ 32) c3"
  by (simp add: combine_def STEP4W_pow pow_xor pow_pow xor.assoc xor.commute xor.left_commute)

lemmas xor_ac = xor.assoc xor.commute xor.left_commute

lemma step16_loop_bytes:
  "step16_loop cs p = (cs', p') \<Longrightarrow> crc_bytes (combine cs') p' = crc_bytes (combine cs) p"
proof (induction cs p rule: step16_loop.induct)
  case (1 c0 c1 c2 c3 p)
  show ?case
  proof (cases "16 \<le> length p")
    case True
    then show ?thesis
      using "1.IH" "1.prems" crc_bytes_16 [OF True, of "combine (c0, c1, c2, c3)"]
      by (simp add: step16_loop.simps [of c0] combine_pow STEP4_pow pow_xor pow_pow xor_ac)
  next
    case False
    with "1.prems" show ?thesis by (simp add: step16_loop.simps [of c0])
  qed
qed

lemma step4_loop_bytes:
  "step4_loop cs p = (cs', p') \<Longrightarrow> crc_bytes (combine cs') p' = crc_bytes (combine cs) p"
proof (induction cs p rule: step4_loop.induct)
  case (1 c0 c1 c2 c3 p)
  show ?case
  proof (cases "4 \<le> length p")
    case True
    then show ?thesis
      using "1.IH" "1.prems" crc_bytes_4 [OF True, of "combine (c0, c1, c2, c3)"]
      by (simp add: step4_loop.simps [of c0] combine_pow STEP4_pow pow_xor pow_pow xor_ac)
  next
    case False
    with "1.prems" show ?thesis by (simp add: step4_loop.simps [of c0])
  qed
qed

subsection \<open>Properties\<close>

lemma xor_all: "x XOR kCRC32Xor = NOT x"
proof -
  have "bit kCRC32Xor n \<longleftrightarrow> n < 32" for n
    using bit_mask_iff [of 32 n, where ?'a = "32 word"] by (simp add: mask_eq_exp_minus_1 kCRC32Xor_def)
  then show ?thesis by (intro bit_word_eqI) (simp add: bit_xor_iff bit_not_iff)
qed

lemma Extend_bitwise: "Extend crc p data = crc32c crc data"
proof -
  let ?l = "NOT crc" and ?k = "RoundUp 4 p - p"
  obtain l1 d1 where d1: "(if ?k \<le> length data then (step1_loop ?l (take ?k data), drop ?k data) else (?l, data)) = (l1, d1)"
    by fastforce
  have e1: "crc_bytes l1 d1 = crc_bytes ?l data"
    using d1 crc_bytes_append [of ?l "take ?k data" "drop ?k data"]
    by (auto simp: step1_loop_bytes split: if_splits)
  let ?cs = "(ReadUint32LE d1 XOR l1, ReadUint32LE (drop 4 d1), ReadUint32LE (drop 8 d1), ReadUint32LE (drop 12 d1))"
  obtain cs2 d2 where d2: "step16_loop ?cs (drop 16 d1) = (cs2, d2)" by fastforce
  obtain cs3 d3 where d3: "step4_loop cs2 d2 = (cs3, d3)" by fastforce
  have "crc_bytes (combine cs3) d3 = crc_bytes l1 d1" if "16 \<le> length d1"
    using step16_loop_bytes [OF d2] step4_loop_bytes [OF d3] crc_bytes_16 [OF that, of l1]
    by (simp add: combine_pow pow_xor pow_pow xor_ac)
  moreover have "\<not> CanAccelerateCRC32C" by (simp add: CanAccelerateCRC32C_def AcceleratedCRC32C_def)
  ultimately show ?thesis
    using d1 d2 d3 e1 by (simp add: Extend_def xor_all Let_def crc32c_def step1_loop_bytes split del: if_split) auto
qed

text \<open>C19. Equivalence: the interleaved, table-driven computation, for data at any address, is the
  bitwise CRC-32C.\<close>

theorem crc_equivalence: "Extend crc p data = crc32c crc data"
  by (rule Extend_bitwise)

subsection \<open>What the log relies on\<close>

lemma Extend_append: "Extend (crc_Value p a) q b = crc_Value r (a @ b)"
  by (simp add: crc_Value_def Extend_bitwise crc32c_def crc_bytes_append)

lemma Unmask_Mask [simp]: "Unmask (Mask crc) = crc"
proof (rule bit_word_eqI)
  fix n assume "n < LENGTH(32)"
  then show "bit (Unmask (Mask crc)) n \<longleftrightarrow> bit crc n"
    by (cases "n < 15") (auto simp: Unmask_def Mask_def Let_def bit_or_iff bit_push_bit_iff bit_drop_bit_eq
        dest: bit_imp_le_length simp del: push_bit_eq_mult drop_bit_eq_div)
qed

end
