(* ===== verification/LdbEnv.thy ===== *)
theory LdbEnv
  imports LdbCoding
begin

section \<open>Status and files of LevelDB (util/status.cc, util/env_posix.cc)\<close>

text \<open>
  \<open>Status\<close>, and the two sequential file classes of the POSIX environment: \<open>PosixWritableFile\<close>
  with its buffer, and \<open>PosixSequentialFile\<close>. The kernel's \<open>write\<close>, \<open>read\<close> and \<open>lseek\<close> are
  a parameter, \<open>os_file\<close>, over a handle of any type that stands for the descriptor and the
  file behind it. The loops that retry on \<open>EINTR\<close> may not end, so the operations are partial
  (None: never returned).

  What a client needs of a file is in two locales, \<open>appendable\<close> and \<open>sequential\<close>; the POSIX
  classes provide them when the kernel keeps its promises (\<open>kernel_file\<close>), and \<open>disk\<close> is a
  kernel that does.
\<close>

subsection \<open>Status\<close>

datatype Code = kOk | kNotFound | kCorruption | kNotSupported | kInvalidArgument | kIOError

text \<open>A null \<open>state_\<close>, or the code and the message.\<close>

datatype Status = OK | Failed Code string

definition make_Status :: "Code \<Rightarrow> string \<Rightarrow> string \<Rightarrow> Status" where
  "make_Status code msg msg2 = Failed code (msg @ (if msg2 \<noteq> [] then '': '' @ msg2 else []))"

definition NotFound where "NotFound msg msg2 = make_Status kNotFound msg msg2"
definition Corruption where "Corruption msg msg2 = make_Status kCorruption msg msg2"
definition NotSupported where "NotSupported msg msg2 = make_Status kNotSupported msg msg2"
definition InvalidArgument where "InvalidArgument msg msg2 = make_Status kInvalidArgument msg msg2"
definition IOError where "IOError msg msg2 = make_Status kIOError msg msg2"

definition status_ok :: "Status \<Rightarrow> bool" where
  "status_ok s \<longleftrightarrow> s = OK"

fun status_code :: "Status \<Rightarrow> Code" where
  "status_code OK = kOk"
| "status_code (Failed c m) = c"

fun status_ToString :: "Status \<Rightarrow> string" where
  "status_ToString OK = ''OK''"
| "status_ToString (Failed c m) =
     (case c of kOk \<Rightarrow> ''OK'' | kNotFound \<Rightarrow> ''NotFound: '' | kCorruption \<Rightarrow> ''Corruption: ''
      | kNotSupported \<Rightarrow> ''Not implemented: '' | kInvalidArgument \<Rightarrow> ''Invalid argument: ''
      | kIOError \<Rightarrow> ''IO error: '') @ m"

lemma status_simps [simp]:
  "status_ok OK" "\<not> status_ok (Failed c m)" "\<not> status_ok (make_Status c msg msg2)"
  "\<not> status_ok (Corruption msg msg2)" "\<not> status_ok (IOError msg msg2)" "\<not> status_ok (NotFound msg msg2)"
  by (simp_all add: status_ok_def make_Status_def Corruption_def IOError_def NotFound_def)

subsection \<open>The kernel\<close>

text \<open>A call gives its result, negative on an error, with \<open>errno\<close>.\<close>

record 'h os_file =
  os_write :: "'h \<Rightarrow> byte list \<Rightarrow> int \<times> int \<times> 'h"
  os_read :: "'h \<Rightarrow> nat \<Rightarrow> int \<times> int \<times> byte list \<times> 'h"
  os_lseek_cur :: "'h \<Rightarrow> nat \<Rightarrow> int \<times> int \<times> 'h"
  os_strerror :: "int \<Rightarrow> string"

definition ENOENT :: int where "ENOENT = 2"
definition EINTR :: int where "EINTR = 4"

definition PosixError :: "'h os_file \<Rightarrow> string \<Rightarrow> int \<Rightarrow> Status" where
  "PosixError os cxt error_number =
     (if error_number = ENOENT then NotFound cxt (os_strerror os error_number)
      else IOError cxt (os_strerror os error_number))"

lemma PosixError_not_ok [simp]: "\<not> status_ok (PosixError os c e)"
  by (simp add: PosixError_def)

subsection \<open>\<open>PosixWritableFile\<close>\<close>

text \<open>\<open>buf_[0, pos_ - 1]\<close>, the descriptor, and the name.\<close>

record 'h posix_writable =
  pw_buf :: "byte list"
  pw_fd :: 'h
  pw_filename :: string

definition kWritableFileBufferSize :: nat where "kWritableFileBufferSize = 65536"

partial_function (option) WriteUnbuffered ::
  "'h os_file \<Rightarrow> string \<Rightarrow> 'h \<Rightarrow> byte list \<Rightarrow> (Status \<times> 'h) option" where
  "WriteUnbuffered os filename fd data =
     (if data = [] then Some (OK, fd)
      else case os_write os fd data of
        (write_result, errno, fd') \<Rightarrow>
          if write_result < 0 then
            if errno = EINTR then WriteUnbuffered os filename fd' data
            else Some (PosixError os filename errno, fd')
          else WriteUnbuffered os filename fd' (drop (nat write_result) data))"

definition FlushBuffer :: "'h os_file \<Rightarrow> 'h posix_writable \<Rightarrow> (Status \<times> 'h posix_writable) option" where
  "FlushBuffer os f = do {
     (status, fd) \<leftarrow> WriteUnbuffered os (pw_filename f) (pw_fd f) (pw_buf f);
     Some (status, f\<lparr>pw_fd := fd, pw_buf := []\<rparr>)
   }"

definition posix_Append :: "'h os_file \<Rightarrow> 'h posix_writable \<Rightarrow> byte list \<Rightarrow> (Status \<times> 'h posix_writable) option" where
  "posix_Append os f data =
     (let copy_size = min (length data) (kWritableFileBufferSize - length (pw_buf f));
          f1 = f\<lparr>pw_buf := pw_buf f @ take copy_size data\<rparr>;
          rest = drop copy_size data
      in if rest = [] then Some (OK, f1)
         else do {
           (status, f2) \<leftarrow> FlushBuffer os f1;
           if \<not> status_ok status then Some (status, f2)
           else if length rest < kWritableFileBufferSize then Some (OK, f2\<lparr>pw_buf := rest\<rparr>)
           else do {
             (status, fd) \<leftarrow> WriteUnbuffered os (pw_filename f2) (pw_fd f2) rest;
             Some (status, f2\<lparr>pw_fd := fd\<rparr>)
           }
         })"

definition posix_Flush :: "'h os_file \<Rightarrow> 'h posix_writable \<Rightarrow> (Status \<times> 'h posix_writable) option" where
  "posix_Flush os f = FlushBuffer os f"

subsection \<open>\<open>PosixSequentialFile\<close>\<close>

record 'h posix_sequential =
  ps_fd :: 'h
  ps_filename :: string

text \<open>The status, the bytes in \<open>result\<close>, which a failing read leaves alone, and the file.\<close>

partial_function (option) posix_Read ::
  "'h os_file \<Rightarrow> 'h posix_sequential \<Rightarrow> nat \<Rightarrow> byte list \<Rightarrow> (Status \<times> byte list \<times> 'h posix_sequential) option" where
  "posix_Read os f n result =
     (case os_read os (ps_fd f) n of
        (read_size, errno, bytes, fd) \<Rightarrow>
          if read_size < 0 then
            if errno = EINTR then posix_Read os (f\<lparr>ps_fd := fd\<rparr>) n result
            else Some (PosixError os (ps_filename f) errno, result, f\<lparr>ps_fd := fd\<rparr>)
          else Some (OK, bytes, f\<lparr>ps_fd := fd\<rparr>))"

definition posix_Skip :: "'h os_file \<Rightarrow> 'h posix_sequential \<Rightarrow> nat \<Rightarrow> (Status \<times> 'h posix_sequential) option" where
  "posix_Skip os f n =
     (case os_lseek_cur os (ps_fd f) n of
        (r, errno, fd) \<Rightarrow>
          if r = - 1 then Some (PosixError os (ps_filename f) errno, f\<lparr>ps_fd := fd\<rparr>)
          else Some (OK, f\<lparr>ps_fd := fd\<rparr>))"

subsection \<open>The interfaces\<close>

text \<open>The virtual functions of \<open>WritableFile\<close> and \<open>SequentialFile\<close> that the clients call.\<close>

record 'f writable_file =
  wf_append :: "'f \<Rightarrow> byte list \<Rightarrow> (Status \<times> 'f) option"
  wf_flush :: "'f \<Rightarrow> (Status \<times> 'f) option"

record 'f sequential_file =
  sf_read :: "'f \<Rightarrow> nat \<Rightarrow> byte list \<Rightarrow> (Status \<times> byte list \<times> 'f) option"
  sf_skip :: "'f \<Rightarrow> nat \<Rightarrow> (Status \<times> 'f) option"

definition posix_writable_file :: "'h os_file \<Rightarrow> 'h posix_writable writable_file" where
  "posix_writable_file os = \<lparr>wf_append = posix_Append os, wf_flush = posix_Flush os\<rparr>"

definition posix_sequential_file :: "'h os_file \<Rightarrow> 'h posix_sequential sequential_file" where
  "posix_sequential_file os = \<lparr>sf_read = posix_Read os, sf_skip = posix_Skip os\<rparr>"

text \<open>\<open>contents\<close>: what has been appended, in the file or still in a buffer.\<close>

locale appendable =
  fixes w :: "'f writable_file" and contents :: "'f \<Rightarrow> byte list"
  assumes append_ok: "wf_append w f data = Some (s, f') \<Longrightarrow> status_ok s \<Longrightarrow> contents f' = contents f @ data"
    and flush_ok: "wf_flush w f = Some (s, f') \<Longrightarrow> status_ok s \<Longrightarrow> contents f' = contents f"

text \<open>\<open>rest\<close>: what has not been read yet. A read gives as much as there is.\<close>

locale sequential =
  fixes q :: "'f sequential_file" and rest :: "'f \<Rightarrow> byte list"
  assumes read_full: "\<exists>f'. sf_read q f n r = Some (OK, take n (rest f), f') \<and> rest f' = drop n (rest f)"

text \<open>What the kernel promises for a regular file: \<open>write\<close> appends a prefix of the data and says
  how long it was, \<open>read\<close> returns what there is up to the requested size.\<close>

locale kernel_file =
  fixes os :: "'h os_file" and written :: "'h \<Rightarrow> byte list" and unread :: "'h \<Rightarrow> byte list"
  assumes write_prefix: "os_write os h data = (n, e, h') \<Longrightarrow> 0 \<le> n \<Longrightarrow>
      written h' = written h @ take (nat n) data"
    and write_error: "os_write os h data = (n, e, h') \<Longrightarrow> n < 0 \<Longrightarrow> written h' = written h"
    and read_available: "os_read os h k = (n, e, bytes, h') \<Longrightarrow>
      0 \<le> n \<and> bytes = take k (unread h) \<and> unread h' = drop k (unread h)"
begin

lemma write_unbuffered:
  assumes ret: "WriteUnbuffered os name h data = Some (s, h')" and ok: "status_ok s"
  shows "written h' = written h @ data"
proof -
  let ?P = "\<lambda>os' name h data r. os' = os \<longrightarrow> status_ok (fst r) \<longrightarrow> written (snd r) = written h @ data"
  have "?P os name h data (s, h')"
  proof (rule WriteUnbuffered.raw_induct [where P = ?P, OF _ ret])
    fix W os' name h data r
    assume IH: "\<And>os' name h data r. W os' name h data = Some r \<Longrightarrow> ?P os' name h data r"
      and eq: "(if data = [] then Some (OK, h)
        else case os_write os' h data of
          (write_result, errno, fd') \<Rightarrow>
            if write_result < 0 then
              if errno = EINTR then W os' name fd' data else Some (PosixError os' name errno, fd')
            else W os' name fd' (drop (nat write_result) data)) = Some r"
    show "?P os' name h data r"
    proof (intro impI)
      assume os': "os' = os" and ok: "status_ok (fst r)"
      show "written (snd r) = written h @ data"
      proof (cases "data = []")
        case True
        then show ?thesis using eq by auto
      next
        case False
        obtain n e h' where w: "os_write os h data = (n, e, h')" by (cases "os_write os h data") auto
        show ?thesis
        proof (cases "n < 0")
          case True
          then have "W os name h' data = Some r" using eq ok w False os' by (auto split: if_splits)
          from IH [OF this] show ?thesis using write_error [OF w True] ok by simp
        next
          case nonneg: False
          then have "W os name h' (drop (nat n) data) = Some r" using eq w False os' by auto
          from IH [OF this] show ?thesis using write_prefix [OF w] nonneg ok by simp
        qed
      qed
    qed
  qed
  with ok show ?thesis by simp
qed

definition buffered :: "'h posix_writable \<Rightarrow> byte list" where
  "buffered f = written (pw_fd f) @ pw_buf f"

definition remaining :: "'h posix_sequential \<Rightarrow> byte list" where
  "remaining f = unread (ps_fd f)"

lemma flush_buffer:
  "FlushBuffer os f = Some (s, f') \<Longrightarrow> status_ok s \<Longrightarrow> buffered f' = buffered f \<and> pw_buf f' = []"
  by (auto simp: FlushBuffer_def buffered_def bind_eq_Some_conv write_unbuffered)

lemma append_buffered:
  assumes "posix_Append os f data = Some (s, f')" and "status_ok s"
  shows "buffered f' = buffered f @ data"
proof -
  let ?k = "min (length data) (kWritableFileBufferSize - length (pw_buf f))"
  let ?f1 = "f\<lparr>pw_buf := pw_buf f @ take ?k data\<rparr>"
  have f1: "buffered ?f1 @ drop ?k data = buffered f @ data" by (simp add: buffered_def)
  show ?thesis
  proof (cases "drop ?k data = []")
    case True
    with assms f1 show ?thesis by (auto simp: posix_Append_def Let_def)
  next
    case False
    then obtain s2 f2 where f2: "FlushBuffer os ?f1 = Some (s2, f2)"
      using assms(1) by (auto simp: posix_Append_def Let_def bind_eq_Some_conv)
    have ok: "status_ok s2" using assms f2 False by (auto simp: posix_Append_def Let_def split: if_splits)
    note fl = flush_buffer [OF f2 ok]
    then have w2: "written (pw_fd f2) = buffered ?f1" by (auto simp: buffered_def)
    show ?thesis
    proof (cases "length (drop ?k data) < kWritableFileBufferSize")
      case True
      with assms f2 False ok w2 f1 show ?thesis
        by (auto simp: posix_Append_def Let_def buffered_def split: if_splits)
    next
      case big: False
      then obtain fd where "WriteUnbuffered os (pw_filename f2) (pw_fd f2) (drop ?k data) = Some (s, fd)"
        "f' = f2\<lparr>pw_fd := fd\<rparr>"
        using assms(1) f2 False ok by (auto simp: posix_Append_def Let_def bind_eq_Some_conv)
      with write_unbuffered [OF this(1) assms(2)] w2 f1 fl show ?thesis by (simp add: buffered_def)
    qed
  qed
qed

lemma read_remaining:
  "\<exists>f'. posix_Read os f n r = Some (OK, take n (remaining f), f') \<and> remaining f' = drop n (remaining f)"
proof -
  obtain k e bs h where r: "os_read os (ps_fd f) n = (k, e, bs, h)" by (cases "os_read os (ps_fd f) n") auto
  from read_available [OF r] r show ?thesis
    by (subst posix_Read.simps) (simp add: remaining_def)
qed

end

text \<open>The POSIX classes keep their contracts over such a kernel.\<close>

sublocale kernel_file \<subseteq> posix_out: appendable "posix_writable_file os" buffered
proof
  show "buffered f' = buffered f @ data"
    if "wf_append (posix_writable_file os) f data = Some (s, f')" "status_ok s" for f data s f'
    using append_buffered that by (simp add: posix_writable_file_def)
  show "buffered f' = buffered f"
    if "wf_flush (posix_writable_file os) f = Some (s, f')" "status_ok s" for f s f'
    using flush_buffer that by (simp add: posix_writable_file_def posix_Flush_def)
qed

sublocale kernel_file \<subseteq> posix_in: sequential "posix_sequential_file os" remaining
  by unfold_locales (simp add: posix_sequential_file_def read_remaining)

subsection \<open>A kernel\<close>

text \<open>A file as its bytes and the offset of the descriptor, written at the end; at most 4096 bytes
  are taken by one \<open>write\<close>.\<close>

definition disk :: "(byte list \<times> nat) os_file" where
  "disk = \<lparr>os_write = (\<lambda>(bs, p) data. (int (min 4096 (length data)), 0, bs @ take 4096 data, p)),
           os_read = (\<lambda>(bs, p) n. (int (length (take n (drop p bs))), 0, take n (drop p bs), bs, p + n)),
           os_lseek_cur = (\<lambda>(bs, p) n. (int (p + n), 0, bs, p + n)),
           os_strerror = (\<lambda>e. ''error'')\<rparr>"

definition disk_rest :: "byte list \<times> nat \<Rightarrow> byte list" where
  "disk_rest h = drop (snd h) (fst h)"

interpretation disk: kernel_file disk fst disk_rest
  by unfold_locales (auto simp: disk_def disk_rest_def min_def take_map drop_drop add.commute)

end
