(* ===== verification/LdbLog.thy ===== *)
theory LdbLog
  imports LdbCrc LdbEnv
begin

section \<open>The log of LevelDB (db/log_format.h, db/log_writer.cc, db/log_reader.cc)\<close>

text \<open>
  A log is a sequence of blocks of 32768 bytes. The writer cuts a record into fragments that
  do not cross a block, each behind a header with checksum, length and type; a tail of a block
  too short for a header is filled with zeros. The writer appends to any \<open>writable_file\<close>, the
  reader reads from any \<open>sequential_file\<close>; both are those of \<open>LdbEnv\<close>, so an operation is
  partial where the file's is. Offsets of the reader are 64-bit words. The address of a buffer,
  on which a checksum does not depend, is 0.
\<close>

subsection \<open>db/log_format.h\<close>

datatype RecordType = kZeroType | kFullType | kFirstType | kMiddleType | kLastType

fun type_value :: "RecordType \<Rightarrow> nat" where
  "type_value kZeroType = 0"
| "type_value kFullType = 1"
| "type_value kFirstType = 2"
| "type_value kMiddleType = 3"
| "type_value kLastType = 4"

definition kMaxRecordType :: nat where "kMaxRecordType = type_value kLastType"
definition kBlockSize :: nat where "kBlockSize = 32768"
definition kHeaderSize :: nat where "kHeaderSize = 4 + 2 + 1"

subsection \<open>The writer\<close>

record 'f log_writer =
  lw_dest :: 'f
  lw_block_offset :: nat
  lw_type_crc :: "u32 list"

definition InitTypeCrc :: "u32 list" where
  "InitTypeCrc = map (\<lambda>i. crc_Value 0 [of_nat i]) [0 ..< kMaxRecordType + 1]"

definition log_Writer :: "'f \<Rightarrow> 'f log_writer" where
  "log_Writer dest = \<lparr>lw_dest = dest, lw_block_offset = 0, lw_type_crc = InitTypeCrc\<rparr>"

definition log_Writer_at :: "'f \<Rightarrow> u64 \<Rightarrow> 'f log_writer" where
  "log_Writer_at dest dest_length =
     \<lparr>lw_dest = dest, lw_block_offset = unat (dest_length mod of_nat kBlockSize),
      lw_type_crc = InitTypeCrc\<rparr>"

definition log_header :: "u32 list \<Rightarrow> RecordType \<Rightarrow> byte list \<Rightarrow> byte list" where
  "log_header type_crc t data =
     EncodeFixed32 (Mask (Extend (type_crc ! type_value t) 0 data)) @
     [of_nat (length data) AND 0xff, of_nat (length data div 256), of_nat (type_value t)]"

text \<open>None when an assertion fails or the file does not return.\<close>

definition EmitPhysicalRecord ::
  "'f writable_file \<Rightarrow> 'f log_writer \<Rightarrow> RecordType \<Rightarrow> byte list \<Rightarrow> (Status \<times> 'f log_writer) option" where
  "EmitPhysicalRecord w lw t data =
     (if \<not> (length data \<le> 0xffff \<and> lw_block_offset lw + kHeaderSize + length data \<le> kBlockSize) then None
      else do {
        (s1, d1) \<leftarrow> wf_append w (lw_dest lw) (log_header (lw_type_crc lw) t data);
        (s, d) \<leftarrow> (if status_ok s1 then do {
            (s2, d2) \<leftarrow> wf_append w d1 data;
            if status_ok s2 then wf_flush w d2 else Some (s2, d2)
          } else Some (s1, d1));
        Some (s, lw\<lparr>lw_dest := d, lw_block_offset := lw_block_offset lw + (kHeaderSize + length data)\<rparr>)
      })"

text \<open>One iteration of the loop: status, writer, and what is left of the record.\<close>

definition new_block :: "'f writable_file \<Rightarrow> 'f log_writer \<Rightarrow> 'f log_writer option" where
  "new_block w lw =
     (let leftover = kBlockSize - lw_block_offset lw
      in if leftover < kHeaderSize then
           (if leftover > 0 then do {
              (s, d) \<leftarrow> wf_append w (lw_dest lw) (take leftover [0, 0, 0, 0, 0, 0]);
              Some (lw\<lparr>lw_dest := d, lw_block_offset := 0\<rparr>)
            } else Some (lw\<lparr>lw_block_offset := 0\<rparr>))
         else Some lw)"

definition fragment_type :: "bool \<Rightarrow> bool \<Rightarrow> RecordType" where
  "fragment_type is_begin is_end =
     (if is_begin \<and> is_end then kFullType else if is_begin then kFirstType else if is_end then kLastType
      else kMiddleType)"

definition add_fragment ::
  "'f writable_file \<Rightarrow> 'f log_writer \<Rightarrow> byte list \<Rightarrow> bool \<Rightarrow> (Status \<times> 'f log_writer \<times> byte list) option" where
  "add_fragment w lw data is_begin =
     (if lw_block_offset lw > kBlockSize then None
      else do {
        lw1 \<leftarrow> new_block w lw;
        let avail = kBlockSize - lw_block_offset lw1 - kHeaderSize;
        let fragment_length = (if length data < avail then length data else avail);
        let is_end = (length data = fragment_length);
        (s, lw2) \<leftarrow> EmitPhysicalRecord w lw1 (fragment_type is_begin is_end) (take fragment_length data);
        Some (s, lw2, drop fragment_length data)
      })"

lemma new_block_offset:
  "new_block w lw = Some lw1 \<Longrightarrow>
     lw_block_offset lw1 = (if kBlockSize - lw_block_offset lw < kHeaderSize then 0 else lw_block_offset lw)"
  by (auto simp: new_block_def Let_def bind_eq_Some_conv split: if_splits)

lemma emit_offset:
  "EmitPhysicalRecord w lw t data = Some (s, lw') \<Longrightarrow>
     lw_block_offset lw' = lw_block_offset lw + (kHeaderSize + length data) \<and>
     lw_block_offset lw' \<le> kBlockSize \<and> lw_type_crc lw' = lw_type_crc lw"
  by (auto simp: EmitPhysicalRecord_def bind_eq_Some_conv split: if_splits)

lemma add_fragment_less:
  assumes "add_fragment w lw data is_begin = Some (s, lw2, rest)" "rest \<noteq> []"
  shows "length rest < length data \<or>
    length rest = length data \<and> kBlockSize - lw_block_offset lw2 < kBlockSize - lw_block_offset lw"
proof -
  obtain lw1 where lw1: "new_block w lw = Some lw1"
    and rest: "rest = drop (kBlockSize - lw_block_offset lw1 - kHeaderSize) data"
    and emit: "EmitPhysicalRecord w lw1 (fragment_type is_begin False)
      (take (kBlockSize - lw_block_offset lw1 - kHeaderSize) data) = Some (s, lw2)"
    and more: "kBlockSize - lw_block_offset lw1 - kHeaderSize < length data"
    using assms by (auto simp: add_fragment_def Let_def bind_eq_Some_conv split: if_splits)
  show ?thesis
    using new_block_offset [OF lw1] emit_offset [OF emit] more
    by (auto simp: rest kBlockSize_def kHeaderSize_def split: if_splits)
qed

function add_loop ::
  "'f writable_file \<Rightarrow> 'f log_writer \<Rightarrow> byte list \<Rightarrow> bool \<Rightarrow> (Status \<times> 'f log_writer) option" where
  "add_loop w lw data is_begin =
     (case add_fragment w lw data is_begin of
        None \<Rightarrow> None
      | Some (s, lw2, rest) \<Rightarrow>
          if status_ok s \<and> rest \<noteq> [] then add_loop w lw2 rest False else Some (s, lw2))"
  by pat_completeness auto
termination
  by (relation "measures [\<lambda>(w, lw, data, b). length data, \<lambda>(w, lw, data, b). kBlockSize - lw_block_offset lw]")
    (auto dest: add_fragment_less)

declare add_loop.simps [simp del]

definition AddRecord :: "'f writable_file \<Rightarrow> 'f log_writer \<Rightarrow> byte list \<Rightarrow> (Status \<times> 'f log_writer) option" where
  "AddRecord w lw data = add_loop w lw data True"

subsection \<open>The reader\<close>

text \<open>What the reporter has been told, newest last, and whether there is one.\<close>

record 'f log_reader =
  lr_file :: 'f
  lr_has_reporter :: bool
  lr_reports :: "(u64 \<times> Status) list"
  lr_checksum :: bool
  lr_buffer :: "byte list"
  lr_eof :: bool
  lr_last_record_offset :: u64
  lr_end_of_buffer_offset :: u64
  lr_initial_offset :: u64
  lr_resyncing :: bool

definition log_Reader :: "'f \<Rightarrow> bool \<Rightarrow> bool \<Rightarrow> u64 \<Rightarrow> 'f log_reader" where
  "log_Reader file has_reporter checksum initial_offset =
     \<lparr>lr_file = file, lr_has_reporter = has_reporter, lr_reports = [], lr_checksum = checksum,
      lr_buffer = [], lr_eof = False, lr_last_record_offset = 0, lr_end_of_buffer_offset = 0,
      lr_initial_offset = initial_offset, lr_resyncing = (initial_offset > 0)\<rparr>"

definition kEof :: u32 where "kEof = of_nat kMaxRecordType + 1"
definition kBadRecord :: u32 where "kBadRecord = of_nat kMaxRecordType + 2"

definition record_code :: "RecordType \<Rightarrow> u32" where
  "record_code t = of_nat (type_value t)"

definition buffer_size :: "'f log_reader \<Rightarrow> u64" where
  "buffer_size r = of_nat (length (lr_buffer r))"

text \<open>\<open>%u\<close>.\<close>

fun decimal :: "nat \<Rightarrow> string" where
  "decimal n = (if n < 10 then [] else decimal (n div 10)) @ [char_of (48 + n mod 10)]"

declare decimal.simps [simp del]

definition ReportDrop :: "'f log_reader \<Rightarrow> u64 \<Rightarrow> Status \<Rightarrow> 'f log_reader" where
  "ReportDrop r bytes reason =
     (if lr_has_reporter r \<and> lr_end_of_buffer_offset r - buffer_size r - bytes \<ge> lr_initial_offset r
      then r\<lparr>lr_reports := lr_reports r @ [(bytes, reason)]\<rparr> else r)"

definition ReportCorruption :: "'f log_reader \<Rightarrow> u64 \<Rightarrow> string \<Rightarrow> 'f log_reader" where
  "ReportCorruption r bytes reason = ReportDrop r bytes (Corruption reason [])"

definition LastRecordOffset :: "'f log_reader \<Rightarrow> u64" where
  "LastRecordOffset r = lr_last_record_offset r"

definition SkipToInitialBlock :: "'f sequential_file \<Rightarrow> 'f log_reader \<Rightarrow> (bool \<times> 'f log_reader) option" where
  "SkipToInitialBlock q r =
     (let offset_in_block = lr_initial_offset r mod of_nat kBlockSize;
          start = lr_initial_offset r - offset_in_block;
          block_start_location = (if offset_in_block > of_nat kBlockSize - 6 then start + of_nat kBlockSize else start);
          r1 = r\<lparr>lr_end_of_buffer_offset := block_start_location\<rparr>
      in if block_start_location > 0 then do {
           (skip_status, f) \<leftarrow> sf_skip q (lr_file r1) (unat block_start_location);
           let r2 = r1\<lparr>lr_file := f\<rparr>;
           if \<not> status_ok skip_status then Some (False, ReportDrop r2 block_start_location skip_status)
           else Some (True, r2)
         } else Some (True, r1))"

text \<open>The part of \<open>ReadPhysicalRecord\<close> behind the refill: the type, the slice \<open>*result\<close>, which
  most errors leave alone, and the reader.\<close>

definition parse_record :: "'f log_reader \<Rightarrow> byte list \<Rightarrow> u32 \<times> byte list \<times> 'f log_reader" where
  "parse_record r result =
     (let header = lr_buffer r;
          a = (scast (header ! 4) :: u32) AND 0xff;
          b = (scast (header ! 5) :: u32) AND 0xff;
          type = (scast (header ! 6) :: u32);
          len = unat (a OR push_bit 8 b)
      in if kHeaderSize + len > length (lr_buffer r) then
           let drop_size = buffer_size r; r1 = r\<lparr>lr_buffer := []\<rparr>
           in if \<not> lr_eof r1 then (kBadRecord, result, ReportCorruption r1 drop_size ''bad record length'')
              else (kEof, result, r1)
         else if type = record_code kZeroType \<and> len = 0 then (kBadRecord, result, r\<lparr>lr_buffer := []\<rparr>)
         else if lr_checksum r \<and>
             crc_Value 0 (take (1 + len) (drop 6 header)) \<noteq> Unmask (the (DecodeFixed32 header)) then
           let drop_size = buffer_size r; r1 = r\<lparr>lr_buffer := []\<rparr>
           in (kBadRecord, result, ReportCorruption r1 drop_size ''checksum mismatch'')
         else
           let r1 = r\<lparr>lr_buffer := remove_prefix (kHeaderSize + len) (lr_buffer r)\<rparr>
           in if lr_end_of_buffer_offset r1 - buffer_size r1 - of_nat kHeaderSize - of_nat len
                 < lr_initial_offset r1
              then (kBadRecord, [], r1)
              else (type, take len (drop kHeaderSize header), r1))"

function ReadPhysicalRecord ::
  "'f sequential_file \<Rightarrow> 'f log_reader \<Rightarrow> byte list \<Rightarrow> (u32 \<times> byte list \<times> 'f log_reader) option" where
  "ReadPhysicalRecord q r result =
     (if length (lr_buffer r) < kHeaderSize then
        if \<not> lr_eof r then
          (case sf_read q (lr_file r) kBlockSize [] of
             None \<Rightarrow> None
           | Some (status, bytes, f) \<Rightarrow>
               let r1 = r\<lparr>lr_file := f, lr_buffer := bytes,
                    lr_end_of_buffer_offset := lr_end_of_buffer_offset r + of_nat (length bytes)\<rparr>
               in if \<not> status_ok status then
                    Some (kEof, result,
                      (ReportDrop (r1\<lparr>lr_buffer := []\<rparr>) (of_nat kBlockSize) status)\<lparr>lr_eof := True\<rparr>)
                  else if length bytes < kBlockSize then ReadPhysicalRecord q (r1\<lparr>lr_eof := True\<rparr>) result
                  else ReadPhysicalRecord q r1 result)
        else Some (kEof, result, r\<lparr>lr_buffer := []\<rparr>)
      else Some (parse_record r result))"
  by pat_completeness auto
termination
  by (relation "measure (\<lambda>(q, r, result).
        if kHeaderSize \<le> length (lr_buffer r) then 0 else if lr_eof r then 1 else 2)")
    (auto simp: kHeaderSize_def kBlockSize_def)

declare ReadPhysicalRecord.simps [simp del]

text \<open>One pass of the loop of \<open>ReadRecord\<close>, over its locals: either the call returns, with flag,
  record and scratch, or the loop goes on.\<close>

record record_locals =
  rl_scratch :: "byte list"
  rl_in_fragmented_record :: bool
  rl_prospective_record_offset :: u64
  rl_fragment :: "byte list"

datatype 'f record_step = Return bool "byte list" "byte list" "'f log_reader" | Continue record_locals "'f log_reader"

definition record_switch :: "u32 \<Rightarrow> u64 \<Rightarrow> record_locals \<Rightarrow> 'f log_reader \<Rightarrow> 'f record_step" where
  "record_switch record_type physical_record_offset l r =
     (let fragment = rl_fragment l; scratch = rl_scratch l;
          scratch_size = (of_nat (length scratch) :: u64)
      in if record_type = record_code kFullType then
           let r1 = (if rl_in_fragmented_record l \<and> scratch \<noteq> []
                     then ReportCorruption r scratch_size ''partial record without end(1)'' else r)
           in Return True fragment [] (r1\<lparr>lr_last_record_offset := physical_record_offset\<rparr>)
         else if record_type = record_code kFirstType then
           let r1 = (if rl_in_fragmented_record l \<and> scratch \<noteq> []
                     then ReportCorruption r scratch_size ''partial record without end(2)'' else r)
           in Continue (l\<lparr>rl_prospective_record_offset := physical_record_offset, rl_scratch := fragment,
                rl_in_fragmented_record := True\<rparr>) r1
         else if record_type = record_code kMiddleType then
           if \<not> rl_in_fragmented_record l then
             Continue l (ReportCorruption r (of_nat (length fragment)) ''missing start of fragmented record(1)'')
           else Continue (l\<lparr>rl_scratch := scratch @ fragment\<rparr>) r
         else if record_type = record_code kLastType then
           if \<not> rl_in_fragmented_record l then
             Continue l (ReportCorruption r (of_nat (length fragment)) ''missing start of fragmented record(2)'')
           else Return True (scratch @ fragment) (scratch @ fragment)
                  (r\<lparr>lr_last_record_offset := rl_prospective_record_offset l\<rparr>)
         else if record_type = kEof then
           Return False [] (if rl_in_fragmented_record l then [] else scratch) r
         else if record_type = kBadRecord then
           if rl_in_fragmented_record l then
             Continue (l\<lparr>rl_in_fragmented_record := False, rl_scratch := []\<rparr>)
               (ReportCorruption r scratch_size ''error in middle of record'')
           else Continue l r
         else
           Continue (l\<lparr>rl_in_fragmented_record := False, rl_scratch := []\<rparr>)
             (ReportCorruption r
               (of_nat (length fragment) + (if rl_in_fragmented_record l then scratch_size else 0))
               (''unknown record type '' @ decimal (unat record_type))))"

definition record_pass :: "'f sequential_file \<Rightarrow> record_locals \<Rightarrow> 'f log_reader \<Rightarrow> 'f record_step option" where
  "record_pass q l r = do {
     (record_type, fragment, r1) \<leftarrow> ReadPhysicalRecord q r (rl_fragment l);
     let l1 = l\<lparr>rl_fragment := fragment\<rparr>;
     let physical_record_offset = lr_end_of_buffer_offset r1 - buffer_size r1 - of_nat kHeaderSize
           - of_nat (length fragment);
     if lr_resyncing r1 \<and> record_type = record_code kMiddleType then Some (Continue l1 r1)
     else if lr_resyncing r1 \<and> record_type = record_code kLastType
       then Some (Continue l1 (r1\<lparr>lr_resyncing := False\<rparr>))
     else Some (record_switch record_type physical_record_offset l1 (r1\<lparr>lr_resyncing := False\<rparr>))
   }"

partial_function (option) record_loop ::
  "'f sequential_file \<Rightarrow> record_locals \<Rightarrow> 'f log_reader \<Rightarrow> (bool \<times> byte list \<times> byte list \<times> 'f log_reader) option" where
  "record_loop q l r =
     (case record_pass q l r of
        None \<Rightarrow> None
      | Some (Return ok record scratch r1) \<Rightarrow> Some (ok, record, scratch, r1)
      | Some (Continue l1 r1) \<Rightarrow> record_loop q l1 r1)"

definition ReadRecord ::
  "'f sequential_file \<Rightarrow> 'f log_reader \<Rightarrow> byte list \<Rightarrow> byte list \<Rightarrow>
   (bool \<times> byte list \<times> byte list \<times> 'f log_reader) option" where
  "ReadRecord q r record scratch = do {
     (ok, r1) \<leftarrow> (if lr_last_record_offset r < lr_initial_offset r then SkipToInitialBlock q r else Some (True, r));
     if \<not> ok then Some (False, record, scratch, r1)
     else record_loop q \<lparr>rl_scratch = [], rl_in_fragmented_record = False,
            rl_prospective_record_offset = 0, rl_fragment = []\<rparr> r1
   }"

end
