(* ===== verification/LdbLogProps.thy ===== *)
theory LdbLogProps
  imports LdbLog "HOL-Library.Sublist"
begin

section \<open>What a log gives back\<close>

text \<open>
  A relation describes the bytes of a record in the log from a given offset in the block. The
  writer, over any file that appends (\<open>log_dest\<close>), adds such bytes; the reader, over any file that
  reads in full (\<open>sequential\<close>), turns them into the record, and takes any proper prefix of them
  for the end of the log. Both contracts are those of the POSIX files.

  Shown: after successful calls of \<open>AddRecord\<close> the reader returns the records, in order, and
  then reports the end; a log cut anywhere inside its last record loses this record and no
  other, and no corruption is reported. On any bytes at all \<open>ReadRecord\<close> returns, and every
  record costs at least the seven bytes of a header.
\<close>

subsection \<open>The bytes of a record\<close>

definition physical :: "RecordType \<Rightarrow> byte list \<Rightarrow> byte list" where
  "physical t d =
     EncodeFixed32 (Mask (crc_Value 0 (of_nat (type_value t) # d))) @
     [of_nat (length d) AND 0xff, of_nat (length d div 256), of_nat (type_value t)] @ d"

definition start_offset :: "nat \<Rightarrow> nat" where
  "start_offset o1 = (if kBlockSize - o1 < kHeaderSize then 0 else o1)"

definition trailer :: "nat \<Rightarrow> byte list" where
  "trailer o1 = (if kBlockSize - o1 < kHeaderSize then replicate (kBlockSize - o1) 0 else [])"

inductive log_record :: "nat \<Rightarrow> bool \<Rightarrow> byte list \<Rightarrow> byte list \<Rightarrow> nat \<Rightarrow> bool" where
  log_end: "start_offset o1 + kHeaderSize + length d \<le> kBlockSize \<Longrightarrow> o1 \<le> kBlockSize \<Longrightarrow>
    log_record o1 b d (trailer o1 @ physical (fragment_type b True) d) (start_offset o1 + kHeaderSize + length d)"
| log_more: "start_offset o1 + kHeaderSize + length d1 = kBlockSize \<Longrightarrow> o1 \<le> kBlockSize \<Longrightarrow>
    log_record kBlockSize False d2 bs o2 \<Longrightarrow>
    log_record o1 b (d1 @ d2) (trailer o1 @ physical (fragment_type b False) d1 @ bs) o2"

inductive log_records :: "nat \<Rightarrow> byte list list \<Rightarrow> byte list \<Rightarrow> nat \<Rightarrow> bool" where
  log_none: "log_records o1 [] [] o1"
| log_some: "log_record o1 True d bs o2 \<Longrightarrow> log_records o2 ds bs' o3 \<Longrightarrow>
    log_records o1 (d # ds) (bs @ bs') o3"

lemma length_physical [simp]: "length (physical t d) = kHeaderSize + length d"
  by (simp add: physical_def kHeaderSize_def)

lemma log_record_offset: "log_record o1 b d bs o2 \<Longrightarrow> o2 \<le> kBlockSize"
  by (induction rule: log_record.induct) auto

lemma block_start [simp]: "start_offset kBlockSize = 0" "trailer kBlockSize = []" "start_offset 0 = 0" "trailer 0 = []"
  by (simp_all add: start_offset_def trailer_def kBlockSize_def kHeaderSize_def)

lemma log_records_offset: "log_records o1 ds bs o2 \<Longrightarrow> o1 \<le> kBlockSize \<Longrightarrow> o2 \<le> kBlockSize"
  by (induction rule: log_records.induct) (auto dest: log_record_offset)

lemma log_record_block:
  assumes "log_record 0 b d bs o2"
  shows "log_record kBlockSize b d bs o2"
  using assms
proof cases
  case log_end
  with log_record.log_end [of kBlockSize d b] show ?thesis by simp
next
  case (log_more d1 d2 bs')
  with log_record.log_more [of kBlockSize d1 d2 bs' o2 b] show ?thesis by simp
qed

subsection \<open>The writer\<close>

text \<open>What the log needs of its file: appends that succeed append, and right after a flush a few
  bytes are always taken. The status of the append of a block's tail is not looked at.\<close>

locale log_dest = appendable w contents
  for w :: "'f writable_file" and contents :: "'f \<Rightarrow> byte list" +
  fixes flushed :: "'f \<Rightarrow> bool"
  assumes flush_flushed: "wf_flush w f = Some (s, f') \<Longrightarrow> status_ok s \<Longrightarrow> flushed f'"
    and append_few: "flushed f \<Longrightarrow> length data < kHeaderSize \<Longrightarrow> wf_append w f data = Some (s, f') \<Longrightarrow>
      status_ok s"
begin

lemma new_block_contents:
  assumes "new_block w lw = Some lw1" "flushed (lw_dest lw)"
  shows "contents (lw_dest lw1) = contents (lw_dest lw) @ trailer (lw_block_offset lw) \<and>
    lw_block_offset lw1 = start_offset (lw_block_offset lw) \<and> lw_type_crc lw1 = lw_type_crc lw"
proof -
  have t: "take n [0, 0, 0, 0, 0, 0 :: byte] = replicate n 0" if "n < kHeaderSize" for n
  proof -
    have "[0, 0, 0, 0, 0, 0 :: byte] = replicate 6 0" by (simp add: numeral_eq_Suc)
    then show ?thesis using that by (simp add: kHeaderSize_def)
  qed
  show ?thesis
    using assms append_ok append_few [OF assms(2), of "replicate (kBlockSize - lw_block_offset lw) 0"]
    by (auto simp: new_block_def Let_def start_offset_def trailer_def t bind_eq_Some_conv split: if_splits)
qed

lemma emit_contents:
  assumes "EmitPhysicalRecord w lw t data = Some (s, lw')" "status_ok s" "lw_type_crc lw = InitTypeCrc"
  shows "contents (lw_dest lw') = contents (lw_dest lw) @ physical t data \<and> flushed (lw_dest lw')"
proof -
  have "InitTypeCrc ! type_value t = crc_Value 0 [of_nat (type_value t)]"
    by (cases t) (simp_all add: InitTypeCrc_def kMaxRecordType_def nth_append del: upt_Suc)
  then have h: "log_header (lw_type_crc lw) t data @ data = physical t data"
    using assms(3) by (simp add: log_header_def physical_def Extend_append [where r = 0])
  note emit = EmitPhysicalRecord_def bind_eq_Some_conv
  obtain s1 d1 where a1: "wf_append w (lw_dest lw) (log_header (lw_type_crc lw) t data) = Some (s1, d1)"
    using assms(1) by (auto simp: emit split: if_splits)
  then have ok1: "status_ok s1" using assms(1,2) by (auto simp: emit split: if_splits)
  then obtain s2 d2 where a2: "wf_append w d1 data = Some (s2, d2)"
    using assms(1) a1 by (auto simp: emit split: if_splits)
  then have ok2: "status_ok s2" using assms(1,2) a1 ok1 by (auto simp: emit split: if_splits)
  then have a3: "wf_flush w d2 = Some (s, lw_dest lw')"
    using assms(1) a1 ok1 a2 by (auto simp: emit split: if_splits)
  from append_ok [OF a1 ok1] append_ok [OF a2 ok2] flush_ok [OF a3 assms(2)] flush_flushed [OF a3 assms(2)] h
  show ?thesis by simp
qed

lemma add_loop_bytes:
  assumes "add_loop w lw data b = Some (s, lw')" "status_ok s" "flushed (lw_dest lw)"
    "lw_type_crc lw = InitTypeCrc"
  shows "\<exists>bs. contents (lw_dest lw') = contents (lw_dest lw) @ bs \<and> flushed (lw_dest lw') \<and>
    lw_type_crc lw' = InitTypeCrc \<and> log_record (lw_block_offset lw) b data bs (lw_block_offset lw')"
  using assms
proof (induction w' \<equiv> w lw data b rule: add_loop.induct)
  case (1 lw data b)
  obtain s1 lw2 rest where step: "add_fragment w lw data b = Some (s1, lw2, rest)"
    using "1.prems"(1) by (subst (asm) add_loop.simps) (auto split: option.splits)
  have le: "lw_block_offset lw \<le> kBlockSize" using step by (auto simp: add_fragment_def split: if_splits)
  let ?o = "start_offset (lw_block_offset lw)"
  let ?n = "kBlockSize - ?o - kHeaderSize"
  obtain lw1 where lw1: "new_block w lw = Some lw1" using step
    by (auto simp: add_fragment_def bind_eq_Some_conv split: if_splits)
  note nb = new_block_contents [OF lw1 "1.prems"(3)]
  have e: "EmitPhysicalRecord w lw1 (fragment_type b (length data \<le> ?n)) (take ?n data) = Some (s1, lw2)"
    and rest: "rest = drop ?n data"
    using step le lw1 nb by (auto simp: add_fragment_def Let_def bind_eq_Some_conv not_less split: if_splits)
  have s1: "status_ok s1"
    using "1.prems"(1,2) step by (subst (asm) add_loop.simps) (auto split: if_splits)
  from nb "1.prems"(4) have t1: "lw_type_crc lw1 = InitTypeCrc" by simp
  note em = emit_contents [OF e s1 t1] emit_offset [OF e]
  have oH: "?o + kHeaderSize \<le> kBlockSize"
    by (auto simp: start_offset_def kBlockSize_def kHeaderSize_def)
  show ?case
  proof (cases "length data \<le> ?n")
    case True
    then have "s1 = s" "lw2 = lw'"
      using "1.prems"(1) step rest by (auto simp: add_loop.simps [of w lw])
    then show ?thesis
      using True em nb oH le log_end [of "lw_block_offset lw" data b] "1.prems"(4) by (simp add: add.assoc)
  next
    case False
    then have "rest \<noteq> []" using rest by simp
    then have loop: "add_loop w lw2 rest False = Some (s, lw')"
      using "1.prems"(1) step s1 by (simp add: add_loop.simps [of w lw])
    have o2: "lw_block_offset lw2 = kBlockSize" using em(2) nb oH False by simp
    have "status_ok s1 \<and> rest \<noteq> []" using s1 \<open>rest \<noteq> []\<close> by simp
    from "1.hyps" [OF step refl refl this loop "1.prems"(2)] em nb "1.prems"(4)
    obtain bs where bs: "contents (lw_dest lw') = contents (lw_dest lw2) @ bs" "flushed (lw_dest lw')"
      "lw_type_crc lw' = InitTypeCrc" "log_record kBlockSize False rest bs (lw_block_offset lw')"
      by (auto simp: o2)
    from log_more [OF _ le bs(4), of "take ?n data" b] False oH
    have "log_record (lw_block_offset lw) b data
        (trailer (lw_block_offset lw) @ physical (fragment_type b False) (take ?n data) @ bs) (lw_block_offset lw')"
      by (simp add: rest)
    then show ?thesis using bs em nb False by (intro exI) (auto simp: not_le)
  qed
qed

end

subsection \<open>A physical record is read back\<close>

lemma scast_and_FF: "(scast (b :: byte) :: u32) AND 0xff = ucast b"
proof (rule bit_word_eqI)
  fix n assume "n < LENGTH(32)"
  then show "bit ((scast b :: u32) AND 0xff) n \<longleftrightarrow> bit (ucast b :: u32) n"
    using bit_mask_iff [of 8 n, where ?'a = u32] bit_imp_le_length [of b n]
    by (cases "n = 7") (auto simp: bit_and_iff bit_signed_iff bit_unsigned_iff mask_eq_exp_minus_1 min_def)
qed

lemma unat_two_bytes: "unat ((ucast (lo :: byte) :: u32) OR push_bit 8 (ucast (hi :: byte))) = unat lo + 256 * unat hi"
proof -
  have "(ucast lo :: u32) AND push_bit 8 (ucast hi) = 0"
    by (rule bit_word_eqI) (auto simp: bit_and_iff bit_push_bit_iff bit_unsigned_iff dest: bit_imp_le_length
      simp del: push_bit_eq_mult)
  then have "(ucast lo :: u32) OR push_bit 8 (ucast hi) = ucast lo + push_bit 8 (ucast hi)"
    by (simp add: disjunctive_add_eq_or del: push_bit_eq_mult)
  also have "unat \<dots> = unat lo + 256 * unat hi"
    using unat_8 [of lo] unat_8 [of hi]
    by (simp add: push_bit_eq_mult unat_word_ariths unat_ucast_mod)
  finally show ?thesis .
qed

lemma two_bytes:
  assumes "n \<le> 65535"
  shows "unat (((scast (of_nat n AND 0xff :: byte) :: u32) AND 0xff) OR
    push_bit 8 ((scast (of_nat (n div 256) :: byte) :: u32) AND 0xff)) = n"
proof -
  have "unat (of_nat n AND 0xff :: byte) = n mod 256" by (simp add: unat_of_nat)
  moreover have "unat (of_nat (n div 256) :: byte) = n div 256" using assms by (simp add: unat_of_nat)
  ultimately show ?thesis by (simp only: scast_and_FF unat_two_bytes) simp
qed

lemma record_codes [simp]:
  "record_code kZeroType = 0" "record_code kFullType = 1" "record_code kFirstType = 2"
  "record_code kMiddleType = 3" "record_code kLastType = 4" "kEof = 5" "kBadRecord = 6"
  by (simp_all add: record_code_def kEof_def kBadRecord_def kMaxRecordType_def)

lemma scast_type: "(scast (of_nat (type_value t) :: byte) :: u32) = record_code t"
  by (cases t) simp_all

lemma physical_nth:
  assumes "kHeaderSize \<le> length b" "b = take (length b) (physical t d @ b')"
  shows "b ! 4 = of_nat (length d) AND 0xff" "b ! 5 = of_nat (length d div 256)"
    "b ! 6 = of_nat (type_value t)"
proof -
  have n: "b ! i = (physical t d @ b') ! i" if "i < 7" for i
    using arg_cong [OF assms(2), of "\<lambda>x. x ! i"] assms(1) that
    by (simp add: kHeaderSize_def del: take_append)
  show "b ! 4 = of_nat (length d) AND 0xff" "b ! 5 = of_nat (length d div 256)"
    "b ! 6 = of_nat (type_value t)"
    by (simp_all add: n physical_def nth_append)
qed

text \<open>At the start of a record that is whole in the buffer, or cut where the file ends.\<close>

lemma parse_physical:
  assumes b: "lr_buffer r = physical t d @ b'" and t: "t \<noteq> kZeroType" and d: "length d \<le> 65535"
    and "lr_initial_offset r = 0"
  shows "parse_record r result = (record_code t, d, r\<lparr>lr_buffer := b'\<rparr>)"
proof -
  have h: "kHeaderSize \<le> length (lr_buffer r)" "lr_buffer r = take (length (lr_buffer r)) (physical t d @ b')"
    using b by simp_all
  have crc: "crc_Value 0 (take (1 + length d) (drop 6 (lr_buffer r))) = Unmask (the (DecodeFixed32 (lr_buffer r)))"
    by (simp add: b physical_def)
  have "record_code t \<noteq> 0" using t by (cases t) simp_all
  moreover have "take (length d) (drop kHeaderSize (lr_buffer r)) = d"
    by (simp add: b physical_def kHeaderSize_def)
  moreover have "remove_prefix (kHeaderSize + length d) (lr_buffer r) = b'"
    by (simp add: b remove_prefix_def)
  moreover have "length (lr_buffer r) = kHeaderSize + length d + length b'" by (simp add: b)
  ultimately show ?thesis
    using assms(4) crc
    unfolding parse_record_def Let_def physical_nth [OF h] two_bytes [OF d] scast_type by simp
qed

lemma parse_cut:
  assumes "kHeaderSize \<le> length (lr_buffer r)" "physical t d = lr_buffer r @ c" "c \<noteq> []"
    and d: "length d \<le> 65535" and eof: "lr_eof r"
  shows "parse_record r result = (kEof, result, r\<lparr>lr_buffer := []\<rparr>)"
proof -
  have "lr_buffer r = take (length (lr_buffer r)) (physical t d @ [])" by (simp add: assms(2))
  note h = physical_nth [OF assms(1) this]
  have "length (physical t d) = length (lr_buffer r) + length c" by (simp add: assms(2))
  then have "length (lr_buffer r) < kHeaderSize + length d" using assms(3) by (cases c) auto
  then show ?thesis
    unfolding parse_record_def Let_def h two_bytes [OF d] using eof by simp
qed

subsection \<open>The reader\<close>

text \<open>The results of so many calls of \<open>ReadRecord\<close>: a record, or None for false.\<close>

primrec read_times :: "'f sequential_file \<Rightarrow> nat \<Rightarrow> 'f log_reader \<Rightarrow> (byte list option list \<times> 'f log_reader) option" where
  "read_times q 0 r = Some ([], r)"
| "read_times q (Suc n) r = do {
     (ok, record, scratch, r1) \<leftarrow> ReadRecord q r [] [];
     (rs, r2) \<leftarrow> read_times q n r1;
     Some ((if ok then Some record else None) # rs, r2)
   }"

lemma read_times_add:
  "read_times q m r = Some (rs, r1) \<Longrightarrow> read_times q n r1 = Some (rs', r2) \<Longrightarrow>
     read_times q (m + n) r = Some (rs @ rs', r2)"
  by (induction m arbitrary: r rs) (auto simp: bind_eq_Some_conv split_def)

context sequential begin

text \<open>The reader is at offset \<open>o1\<close> of a block, and \<open>R\<close> is all that is left of the file.\<close>

definition at_stream :: "'f log_reader \<Rightarrow> nat \<Rightarrow> byte list \<Rightarrow> bool" where
  "at_stream r o1 R \<longleftrightarrow> lr_initial_offset r = 0 \<and> \<not> lr_resyncing r \<and>
     R = lr_buffer r @ rest (lr_file r) \<and> o1 \<le> kBlockSize \<and>
     (if lr_eof r then rest (lr_file r) = [] \<and> o1 + length (lr_buffer r) < kBlockSize
      else length (lr_buffer r) = kBlockSize - o1)"

text \<open>A refill at the end of a block.\<close>

lemma refill:
  assumes "length (lr_buffer r) < kHeaderSize" "\<not> lr_eof r"
  obtains r1 where "ReadPhysicalRecord q r result = ReadPhysicalRecord q r1 result"
    "lr_buffer r1 = take kBlockSize (rest (lr_file r))" "rest (lr_file r1) = drop kBlockSize (rest (lr_file r))"
    "lr_eof r1 = (length (rest (lr_file r)) < kBlockSize)" "lr_reports r1 = lr_reports r"
    "lr_initial_offset r1 = lr_initial_offset r" "lr_resyncing r1 = lr_resyncing r"
proof -
  obtain f where f: "sf_read q (lr_file r) kBlockSize [] = Some (OK, take kBlockSize (rest (lr_file r)), f)"
    "rest f = drop kBlockSize (rest (lr_file r))" using read_full by blast
  let ?r1 = "r\<lparr>lr_file := f, lr_buffer := take kBlockSize (rest (lr_file r)),
    lr_end_of_buffer_offset := lr_end_of_buffer_offset r + of_nat (length (take kBlockSize (rest (lr_file r))))\<rparr>"
  show thesis
  proof (cases "length (rest (lr_file r)) < kBlockSize")
    case True
    then show thesis
      using f assms by (intro that [of "?r1\<lparr>lr_eof := True\<rparr>"])
        (simp_all add: ReadPhysicalRecord.simps [of q r] Let_def)
  next
    case False
    then show thesis
      using f assms by (intro that [of ?r1]) (simp_all add: ReadPhysicalRecord.simps [of q r] Let_def)
  qed
qed

lemma refill_stream:
  assumes "at_stream r o1 R" "R = trailer o1 @ R'" "kHeaderSize \<le> length R' \<or> \<not> lr_eof r"
    and "kBlockSize - o1 < kHeaderSize"
  obtains r1 where "ReadPhysicalRecord q r result = ReadPhysicalRecord q r1 result" "at_stream r1 0 R'"
    "lr_reports r1 = lr_reports r"
proof -
  have neof: "\<not> lr_eof r"
  proof
    assume eof: "lr_eof r"
    then have "length (trailer o1 @ R') = length (lr_buffer r)" "o1 + length (lr_buffer r) < kBlockSize"
      using assms(1,2) by (auto simp: at_stream_def)
    with assms(3,4) eof show False by (simp add: trailer_def)
  qed
  then have b: "length (lr_buffer r) = kBlockSize - o1"
    "lr_buffer r @ rest (lr_file r) = trailer o1 @ R'" using assms by (auto simp: at_stream_def)
  then have R': "rest (lr_file r) = R'" using assms(4) by (auto simp: trailer_def append_eq_append_conv)
  have lt: "length (lr_buffer r) < kHeaderSize" using b(1) assms(4) by simp
  obtain r1 where r1: "ReadPhysicalRecord q r result = ReadPhysicalRecord q r1 result"
    "lr_buffer r1 = take kBlockSize R'" "rest (lr_file r1) = drop kBlockSize R'"
    "lr_eof r1 = (length R' < kBlockSize)" "lr_reports r1 = lr_reports r"
    "lr_initial_offset r1 = lr_initial_offset r" "lr_resyncing r1 = lr_resyncing r"
    by (rule refill [OF lt neof, where result = result, unfolded R'])
  then have "at_stream r1 0 R'" using assms(1) by (auto simp: at_stream_def)
  with r1 that show thesis by blast
qed

lemma read_physical_here:
  assumes "at_stream r o1 (physical t d @ R)" "o1 + kHeaderSize + length d \<le> kBlockSize" "t \<noteq> kZeroType"
  shows "\<exists>r'. ReadPhysicalRecord q r result = Some (record_code t, d, r') \<and>
    at_stream r' (o1 + kHeaderSize + length d) R \<and> lr_reports r' = lr_reports r"
proof -
  let ?b = "lr_buffer r"
  have st: "physical t d @ R = ?b @ rest (lr_file r)" using assms(1) by (simp add: at_stream_def)
  have len: "kHeaderSize + length d \<le> length ?b"
  proof (cases "lr_eof r")
    case True
    then have "physical t d @ R = ?b" using assms(1) by (simp add: at_stream_def)
    from arg_cong [OF this, of length] show ?thesis by simp
  next
    case False
    then show ?thesis using assms by (simp add: at_stream_def)
  qed
  have b: "?b = physical t d @ drop (length (physical t d)) ?b"
    using arg_cong [OF st, of "take (length (physical t d))"] len
    by (metis append_eq_conv_conj append_take_drop_id diff_is_0_eq length_physical take0 take_append append_Nil2)
  have "length d \<le> 65535" using assms(2) by (simp add: kBlockSize_def)
  then have "ReadPhysicalRecord q r result = Some (record_code t, d, r\<lparr>lr_buffer := drop (length (physical t d)) ?b\<rparr>)"
    using parse_physical [OF b assms(3)] assms(1) len
    by (simp add: ReadPhysicalRecord.simps [of q r] at_stream_def)
  moreover have "R = drop (length (physical t d)) ?b @ rest (lr_file r)"
    using arg_cong [OF st, of "drop (length (physical t d))"] len by simp
  ultimately show ?thesis
    using assms(1,2) len by (auto simp: at_stream_def split: if_splits)
qed

lemma read_physical:
  assumes st: "at_stream r o1 (trailer o1 @ physical t d @ R)" and fits: "start_offset o1 + kHeaderSize + length d \<le> kBlockSize"
    and t: "t \<noteq> kZeroType"
  shows "\<exists>r'. ReadPhysicalRecord q r result = Some (record_code t, d, r') \<and>
    at_stream r' (start_offset o1 + kHeaderSize + length d) R \<and> lr_reports r' = lr_reports r"
proof (cases "kBlockSize - o1 < kHeaderSize")
  case True
  obtain r1 where "ReadPhysicalRecord q r result = ReadPhysicalRecord q r1 result"
    "at_stream r1 0 (physical t d @ R)" "lr_reports r1 = lr_reports r"
    using refill_stream [OF st refl _ True] by auto
  with read_physical_here [of r1 0 t d R] fits t True show ?thesis by (simp add: start_offset_def)
next
  case False
  with read_physical_here [of r o1 t d R] st fits t show ?thesis by (simp add: start_offset_def trailer_def)
qed

lemma read_cut_here:
  assumes "at_stream r o1 R" "physical t d = R @ c" "c \<noteq> []" "o1 + kHeaderSize + length d \<le> kBlockSize"
  shows "\<exists>r'. ReadPhysicalRecord q r result = Some (kEof, result, r') \<and> lr_reports r' = lr_reports r \<and>
    at_stream r' o1 []"
proof -
  have l: "length R < kHeaderSize + length d"
    using arg_cong [OF assms(2), of length] assms(3) by (cases c) auto
  have eof: "lr_eof r" "lr_buffer r = R" using assms(1,4) l by (auto simp: at_stream_def split: if_splits)
  have "length d \<le> 65535" using assms(4) by (simp add: kBlockSize_def)
  then have "ReadPhysicalRecord q r result = Some (kEof, result, r\<lparr>lr_buffer := []\<rparr>)"
    using parse_cut [of r t d c] assms(2,3) eof by (simp add: ReadPhysicalRecord.simps [of q r])
  then show ?thesis using assms(1) eof by (auto simp: at_stream_def)
qed

lemma read_cut:
  assumes st: "at_stream r o1 R" and cut: "trailer o1 @ physical t d = R @ c" "c \<noteq> []"
    and fits: "start_offset o1 + kHeaderSize + length d \<le> kBlockSize"
  shows "\<exists>r'. ReadPhysicalRecord q r result = Some (kEof, result, r') \<and> lr_reports r' = lr_reports r"
proof (cases "kBlockSize - o1 < kHeaderSize")
  case False
  with read_cut_here [of r o1 R t d c result] st cut fits show ?thesis
    by (auto simp: start_offset_def trailer_def)
next
  case True
  show ?thesis
  proof (cases "lr_eof r")
    case eof: True
    then have "o1 + length (lr_buffer r) < kBlockSize" using st by (simp add: at_stream_def)
    with True have "length (lr_buffer r) < kHeaderSize" by linarith
    with eof show ?thesis by (simp add: ReadPhysicalRecord.simps [of q r])
  next
    case False
    then have "length (lr_buffer r) = length (trailer o1)" "R = lr_buffer r @ rest (lr_file r)"
      using st True by (auto simp: at_stream_def trailer_def)
    with cut have R: "R = trailer o1 @ rest (lr_file r)" "physical t d = rest (lr_file r) @ c"
      by (auto simp: append_eq_append_conv)
    obtain r1 where "ReadPhysicalRecord q r result = ReadPhysicalRecord q r1 result"
      "at_stream r1 0 (rest (lr_file r))" "lr_reports r1 = lr_reports r"
      using refill_stream [OF st R(1) _ True] False by auto
    with read_cut_here [of r1 0 _ t d c result] R(2) cut(2) fits True show ?thesis
      by (auto simp: start_offset_def)
  qed
qed

lemma append_split:
  assumes "a @ b = P @ c"
  shows "(\<exists>c'. a = P @ c' \<and> c' \<noteq> []) \<or> (\<exists>P'. P = a @ P' \<and> b = P' @ c)"
  using assms by (auto simp: append_eq_append_conv2)

lemma switch_end:
  "rl_in_fragmented_record l = (\<not> b) \<Longrightarrow>
   \<exists>s off'. record_switch (record_code (fragment_type b True)) off l r =
     Return True ((if b then [] else rl_scratch l) @ rl_fragment l) s (r\<lparr>lr_last_record_offset := off'\<rparr>)"
  by (cases b) (auto simp: record_switch_def fragment_type_def Let_def)

lemma switch_more:
  "rl_in_fragmented_record l = (\<not> b) \<Longrightarrow>
   \<exists>l1. record_switch (record_code (fragment_type b False)) off l r = Continue l1 r \<and>
     rl_in_fragmented_record l1 \<and> rl_scratch l1 = (if b then [] else rl_scratch l) @ rl_fragment l"
  by (cases b) (auto simp: record_switch_def fragment_type_def Let_def)

lemma at_stream_simps [simp]:
  "at_stream r o1 R \<Longrightarrow> at_stream (r\<lparr>lr_resyncing := False\<rparr>) o1 R"
  "at_stream (r\<lparr>lr_last_record_offset := v\<rparr>) o1 R \<longleftrightarrow> at_stream r o1 R"
  by (auto simp: at_stream_def)

lemma pass_read:
  assumes "ReadPhysicalRecord q r (rl_fragment l) = Some (t, d, r1)" "at_stream r1 o1 R"
  obtains off where
    "record_pass q l r = Some (record_switch t off (l\<lparr>rl_fragment := d\<rparr>) (r1\<lparr>lr_resyncing := False\<rparr>))"
  using assms by (auto simp: record_pass_def Let_def at_stream_def)

lemma pass_eof:
  assumes "ReadPhysicalRecord q r (rl_fragment l) = Some (kEof, d, r1)"
  shows "\<exists>s r'. record_loop q l r = Some (False, [], s, r') \<and> lr_reports r' = lr_reports r1"
  using assms by (subst record_loop.simps) (auto simp: record_pass_def Let_def record_switch_def)

lemma record_loop_record:
  assumes "log_record o1 b d bs o2" "at_stream r o1 (bs @ R)" "rl_in_fragmented_record l = (\<not> b)"
  shows "\<exists>s r'. record_loop q l r = Some (True, (if b then [] else rl_scratch l) @ d, s, r') \<and>
    at_stream r' o2 R \<and> lr_reports r' = lr_reports r"
  using assms
proof (induction arbitrary: r l)
  case (log_end o1 d b)
  have "fragment_type b True \<noteq> kZeroType" by (simp add: fragment_type_def)
  from read_physical [OF _ log_end(1) this, of r R] log_end.prems(1)
  obtain r1 where r1: "ReadPhysicalRecord q r (rl_fragment l) = Some (record_code (fragment_type b True), d, r1)"
    "at_stream r1 (start_offset o1 + kHeaderSize + length d) R" "lr_reports r1 = lr_reports r" by auto
  from pass_read [OF r1(1,2)] obtain off where
    "record_pass q l r = Some (record_switch (record_code (fragment_type b True)) off (l\<lparr>rl_fragment := d\<rparr>)
      (r1\<lparr>lr_resyncing := False\<rparr>))" .
  moreover from switch_end [of "l\<lparr>rl_fragment := d\<rparr>" b off "r1\<lparr>lr_resyncing := False\<rparr>"] log_end.prems(2)
  obtain s off' where "record_switch (record_code (fragment_type b True)) off (l\<lparr>rl_fragment := d\<rparr>)
      (r1\<lparr>lr_resyncing := False\<rparr>) = Return True ((if b then [] else rl_scratch l) @ d) s
      (r1\<lparr>lr_resyncing := False, lr_last_record_offset := off'\<rparr>)" by (cases b) (simp; blast)+
  ultimately show ?case using r1 by (subst record_loop.simps) simp
next
  case (log_more o1 d1 d2 bs o2 b)
  have "fragment_type b False \<noteq> kZeroType" by (simp add: fragment_type_def)
  from read_physical [OF _ _ this, of r o1 d1 "bs @ R"] log_more.prems(1) log_more(1)
  obtain r1 where r1: "ReadPhysicalRecord q r (rl_fragment l) = Some (record_code (fragment_type b False), d1, r1)"
    "at_stream r1 kBlockSize (bs @ R)" "lr_reports r1 = lr_reports r" by auto
  from pass_read [OF r1(1,2)] obtain off where
    "record_pass q l r = Some (record_switch (record_code (fragment_type b False)) off (l\<lparr>rl_fragment := d1\<rparr>)
      (r1\<lparr>lr_resyncing := False\<rparr>))" .
  then obtain l1 where "record_pass q l r = Some (Continue l1 (r1\<lparr>lr_resyncing := False\<rparr>))"
    "rl_in_fragmented_record l1" "rl_scratch l1 = (if b then [] else rl_scratch l) @ d1"
    using switch_more [of "l\<lparr>rl_fragment := d1\<rparr>" b off "r1\<lparr>lr_resyncing := False\<rparr>"] log_more.prems(2) by auto
  moreover from log_more.IH [of "r1\<lparr>lr_resyncing := False\<rparr>" l1] this r1(2)
  obtain s r' where "record_loop q l1 (r1\<lparr>lr_resyncing := False\<rparr>) = Some (True, rl_scratch l1 @ d2, s, r')"
    "at_stream r' o2 R" "lr_reports r' = lr_reports r1" by auto
  ultimately show ?case using r1(3) by (subst record_loop.simps) simp
qed

lemma record_loop_cut:
  assumes "log_record o1 b d bs o2" "at_stream r o1 P" "bs = P @ c" "c \<noteq> []" "rl_in_fragmented_record l = (\<not> b)"
  shows "\<exists>s r'. record_loop q l r = Some (False, [], s, r') \<and> lr_reports r' = lr_reports r"
  using assms
proof (induction arbitrary: r l P)
  case (log_end o1 d b)
  from read_cut [OF log_end.prems(1,2,3) log_end(1), of "rl_fragment l"] pass_eof show ?case by fastforce
next
  case (log_more o1 d1 d2 bs o2 b)
  let ?h = "trailer o1 @ physical (fragment_type b False) d1"
  from log_more.prems(2) consider c' where "?h = P @ c'" "c' \<noteq> []" | P' where "P = ?h @ P'" "bs = P' @ c"
    using append_split [of ?h bs P c] by auto
  then show ?case
  proof cases
    case 1
    from read_cut [OF log_more.prems(1) 1, of "rl_fragment l"] log_more(1) pass_eof show ?thesis by fastforce
  next
    case 2
    have "fragment_type b False \<noteq> kZeroType" by (simp add: fragment_type_def)
    from read_physical [OF _ _ this, of r o1 d1 P'] log_more.prems(1) log_more(1) 2(1)
    obtain r1 where r1: "ReadPhysicalRecord q r (rl_fragment l) = Some (record_code (fragment_type b False), d1, r1)"
      "at_stream r1 kBlockSize P'" "lr_reports r1 = lr_reports r" by auto
    from pass_read [OF r1(1,2)] obtain off where
      "record_pass q l r = Some (record_switch (record_code (fragment_type b False)) off (l\<lparr>rl_fragment := d1\<rparr>)
        (r1\<lparr>lr_resyncing := False\<rparr>))" .
    then obtain l1 where "record_pass q l r = Some (Continue l1 (r1\<lparr>lr_resyncing := False\<rparr>))"
      "rl_in_fragmented_record l1"
      using switch_more [of "l\<lparr>rl_fragment := d1\<rparr>" b off "r1\<lparr>lr_resyncing := False\<rparr>"] log_more.prems(4) by auto
    moreover from log_more.IH [of "r1\<lparr>lr_resyncing := False\<rparr>" P' l1] this r1(2) 2(2) log_more.prems(3)
    obtain s r' where "record_loop q l1 (r1\<lparr>lr_resyncing := False\<rparr>) = Some (False, [], s, r')"
      "lr_reports r' = lr_reports r1" by auto
    ultimately show ?thesis using r1(3) by (subst record_loop.simps) simp
  qed
qed

text \<open>A new reader stands at the end of an imaginary block before the file.\<close>

lemma at_stream_new: "rest g = R \<Longrightarrow> at_stream (log_Reader g rep True 0) kBlockSize R"
  by (simp add: at_stream_def log_Reader_def)

lemma ReadRecord_loop: "at_stream r o1 R \<Longrightarrow> ReadRecord q r record scratch =
    record_loop q \<lparr>rl_scratch = [], rl_in_fragmented_record = False,
       rl_prospective_record_offset = 0, rl_fragment = []\<rparr> r"
  by (simp add: ReadRecord_def at_stream_def)

lemma read_records:
  assumes "log_records o1 ds bs o2" "at_stream r o1' (bs @ R)" "o1' = o1 \<or> o1 = 0 \<and> o1' = kBlockSize"
  shows "\<exists>r' o2'. read_times q (length ds) r = Some (map Some ds, r') \<and> at_stream r' o2' R \<and>
    lr_reports r' = lr_reports r \<and> (o2' = o2 \<or> o2 = 0 \<and> o2' = kBlockSize)"
  using assms
proof (induction arbitrary: r o1')
  case (log_none o1)
  then show ?case by auto
next
  case (log_some o1 d bs o2 ds bs' o3)
  have "log_record o1' True d bs o2" using log_some(1) log_some.prems(2) log_record_block by auto
  from record_loop_record [OF this, of r "bs' @ R" "\<lparr>rl_scratch = [], rl_in_fragmented_record = False,
      rl_prospective_record_offset = 0, rl_fragment = []\<rparr>"] log_some.prems(1) obtain s r1 where
    "ReadRecord q r [] [] = Some (True, d, s, r1)" "at_stream r1 o2 (bs' @ R)" "lr_reports r1 = lr_reports r"
    by (auto simp: ReadRecord_loop)
  with log_some.IH [of r1 o2] show ?case by auto
qed

text \<open>The log, and a cut in the next record.\<close>

lemma read_log:
  assumes "log_records 0 ds bs o2" "rest g = bs"
  shows "\<exists>r'. read_times q (length ds) (log_Reader g rep True 0) = Some (map Some ds, r') \<and> lr_reports r' = []"
  using read_records [OF assms(1), of "log_Reader g rep True 0" kBlockSize "[]"] at_stream_new assms(2)
  by (auto simp: log_Reader_def)

lemma read_log_cut:
  assumes "log_records 0 ds bs o2" "log_record o2 True d bs2 o3" "bs2 = P @ c" "c \<noteq> []" "rest g = bs @ P"
  shows "\<exists>r'. read_times q (length ds + 1) (log_Reader g rep True 0) = Some (map Some ds @ [None], r') \<and>
    lr_reports r' = []"
proof -
  let ?l = "\<lparr>rl_scratch = [], rl_in_fragmented_record = False, rl_prospective_record_offset = 0, rl_fragment = []\<rparr>"
  from read_records [OF assms(1), of "log_Reader g rep True 0" kBlockSize P] at_stream_new [OF assms(5), of rep]
  obtain r1 o2' where r1: "read_times q (length ds) (log_Reader g rep True 0) = Some (map Some ds, r1)"
    "at_stream r1 o2' P" "lr_reports r1 = []" "o2' = o2 \<or> o2 = 0 \<and> o2' = kBlockSize"
    by (auto simp: log_Reader_def)
  then have "log_record o2' True d bs2 o3" using assms(2) log_record_block by auto
  from record_loop_cut [OF this r1(2) assms(3,4), of ?l]
  obtain s r' where "ReadRecord q r1 [] [] = Some (False, [], s, r')" "lr_reports r' = []"
    using r1(2,3) by (auto simp: ReadRecord_loop)
  then have "read_times q 1 r1 = Some ([None], r')" by simp
  from read_times_add [OF r1(1) this] \<open>lr_reports r' = []\<close> show ?thesis by simp
qed

end

subsection \<open>Files that the log is written to\<close>

primrec add_records :: "'f writable_file \<Rightarrow> 'f log_writer \<Rightarrow> byte list list \<Rightarrow> (Status \<times> 'f log_writer) option" where
  "add_records w lw [] = Some (OK, lw)"
| "add_records w lw (d # ds) = do {
     (s, lw1) \<leftarrow> AddRecord w lw d;
     if status_ok s then add_records w lw1 ds else Some (s, lw1)
   }"

context log_dest begin

lemma add_records_bytes:
  assumes "add_records w lw ds = Some (s, lw')" "status_ok s" "flushed (lw_dest lw)" "lw_type_crc lw = InitTypeCrc"
  shows "\<exists>bs. contents (lw_dest lw') = contents (lw_dest lw) @ bs \<and> flushed (lw_dest lw') \<and>
    lw_type_crc lw' = InitTypeCrc \<and> log_records (lw_block_offset lw) ds bs (lw_block_offset lw')"
  using assms
proof (induction ds arbitrary: lw)
  case Nil
  then show ?case using log_none by auto
next
  case (Cons d ds)
  obtain s1 lw1 where a: "add_loop w lw d True = Some (s1, lw1)"
    using Cons.prems(1) by (auto simp: AddRecord_def bind_eq_Some_conv)
  then have "status_ok s1" using Cons.prems(1,2) by (auto simp: AddRecord_def split: if_splits)
  note b = add_loop_bytes [OF a this Cons.prems(3,4)]
  have "add_records w lw1 ds = Some (s, lw')"
    using a Cons.prems(1) \<open>status_ok s1\<close> by (simp add: AddRecord_def)
  from b Cons.IH [OF this Cons.prems(2)] log_some show ?case by fastforce
qed

end

sublocale kernel_file \<subseteq> posix_log: log_dest "posix_writable_file os" buffered "\<lambda>f. pw_buf f = []"
proof
  show "pw_buf f' = []" if "wf_flush (posix_writable_file os) f = Some (s, f')" "status_ok s" for f s f'
    using that flush_buffer by (simp add: posix_writable_file_def posix_Flush_def)
  show "status_ok s"
    if "pw_buf f = []" "length data < kHeaderSize" "wf_append (posix_writable_file os) f data = Some (s, f')"
    for f data s f'
    using that by (auto simp: posix_writable_file_def posix_Append_def kHeaderSize_def
        kWritableFileBufferSize_def Let_def min_def)
qed

definition posix_open :: "'h \<Rightarrow> 'h posix_writable" where
  "posix_open fd = \<lparr>pw_buf = [], pw_fd = fd, pw_filename = ''log''\<rparr>"

definition posix_open_read :: "'h \<Rightarrow> 'h posix_sequential" where
  "posix_open_read fd = \<lparr>ps_fd = fd, ps_filename = ''log''\<rparr>"

context kernel_file begin

lemma written_log:
  assumes "written fd = []" "add_records (posix_writable_file os) (log_Writer (posix_open fd)) ds = Some (OK, lw)"
  shows "log_records 0 ds (written (pw_fd (lw_dest lw))) (lw_block_offset lw) \<and> pw_buf (lw_dest lw) = [] \<and>
    lw_type_crc lw = InitTypeCrc"
  using posix_log.add_records_bytes [OF assms(2)] assms(1)
  by (auto simp: log_Writer_def posix_open_def buffered_def)

lemma cut_log:
  assumes "written fd = []" "add_records (posix_writable_file os) (log_Writer (posix_open fd)) ds = Some (OK, lw)"
    "AddRecord (posix_writable_file os) lw d = Some (OK, lw')"
    "written (pw_fd (lw_dest lw')) = written (pw_fd (lw_dest lw)) @ P @ c" "c \<noteq> []"
    "unread fd' = written (pw_fd (lw_dest lw)) @ P"
  shows "\<exists>r'. read_times (posix_sequential_file os) (length ds + 1) (log_Reader (posix_open_read fd') rep True 0) =
      Some (map Some ds @ [None], r') \<and> lr_reports r' = []"
proof -
  note w = written_log [OF assms(1,2)]
  from posix_log.add_loop_bytes [OF assms(3) [unfolded AddRecord_def]] w
  obtain bs where "buffered (lw_dest lw') = buffered (lw_dest lw) @ bs" "pw_buf (lw_dest lw') = []"
    and bs: "log_record (lw_block_offset lw) True d bs (lw_block_offset lw')" by auto
  then have "bs = P @ c" using assms(4) w by (simp add: buffered_def)
  from posix_in.read_log_cut [OF conjunct1 [OF w] bs this assms(5)] assms(6)
  show ?thesis by (simp add: remaining_def posix_open_read_def)
qed

lemma whole_log:
  assumes "written fd = []" "add_records (posix_writable_file os) (log_Writer (posix_open fd)) ds = Some (OK, lw)"
    "unread fd' = written (pw_fd (lw_dest lw))"
  shows "\<exists>r'. read_times (posix_sequential_file os) (length ds + 1) (log_Reader (posix_open_read fd') rep True 0) =
      Some (map Some ds @ [None], r') \<and> lr_reports r' = []"
proof -
  let ?o = "lw_block_offset lw"
  note w = conjunct1 [OF written_log [OF assms(1,2)]]
  have "?o \<le> kBlockSize" using log_records_offset [OF w] by simp
  moreover have "start_offset ?o + kHeaderSize \<le> kBlockSize"
    by (auto simp: start_offset_def kBlockSize_def kHeaderSize_def)
  ultimately have "log_record ?o True [] (trailer ?o @ physical kFullType []) (start_offset ?o + kHeaderSize)"
    using log_end [of ?o "[]" True] by (simp add: fragment_type_def)
  from posix_in.read_log_cut [OF w this, of "[]" _ "posix_open_read fd'" rep] assms(3)
  show ?thesis by (simp add: remaining_def posix_open_read_def physical_def)
qed

end

subsection \<open>A writer that cannot fail\<close>

lemma add_fragment_total:
  assumes app: "\<And>f d. \<exists>f'. wf_append w f d = Some (OK, f')" and fl: "\<And>f. \<exists>f'. wf_flush w f = Some (OK, f')"
    and o: "lw_block_offset lw \<le> kBlockSize"
  shows "\<exists>lw2 rest. add_fragment w lw data b = Some (OK, lw2, rest) \<and> lw_block_offset lw2 \<le> kBlockSize"
proof -
  obtain lw1 where lw1: "new_block w lw = Some lw1"
  proof (cases "kBlockSize - lw_block_offset lw < kHeaderSize \<and> kBlockSize - lw_block_offset lw > 0")
    case True
    then show ?thesis
      using app [of "lw_dest lw" "take (kBlockSize - lw_block_offset lw) [0, 0, 0, 0, 0, 0]"] that
      by (auto simp: new_block_def)
  next
    case False
    then show ?thesis using that by (auto simp: new_block_def Let_def kHeaderSize_def split: if_splits)
  qed
  have o1: "lw_block_offset lw1 + kHeaderSize \<le> kBlockSize"
    using new_block_offset [OF lw1] o by (auto simp: kBlockSize_def kHeaderSize_def split: if_splits)
  have "\<exists>lw2. EmitPhysicalRecord w lw1 t d = Some (OK, lw2)"
    if d: "length d \<le> kBlockSize - lw_block_offset lw1 - kHeaderSize" for t d
  proof -
    have "length d \<le> 65535" using d by (simp add: kBlockSize_def)
    moreover have "lw_block_offset lw1 + kHeaderSize + length d \<le> kBlockSize" using d o1 by simp
    moreover obtain f1 where f1: "wf_append w (lw_dest lw1) (log_header (lw_type_crc lw1) t d) = Some (OK, f1)"
      using app by blast
    moreover obtain f2 where "wf_append w f1 d = Some (OK, f2)" using app by blast
    moreover obtain f3 where "wf_flush w f2 = Some (OK, f3)" using fl by blast
    ultimately show ?thesis by (simp add: EmitPhysicalRecord_def)
  qed
  note e = this
  let ?n = "kBlockSize - lw_block_offset lw1 - kHeaderSize"
  let ?k = "if length data < ?n then length data else ?n"
  have "length (take ?k data) \<le> ?n" by simp
  from e [OF this] obtain lw2 where
    lw2: "EmitPhysicalRecord w lw1 (fragment_type b (length data = ?k)) (take ?k data) = Some (OK, lw2)" by blast
  have le: "\<not> kBlockSize < lw_block_offset lw" using o by simp
  have "add_fragment w lw data b = Some (OK, lw2, drop ?k data)"
    by (simp only: add_fragment_def Let_def if_not_P [OF le] lw1 lw2 Option.bind.simps prod.case)
  with emit_offset [OF lw2] show ?thesis by blast
qed

lemma add_loop_total:
  assumes app: "\<And>f d. \<exists>f'. wf_append w f d = Some (OK, f')" and fl: "\<And>f. \<exists>f'. wf_flush w f = Some (OK, f')"
    and o: "lw_block_offset lw \<le> kBlockSize"
  shows "\<exists>lw'. add_loop w lw data b = Some (OK, lw') \<and> lw_block_offset lw' \<le> kBlockSize"
  using assms
proof (induction w lw data b rule: add_loop.induct)
  case (1 w lw data b)
  obtain lw2 rest where step: "add_fragment w lw data b = Some (OK, lw2, rest)" "lw_block_offset lw2 \<le> kBlockSize"
    using add_fragment_total [OF "1.prems"] by blast
  show ?case
  proof (cases "rest = []")
    case True
    with step show ?thesis by (simp add: add_loop.simps [of w lw])
  next
    case False
    with step "1.IH" [OF step(1) refl refl _ "1.prems"(1,2) step(2)] show ?thesis
      by (simp add: add_loop.simps [of w lw])
  qed
qed

lemma add_records_total:
  assumes app: "\<And>f d. \<exists>f'. wf_append w f d = Some (OK, f')" and fl: "\<And>f. \<exists>f'. wf_flush w f = Some (OK, f')"
    and o: "lw_block_offset lw \<le> kBlockSize"
  shows "\<exists>lw'. add_records w lw ds = Some (OK, lw') \<and> lw_block_offset lw' \<le> kBlockSize"
  using o
proof (induction ds arbitrary: lw)
  case (Cons d ds)
  from add_loop_total [OF app fl Cons.prems, of d True] Cons.IH show ?case
    by (fastforce simp: AddRecord_def)
qed simp

lemma disk_write: "WriteUnbuffered disk name (bs, p) data = Some (OK, bs @ data, p)"
proof (induction "length data" arbitrary: bs data rule: less_induct)
  case less
  have w: "os_write disk (bs, p) data = (int (min 4096 (length data)), 0, bs @ take 4096 data, p)"
    by (simp add: disk_def)
  have d: "drop (nat (int (min 4096 (length data)))) data = drop 4096 data" by (simp add: min_def)
  show ?case
  proof (cases "data = []")
    case False
    then have "WriteUnbuffered disk name (bs @ take 4096 data, p) (drop 4096 data) = Some (OK, bs @ data, p)"
      using less [of "drop 4096 data" "bs @ take 4096 data"] by simp
    with w d False show ?thesis by (subst WriteUnbuffered.simps) (simp only: prod.case if_False, simp)
  qed (simp add: WriteUnbuffered.simps)
qed

lemma disk_append: "\<exists>f'. wf_append (posix_writable_file disk) f d = Some (OK, f')"
  by (cases "pw_fd f") (auto simp: posix_writable_file_def posix_Append_def Let_def FlushBuffer_def disk_write)

lemma disk_flush: "\<exists>f'. wf_flush (posix_writable_file disk) f = Some (OK, f')"
  by (cases "pw_fd f") (auto simp: posix_writable_file_def posix_Flush_def FlushBuffer_def disk_write)

subsection \<open>Reading always ends\<close>

lemma report_simps [simp]:
  "lr_file (ReportDrop r n s) = lr_file r" "lr_buffer (ReportDrop r n s) = lr_buffer r"
  "lr_file (ReportCorruption r n m) = lr_file r" "lr_buffer (ReportCorruption r n m) = lr_buffer r"
  "lr_initial_offset (ReportDrop r n s) = lr_initial_offset r"
  "lr_initial_offset (ReportCorruption r n m) = lr_initial_offset r"
  "lr_resyncing (ReportCorruption r n m) = lr_resyncing r"
  by (simp_all add: ReportDrop_def ReportCorruption_def)

lemma parse_left:
  assumes "parse_record r result = (t, d, r1)" "kHeaderSize \<le> length (lr_buffer r)"
  shows "lr_file r1 = lr_file r \<and> length (lr_buffer r1) + kHeaderSize \<le> length (lr_buffer r)"
  using assms by (auto simp: parse_record_def Let_def remove_prefix_def split: if_splits)

lemma switch_left:
  assumes "t \<noteq> kEof"
  shows "(\<exists>rec s r1. record_switch t off l r = Return True rec s r1 \<and> lr_file r1 = lr_file r \<and> lr_buffer r1 = lr_buffer r) \<or>
    (\<exists>l1 r1. record_switch t off l r = Continue l1 r1 \<and> lr_file r1 = lr_file r \<and> lr_buffer r1 = lr_buffer r)"
  using assms by (auto simp: record_switch_def Let_def simp del: record_codes)

context sequential begin

definition left :: "'f log_reader \<Rightarrow> nat" where
  "left r = length (lr_buffer r) + length (rest (lr_file r))"

lemma read_physical_total:
  "\<exists>t d r1. ReadPhysicalRecord q r result = Some (t, d, r1) \<and> left r1 \<le> left r \<and>
     (t = kEof \<or> left r1 + kHeaderSize \<le> left r)"
proof -
  have here: "\<exists>t d r1. ReadPhysicalRecord q r result = Some (t, d, r1) \<and> left r1 \<le> left r \<and>
      (t = kEof \<or> left r1 + kHeaderSize \<le> left r)"
    if "lr_eof r \<or> kHeaderSize \<le> length (lr_buffer r)" for r
  proof (cases "kHeaderSize \<le> length (lr_buffer r)")
    case True
    obtain t d r1 where p: "parse_record r result = (t, d, r1)" by (cases "parse_record r result") auto
    from parse_left [OF p True] True p show ?thesis
      by (simp add: ReadPhysicalRecord.simps [of q r] left_def)
  next
    case False
    with that show ?thesis by (simp add: ReadPhysicalRecord.simps [of q r] left_def)
  qed
  show ?thesis
  proof (cases "lr_eof r \<or> kHeaderSize \<le> length (lr_buffer r)")
    case True
    then show ?thesis by (rule here)
  next
    case False
    then have lt: "length (lr_buffer r) < kHeaderSize" "\<not> lr_eof r" by auto
    obtain r1 where r1: "ReadPhysicalRecord q r result = ReadPhysicalRecord q r1 result"
      "lr_buffer r1 = take kBlockSize (rest (lr_file r))" "rest (lr_file r1) = drop kBlockSize (rest (lr_file r))"
      "lr_eof r1 = (length (rest (lr_file r)) < kBlockSize)"
      by (rule refill [OF lt])
    have "left r1 \<le> left r" using r1(2,3) by (simp add: left_def)
    moreover have "lr_eof r1 \<or> kHeaderSize \<le> length (lr_buffer r1)"
      using r1(2,4) by (auto simp: kHeaderSize_def kBlockSize_def)
    ultimately show ?thesis using here [of r1] r1(1) by fastforce
  qed
qed

lemma record_loop_total:
  "\<exists>ok rec s r1. record_loop q l r = Some (ok, rec, s, r1) \<and> (ok \<longrightarrow> left r1 + kHeaderSize \<le> left r)"
proof (induction "left r" arbitrary: l r rule: less_induct)
  case less
  obtain t d r1 where p: "ReadPhysicalRecord q r (rl_fragment l) = Some (t, d, r1)"
    "t = kEof \<or> left r1 + kHeaderSize \<le> left r"
    using read_physical_total [of r "rl_fragment l"] by blast
  show ?case
  proof (cases "t = kEof")
    case True
    with pass_eof [of r l d r1] p show ?thesis by auto
  next
    case False
    with p have l1: "left r1 + kHeaderSize \<le> left r" by simp
    have "(\<exists>rec s r2. record_pass q l r = Some (Return True rec s r2) \<and> left r2 = left r1) \<or>
        (\<exists>l2 r2. record_pass q l r = Some (Continue l2 r2) \<and> left r2 = left r1)"
      using switch_left [OF False, of "lr_end_of_buffer_offset r1 - buffer_size r1 - of_nat kHeaderSize - of_nat (length d)"
          "l\<lparr>rl_fragment := d\<rparr>" "r1\<lparr>lr_resyncing := False\<rparr>"] p(1)
      by (auto simp: record_pass_def Let_def left_def)
    then show ?thesis
    proof (elim disjE exE conjE)
      fix rec s r2 assume "record_pass q l r = Some (Return True rec s r2)" "left r2 = left r1"
      then show ?thesis using l1 by (subst record_loop.simps) auto
    next
      fix l2 r2 assume c: "record_pass q l r = Some (Continue l2 r2)" "left r2 = left r1"
      have "left r2 < left r" using l1 c(2) by (simp add: kHeaderSize_def)
      from less [OF this, of l2] c l1 show ?thesis by (subst record_loop.simps) fastforce
    qed
  qed
qed

lemma read_record_total:
  assumes "lr_initial_offset r = 0"
  shows "\<exists>ok rec s r1. ReadRecord q r a b = Some (ok, rec, s, r1) \<and> (ok \<longrightarrow> left r1 + kHeaderSize \<le> left r)"
  using assms record_loop_total by (simp add: ReadRecord_def)

end

context kernel_file begin

lemma read_returns:
  assumes "lr_initial_offset r = 0"
  shows "\<exists>ok record s r1. ReadRecord (posix_sequential_file os) r a b = Some (ok, record, s, r1) \<and>
     (ok \<longrightarrow> length (lr_buffer r1) + length (unread (ps_fd (lr_file r1))) + kHeaderSize
        \<le> length (lr_buffer r) + length (unread (ps_fd (lr_file r))))"
  using posix_in.read_record_total [OF assms] unfolding posix_in.left_def remaining_def .

end

subsection \<open>Properties\<close>

text \<open>C4. Round trip: over a kernel that keeps its promises, after calls of \<open>AddRecord\<close> that all
  return OK, a reader of the file gets exactly these records, in order, then false, and no
  corruption is reported.\<close>

theorem log_roundtrip:
  assumes "kernel_file os written unread"
    and "written fd = []"
    and "add_records (posix_writable_file os) (log_Writer (posix_open fd)) ds = Some (OK, lw)"
    and "unread fd' = written (pw_fd (lw_dest lw))"
  shows "\<exists>r'. read_times (posix_sequential_file os) (length ds + 1) (log_Reader (posix_open_read fd') rep True 0) =
      Some (map Some ds @ [None], r') \<and> lr_reports r' = []"
  using assms(2-4) by (rule kernel_file.whole_log [OF assms(1)])

text \<open>A record over the end of a block, between two small ones.\<close>

definition sample_records :: "byte list list" where
  "sample_records = [[1, 2], replicate 40000 7, []]"

theorem log_roundtrip_witness:
  "\<exists>lw r'. add_records (posix_writable_file disk) (log_Writer (posix_open ([], 0))) sample_records = Some (OK, lw) \<and>
     read_times (posix_sequential_file disk) (length sample_records + 1)
       (log_Reader (posix_open_read (fst (pw_fd (lw_dest lw)), 0)) True True 0) =
       Some (map Some sample_records @ [None], r') \<and> lr_reports r' = []"
proof -
  obtain lw where lw: "add_records (posix_writable_file disk) (log_Writer (posix_open ([], 0))) sample_records = Some (OK, lw)"
    using add_records_total [OF disk_append disk_flush, of "log_Writer (posix_open ([], 0))" sample_records]
    by (auto simp: log_Writer_def)
  from log_roundtrip [OF disk.kernel_file_axioms _ lw, of "(fst (pw_fd (lw_dest lw)), 0)" True] lw
  show ?thesis by (auto simp: disk_rest_def)
qed

text \<open>C5. A crash: when the file ends anywhere inside the last record, the reader gets all records
  before it, then false, and no corruption is reported.\<close>

theorem log_crash:
  assumes "kernel_file os written unread"
    and "written fd = []"
    and "add_records (posix_writable_file os) (log_Writer (posix_open fd)) ds = Some (OK, lw)"
    and "AddRecord (posix_writable_file os) lw d = Some (OK, lw')"
    and "written (pw_fd (lw_dest lw')) = written (pw_fd (lw_dest lw)) @ P @ c" and "c \<noteq> []"
    and "unread fd' = written (pw_fd (lw_dest lw)) @ P"
  shows "\<exists>r'. read_times (posix_sequential_file os) (length ds + 1) (log_Reader (posix_open_read fd') rep True 0) =
      Some (map Some ds @ [None], r') \<and> lr_reports r' = []"
  using assms(2-7) by (rule kernel_file.cut_log [OF assms(1)])

theorem log_crash_witness:
  "\<exists>lw lw' r'. add_records (posix_writable_file disk) (log_Writer (posix_open ([], 0))) sample_records = Some (OK, lw) \<and>
     AddRecord (posix_writable_file disk) lw [9] = Some (OK, lw') \<and>
     read_times (posix_sequential_file disk) (length sample_records + 1)
       (log_Reader (posix_open_read (butlast (fst (pw_fd (lw_dest lw'))), 0)) True True 0) =
       Some (map Some sample_records @ [None], r') \<and> lr_reports r' = []"
proof -
  have o: "lw_block_offset (log_Writer (posix_open ([], 0))) \<le> kBlockSize" by (simp add: log_Writer_def)
  obtain lw where lw: "add_records (posix_writable_file disk) (log_Writer (posix_open ([], 0))) sample_records = Some (OK, lw)"
    and o2: "lw_block_offset lw \<le> kBlockSize"
    using add_records_total [OF disk_append disk_flush o, of sample_records] by blast
  obtain lw' where lw': "AddRecord (posix_writable_file disk) lw [9] = Some (OK, lw')"
    using add_loop_total [OF disk_append disk_flush o2, of "[9]" True] by (auto simp: AddRecord_def)
  note w = disk.written_log [OF _ lw]
  have fl: "pw_buf (lw_dest lw) = []" "lw_type_crc lw = InitTypeCrc" using w by simp_all
  from disk.posix_log.add_loop_bytes [OF lw' [unfolded AddRecord_def] _ fl]
  obtain bs where bs: "disk.buffered (lw_dest lw') = disk.buffered (lw_dest lw) @ bs" "pw_buf (lw_dest lw') = []"
    "log_record (lw_block_offset lw) True [9] bs (lw_block_offset lw')" by auto
  have "bs \<noteq> []" using bs(3) by (auto elim: log_record.cases simp: physical_def)
  then have e: "fst (pw_fd (lw_dest lw')) = fst (pw_fd (lw_dest lw)) @ butlast bs @ [last bs]"
    "butlast (fst (pw_fd (lw_dest lw'))) = fst (pw_fd (lw_dest lw)) @ butlast bs"
    using bs(1,2) fl(1) by (simp_all add: disk.buffered_def butlast_append)
  from log_crash [OF disk.kernel_file_axioms _ lw lw' e(1), of "(butlast (fst (pw_fd (lw_dest lw'))), 0)" True] lw lw' e(2)
  show ?thesis by (auto simp: disk_rest_def)
qed



end
