(* ===== verification/LdbComparator.thy ===== *)
theory LdbComparator
  imports LdbCoding
begin

section \<open>Comparators of LevelDB (include/leveldb/comparator.h, util/comparator.cc)\<close>

text \<open>
  The interface \<open>Comparator\<close> as a record of its operations, the laws its header asks for as the
  locale \<open>comparator_laws\<close>, and the bytewise comparator, which satisfies them on all strings.
  \<open>FindShortestSeparator\<close> and \<open>FindShortSuccessor\<close> change their argument; here they return
  what it becomes.
\<close>

record comparator =
  cmp_Compare :: "byte list \<Rightarrow> byte list \<Rightarrow> int"
  cmp_FindShortestSeparator :: "byte list \<Rightarrow> byte list \<Rightarrow> byte list"
  cmp_FindShortSuccessor :: "byte list \<Rightarrow> byte list"

subsection \<open>The laws\<close>

text \<open>\<open>valid\<close> are the keys the comparator is meant for. A total preorder whose signs mirror; a
  separator of \<open>start < limit\<close> lies in \<open>[start, limit)\<close>, a successor is not below its key.\<close>

locale comparator_laws =
  fixes c :: comparator and valid :: "byte list \<Rightarrow> bool"
  assumes compare_refl: "valid a \<Longrightarrow> cmp_Compare c a a = 0"
    and compare_swap: "valid a \<Longrightarrow> valid b \<Longrightarrow> cmp_Compare c a b < 0 \<longleftrightarrow> cmp_Compare c b a > 0"
    and compare_trans: "valid x \<Longrightarrow> valid y \<Longrightarrow> valid z \<Longrightarrow>
      cmp_Compare c x y \<le> 0 \<Longrightarrow> cmp_Compare c y z \<le> 0 \<Longrightarrow> cmp_Compare c x z \<le> 0"
    and separator_valid: "valid a \<Longrightarrow> valid b \<Longrightarrow> valid (cmp_FindShortestSeparator c a b)"
    and separator_ge: "valid a \<Longrightarrow> valid b \<Longrightarrow> cmp_Compare c a b \<le> 0 \<Longrightarrow>
      cmp_Compare c a (cmp_FindShortestSeparator c a b) \<le> 0"
    and separator_less: "valid a \<Longrightarrow> valid b \<Longrightarrow> cmp_Compare c a b < 0 \<Longrightarrow>
      cmp_Compare c (cmp_FindShortestSeparator c a b) b < 0"
    and separator_equal: "valid a \<Longrightarrow> valid b \<Longrightarrow> cmp_Compare c a b = 0 \<Longrightarrow>
      cmp_FindShortestSeparator c a b = a"
    and successor_valid: "valid a \<Longrightarrow> valid (cmp_FindShortSuccessor c a)"
    and successor_ge: "valid a \<Longrightarrow> cmp_Compare c a (cmp_FindShortSuccessor c a) \<le> 0"
begin

lemma compare_swap_eq: "valid a \<Longrightarrow> valid b \<Longrightarrow> cmp_Compare c a b = 0 \<longleftrightarrow> cmp_Compare c b a = 0"
  using compare_swap [of a b] compare_swap [of b a] by linarith

lemma compare_less_trans:
  assumes "valid x" "valid y" "valid z" and "cmp_Compare c x y < 0" and "cmp_Compare c y z \<le> 0"
  shows "cmp_Compare c x z < 0"
proof (rule ccontr)
  assume "\<not> cmp_Compare c x z < 0"
  then have "cmp_Compare c z x \<le> 0" using compare_swap [OF assms(1,3)] by linarith
  with compare_trans [OF assms(2,3,1,5)] have "cmp_Compare c y x \<le> 0" by simp
  with compare_swap [OF assms(1,2)] assms(4) show False by simp
qed

lemma compare_trans_less:
  assumes "valid x" "valid y" "valid z" and "cmp_Compare c x y \<le> 0" and "cmp_Compare c y z < 0"
  shows "cmp_Compare c x z < 0"
proof (rule ccontr)
  assume "\<not> cmp_Compare c x z < 0"
  then have "cmp_Compare c z x \<le> 0" using compare_swap [OF assms(1,3)] by linarith
  with compare_trans [OF assms(3,1,2) _ assms(4)] have "cmp_Compare c z y \<le> 0" by simp
  with compare_swap [OF assms(2,3)] assms(5) show False by simp
qed

lemma compare_eq_trans:
  assumes "valid x" "valid y" "valid z" and "cmp_Compare c x y = 0" and "cmp_Compare c y z = 0"
  shows "cmp_Compare c x z = 0"
proof -
  have "cmp_Compare c y x = 0" "cmp_Compare c z y = 0"
    using assms compare_swap_eq [of x y] compare_swap_eq [of y z] by simp_all
  with assms compare_trans [of x y z] compare_trans [of z y x] compare_swap [of x z] show ?thesis by force
qed

text \<open>The index key a table stores between two blocks: everything up to the first block's last key
  is not above it, everything from the second block's first key on is above it.\<close>

lemma separator_splits:
  assumes "valid x" "valid a" "valid b" "valid y" and "cmp_Compare c a b < 0"
    and "cmp_Compare c x a \<le> 0" and "cmp_Compare c b y \<le> 0"
  shows "cmp_Compare c x (cmp_FindShortestSeparator c a b) \<le> 0 \<and>
    cmp_Compare c (cmp_FindShortestSeparator c a b) y < 0"
  using assms compare_trans [OF assms(1,2) separator_valid [OF assms(2,3)] assms(6)]
    compare_less_trans [OF separator_valid [OF assms(2,3)] assms(3,4)]
    separator_ge [OF assms(2,3)] separator_less [OF assms(2,3,5)]
  by simp

end

subsection \<open>The bytewise comparator\<close>

text \<open>The length of the common prefix: the loop that stops at the shorter string's end.\<close>

fun diff_index :: "byte list \<Rightarrow> byte list \<Rightarrow> nat" where
  "diff_index (x # xs) (y # ys) = (if x = y then Suc (diff_index xs ys) else 0)"
| "diff_index _ _ = 0"

definition bytewise_FindShortestSeparator :: "byte list \<Rightarrow> byte list \<Rightarrow> byte list" where
  "bytewise_FindShortestSeparator start limit =
     (let min_length = min (length start) (length limit); d = diff_index start limit in
      if d \<ge> min_length then start
      else let diff_byte = start ! d in
        if diff_byte < 0xff \<and> unat diff_byte + 1 < unat (limit ! d)
        then take d start @ [diff_byte + 1] else start)"

fun bytewise_FindShortSuccessor :: "byte list \<Rightarrow> byte list" where
  "bytewise_FindShortSuccessor [] = []"
| "bytewise_FindShortSuccessor (b # key) =
     (if b \<noteq> 0xff then [b + 1] else b # bytewise_FindShortSuccessor key)"

definition BytewiseComparator :: comparator where
  "BytewiseComparator =
     \<lparr>cmp_Compare = slice_compare, cmp_FindShortestSeparator = bytewise_FindShortestSeparator,
      cmp_FindShortSuccessor = bytewise_FindShortSuccessor\<rparr>"

subsection \<open>Facts\<close>

lemma bytewise_sel [simp]:
  "cmp_Compare BytewiseComparator = slice_compare"
  "cmp_FindShortestSeparator BytewiseComparator = bytewise_FindShortestSeparator"
  "cmp_FindShortSuccessor BytewiseComparator = bytewise_FindShortSuccessor"
  by (simp_all add: BytewiseComparator_def)

lemma bytes_less_irrefl: "\<not> bytes_less a a"
  by (simp add: bytes_less_def lexord_irreflexive)

lemma bytes_less_trans: "bytes_less a b \<Longrightarrow> bytes_less b d \<Longrightarrow> bytes_less a d"
  unfolding bytes_less_def by (rule lexord_trans) (auto intro: transI)

lemma bytes_less_linear: "bytes_less a b \<or> a = b \<or> bytes_less b a"
  unfolding bytes_less_def by (rule lexord_linear) auto

lemma bytes_less_asym: "bytes_less a b \<Longrightarrow> \<not> bytes_less b a"
  using bytes_less_trans bytes_less_irrefl by blast

lemma slice_compare_signs:
  "slice_compare a b < 0 \<longleftrightarrow> bytes_less a b"
  "slice_compare a b = 0 \<longleftrightarrow> a = b"
  "slice_compare a b > 0 \<longleftrightarrow> bytes_less b a"
  "slice_compare a b \<le> 0 \<longleftrightarrow> bytes_less a b \<or> a = b"
  using bytes_less_linear [of a b] bytes_less_asym [of a b] bytes_less_irrefl
  by (auto simp: slice_compare_cases)

lemma separator_same:
  "bytewise_FindShortestSeparator (x # xs) (x # ys) = x # bytewise_FindShortestSeparator xs ys"
  by (simp add: bytewise_FindShortestSeparator_def Let_def)

lemma separator_diff:
  "x \<noteq> y \<Longrightarrow> bytewise_FindShortestSeparator (x # xs) (y # ys) =
     (if x < 0xff \<and> unat x + 1 < unat y then [x + 1] else x # xs)"
  by (simp add: bytewise_FindShortestSeparator_def)

lemma separator_Nil [simp]:
  "bytewise_FindShortestSeparator [] b = []" "bytewise_FindShortestSeparator a [] = a"
  by (simp_all add: bytewise_FindShortestSeparator_def)

lemma byte_succ: "x \<noteq> (0xff :: byte) \<Longrightarrow> unat (x + 1) = unat x + 1"
  using unat_8 [of x] by (simp add: word_unat_eq_iff unat_word_ariths)

lemma bytewise_separator:
  "slice_compare a (bytewise_FindShortestSeparator a b) \<le> 0 \<and>
   (slice_compare a b < 0 \<longrightarrow> slice_compare (bytewise_FindShortestSeparator a b) b < 0)"
proof (induction a arbitrary: b)
  case Nil
  then show ?case by simp
next
  case (Cons x xs)
  show ?case
  proof (cases b)
    case Nil
    then show ?thesis by (simp add: slice_compare_signs)
  next
    case b: (Cons y ys)
    show ?thesis
    proof (cases "x = y")
      case True
      with Cons b show ?thesis by (simp add: separator_same slice_compare_Cons)
    next
      case False
      show ?thesis
      proof (cases "x < 0xff \<and> unat x + 1 < unat y")
        case True
        then have "unat (x + 1) = unat x + 1" by (intro byte_succ) auto
        with True False b show ?thesis
          by (simp add: separator_diff slice_compare_Cons word_less_nat_alt)
      next
        case no: False
        have "bytewise_FindShortestSeparator (x # xs) b = x # xs"
          using separator_diff [OF False, of xs ys] no b by simp
        then show ?thesis by (simp add: slice_compare_signs)
      qed
    qed
  qed
qed

lemma bytewise_successor: "slice_compare a (bytewise_FindShortSuccessor a) \<le> 0"
proof (induction a)
  case (Cons x xs)
  then show ?case
    using byte_succ [of x] by (simp add: slice_compare_Cons word_less_nat_alt)
qed simp

lemma bytewise_separator_equal: "bytewise_FindShortestSeparator a a = a"
  by (induction a) (simp_all add: separator_same)

lemma bytewise_laws: "comparator_laws BytewiseComparator (\<lambda>_. True)"
proof
  fix a b x y z :: "byte list"
  show "cmp_Compare BytewiseComparator a a = 0" by (simp add: slice_compare_signs)
  show "cmp_Compare BytewiseComparator a b < 0 \<longleftrightarrow> cmp_Compare BytewiseComparator b a > 0"
    by (simp add: slice_compare_signs)
  show "cmp_Compare BytewiseComparator x y \<le> 0 \<Longrightarrow> cmp_Compare BytewiseComparator y z \<le> 0 \<Longrightarrow>
      cmp_Compare BytewiseComparator x z \<le> 0"
    using bytes_less_trans by (auto simp: slice_compare_signs)
qed (use bytewise_separator bytewise_successor in \<open>auto simp: slice_compare_signs(2) bytewise_separator_equal\<close>)

interpretation bytewise: comparator_laws BytewiseComparator "\<lambda>_. True"
  by (rule bytewise_laws)

subsection \<open>Properties\<close>

text \<open>C38. The bytewise comparator is a total order, and the shortened separator of two keys lies
  between them: not below the first and strictly below the second.\<close>

theorem bytewise_order:
  "(slice_compare a b = 0 \<longleftrightarrow> a = b) \<and> (slice_compare a b < 0 \<longleftrightarrow> slice_compare b a > 0) \<and>
   (slice_compare a b < 0 \<and> slice_compare b d < 0 \<longrightarrow> slice_compare a d < 0) \<and>
   (slice_compare a b < 0 \<longrightarrow>
      slice_compare a (bytewise_FindShortestSeparator a b) \<le> 0 \<and>
      slice_compare (bytewise_FindShortestSeparator a b) b < 0 \<and>
      length (bytewise_FindShortestSeparator a b) \<le> length a)"
proof -
  have "length (bytewise_FindShortestSeparator a b) \<le> length a"
    by (auto simp: bytewise_FindShortestSeparator_def Let_def)
  then show ?thesis
    using bytewise_separator [of a b] bytes_less_trans [of a b d] by (auto simp: slice_compare_signs)
qed

lemma bytewise_order_witness:
  "slice_compare [1, 5] (bytewise_FindShortestSeparator [1, 5] [1, 9, 9]) \<le> 0 \<and>
   slice_compare (bytewise_FindShortestSeparator [1, 5] [1, 9, 9]) [1, 9, 9] < 0"
  using bytewise_order [of "[1, 5]" "[1, 9, 9]" "[]"] by (simp add: slice_compare_Cons)

end
