(* ===== verification/LdbBlock.thy ===== *)
theory LdbBlock
  imports LdbComparator LdbEnv
begin

section \<open>Blocks of a table (table/block_builder.cc, table/block.cc)\<close>

text \<open>
  A block holds sorted entries whose keys share prefixes with the key before, except at restart
  points, whose offsets close the block. \<open>BlockBuilder\<close> writes one, \<open>Block::Iter\<close> moves in it.
  A slice of the iterator is an offset and a length in the block. Offsets of the iterator are
  32-bit words, as in the code. An operation is None when an assertion fails or when it reads
  outside the block; the loops whose end depends on the contents are partial functions.
\<close>

subsection \<open>\<open>BlockBuilder\<close>\<close>

record block_options =
  opt_comparator :: comparator
  opt_block_restart_interval :: nat

record block_builder =
  bb_buffer :: "byte list"
  bb_restarts :: "u32 list"
  bb_counter :: nat
  bb_finished :: bool
  bb_last_key :: "byte list"

definition new_BlockBuilder :: "block_options \<Rightarrow> block_builder option" where
  "new_BlockBuilder options =
     (if opt_block_restart_interval options \<ge> 1
      then Some \<lparr>bb_buffer = [], bb_restarts = [0], bb_counter = 0, bb_finished = False, bb_last_key = []\<rparr>
      else None)"

definition bb_Reset :: "block_builder \<Rightarrow> block_builder" where
  "bb_Reset b = b\<lparr>bb_buffer := [], bb_restarts := [0], bb_counter := 0, bb_finished := False, bb_last_key := []\<rparr>"

definition bb_CurrentSizeEstimate :: "block_builder \<Rightarrow> nat" where
  "bb_CurrentSizeEstimate b = length (bb_buffer b) + length (bb_restarts b) * 4 + 4"

definition bb_empty :: "block_builder \<Rightarrow> bool" where
  "bb_empty b \<longleftrightarrow> bb_buffer b = []"

definition bb_Finish :: "block_builder \<Rightarrow> byte list \<times> block_builder" where
  "bb_Finish b =
     (let buffer = PutFixed32 (fold (\<lambda>r buf. PutFixed32 buf r) (bb_restarts b) (bb_buffer b))
            (of_nat (length (bb_restarts b)))
      in (buffer, b\<lparr>bb_buffer := buffer, bb_finished := True\<rparr>))"

definition bb_Add :: "block_options \<Rightarrow> block_builder \<Rightarrow> byte list \<Rightarrow> byte list \<Rightarrow> block_builder option" where
  "bb_Add options b key value =
     (if \<not> (\<not> bb_finished b \<and> bb_counter b \<le> opt_block_restart_interval options \<and>
            (bb_buffer b = [] \<or> cmp_Compare (opt_comparator options) key (bb_last_key b) > 0))
      then None
      else
        let (shared, b1) =
              (if bb_counter b < opt_block_restart_interval options
               then (diff_index (bb_last_key b) key, b)
               else (0, b\<lparr>bb_restarts := bb_restarts b @ [of_nat (length (bb_buffer b))], bb_counter := 0\<rparr>));
            non_shared = length key - shared;
            buffer = PutVarint32 (PutVarint32 (PutVarint32 (bb_buffer b1) (of_nat shared)) (of_nat non_shared))
              (of_nat (length value));
            buffer = buffer @ drop shared key @ value
        in Some (b1\<lparr>bb_buffer := buffer, bb_last_key := take shared (bb_last_key b1) @ drop shared key,
                   bb_counter := bb_counter b1 + 1\<rparr>))"

subsection \<open>\<open>Block\<close>\<close>

record block =
  bk_data :: "byte list"
  bk_size :: nat
  bk_restart_offset :: u32

definition NumRestarts :: "block \<Rightarrow> u32 option" where
  "NumRestarts b =
     (if bk_size b \<ge> 4 then DecodeFixed32 (drop (bk_size b - 4) (bk_data b)) else None)"

definition make_Block :: "byte list \<Rightarrow> block option" where
  "make_Block contents =
     (let b = \<lparr>bk_data = contents, bk_size = length contents, bk_restart_offset = 0\<rparr>
      in if bk_size b < 4 then Some (b\<lparr>bk_size := 0\<rparr>)
         else do {
           num \<leftarrow> NumRestarts b;
           let max_restarts_allowed = (bk_size b - 4) div 4;
           if unat num > max_restarts_allowed then Some (b\<lparr>bk_size := 0\<rparr>)
           else Some (b\<lparr>bk_restart_offset := of_nat (bk_size b - unat (1 + num) * 4)\<rparr>)
         })"

subsection \<open>Entries\<close>

text \<open>From the bytes between \<open>p\<close> and \<open>limit\<close>: shared, non-shared and value length, and the bytes
  from the key delta on. The sum of the lengths is taken in 32 bits.\<close>

definition DecodeEntry :: "byte list \<Rightarrow> (u32 \<times> u32 \<times> u32 \<times> byte list) option" where
  "DecodeEntry p =
     (if length p < 3 then None
      else do {
        let shared = (ucast (p ! 0) :: u32);
        let non_shared = (ucast (p ! 1) :: u32);
        let value_length = (ucast (p ! 2) :: u32);
        (shared, non_shared, value_length, p) \<leftarrow>
          (if (shared OR non_shared OR value_length) < 128
           then Some (shared, non_shared, value_length, drop 3 p)
           else do {
             (shared, p) \<leftarrow> GetVarint32Ptr p;
             (non_shared, p) \<leftarrow> GetVarint32Ptr p;
             (value_length, p) \<leftarrow> GetVarint32Ptr p;
             Some (shared, non_shared, value_length, p)
           });
        if of_nat (length p) < non_shared + value_length then None
        else Some (shared, non_shared, value_length, p)
      })"

subsection \<open>\<open>Block::Iter\<close>\<close>

text \<open>The members that never change, and the others. \<open>value_\<close> is None for a slice that does not
  lie in the block.\<close>

record block_consts =
  bc_comparator :: comparator
  bc_data :: "byte list"
  bc_restarts :: u32
  bc_num_restarts :: u32

record block_iter =
  bi_current :: u32
  bi_restart_index :: u32
  bi_key :: "byte list"
  bi_value :: "(nat \<times> nat) option"
  bi_status :: Status

definition NextEntryOffset :: "block_iter \<Rightarrow> u32 option" where
  "NextEntryOffset it = map_option (\<lambda>(p, n). of_nat (p + n)) (bi_value it)"

definition GetRestartPoint :: "block_consts \<Rightarrow> u32 \<Rightarrow> u32 option" where
  "GetRestartPoint c index =
     (if index < bc_num_restarts c
      then DecodeFixed32 (drop (unat (bc_restarts c) + unat index * 4) (bc_data c)) else None)"

definition SeekToRestartPoint :: "block_consts \<Rightarrow> block_iter \<Rightarrow> u32 \<Rightarrow> block_iter option" where
  "SeekToRestartPoint c it index = do {
     offset \<leftarrow> GetRestartPoint c index;
     Some (it\<lparr>bi_key := [], bi_restart_index := index, bi_value := Some (unat offset, 0)\<rparr>)
   }"

definition new_block_iter :: "block_consts \<Rightarrow> block_iter" where
  "new_block_iter c = \<lparr>bi_current = bc_restarts c, bi_restart_index = bc_num_restarts c, bi_key = [],
     bi_value = None, bi_status = OK\<rparr>"

definition bi_Valid :: "block_consts \<Rightarrow> block_iter \<Rightarrow> bool" where
  "bi_Valid c it \<longleftrightarrow> bi_current it < bc_restarts c"

definition CorruptionError :: "block_consts \<Rightarrow> block_iter \<Rightarrow> block_iter" where
  "CorruptionError c it = it\<lparr>bi_current := bc_restarts c, bi_restart_index := bc_num_restarts c,
     bi_status := Corruption ''bad entry in block'' [], bi_key := [], bi_value := None\<rparr>"

text \<open>\<open>n\<close> bytes from where \<open>q\<close> is all that is left before the restart array.\<close>

definition entry_slice :: "block_consts \<Rightarrow> byte list \<Rightarrow> nat \<Rightarrow> byte list option" where
  "entry_slice c q n =
     (let p = unat (bc_restarts c) - length q
      in if p + n > length (bc_data c) then None else Some (take n (drop p (bc_data c))))"

partial_function (option) advance_restart :: "block_consts \<Rightarrow> block_iter \<Rightarrow> block_iter option" where
  "advance_restart c it =
     (if bi_restart_index it + 1 < bc_num_restarts c then
        Option.bind (GetRestartPoint c (bi_restart_index it + 1)) (\<lambda>r.
          if r < bi_current it then advance_restart c (it\<lparr>bi_restart_index := bi_restart_index it + 1\<rparr>)
          else Some it)
      else Some it)"

definition ParseNextKey :: "block_consts \<Rightarrow> block_iter \<Rightarrow> (bool \<times> block_iter) option" where
  "ParseNextKey c it = do {
     next \<leftarrow> NextEntryOffset it;
     let it1 = it\<lparr>bi_current := next\<rparr>;
     if next \<ge> bc_restarts c
     then Some (False, it1\<lparr>bi_current := bc_restarts c, bi_restart_index := bc_num_restarts c\<rparr>)
     else case DecodeEntry (drop (unat next) (take (unat (bc_restarts c)) (bc_data c))) of
            None \<Rightarrow> Some (False, CorruptionError c it1)
          | Some (shared, non_shared, value_length, q) \<Rightarrow>
              if length (bi_key it1) < unat shared then Some (False, CorruptionError c it1)
              else
                do {
                  delta \<leftarrow> entry_slice c q (unat non_shared);
                  it2 \<leftarrow> advance_restart c
                    (it1\<lparr>bi_key := take (unat shared) (bi_key it1) @ delta,
                         bi_value := Some (unat (bc_restarts c) - length q + unat non_shared, unat value_length)\<rparr>);
                  Some (True, it2)
                }
   }"

definition bi_Next :: "block_consts \<Rightarrow> block_iter \<Rightarrow> block_iter option" where
  "bi_Next c it = (if bi_Valid c it then map_option snd (ParseNextKey c it) else None)"

text \<open>\<open>Prev\<close>: back to a restart point before the entry (None inside: there is none), then forward.\<close>

function prev_restart :: "block_consts \<Rightarrow> u32 \<Rightarrow> u32 \<Rightarrow> u32 option option" where
  "prev_restart c original index =
     (case GetRestartPoint c index of
        None \<Rightarrow> None
      | Some r \<Rightarrow>
          if r \<ge> original then (if index = 0 then Some None else prev_restart c original (index - 1))
          else Some (Some index))"
  by pat_completeness auto
termination
  by (relation "measure (\<lambda>(c, original, index). unat index)") (auto simp: unat_minus_one unat_gt_0)

declare prev_restart.simps [simp del]

text \<open>\<open>do \<dots> while (ParseNextKey() && NextEntryOffset() < stop)\<close>, as also \<open>SeekToLast\<close> has it.\<close>

partial_function (option) scan_to :: "block_consts \<Rightarrow> u32 \<Rightarrow> block_iter \<Rightarrow> block_iter option" where
  "scan_to c stop it =
     Option.bind (ParseNextKey c it) (\<lambda>(ok, it1).
       if \<not> ok then Some it1
       else Option.bind (NextEntryOffset it1) (\<lambda>next.
         if next < stop then scan_to c stop it1 else Some it1))"

definition bi_Prev :: "block_consts \<Rightarrow> block_iter \<Rightarrow> block_iter option" where
  "bi_Prev c it =
     (if \<not> bi_Valid c it then None
      else
        let original = bi_current it
        in do {
          found \<leftarrow> prev_restart c original (bi_restart_index it);
          case found of
            None \<Rightarrow> Some (it\<lparr>bi_current := bc_restarts c, bi_restart_index := bc_num_restarts c\<rparr>)
          | Some index \<Rightarrow> do { it1 \<leftarrow> SeekToRestartPoint c it index; scan_to c original it1 }
        })"

definition bi_SeekToFirst :: "block_consts \<Rightarrow> block_iter \<Rightarrow> block_iter option" where
  "bi_SeekToFirst c it = do { it1 \<leftarrow> SeekToRestartPoint c it 0; map_option snd (ParseNextKey c it1) }"

definition bi_SeekToLast :: "block_consts \<Rightarrow> block_iter \<Rightarrow> block_iter option" where
  "bi_SeekToLast c it = do {
     it1 \<leftarrow> SeekToRestartPoint c it (bc_num_restarts c - 1);
     scan_to c (bc_restarts c) it1
   }"

text \<open>The binary search: None inside for a corrupt restart point.\<close>

partial_function (option) seek_restart :: "block_consts \<Rightarrow> byte list \<Rightarrow> u32 \<Rightarrow> u32 \<Rightarrow> u32 option option" where
  "seek_restart c target left right =
     (if left < right then
        Option.bind (GetRestartPoint c ((left + right + 1) div 2)) (\<lambda>region_offset.
          case DecodeEntry (drop (unat region_offset) (take (unat (bc_restarts c)) (bc_data c))) of
            None \<Rightarrow> Some None
          | Some (shared, non_shared, value_length, q) \<Rightarrow>
              if shared \<noteq> 0 then Some None
              else Option.bind (entry_slice c q (unat non_shared)) (\<lambda>mid_key.
                if cmp_Compare (bc_comparator c) mid_key target < 0
                then seek_restart c target ((left + right + 1) div 2) right
                else seek_restart c target left ((left + right + 1) div 2 - 1)))
      else Some (Some left))"

partial_function (option) seek_linear :: "block_consts \<Rightarrow> byte list \<Rightarrow> block_iter \<Rightarrow> block_iter option" where
  "seek_linear c target it =
     Option.bind (ParseNextKey c it) (\<lambda>(ok, it1).
       if \<not> ok then Some it1
       else if cmp_Compare (bc_comparator c) (bi_key it1) target \<ge> 0 then Some it1
       else seek_linear c target it1)"

definition bi_Seek :: "block_consts \<Rightarrow> block_iter \<Rightarrow> byte list \<Rightarrow> block_iter option" where
  "bi_Seek c it target = do {
     found \<leftarrow> seek_restart c target 0 (bc_num_restarts c - 1);
     case found of
       None \<Rightarrow> Some (CorruptionError c it)
     | Some left \<Rightarrow> do { it1 \<leftarrow> SeekToRestartPoint c it left; seek_linear c target it1 }
   }"

definition bi_value_bytes :: "block_consts \<Rightarrow> block_iter \<Rightarrow> byte list option" where
  "bi_value_bytes c it =
     (case bi_value it of
        Some (p, n) \<Rightarrow> if p + n \<le> length (bc_data c) then Some (take n (drop p (bc_data c))) else None
      | None \<Rightarrow> None)"

datatype iterator = ErrorIterator Status | EmptyIterator | BlockIterator block_consts block_iter

definition NewIterator :: "block \<Rightarrow> comparator \<Rightarrow> iterator option" where
  "NewIterator b comparator =
     (if bk_size b < 4 then Some (ErrorIterator (Corruption ''bad block contents'' []))
      else do {
        num_restarts \<leftarrow> NumRestarts b;
        if num_restarts = 0 then Some EmptyIterator
        else
          let c = \<lparr>bc_comparator = comparator, bc_data = bk_data b, bc_restarts = bk_restart_offset b,
                   bc_num_restarts = num_restarts\<rparr>
          in Some (BlockIterator c (new_block_iter c))
      })"

end
