(* ===== verification/LdbBlockProps.thy ===== *)
theory LdbBlockProps
  imports LdbBlock
begin

section \<open>A block is a sorted list with a cursor\<close>

text \<open>
  An entry of the layout is the number of shared key bytes, the key and the value. \<open>holds\<close> says
  that a block consists of the given entries and restart points, \<open>building\<close> that the builder has
  written them so far, \<open>stands\<close> that the iterator is on an entry, and \<open>ready\<close> that it is about to
  read one. Each operation of the iterator goes from \<open>stands\<close> to \<open>stands\<close>, the binary search by
  way of a restart point that is not above the target's place.

  Shown: the iterator over a finished block is a cursor over the list of added entries. Only the
  comparator's laws are used of the order of keys.
\<close>

subsection \<open>Entries\<close>

type_synonym entry = "nat \<times> byte list \<times> byte list"

abbreviation e_shared :: "entry \<Rightarrow> nat" where "e_shared \<equiv> fst"
abbreviation e_key :: "entry \<Rightarrow> byte list" where "e_key e \<equiv> fst (snd e)"
abbreviation e_value :: "entry \<Rightarrow> byte list" where "e_value e \<equiv> snd (snd e)"

definition entry_head :: "entry \<Rightarrow> byte list" where
  "entry_head e = EncodeVarint32 (of_nat (e_shared e)) @ EncodeVarint32 (of_nat (length (e_key e) - e_shared e)) @
     EncodeVarint32 (of_nat (length (e_value e)))"

definition entry_bytes :: "entry \<Rightarrow> byte list" where
  "entry_bytes e = entry_head e @ drop (e_shared e) (e_key e) @ e_value e"

lemma EncodeVarint32_nonempty: "1 \<le> length (EncodeVarint32 v)"
  by (simp add: EncodeVarint32_def)

text \<open>The fast path reads what the general one does.\<close>

lemma small_or: "((ucast (a::byte) :: u32) OR ucast (b::byte) OR ucast (d::byte)) < 128 \<longleftrightarrow>
    a AND 128 = 0 \<and> b AND 128 = 0 \<and> d AND 128 = 0"
proof -
  have b: "x AND 128 = 0 \<longleftrightarrow> \<not> bit x 7" for x :: byte
    using and_exp_eq_0_iff_not_bit [of x 7] by simp
  have h: "x AND 128 = 0 \<longleftrightarrow> unat x < 128" for x :: byte
  proof -
    have "bit x 7 \<longleftrightarrow> bit (unat x) 7" by (simp add: bit_unsigned_iff)
    also have "\<dots> \<longleftrightarrow> odd (unat x div 2 ^ 7)" by (simp add: bit_iff_odd [of "unat x" 7])
    also have "unat x div 2 ^ 7 = (if unat x < 128 then 0 else 1)"
      using unat_8 [of x] by (simp add: le_div_geq)
    also have "odd (if unat x < 128 then 0 else 1 :: nat) \<longleftrightarrow> \<not> unat x < 128" by simp
    finally show ?thesis by (simp add: b)
  qed
  have "(ucast a :: u32) OR ucast b OR ucast d = ucast (a OR b OR d)" by (simp add: unsigned_or_eq)
  then have "((ucast a :: u32) OR ucast b OR ucast d) < 128 \<longleftrightarrow> unat (a OR b OR d) < 128"
    by (simp add: word_less_nat_alt unat_ucast_mod unat_8 [THEN less_trans])
  also have "\<dots> \<longleftrightarrow> (a OR b OR d) AND 128 = 0" by (simp add: h)
  also have "\<dots> \<longleftrightarrow> a AND 128 = 0 \<and> b AND 128 = 0 \<and> d AND 128 = 0"
    by (simp add: b bit_or_iff)
  finally show ?thesis .
qed

lemma DecodeEntry_slow:
  "DecodeEntry p =
     (if length p < 3 then None
      else do {
        (shared, p) \<leftarrow> GetVarint32Ptr p;
        (non_shared, p) \<leftarrow> GetVarint32Ptr p;
        (value_length, p) \<leftarrow> GetVarint32Ptr p;
        if of_nat (length p) < non_shared + value_length then None
        else Some (shared, non_shared, value_length, p)
      })"
proof (cases "length p < 3")
  case False
  then obtain a b d q where p: "p = a # b # d # q"
    by (metis Suc_le_length_iff not_less numeral_3_eq_3)
  show ?thesis
  proof (cases "a AND 128 = 0 \<and> b AND 128 = 0 \<and> d AND 128 = 0")
    case True
    then have "((ucast a :: u32) OR ucast b OR ucast d) < 128" by (simp add: small_or)
    with True show ?thesis by (simp add: DecodeEntry_def p GetVarint32Ptr_def or.assoc)
  next
    case False
    then have "\<not> ((ucast a :: u32) OR ucast b OR ucast d) < 128" by (simp add: small_or)
    then show ?thesis 
      by (auto simp: DecodeEntry_def p or.assoc Let_def split: Option.bind_splits)
  qed
qed (simp add: DecodeEntry_def)

lemma DecodeEntry_entry:
  assumes "e_shared e \<le> length (e_key e)" "length (entry_bytes e) + length rest < 2 ^ 32"
    and "e_shared e < 2 ^ 32"
  shows "DecodeEntry (entry_bytes e @ rest) =
    Some (of_nat (e_shared e), of_nat (length (e_key e) - e_shared e), of_nat (length (e_value e)),
      drop (e_shared e) (e_key e) @ e_value e @ rest)"
proof -
  let ?n = "length (e_key e) - e_shared e" and ?v = "length (e_value e)"
  have len: "3 \<le> length (entry_bytes e @ rest)"
    using EncodeVarint32_nonempty [of "of_nat (e_shared e)"] EncodeVarint32_nonempty [of "of_nat ?n"]
      EncodeVarint32_nonempty [of "of_nat ?v"]
    by (simp add: entry_bytes_def entry_head_def)
  have l: "?n + ?v + length rest < 2 ^ 32" using assms(2) by (simp add: entry_bytes_def)
  then have "unat ((of_nat ?n :: u32) + of_nat ?v) = ?n + ?v"
    by (simp add: unat_of_nat flip: of_nat_add)
  moreover have "unat (of_nat (?n + ?v + length rest) :: u32) = ?n + ?v + length rest"
    using l by (simp only: unat_of_nat) simp
  ultimately have "\<not> (of_nat (?n + ?v + length rest) :: u32) < of_nat ?n + of_nat ?v"
    by (simp add: word_less_nat_alt del: of_nat_add)
  with len show ?thesis
    by (simp add: DecodeEntry_slow entry_bytes_def entry_head_def GetVarint32Ptr_encode ac_simps)
qed

lemma unat_small: "n < 2 ^ 32 \<Longrightarrow> unat (of_nat n :: u32) = n"
  by (simp add: unat_of_nat)

subsection \<open>The layout of a block\<close>

definition body :: "entry list \<Rightarrow> byte list" where
  "body es = concat (map entry_bytes es)"

text \<open>The offset of the entry with index \<open>i\<close>, and of the end.\<close>

definition off :: "entry list \<Rightarrow> nat \<Rightarrow> nat" where
  "off es i = length (body (take i es))"

definition restart_array :: "entry list \<Rightarrow> nat list \<Rightarrow> byte list" where
  "restart_array es R = concat (map (\<lambda>i. EncodeFixed32 (of_nat (off es i))) R) @ EncodeFixed32 (of_nat (length R))"

text \<open>Each entry shares a prefix with the one before; \<open>R\<close> are the indices of the restart points.\<close>

fun chained :: "byte list \<Rightarrow> entry list \<Rightarrow> bool" where
  "chained l [] \<longleftrightarrow> True"
| "chained l (e # es) \<longleftrightarrow> e_shared e \<le> length l \<and> e_shared e \<le> length (e_key e) \<and>
     take (e_shared e) l = take (e_shared e) (e_key e) \<and> chained (e_key e) es"

definition restarts_ok :: "entry list \<Rightarrow> nat list \<Rightarrow> bool" where
  "restarts_ok es R \<longleftrightarrow> R \<noteq> [] \<and> R ! 0 = 0 \<and> sorted_wrt (<) R \<and>
     (\<forall>i \<in> set R. i \<le> length es \<and> (es \<noteq> [] \<longrightarrow> i < length es \<and> e_shared (es ! i) = 0))"

definition holds :: "block_consts \<Rightarrow> entry list \<Rightarrow> nat list \<Rightarrow> bool" where
  "holds c es R \<longleftrightarrow> bc_data c = body es @ restart_array es R \<and> bc_restarts c = of_nat (length (body es)) \<and>
     bc_num_restarts c = of_nat (length R) \<and> length (bc_data c) < 2 ^ 32 \<and> chained [] es \<and> restarts_ok es R"

lemma body_simps [simp]: "body [] = []" "body (e # es) = entry_bytes e @ body es" "body (xs @ ys) = body xs @ body ys"
  by (simp_all add: body_def)

lemma off_0 [simp]: "off es 0 = 0"
  by (simp add: off_def)

lemma off_end [simp]: "off es (length es) = length (body es)"
  by (simp add: off_def)

lemma off_Suc: "i < length es \<Longrightarrow> off es (Suc i) = off es i + length (entry_bytes (es ! i))"
  by (simp add: off_def take_Suc_conv_app_nth)

lemma length_entry_bytes: "length (entry_bytes e) = length (entry_head e) + (length (e_key e) - e_shared e) + length (e_value e)"
  by (simp add: entry_bytes_def)

lemma entry_bytes_pos: "0 < length (entry_bytes e)"
  using EncodeVarint32_nonempty [of "of_nat (e_shared e)"] unfolding entry_bytes_def entry_head_def length_append
  by linarith

lemma off_mono: "i \<le> j \<Longrightarrow> off es i \<le> off es j"
proof -
  assume "i \<le> j"
  then have "take j es = take i es @ take (j - i) (drop i es)" by (metis le_add_diff_inverse take_add)
  then show ?thesis by (simp add: off_def)
qed

lemma off_less: "i < j \<Longrightarrow> j \<le> length es \<Longrightarrow> off es i < off es j"
proof -
  assume "i < j" "j \<le> length es"
  then have "off es (Suc i) = off es i + length (entry_bytes (es ! i))" "off es (Suc i) \<le> off es j"
    using off_Suc [of i es] off_mono [of "Suc i" j es] by simp_all
  with entry_bytes_pos [of "es ! i"] show ?thesis by linarith
qed

lemma off_less_iff: "i \<le> length es \<Longrightarrow> j \<le> length es \<Longrightarrow> off es i < off es j \<longleftrightarrow> i < j"
  using off_less [of i j es] off_mono [of j i es] by linarith

lemma off_le_body: "off es i \<le> length (body es)"
proof -
  have "body es = body (take i es) @ body (drop i es)" by (metis append_take_drop_id body_simps(3))
  then show ?thesis by (metis length_append le_add1 off_def)
qed

lemma drop_off: "drop (off es i) (body es @ rest) = body (drop i es) @ rest"
proof -
  have "body es = body (take i es) @ body (drop i es)" by (metis append_take_drop_id body_simps(3))
  then show ?thesis by (simp add: off_def)
qed

lemma chained_nth:
  assumes "chained l es" "i < length es"
  shows "e_shared (es ! i) \<le> length (e_key (es ! i)) \<and>
    (let k = if i = 0 then l else e_key (es ! (i - 1))
     in e_shared (es ! i) \<le> length k \<and> take (e_shared (es ! i)) k = take (e_shared (es ! i)) (e_key (es ! i)))"
  using assms
proof (induction l es arbitrary: i rule: chained.induct)
  case (2 l e es)
  show ?case
  proof (cases i)
    case 0
    then show ?thesis using "2.prems" by simp
  next
    case (Suc j)
    with "2.IH" [of j] "2.prems" show ?thesis by (cases j) auto
  qed
qed simp

lemma key_bound:
  assumes "chained l es" "i < length es"
  shows "length (e_key (es ! i)) \<le> length l + off es (Suc i)"
  using assms
proof (induction l es arbitrary: i rule: chained.induct)
  case (2 l e es)
  have k: "length (e_key e) \<le> length l + length (entry_bytes e)"
    using "2.prems"(1) unfolding length_entry_bytes chained.simps by linarith
  show ?case
  proof (cases i)
    case 0
    then show ?thesis using k by (simp add: off_def)
  next
    case (Suc j)
    with "2.IH" [of j] "2.prems" k show ?thesis by (simp add: off_def)
  qed
qed simp

subsection \<open>Reading the layout\<close>

lemma holds_sizes:
  assumes "holds c es R"
  shows "unat (of_nat (off es i) :: u32) = off es i" "unat (bc_restarts c) = length (body es)"
    "unat (bc_num_restarts c) = length R" "length (body es) + 4 * length R + 4 < 2 ^ 32"
proof -
  have "length (concat (map (\<lambda>i. EncodeFixed32 (of_nat (off es i))) xs)) = 4 * length xs" for xs
    by (induction xs) simp_all
  then show l: "length (body es) + 4 * length R + 4 < 2 ^ 32"
    using assms by (auto simp: holds_def restart_array_def)
  then show "unat (of_nat (off es i) :: u32) = off es i" "unat (bc_restarts c) = length (body es)"
    "unat (bc_num_restarts c) = length R"
    using assms off_le_body [of es i] by (simp_all add: holds_def unat_of_nat)
qed

lemma holds_data: "holds c es R \<Longrightarrow> bc_data c = body es @ restart_array es R"
  by (simp add: holds_def)

lemma restart_nth: "restarts_ok es R \<Longrightarrow> j < length R \<Longrightarrow>
    R ! j \<le> length es \<and> (es \<noteq> [] \<longrightarrow> R ! j < length es \<and> e_shared (es ! (R ! j)) = 0)"
  by (simp add: restarts_ok_def)

lemma restart_point:
  assumes h: "holds c es R" and j: "unat j < length R"
  shows "GetRestartPoint c j = Some (of_nat (off es (R ! unat j)))"
proof -
  let ?f = "\<lambda>i. EncodeFixed32 (of_nat (off es i))"
  have d: "drop (k * 4) (concat (map ?f xs) @ rest) = concat (map ?f (drop k xs)) @ rest" if "k \<le> length xs" for k xs rest
    using that
  proof (induction k arbitrary: xs)
    case (Suc k)
    then show ?case by (cases xs) simp_all
  qed simp
  have "drop (unat (bc_restarts c) + unat j * 4) (bc_data c) = ?f (R ! unat j) @ (concat (map ?f (drop (Suc (unat j)) R)) @
      EncodeFixed32 (of_nat (length R)))"
  proof -
    have "drop (unat (bc_restarts c) + unat j * 4) (bc_data c) = drop (unat j * 4) (restart_array es R)"
      by (simp add: holds_sizes [OF h] holds_data [OF h])
    also have "\<dots> = concat (map ?f (drop (unat j) R)) @ EncodeFixed32 (of_nat (length R))"
      unfolding restart_array_def using j by (intro d) simp
    finally show ?thesis using j by (simp flip: Cons_nth_drop_Suc)
  qed
  moreover have "j < bc_num_restarts c" using j by (simp add: word_less_nat_alt holds_sizes [OF h])
  ultimately show ?thesis by (simp add: GetRestartPoint_def)
qed

lemma decode_at:
  assumes h: "holds c es R" and i: "i < length es"
  shows "DecodeEntry (drop (off es i) (take (unat (bc_restarts c)) (bc_data c))) =
    Some (of_nat (e_shared (es ! i)), of_nat (length (e_key (es ! i)) - e_shared (es ! i)), of_nat (length (e_value (es ! i))),
      drop (e_shared (es ! i)) (e_key (es ! i)) @ e_value (es ! i) @ body (drop (Suc i) es))"
proof -
  let ?e = "es ! i"
  have "drop (off es i) (take (unat (bc_restarts c)) (bc_data c)) = entry_bytes ?e @ body (drop (Suc i) es)"
    using i drop_off [of es i "[]"] by (simp add: holds_sizes [OF h] holds_data [OF h] flip: Cons_nth_drop_Suc)
  moreover have "length (entry_bytes ?e) + length (body (drop (Suc i) es)) < 2 ^ 32"
  proof -
    have "length (body (drop i es)) \<le> length (body es)" by (metis append_take_drop_id body_simps(3) le_add2 length_append)
    then show ?thesis using i holds_sizes(4) [OF h] by (simp flip: Cons_nth_drop_Suc)
  qed
  moreover have "e_shared ?e \<le> length (e_key ?e)" "e_shared ?e < 2 ^ 32"
    using h i chained_nth [of "[]" es i] key_bound [of "[]" es i] off_le_body [of es "Suc i"] holds_sizes(4) [OF h]
    by (simp_all add: holds_def)
  ultimately show ?thesis using DecodeEntry_entry [of ?e "body (drop (Suc i) es)"] by simp
qed

lemma slice_at:
  assumes h: "holds c es R" and i: "i < length es"
  shows "entry_slice c (drop (e_shared (es ! i)) (e_key (es ! i)) @ e_value (es ! i) @ body (drop (Suc i) es))
      (length (e_key (es ! i)) - e_shared (es ! i)) = Some (drop (e_shared (es ! i)) (e_key (es ! i)))"
    and "unat (bc_restarts c) - length (drop (e_shared (es ! i)) (e_key (es ! i)) @ e_value (es ! i) @ body (drop (Suc i) es))
      + (length (e_key (es ! i)) - e_shared (es ! i)) = off es (Suc i) - length (e_value (es ! i))"
    and "take (length (e_value (es ! i))) (drop (off es (Suc i) - length (e_value (es ! i))) (bc_data c)) = e_value (es ! i)"
proof -
  let ?e = "es ! i" and ?d = "drop (e_shared (es ! i)) (e_key (es ! i))"
  let ?q = "?d @ e_value ?e @ body (drop (Suc i) es)"
  have split: "body es = body (take i es) @ entry_head ?e @ ?q"
    using i by (subst id_take_nth_drop [OF i]) (simp add: entry_bytes_def)
  have o: "off es (Suc i) = length (body (take i es)) + length (entry_head ?e) + length ?d + length (e_value ?e)"
    using off_Suc [OF i] by (simp add: off_def length_entry_bytes)
  have p: "unat (bc_restarts c) - length ?q = length (body (take i es) @ entry_head ?e)"
    unfolding holds_sizes [OF h] by (subst split) simp
  have data: "bc_data c = (body (take i es) @ entry_head ?e) @ ?q @ restart_array es R"
    unfolding holds_data [OF h] by (subst split) simp
  show "entry_slice c ?q (length (e_key ?e) - e_shared ?e) = Some ?d"
    unfolding entry_slice_def Let_def p data by simp
  show "unat (bc_restarts c) - length ?q + (length (e_key ?e) - e_shared ?e) = off es (Suc i) - length (e_value ?e)"
    unfolding p o by simp
  have "off es (Suc i) - length (e_value ?e) = length ((body (take i es) @ entry_head ?e) @ ?d)" unfolding o by simp
  moreover have "bc_data c = ((body (take i es) @ entry_head ?e) @ ?d) @ e_value ?e @ body (drop (Suc i) es) @ restart_array es R"
    unfolding data by simp
  ultimately show "take (length (e_value ?e)) (drop (off es (Suc i) - length (e_value ?e)) (bc_data c)) = e_value ?e"
    by simp
qed

subsection \<open>Where the iterator stands\<close>

definition restart_before :: "nat list \<Rightarrow> block_iter \<Rightarrow> nat \<Rightarrow> bool" where
  "restart_before R it i \<longleftrightarrow> unat (bi_restart_index it) < length R \<and> R ! unat (bi_restart_index it) \<le> i"

text \<open>Before the entry with index \<open>i\<close>, which \<open>ParseNextKey\<close> reads next.\<close>

definition ready :: "entry list \<Rightarrow> nat list \<Rightarrow> block_iter \<Rightarrow> nat \<Rightarrow> bool" where
  "ready es R it i \<longleftrightarrow> i \<le> length es \<and> NextEntryOffset it = Some (of_nat (off es i)) \<and> bi_status it = OK \<and>
     (i < length es \<longrightarrow> e_shared (es ! i) \<le> length (bi_key it) \<and>
        take (e_shared (es ! i)) (bi_key it) = take (e_shared (es ! i)) (e_key (es ! i)) \<and> restart_before R it i)"

text \<open>On it; at the end when \<open>i\<close> is the number of entries.\<close>

definition stands :: "block_consts \<Rightarrow> entry list \<Rightarrow> nat list \<Rightarrow> block_iter \<Rightarrow> nat \<Rightarrow> bool" where
  "stands c es R it i \<longleftrightarrow> i \<le> length es \<and> bi_status it = OK \<and>
     (if i < length es
      then bi_current it = of_nat (off es i) \<and> bi_key it = e_key (es ! i) \<and>
        bi_value it = Some (off es (Suc i) - length (e_value (es ! i)), length (e_value (es ! i))) \<and> restart_before R it i
      else bi_current it = bc_restarts c)"

lemma advance:
  assumes h: "holds c es R" and i: "i < length es"
  shows "restart_before R it i \<Longrightarrow> bi_current it = of_nat (off es i) \<Longrightarrow>
    \<exists>ri. advance_restart c it = Some (it\<lparr>bi_restart_index := ri\<rparr>) \<and> restart_before R (it\<lparr>bi_restart_index := ri\<rparr>) i"
proof (induction "length R - unat (bi_restart_index it)" arbitrary: it rule: less_induct)
  case less
  let ?ri = "bi_restart_index it"
  show ?case
  proof (cases "?ri + 1 < bc_num_restarts c")
    case False
    then show ?thesis using less.prems by (subst advance_restart.simps) (auto intro!: exI [of _ ?ri])
  next
    case True
    have "unat ?ri < length R" using less.prems by (simp add: restart_before_def)
    moreover have "length R < 2 ^ 32" using holds_sizes(4) [OF h] by simp
    ultimately have s: "unat (?ri + 1) = unat ?ri + 1" by (intro unat_word_ariths [THEN trans]) simp
    have lt: "unat (?ri + 1) < length R" using True by (simp add: word_less_nat_alt holds_sizes [OF h])
    note r = restart_point [OF h lt]
    have R: "R ! (unat ?ri + 1) \<le> length es" using restart_nth lt h by (simp add: s holds_def)
    have cmp: "(of_nat (off es (R ! (unat ?ri + 1))) :: u32) < bi_current it \<longleftrightarrow> R ! (unat ?ri + 1) < i"
      using less.prems(2) i R by (simp add: word_less_nat_alt holds_sizes [OF h] off_less_iff)
    show ?thesis
    proof (cases "R ! (unat ?ri + 1) < i")
      case False
      then show ?thesis using r cmp less.prems True
        by (subst advance_restart.simps) (auto simp: s intro!: exI [of _ ?ri])
    next
      case lower: True
      have "advance_restart c it = advance_restart c (it\<lparr>bi_restart_index := ?ri + 1\<rparr>)"
        using r cmp lower True by (subst advance_restart.simps) (simp add: s)
      moreover have "restart_before R (it\<lparr>bi_restart_index := ?ri + 1\<rparr>) i" using lower lt by (simp add: restart_before_def s)
      ultimately show ?thesis using less.hyps [of "it\<lparr>bi_restart_index := ?ri + 1\<rparr>"] less.prems lt by (simp add: s)
    qed
  qed
qed

lemma parse_next:
  assumes h: "holds c es R" and r: "ready es R it i"
  shows "\<exists>it'. ParseNextKey c it = Some (i < length es, it') \<and> stands c es R it' i"
proof (cases "i < length es")
  case False
  then have "i = length es" using r by (simp add: ready_def)
  then show ?thesis using r h by (auto simp: ParseNextKey_def ready_def stands_def holds_def)
next
  case i: True
  let ?e = "es ! i"
  let ?q = "drop (e_shared ?e) (e_key ?e) @ e_value ?e @ body (drop (Suc i) es)"
  have nx: "NextEntryOffset it = Some (of_nat (off es i))" "e_shared ?e \<le> length (bi_key it)"
    "take (e_shared ?e) (bi_key it) = take (e_shared ?e) (e_key ?e)" using r i by (auto simp: ready_def)
  have lt: "\<not> bc_restarts c \<le> of_nat (off es i)"
    using off_less [OF i order_refl] by (simp add: not_le word_less_nat_alt holds_sizes [OF h])
  have sizes: "length (e_key ?e) < 2 ^ 32" "length (e_value ?e) < 2 ^ 32"
    using key_bound [of "[]" es i] off_le_body [of es "Suc i"] holds_sizes(4) [OF h] off_Suc [OF i] h i
    by (simp_all add: holds_def length_entry_bytes)
  then have u: "unat (of_nat (e_shared ?e) :: u32) = e_shared ?e"
    "unat (of_nat (length (e_key ?e) - e_shared ?e) :: u32) = length (e_key ?e) - e_shared ?e"
    "unat (of_nat (length (e_value ?e)) :: u32) = length (e_value ?e)"
    using chained_nth [of "[]" es i] h i by (intro unat_small; simp add: holds_def)+
  let ?it = "it\<lparr>bi_current := of_nat (off es i), bi_key := e_key ?e,
    bi_value := Some (off es (Suc i) - length (e_value ?e), length (e_value ?e))\<rparr>"
  obtain ri where ri: "advance_restart c ?it = Some (?it\<lparr>bi_restart_index := ri\<rparr>)"
    "restart_before R (?it\<lparr>bi_restart_index := ri\<rparr>) i"
    using advance [OF h i, of ?it] r i by (auto simp: ready_def restart_before_def)
  have "ParseNextKey c it = Some (True, ?it\<lparr>bi_restart_index := ri\<rparr>)"
    using nx lt ri(1) slice_at(1,2) [OF h i]
    by (simp add: ParseNextKey_def decode_at [OF h i] holds_sizes(1) [OF h] u Let_def del: length_append length_drop)
  then show ?thesis using ri(2) r i by (auto simp: stands_def ready_def)
qed

lemma value_le_off: "i < length es \<Longrightarrow> length (e_value (es ! i)) \<le> off es (Suc i)"
  by (simp add: off_Suc length_entry_bytes)

lemma stands_ready:
  assumes "holds c es R" "stands c es R it i" "i < length es"
  shows "ready es R it (Suc i)"
  using assms chained_nth [of "[]" es "Suc i"] value_le_off [OF assms(3)]
  by (auto simp: ready_def stands_def NextEntryOffset_def holds_def restart_before_def Let_def)

lemma restart_ready:
  assumes "holds c es R" "unat j < length R" "bi_status it = OK"
  shows "\<exists>it'. SeekToRestartPoint c it j = Some it' \<and> ready es R it' (R ! unat j)"
proof -
  have "restarts_ok es R" using assms(1) by (simp add: holds_def)
  note r = restart_nth [OF this assms(2)]
  let ?it = "it\<lparr>bi_key := [], bi_restart_index := j, bi_value := Some (off es (R ! unat j), 0)\<rparr>"
  have "SeekToRestartPoint c it j = Some ?it"
    by (simp add: SeekToRestartPoint_def restart_point [OF assms(1,2)] holds_sizes(1) [OF assms(1)])
  moreover have "ready es R ?it (R ! unat j)"
    using r assms(2,3) by (auto simp: ready_def NextEntryOffset_def restart_before_def)
  ultimately show ?thesis by blast
qed

lemma scan:
  assumes h: "holds c es R" and m: "m \<le> length es"
  shows "ready es R it i \<Longrightarrow> i < m \<Longrightarrow> \<exists>it'. scan_to c (of_nat (off es m)) it = Some it' \<and> stands c es R it' (m - 1)"
proof (induction "m - i" arbitrary: it i rule: less_induct)
  case less
  then have i: "i < length es" using m by simp
  obtain it1 where it1: "ParseNextKey c it = Some (True, it1)" "stands c es R it1 i"
    using parse_next [OF h less.prems(1)] i by auto
  note r = stands_ready [OF h it1(2) i]
  then have n: "NextEntryOffset it1 = Some (of_nat (off es (Suc i)))" by (simp add: ready_def)
  have cmp: "(of_nat (off es (Suc i)) :: u32) < of_nat (off es m) \<longleftrightarrow> Suc i < m"
    using i m by (simp add: word_less_nat_alt holds_sizes [OF h] off_less_iff)
  show ?case
  proof (cases "Suc i < m")
    case True
    then show ?thesis using less.hyps [OF _ r True] it1(1) n cmp by (subst scan_to.simps) simp
  next
    case False
    then have "i = m - 1" using less.prems(2) by simp
    then show ?thesis using it1 n cmp False by (subst scan_to.simps) simp
  qed
qed

lemma prev_restart_found:
  assumes h: "holds c es R" and i: "i < length es"
  shows "unat j < length R \<Longrightarrow> R ! unat j \<le> i \<Longrightarrow>
    (if i = 0 then prev_restart c (of_nat (off es i)) j = Some None
     else \<exists>k. prev_restart c (of_nat (off es i)) j = Some (Some k) \<and> unat k < length R \<and> R ! unat k < i)"
proof (induction "unat j" arbitrary: j rule: less_induct)
  case less
  have ok: "restarts_ok es R" using h by (simp add: holds_def)
  note r = restart_point [OF h less.prems(1)]
  have R: "R ! unat j \<le> length es" using restart_nth [OF ok less.prems(1)] by simp
  have cmp: "(of_nat (off es i) :: u32) \<le> of_nat (off es (R ! unat j)) \<longleftrightarrow> R ! unat j = i"
  proof -
    have "(of_nat (off es i) :: u32) \<le> of_nat (off es (R ! unat j)) \<longleftrightarrow> \<not> R ! unat j < i"
      using i R by (simp add: word_le_nat_alt holds_sizes [OF h] off_less_iff not_less [symmetric] del: not_less)
    then show ?thesis using less.prems(2) by auto
  qed
  show ?case
  proof (cases "R ! unat j = i")
    case False
    then show ?thesis using r cmp less.prems by (auto simp: prev_restart.simps [of c _ j])
  next
    case True
    show ?thesis
    proof (cases "j = 0")
      case j0: True
      then have "i = 0" using True ok by (simp add: restarts_ok_def)
      then show ?thesis using r cmp True j0 by (subst prev_restart.simps) simp
    next
      case False
      then have j1: "unat (j - 1) = unat j - 1" "0 < unat j" by (simp_all add: unat_minus_one unat_gt_0)
      then have "R ! unat (j - 1) < R ! unat j"
        using ok less.prems(1) by (auto simp: restarts_ok_def sorted_wrt_iff_nth_less)
      moreover have "prev_restart c (of_nat (off es i)) j = prev_restart c (of_nat (off es i)) (j - 1)"
        using r cmp True False by (simp add: prev_restart.simps [of c _ j])
      ultimately show ?thesis using less.hyps [of "j - 1"] less.prems(1) True j1 by (auto split: if_splits)
    qed
  qed
qed

lemma seek_first_stands:
  assumes "holds c es R" "bi_status it = OK"
  shows "\<exists>it'. bi_SeekToFirst c it = Some it' \<and> stands c es R it' 0"
proof -
  have "restarts_ok es R" using assms(1) by (simp add: holds_def)
  then have z: "unat (0 :: u32) < length R" "R ! unat (0 :: u32) = 0" by (simp_all add: restarts_ok_def)
  obtain it1 where "SeekToRestartPoint c it 0 = Some it1" "ready es R it1 0"
    using restart_ready [OF assms(1) z(1) assms(2)] z by auto
  with parse_next [OF assms(1) this(2)] show ?thesis by (auto simp: bi_SeekToFirst_def)
qed

lemma next_stands:
  assumes "holds c es R" "stands c es R it i" "i < length es"
  shows "\<exists>it'. bi_Next c it = Some it' \<and> stands c es R it' (Suc i)"
proof -
  have "bi_Valid c it"
    using assms off_less [OF assms(3) order_refl]
    by (simp add: bi_Valid_def stands_def word_less_nat_alt holds_sizes [OF assms(1)])
  with parse_next [OF assms(1) stands_ready [OF assms]] show ?thesis by (auto simp: bi_Next_def)
qed

lemma prev_stands:
  assumes h: "holds c es R" and st: "stands c es R it i" and i: "i < length es"
  shows "\<exists>it'. bi_Prev c it = Some it' \<and> stands c es R it' (if i = 0 then length es else i - 1)"
proof -
  have v: "bi_Valid c it"
    using st off_less [OF i order_refl] i by (simp add: bi_Valid_def stands_def word_less_nat_alt holds_sizes [OF h])
  have cur: "bi_current it = of_nat (off es i)" "unat (bi_restart_index it) < length R"
    "R ! unat (bi_restart_index it) \<le> i" using st i by (auto simp: stands_def restart_before_def)
  note p = prev_restart_found [OF h i cur(2,3)]
  show ?thesis
  proof (cases "i = 0")
    case True
    with p v cur st show ?thesis by (auto simp: bi_Prev_def stands_def)
  next
    case False
    with p obtain k where k: "prev_restart c (of_nat (off es i)) (bi_restart_index it) = Some (Some k)"
      "unat k < length R" "R ! unat k < i" by auto
    obtain it1 where it1: "SeekToRestartPoint c it k = Some it1" "ready es R it1 (R ! unat k)"
      using restart_ready [OF h k(2)] st by (auto simp: stands_def)
    from scan [OF h less_imp_le [OF i] it1(2) k(3)] it1(1) k(1) v cur False show ?thesis
      by (auto simp: bi_Prev_def Let_def)
  qed
qed

lemma seek_last_stands:
  assumes h: "holds c es R" and "bi_status it = OK"
  shows "\<exists>it'. bi_SeekToLast c it = Some it' \<and> stands c es R it' (length es - 1)"
proof -
  have ok: "restarts_ok es R" using h by (simp add: holds_def)
  then have "0 < length R" by (simp add: restarts_ok_def)
  then have nz: "bc_num_restarts c \<noteq> 0" using holds_sizes(3) [OF h] by auto
  then have l: "unat (bc_num_restarts c - 1) = length R - 1"
    using holds_sizes(3) [OF h] by (simp add: unat_minus_one)
  then have lt: "unat (bc_num_restarts c - 1) < length R" using \<open>0 < length R\<close> by simp
  obtain it1 where it1: "SeekToRestartPoint c it (bc_num_restarts c - 1) = Some it1" "ready es R it1 (R ! (length R - 1))"
    using restart_ready [OF h lt assms(2)] l by auto
  have e: "bc_restarts c = of_nat (off es (length es))" using h by (simp add: holds_def)
  show ?thesis
  proof (cases "es = []")
    case True
    then have "R ! (length R - 1) = 0" using restart_nth [OF ok lt] l by simp
    with parse_next [OF h it1(2)] True it1(1) show ?thesis
      by (auto simp: bi_SeekToLast_def scan_to.simps)
  next
    case False
    then have "R ! (length R - 1) < length es" using restart_nth [OF ok lt] l by simp
    from scan [OF h order_refl it1(2) this] it1(1) show ?thesis by (simp add: bi_SeekToLast_def e)
  qed
qed

subsection \<open>Seeking\<close>

definition below :: "comparator \<Rightarrow> byte list \<Rightarrow> entry \<Rightarrow> bool" where
  "below cmp target e \<longleftrightarrow> cmp_Compare cmp (e_key e) target < 0"

definition lower_bound :: "comparator \<Rightarrow> byte list \<Rightarrow> entry list \<Rightarrow> nat" where
  "lower_bound cmp target es = length (takeWhile (below cmp target) es)"

lemma lower_bound_le: "lower_bound cmp t es \<le> length es"
  by (simp add: lower_bound_def length_takeWhile_le)

lemma lower_bound_iff:
  assumes down: "\<And>i j. i \<le> j \<Longrightarrow> j < length es \<Longrightarrow> below cmp t (es ! j) \<Longrightarrow> below cmp t (es ! i)"
    and i: "i < length es"
  shows "below cmp t (es ! i) \<longleftrightarrow> i < lower_bound cmp t es"
proof
  assume "i < lower_bound cmp t es"
  then show "below cmp t (es ! i)"
    unfolding lower_bound_def by (metis nth_mem set_takeWhileD takeWhile_nth)
next
  assume b: "below cmp t (es ! i)"
  show "i < lower_bound cmp t es"
  proof (rule ccontr)
    assume "\<not> i < lower_bound cmp t es"
    then have l: "lower_bound cmp t es \<le> i" by simp
    then have "\<not> below cmp t (es ! lower_bound cmp t es)"
      using i nth_length_takeWhile [of "below cmp t" es] by (simp add: lower_bound_def)
    with down [OF l i b] show False by simp
  qed
qed

lemma seek_linear_stands:
  assumes h: "holds c es R" and pos: "\<And>i. i < length es \<Longrightarrow> below (bc_comparator c) t (es ! i) \<longleftrightarrow> i < pos" "pos \<le> length es"
  shows "ready es R it i \<Longrightarrow> i \<le> pos \<Longrightarrow> \<exists>it'. seek_linear c t it = Some it' \<and> stands c es R it' pos"
proof (induction "pos - i" arbitrary: it i rule: less_induct)
  case less
  obtain it1 where it1: "ParseNextKey c it = Some (i < length es, it1)" "stands c es R it1 i"
    using parse_next [OF h less.prems(1)] by auto
  show ?case
  proof (cases "i < length es")
    case False
    then have "i = pos" using less.prems(2) pos(2) by simp
    with it1 False show ?thesis by (subst seek_linear.simps) simp
  next
    case i: True
    then have key: "bi_key it1 = e_key (es ! i)" using it1(2) by (simp add: stands_def)
    show ?thesis
    proof (cases "i < pos")
      case True
      then have "cmp_Compare (bc_comparator c) (bi_key it1) t < 0" using pos(1) [OF i] by (simp add: below_def key)
      with less.hyps [OF _ stands_ready [OF h it1(2) i]] True it1(1) i show ?thesis
        by (subst seek_linear.simps) simp
    next
      case False
      then have "i = pos" using less.prems(2) by simp
      moreover have "\<not> cmp_Compare (bc_comparator c) (bi_key it1) t < 0"
        using pos(1) [OF i] False by (simp add: below_def key)
      ultimately show ?thesis using it1 i by (subst seek_linear.simps) simp
    qed
  qed
qed

lemma seek_restart_found:
  assumes h: "holds c es R" and pos: "\<And>i. i < length es \<Longrightarrow> below (bc_comparator c) t (es ! i) \<longleftrightarrow> i < pos"
  shows "unat left \<le> unat right \<Longrightarrow> unat right < length R \<Longrightarrow> R ! unat left \<le> pos \<Longrightarrow>
    \<exists>k. seek_restart c t left right = Some (Some k) \<and> unat k < length R \<and> R ! unat k \<le> pos"
proof (induction "unat right - unat left" arbitrary: left right rule: less_induct)
  case less
  have ok: "restarts_ok es R" using h by (simp add: holds_def)
  show ?case
  proof (cases "left < right")
    case False
    then have "seek_restart c t left right = Some (Some left)" by (subst seek_restart.simps) simp
    then show ?thesis using less.prems by auto
  next
    case True
    then have lr: "unat left < unat right" by (simp add: word_less_nat_alt)
    have "4 * length R < 2 ^ 32" using holds_sizes(4) [OF h] by simp
    then have "unat (left + right + 1) = unat left + unat right + 1"
      using less.prems(2) lr by (simp add: unat_word_ariths)
    then have m: "unat ((left + right + 1) div 2) = (unat left + unat right + 1) div 2"
      by (simp add: unat_div)
    define mid where "mid = (left + right + 1) div 2"
    have mid: "unat left < unat mid" "unat mid \<le> unat right" using lr m by (auto simp: mid_def)
    then have midR: "unat mid < length R" using less.prems(2) by simp
    have "es \<noteq> []"
    proof
      assume "es = []"
      then have "\<forall>i \<in> set R. i = 0" "sorted_wrt (<) R" using ok by (auto simp: restarts_ok_def)
      then have "R ! unat left < R ! unat right" "R ! unat right = 0"
        using lr less.prems(2) by (auto simp: sorted_wrt_iff_nth_less)
      then show False by simp
    qed
    then have i: "R ! unat mid < length es" "e_shared (es ! (R ! unat mid)) = 0"
      using restart_nth [OF ok midR] by simp_all
    let ?e = "es ! (R ! unat mid)"
    have kl: "unat (of_nat (length (e_key ?e)) :: u32) = length (e_key ?e)"
      using key_bound [of "[]" es "R ! unat mid"] i off_le_body [of es "Suc (R ! unat mid)"] holds_sizes(4) [OF h] h
      by (intro unat_small) (simp add: holds_def)
    have step: "seek_restart c t left right =
        (if below (bc_comparator c) t ?e then seek_restart c t mid right else seek_restart c t left (mid - 1))"
      using True restart_point [OF h midR] decode_at [OF h i(1)] slice_at(1) [OF h i(1)] i(2)
      by (subst seek_restart.simps) (simp add: mid_def [symmetric] holds_sizes(1) [OF h] kl below_def)
    show ?thesis
    proof (cases "below (bc_comparator c) t ?e")
      case b: True
      then have "R ! unat mid \<le> pos" using pos [OF i(1)] by simp
      with less.hyps [of right mid] mid less.prems(2) step b show ?thesis by simp
    next
      case False
      have "0 < unat mid" using mid(1) by simp
      then have "mid \<noteq> 0" by auto
      then have "unat (mid - 1) = unat mid - 1" by (simp add: unat_minus_one)
      with less.hyps [of "mid - 1" left] mid less.prems step False show ?thesis by simp
    qed
  qed
qed

lemma seek_stands:
  assumes h: "holds c es R" and "bi_status it = OK"
    and pos: "\<And>i. i < length es \<Longrightarrow> below (bc_comparator c) t (es ! i) \<longleftrightarrow> i < pos" "pos \<le> length es"
  shows "\<exists>it'. bi_Seek c it t = Some it' \<and> stands c es R it' pos"
proof -
  have "restarts_ok es R" using h by (simp add: holds_def)
  then have z: "0 < length R" "R ! 0 = 0" by (simp_all add: restarts_ok_def)
  then have "bc_num_restarts c \<noteq> 0" using holds_sizes(3) [OF h] by auto
  then have "unat (bc_num_restarts c - 1) < length R"
    using holds_sizes(3) [OF h] z by (simp add: unat_minus_one)
  then obtain k where k: "seek_restart c t 0 (bc_num_restarts c - 1) = Some (Some k)" "unat k < length R" "R ! unat k \<le> pos"
    using seek_restart_found [OF h pos(1), of 0 "bc_num_restarts c - 1"] z by auto
  obtain it1 where "SeekToRestartPoint c it k = Some it1" "ready es R it1 (R ! unat k)"
    using restart_ready [OF h k(2) assms(2)] by auto
  with seek_linear_stands [OF h pos this(2) k(3)] k(1) show ?thesis by (simp add: bi_Seek_def)
qed

subsection \<open>Building\<close>

lemma diff_index_common:
  "diff_index a b \<le> length a \<and> diff_index a b \<le> length b \<and> take (diff_index a b) a = take (diff_index a b) b"
  by (induction a b rule: diff_index.induct) auto

definition last_key :: "entry list \<Rightarrow> byte list" where
  "last_key es = (if es = [] then [] else e_key (last es))"

lemma chained_snoc:
  "chained l (es @ [e]) \<longleftrightarrow> chained l es \<and>
     (let k = (if es = [] then l else e_key (last es))
      in e_shared e \<le> length k \<and> e_shared e \<le> length (e_key e) \<and> take (e_shared e) k = take (e_shared e) (e_key e))"
  by (induction l es rule: chained.induct) (auto simp: Let_def)

lemma off_append: "i \<le> length es \<Longrightarrow> off (es @ es') i = off es i"
  by (simp add: off_def)

definition building :: "block_builder \<Rightarrow> entry list \<Rightarrow> nat list \<Rightarrow> bool" where
  "building b es R \<longleftrightarrow> bb_buffer b = body es \<and> bb_restarts b = map (\<lambda>i. of_nat (off es i)) R \<and>
     bb_last_key b = last_key es \<and> (es = [] \<longrightarrow> bb_counter b = 0) \<and> chained [] es \<and> restarts_ok es R"

lemma bb_Add_building:
  assumes b: "building b es R" and add: "bb_Add opts b key value = Some b'" and "1 \<le> opt_block_restart_interval opts"
  shows "\<exists>e R'. building b' (es @ [e]) R' \<and> snd e = (key, value)"
proof (cases "bb_counter b < opt_block_restart_interval opts")
  case True
  let ?s = "diff_index (last_key es) key"
  let ?e = "(?s, key, value)"
  have lk: "take ?s (last_key es) @ drop ?s key = key" using diff_index_common [of "last_key es" key] by simp
  have R: "\<forall>i \<in> set R. i \<le> length es" "restarts_ok es R" using b by (auto simp: building_def restarts_ok_def)
  then have offR: "\<And>i. i \<in> set R \<Longrightarrow> off (es @ [?e]) i = off es i"
    by (simp add: off_append)
  have "restarts_ok (es @ [?e]) R"
    using R by (cases "es = []") (auto simp: restarts_ok_def nth_append last_key_def)
  moreover have "chained [] (es @ [?e])"
    using b diff_index_common [of "last_key es" key] by (auto simp: chained_snoc building_def last_key_def Let_def)
  ultimately have "building b' (es @ [?e]) R"
    using add b True lk offR by (auto simp: bb_Add_def building_def entry_bytes_def entry_head_def
        PutVarint32_def Let_def last_key_def split: if_splits)
  then show ?thesis by (intro exI [of _ ?e] exI [of _ R]) simp
next
  case False
  let ?e = "(0, key, value)" and ?R = "R @ [length es]"
  have ne: "es \<noteq> []" using False b assms(3) by (auto simp: building_def)
  have R: "\<forall>i \<in> set R. i < length es \<and> e_shared (es ! i) = 0" "restarts_ok es R"
    using b ne by (auto simp: building_def restarts_ok_def)
  then have offR: "\<And>i. i \<in> set R \<Longrightarrow> off (es @ [?e]) i = off es i" "off (es @ [?e]) (length es) = length (body es)"
    by (simp_all add: off_append less_imp_le)
  have "restarts_ok (es @ [?e]) ?R"
    using R ne by (auto simp: restarts_ok_def nth_append sorted_wrt_append)
  moreover have "chained [] (es @ [?e])" using b by (simp add: chained_snoc building_def)
  ultimately have "building b' (es @ [?e]) ?R"
    using add b False offR by (auto simp: bb_Add_def building_def entry_bytes_def entry_head_def
        PutVarint32_def Let_def last_key_def split: if_splits)
  then show ?thesis by (intro exI [of _ ?e] exI [of _ ?R]) simp
qed

fun add_all :: "block_options \<Rightarrow> block_builder \<Rightarrow> (byte list \<times> byte list) list \<Rightarrow> block_builder option" where
  "add_all opts b [] = Some b"
| "add_all opts b ((k, v) # kvs) = Option.bind (bb_Add opts b k v) (\<lambda>b'. add_all opts b' kvs)"

definition block_of :: "block_options \<Rightarrow> (byte list \<times> byte list) list \<Rightarrow> byte list option" where
  "block_of opts kvs = do {
     b \<leftarrow> new_BlockBuilder opts;
     b' \<leftarrow> add_all opts b kvs;
     Some (fst (bb_Finish b'))
   }"

lemma add_all_building:
  assumes "1 \<le> opt_block_restart_interval opts"
  shows "building b es R \<Longrightarrow> add_all opts b kvs = Some b' \<Longrightarrow>
    \<exists>es' R'. building b' es' R' \<and> map snd es' = map snd es @ kvs"
proof (induction kvs arbitrary: b es R)
  case (Cons kv kvs)
  obtain k v where kv: "kv = (k, v)" by (cases kv)
  with Cons.prems(2) obtain b1 where b1: "bb_Add opts b k v = Some b1" "add_all opts b1 kvs = Some b'"
    by (auto simp: bind_eq_Some_conv)
  from bb_Add_building [OF Cons.prems(1) b1(1) assms] obtain e R1 where
    "building b1 (es @ [e]) R1" "snd e = (k, v)" by auto
  with Cons.IH [OF this(1) b1(2)] kv show ?case by auto
qed auto

lemma finish_bytes:
  assumes "building b es R"
  shows "fst (bb_Finish b) = body es @ restart_array es R"
proof -
  have "fold (\<lambda>r buf. PutFixed32 buf r) rs buf = buf @ concat (map EncodeFixed32 rs)" for rs buf
    by (induction rs arbitrary: buf) (simp_all add: PutFixed32_def)
  then show ?thesis
    using assms by (simp add: bb_Finish_def building_def restart_array_def PutFixed32_def comp_def Let_def)
qed

lemma block_opens:
  assumes "block_of opts kvs = Some contents" "length contents < 2 ^ 32"
  shows "\<exists>b c es R. make_Block contents = Some b \<and> NewIterator b cmp = Some (BlockIterator c (new_block_iter c)) \<and>
    holds c es R \<and> map snd es = kvs \<and> bc_comparator c = cmp"
proof -
  obtain b0 b' where nb: "new_BlockBuilder opts = Some b0" "add_all opts b0 kvs = Some b'"
    "contents = fst (bb_Finish b')"
    using assms(1) by (auto simp: block_of_def bind_eq_Some_conv)
  then have int: "1 \<le> opt_block_restart_interval opts" by (simp add: new_BlockBuilder_def split: if_splits)
  have "building b0 [] [0]"
    using nb(1) by (auto simp: building_def new_BlockBuilder_def restarts_ok_def last_key_def split: if_splits)
  from add_all_building [OF int this nb(2)] obtain es R where bd: "building b' es R" "map snd es = kvs" by auto
  have con: "contents = body es @ restart_array es R" using finish_bytes [OF bd(1)] nb(3) by simp
  let ?c = "\<lparr>bc_comparator = cmp, bc_data = contents, bc_restarts = of_nat (length (body es)), bc_num_restarts = of_nat (length R)\<rparr>"
  have h: "holds ?c es R" using assms(2) bd(1) con by (simp add: holds_def building_def)
  note sizes = holds_sizes [OF h]
  have len: "length contents = length (body es) + length R * 4 + 4"
  proof -
    have "length (concat (map (\<lambda>i. EncodeFixed32 (of_nat (off es i))) xs)) = length xs * 4" for xs
      by (induction xs) simp_all
    then show ?thesis by (simp add: con restart_array_def)
  qed
  have num: "NumRestarts \<lparr>bk_data = contents, bk_size = length contents, bk_restart_offset = ro\<rparr> = Some (of_nat (length R))" for ro
  proof -
    have "drop (length contents - 4) contents = EncodeFixed32 (of_nat (length R))"
      using len by (simp add: con restart_array_def)
    then show ?thesis using len DecodeFixed32_encode [of _ "[]"] by (simp add: NumRestarts_def)
  qed
  have u: "unat (of_nat (length R) :: u32) = length R" "unat (1 + of_nat (length R) :: u32) = length R + 1"
    using sizes(4) unat_small [of "length R"] unat_small [of "Suc (length R)"] by simp_all
  let ?b = "\<lparr>bk_data = contents, bk_size = length contents, bk_restart_offset = of_nat (length (body es))\<rparr>"
  have mk: "make_Block contents = Some ?b"
    using len num u by (simp add: make_Block_def Let_def)
  have "R \<noteq> []" using bd(1) by (simp add: building_def restarts_ok_def)
  then have "(of_nat (length R) :: u32) \<noteq> 0" using u(1) by (metis length_greater_0_conv less_irrefl unat_0)
  then have "NewIterator ?b cmp = Some (BlockIterator ?c (new_block_iter ?c))"
    using len num by (simp add: NewIterator_def Let_def)
  with mk h bd(2) show ?thesis by (intro exI [of _ ?b] exI [of _ ?c] exI) auto
qed

subsection \<open>The abstract cursor\<close>

datatype cursor_op = SeekToFirst | SeekToLast | Next | Prev | Seek "byte list"

text \<open>On a list, a position, where the length of the list stands for an invalid cursor.\<close>

fun list_op :: "comparator \<Rightarrow> (byte list \<times> byte list) list \<Rightarrow> nat \<Rightarrow> cursor_op \<Rightarrow> nat option" where
  "list_op cmp kvs p SeekToFirst = Some 0"
| "list_op cmp kvs p SeekToLast = Some (length kvs - 1)"
| "list_op cmp kvs p Next = (if p < length kvs then Some (p + 1) else None)"
| "list_op cmp kvs p Prev = (if p < length kvs then Some (if p = 0 then length kvs else p - 1) else None)"
| "list_op cmp kvs p (Seek t) = Some (length (takeWhile (\<lambda>kv. cmp_Compare cmp (fst kv) t < 0) kvs))"

definition list_entry :: "(byte list \<times> byte list) list \<Rightarrow> nat \<Rightarrow> (byte list \<times> byte list option) option" where
  "list_entry kvs p = (if p < length kvs then Some (fst (kvs ! p), Some (snd (kvs ! p))) else None)"

text \<open>What is seen after each operation: entry and status.\<close>

fun run_list :: "comparator \<Rightarrow> (byte list \<times> byte list) list \<Rightarrow> nat \<Rightarrow> cursor_op list \<Rightarrow>
    ((byte list \<times> byte list option) option \<times> Status) list option" where
  "run_list cmp kvs p [] = Some []"
| "run_list cmp kvs p (x # xs) = do {
     p' \<leftarrow> list_op cmp kvs p x;
     out \<leftarrow> run_list cmp kvs p' xs;
     Some ((list_entry kvs p', OK) # out)
   }"

fun block_op :: "block_consts \<Rightarrow> block_iter \<Rightarrow> cursor_op \<Rightarrow> block_iter option" where
  "block_op c it SeekToFirst = bi_SeekToFirst c it"
| "block_op c it SeekToLast = bi_SeekToLast c it"
| "block_op c it Next = bi_Next c it"
| "block_op c it Prev = bi_Prev c it"
| "block_op c it (Seek t) = bi_Seek c it t"

definition block_entry :: "block_consts \<Rightarrow> block_iter \<Rightarrow> (byte list \<times> byte list option) option" where
  "block_entry c it = (if bi_Valid c it then Some (bi_key it, bi_value_bytes c it) else None)"

fun run_block :: "block_consts \<Rightarrow> block_iter \<Rightarrow> cursor_op list \<Rightarrow>
    ((byte list \<times> byte list option) option \<times> Status) list option" where
  "run_block c it [] = Some []"
| "run_block c it (x # xs) = do {
     it' \<leftarrow> block_op c it x;
     out \<leftarrow> run_block c it' xs;
     Some ((block_entry c it', bi_status it') # out)
   }"

subsection \<open>Keys in order\<close>

definition key_sorted :: "comparator \<Rightarrow> (byte list \<times> byte list) list \<Rightarrow> bool" where
  "key_sorted cmp kvs \<longleftrightarrow> sorted_wrt (\<lambda>a b. cmp_Compare cmp (fst a) (fst b) < 0) kvs"

context comparator_laws begin

lemma key_sorted_snoc:
  assumes "key_sorted c kvs" "\<forall>kv \<in> set kvs. valid (fst kv)" "valid k"
    and "kvs \<noteq> [] \<Longrightarrow> cmp_Compare c k (fst (last kvs)) > 0"
  shows "key_sorted c (kvs @ [(k, v)])"
proof -
  have "cmp_Compare c (fst kv) k < 0" if kv: "kv \<in> set kvs" for kv
  proof -
    have ne: "kvs \<noteq> []" using kv by auto
    then have l: "cmp_Compare c (fst (last kvs)) k < 0"
      using assms(2-4) compare_swap [of "fst (last kvs)" k] by simp
    have b: "kvs = butlast kvs @ [last kvs]" using ne by simp
    show ?thesis
    proof (cases "kv \<in> set (butlast kvs)")
      case True
      then have "cmp_Compare c (fst kv) (fst (last kvs)) < 0"
        using assms(1) by (subst (asm) key_sorted_def, subst (asm) b) (simp add: sorted_wrt_append)
      then show ?thesis using compare_less_trans [of "fst kv" "fst (last kvs)" k] l assms(2,3) kv ne by simp
    next
      case False
      then have "kv = last kvs" using kv by (subst (asm) b) auto
      then show ?thesis using l by simp
    qed
  qed
  then show ?thesis using assms(1) by (simp add: key_sorted_def sorted_wrt_append)
qed

lemma add_all_sorted:
  assumes opts: "opt_comparator opts = c" "1 \<le> opt_block_restart_interval opts"
  shows "building b es R \<Longrightarrow> add_all opts b kvs = Some b' \<Longrightarrow> key_sorted c (map snd es) \<Longrightarrow>
    \<forall>kv \<in> set (map snd es @ kvs). valid (fst kv) \<Longrightarrow> key_sorted c (map snd es @ kvs)"
proof (induction kvs arbitrary: b es R)
  case (Cons kv kvs)
  obtain k v where kv: "kv = (k, v)" by (cases kv)
  with Cons.prems(2) obtain b1 where b1: "bb_Add opts b k v = Some b1" "add_all opts b1 kvs = Some b'"
    by (auto simp: bind_eq_Some_conv)
  from bb_Add_building [OF Cons.prems(1) b1(1) opts(2)] obtain e R1 where
    e: "building b1 (es @ [e]) R1" "snd e = (k, v)" by auto
  have "cmp_Compare c k (fst (last (map snd es))) > 0" if "map snd es \<noteq> []"
  proof -
    have "body es \<noteq> []" using that entry_bytes_pos [of "hd es"] by (cases es) auto
    then have "bb_buffer b \<noteq> []" "bb_last_key b = e_key (last es)"
      using Cons.prems(1) that by (auto simp: building_def last_key_def)
    then show ?thesis using b1(1) opts that by (simp add: bb_Add_def last_map split: if_splits)
  qed
  then have "key_sorted c (map snd (es @ [e]))"
    using key_sorted_snoc [OF Cons.prems(3)] Cons.prems(4) e(2) kv by simp
  with Cons.IH [OF e(1) b1(2)] Cons.prems(4) e(2) kv show ?case by simp
qed simp

lemma block_of_sorted:
  assumes "block_of opts kvs = Some contents" "opt_comparator opts = c" "\<forall>kv \<in> set kvs. valid (fst kv)"
  shows "key_sorted c kvs"
proof -
  obtain b0 b' where nb: "new_BlockBuilder opts = Some b0" "add_all opts b0 kvs = Some b'"
    using assms(1) by (auto simp: block_of_def bind_eq_Some_conv)
  then have int: "1 \<le> opt_block_restart_interval opts" by (simp add: new_BlockBuilder_def split: if_splits)
  have "building b0 [] [0]"
    using nb(1) by (auto simp: building_def new_BlockBuilder_def restarts_ok_def last_key_def split: if_splits)
  from add_all_sorted [OF assms(2) int this nb(2)] assms(3) show ?thesis by (simp add: key_sorted_def)
qed

lemma below_closed:
  assumes "key_sorted c (map snd es)" "\<forall>e \<in> set es. valid (e_key e)" "valid t"
    and "i \<le> j" "j < length es" "below c t (es ! j)"
  shows "below c t (es ! i)"
proof (cases "i = j")
  case False
  then have "cmp_Compare c (e_key (es ! i)) (e_key (es ! j)) < 0"
    using assms(1,4,5) by (auto simp: key_sorted_def sorted_wrt_map sorted_wrt_iff_nth_less)
  then show ?thesis
    using assms compare_less_trans [of "e_key (es ! i)" "e_key (es ! j)" t] by (simp add: below_def)
qed (use assms in simp)

end

subsection \<open>The iterator refines the list\<close>

lemma stands_entry:
  assumes h: "holds c es R" and st: "stands c es R it p"
  shows "block_entry c it = list_entry (map snd es) p" "bi_status it = OK"
proof -
  show "bi_status it = OK" using st by (simp add: stands_def)
  show "block_entry c it = list_entry (map snd es) p"
  proof (cases "p < length es")
    case True
    have "bi_Valid c it"
      using st True off_less [OF True order_refl]
      by (simp add: bi_Valid_def stands_def word_less_nat_alt holds_sizes [OF h])
    moreover have "off es (Suc p) \<le> length (bc_data c)"
      using off_le_body [of es "Suc p"] by (simp add: holds_data [OF h])
    ultimately show ?thesis
      using st True slice_at(3) [OF h True] value_le_off [OF True]
      by (simp add: block_entry_def list_entry_def bi_value_bytes_def stands_def)
  next
    case False
    then show ?thesis using st by (simp add: block_entry_def list_entry_def bi_Valid_def stands_def)
  qed
qed

lemma op_refines:
  assumes h: "holds c es R" and st: "stands c es R it p"
    and lb: "\<And>t i. op = Seek t \<Longrightarrow> i < length es \<Longrightarrow> below (bc_comparator c) t (es ! i) \<longleftrightarrow> i < lower_bound (bc_comparator c) t es"
  shows "case list_op (bc_comparator c) (map snd es) p op of
      None \<Rightarrow> block_op c it op = None
    | Some p' \<Rightarrow> \<exists>it'. block_op c it op = Some it' \<and> stands c es R it' p'"
proof -
  have ok: "bi_status it = OK" using st by (simp add: stands_def)
  have inv: "\<not> bi_Valid c it" if "\<not> p < length es" using st that by (simp add: stands_def bi_Valid_def)
  show ?thesis
  proof (cases op)
    case SeekToFirst
    then show ?thesis using seek_first_stands [OF h ok] by simp
  next
    case SeekToLast
    then show ?thesis using seek_last_stands [OF h ok] by simp
  next
    case Next
    have "bi_Next c it = None" if "\<not> p < length es" using inv [OF that] by (simp add: bi_Next_def)
    with Next next_stands [OF h st] show ?thesis by simp
  next
    case Prev
    have "bi_Prev c it = None" if "\<not> p < length es" using inv [OF that] by (simp add: bi_Prev_def)
    with Prev prev_stands [OF h st] show ?thesis by (cases "p < length es") (simp_all split: if_splits)
  next
    case (Seek t)
    have "length (takeWhile (\<lambda>kv. cmp_Compare (bc_comparator c) (fst kv) t < 0) (map snd es)) = lower_bound (bc_comparator c) t es"
      by (simp add: lower_bound_def takeWhile_map comp_def below_def [abs_def])
    then show ?thesis using Seek seek_stands [OF h ok lb [OF Seek] lower_bound_le] by simp
  qed
qed

lemma run_refines:
  assumes h: "holds c es R"
    and lb: "\<And>t i. Seek t \<in> set ops \<Longrightarrow> i < length es \<Longrightarrow> below (bc_comparator c) t (es ! i) \<longleftrightarrow> i < lower_bound (bc_comparator c) t es"
  shows "stands c es R it p \<Longrightarrow> run_block c it ops = run_list (bc_comparator c) (map snd es) p ops"
  using lb
proof (induction ops arbitrary: it p)
  case (Cons x xs)
  show ?case
  proof (cases "list_op (bc_comparator c) (map snd es) p x")
    case None
    with op_refines [OF h Cons.prems(1), of x] Cons.prems(2) show ?thesis by simp
  next
    case (Some p')
    with op_refines [OF h Cons.prems(1), of x] Cons.prems(2) obtain it' where
      it': "block_op c it x = Some it'" "stands c es R it' p'" by auto
    with Cons.IH [OF it'(2)] Cons.prems(2) Some stands_entry [OF h it'(2)] show ?thesis by simp
  qed
qed simp

text \<open>C14. Refinement: a block made by \<open>BlockBuilder\<close> from entries opens without an error, and any
  sequence of \<open>SeekToFirst\<close>, \<open>SeekToLast\<close>, \<open>Seek\<close>, \<open>Next\<close> and \<open>Prev\<close> shows the keys, values and
  status that a cursor on the list of the entries shows; in particular \<open>Seek\<close> finds the first
  key that is not below the target.\<close>

theorem block_refines_list:
  assumes laws: "comparator_laws cmp valid" and opts: "opt_comparator opts = cmp"
    and blk: "block_of opts kvs = Some contents" and size: "length contents < 2 ^ 32"
    and keys: "\<forall>kv \<in> set kvs. valid (fst kv)" and targets: "\<forall>t. Seek t \<in> set ops \<longrightarrow> valid t"
  shows "\<exists>b c it. make_Block contents = Some b \<and> NewIterator b cmp = Some (BlockIterator c it) \<and>
    run_block c it ops = run_list cmp kvs (length kvs) ops"
proof -
  obtain b c es R where c: "make_Block contents = Some b" "NewIterator b cmp = Some (BlockIterator c (new_block_iter c))"
    "holds c es R" "map snd es = kvs" "bc_comparator c = cmp"
    using block_opens [OF blk size] by blast
  have s: "key_sorted cmp (map snd es)"
    using comparator_laws.block_of_sorted [OF laws blk opts keys] c(4) by simp
  have v: "\<forall>e \<in> set es. valid (e_key e)" using keys unfolding c(4) [symmetric] by simp
  have st: "stands c es R (new_block_iter c) (length es)" by (simp add: stands_def new_block_iter_def)
  have "below (bc_comparator c) t (es ! i) \<longleftrightarrow> i < lower_bound (bc_comparator c) t es"
    if "Seek t \<in> set ops" "i < length es" for t i
  proof -
    have t: "valid t" using targets that(1) by simp
    show ?thesis unfolding c(5)
      by (rule lower_bound_iff [OF comparator_laws.below_closed [OF laws s v t] that(2)])
  qed
  from run_refines [OF c(3) this st] have "run_block c (new_block_iter c) ops = run_list cmp kvs (length kvs) ops"
    using c(4,5) by (metis length_map)
  with c(1,2) show ?thesis by blast
qed

definition sample_options :: block_options where
  "sample_options = \<lparr>opt_comparator = BytewiseComparator, opt_block_restart_interval = 2\<rparr>"

definition sample_entries :: "(byte list \<times> byte list) list" where
  "sample_entries = [([97], [1]), ([97, 98], [2]), ([97, 99], []), ([98], [4])]"

theorem block_refines_list_witness:
  "\<exists>contents b c it. block_of sample_options sample_entries = Some contents \<and> make_Block contents = Some b \<and>
     NewIterator b BytewiseComparator = Some (BlockIterator c it) \<and>
     run_block c it [Seek [97, 99], Next, Prev, SeekToLast, Next] =
       Some [(Some ([97, 99], Some []), OK), (Some ([98], Some [4]), OK), (Some ([97, 99], Some []), OK),
             (Some ([98], Some [4]), OK), (None, OK)]"
proof -
  have blk: "block_of sample_options sample_entries = Some [0, 1, 1, 97, 1, 1, 1, 1, 98, 2, 0, 2, 0, 97, 99, 0,
      1, 1, 98, 4, 0, 0, 0, 0, 10, 0, 0, 0, 2, 0, 0, 0]"
    by code_simp
  have run: "run_list BytewiseComparator sample_entries (length sample_entries) [Seek [97, 99], Next, Prev, SeekToLast, Next] =
       Some [(Some ([97, 99], Some []), OK), (Some ([98], Some [4]), OK), (Some ([97, 99], Some []), OK),
             (Some ([98], Some [4]), OK), (None, OK)]"
    by code_simp
  from block_refines_list [OF bytewise_laws _ blk, of "[Seek [97, 99], Next, Prev, SeekToLast, Next]"] blk run
  show ?thesis by (auto simp: sample_options_def)
qed


end
