(* ===== verification/LdbBloom.thy ===== *)
theory LdbBloom
  imports LdbCoding
begin

section \<open>Hashing and Bloom filters of LevelDB (util/hash.cc, util/bloom.cc)\<close>

text \<open>
  \<open>Hash\<close>, \<open>BloomFilterPolicy::CreateFilter\<close> and \<open>KeyMayMatch\<close>. The policy's members are
  \<open>bits_per_key\<close> and \<open>k\<close>; the constructor computes \<open>k\<close> by \<open>bits_per_key * 0.69\<close> in floating
  point, rounded down and clamped to 1..30, which for arguments that are not negative is
  \<open>bits_per_key * 69 div 100\<close> clamped.

  Shown: every key that went into a filter matches it, whatever was in the output string
  before. That is what makes it safe to skip a block on a negative answer.
\<close>

subsection \<open>\<open>Hash\<close>\<close>

fun hash_loop :: "u32 \<Rightarrow> byte list \<Rightarrow> u32 \<times> byte list" where
  "hash_loop h (a # b # c # d # data) =
     (let h1 = (h + le_word [a, b, c, d]) * 0xc6a4a793
      in hash_loop (h1 XOR drop_bit 16 h1) data)"
| "hash_loop h data = (h, data)"

definition hash_tail :: "u32 \<Rightarrow> byte list \<Rightarrow> u32" where
  "hash_tail h data =
     (if data = [] then h
      else let h1 = (if length data > 2 then h + push_bit 16 (ucast (data ! 2)) else h);
               h2 = (if length data > 1 then h1 + push_bit 8 (ucast (data ! 1)) else h1);
               h3 = (h2 + ucast (data ! 0)) * 0xc6a4a793
           in h3 XOR drop_bit 24 h3)"

definition Hash :: "byte list \<Rightarrow> u32 \<Rightarrow> u32" where
  "Hash data seed =
     (let (h, rest) = hash_loop (seed XOR (of_nat (length data) * 0xc6a4a793)) data
      in hash_tail h rest)"

subsection \<open>The filter\<close>

definition BloomHash :: "byte list \<Rightarrow> u32" where
  "BloomHash key = Hash key 0xbc9f1d34"

record bloom_policy =
  bits_per_key :: nat
  bloom_k :: nat

definition BloomFilterPolicy :: "nat \<Rightarrow> bloom_policy" where
  "BloomFilterPolicy b =
     (let k = b * 69 div 100; k = (if k < 1 then 1 else k); k = (if k > 30 then 30 else k)
      in \<lparr>bits_per_key = b, bloom_k = k\<rparr>)"

text \<open>Rotation by 17 bits.\<close>

definition bloom_delta :: "u32 \<Rightarrow> u32" where
  "bloom_delta h = drop_bit 17 h OR push_bit 15 h"

definition set_array_bit :: "byte list \<Rightarrow> nat \<Rightarrow> byte list" where
  "set_array_bit arr p = arr[p div 8 := arr ! (p div 8) OR push_bit (p mod 8) 1]"

fun add_probes :: "nat \<Rightarrow> nat \<Rightarrow> u32 \<Rightarrow> u32 \<Rightarrow> byte list \<Rightarrow> byte list" where
  "add_probes 0 bits h delta arr = arr"
| "add_probes (Suc j) bits h delta arr =
     add_probes j bits (h + delta) delta (set_array_bit arr (unat h mod bits))"

definition add_key :: "nat \<Rightarrow> nat \<Rightarrow> byte list \<Rightarrow> byte list \<Rightarrow> byte list" where
  "add_key k bits arr key = add_probes k bits (BloomHash key) (bloom_delta (BloomHash key)) arr"

text \<open>The array has \<open>bits\<close> rounded up to whole bytes, at least 64; the number of probes is the
  last byte.\<close>

definition CreateFilter :: "bloom_policy \<Rightarrow> byte list list \<Rightarrow> byte list \<Rightarrow> byte list" where
  "CreateFilter pol keys dst =
     (let bits = length keys * bits_per_key pol;
          bits = (if bits < 64 then 64 else bits);
          bytes = (bits + 7) div 8
      in dst @ foldl (add_key (bloom_k pol) (bytes * 8)) (replicate bytes 0) keys @ [of_nat (bloom_k pol)])"

definition array_bit :: "byte list \<Rightarrow> nat \<Rightarrow> bool" where
  "array_bit arr p \<longleftrightarrow> arr ! (p div 8) AND push_bit (p mod 8) 1 \<noteq> 0"

fun check_probes :: "nat \<Rightarrow> nat \<Rightarrow> u32 \<Rightarrow> u32 \<Rightarrow> byte list \<Rightarrow> bool" where
  "check_probes 0 bits h delta arr = True"
| "check_probes (Suc j) bits h delta arr =
     (if \<not> array_bit arr (unat h mod bits) then False
      else check_probes j bits (h + delta) delta arr)"

text \<open>The number of probes is read as a signed \<open>char\<close> and widened, so it is above 30 when the
  byte is above 127 too.\<close>

definition KeyMayMatch :: "byte list \<Rightarrow> byte list \<Rightarrow> bool" where
  "KeyMayMatch key bloom_filter =
     (let len = length bloom_filter in
      if len < 2 then False
      else let k = (scast (bloom_filter ! (len - 1)) :: size_t) in
        if k > 30 then True
        else check_probes (unat k) ((len - 1) * 8) (BloomHash key) (bloom_delta (BloomHash key)) bloom_filter)"

subsection \<open>Facts\<close>

lemma array_bit_iff: "array_bit arr p \<longleftrightarrow> bit (arr ! (p div 8)) (p mod 8)"
  by (simp add: array_bit_def bit_iff_and_push_bit_not_eq_0)

lemma set_array_bit_same: "p div 8 < length arr \<Longrightarrow> array_bit (set_array_bit arr p) p"
  by (simp add: array_bit_iff set_array_bit_def bit_simps)

lemma set_array_bit_mono:
  assumes "array_bit arr q"
  shows "array_bit (set_array_bit arr p) q"
proof (cases "p div 8 < length arr \<and> p div 8 = q div 8")
  case True
  then show ?thesis using assms by (simp add: array_bit_iff set_array_bit_def bit_simps)
next
  case False
  then show ?thesis using assms
    by (cases "p div 8 < length arr")
       (auto simp: array_bit_iff set_array_bit_def nth_list_update list_update_beyond)
qed

lemma length_set_array_bit [simp]: "length (set_array_bit arr p) = length arr"
  by (simp add: set_array_bit_def)

lemma length_add_probes [simp]: "length (add_probes k bits h delta arr) = length arr"
  by (induction k arbitrary: h arr) simp_all

lemma add_probes_mono: "array_bit arr q \<Longrightarrow> array_bit (add_probes k bits h delta arr) q"
  by (induction k arbitrary: h arr) (simp_all add: set_array_bit_mono)

lemma check_probes_mono:
  "check_probes k bits h delta arr \<Longrightarrow> (\<And>q. array_bit arr q \<Longrightarrow> array_bit arr' q) \<Longrightarrow>
     check_probes k bits h delta arr'"
  by (induction k arbitrary: h) (auto split: if_splits)

lemma add_probes_check:
  "0 < bits \<Longrightarrow> bits \<le> 8 * length arr \<Longrightarrow>
     check_probes k bits h delta (add_probes k bits h delta arr)"
proof (induction k arbitrary: h arr)
  case (Suc k)
  have "unat h mod bits < bits" using Suc.prems(1) by simp
  then have "unat h mod bits div 8 < length arr" using Suc.prems(2) by (simp add: less_mult_imp_div_less mult.commute)
  from set_array_bit_same [OF this] add_probes_mono Suc.IH Suc.prems show ?case by simp
qed simp

lemma length_add_key [simp]: "length (add_key k bits arr key) = length arr"
  by (simp add: add_key_def)

lemma length_foldl_add_key [simp]: "length (foldl (add_key k bits) arr keys) = length arr"
  by (induction keys arbitrary: arr) simp_all

lemma foldl_add_key_mono: "array_bit arr q \<Longrightarrow> array_bit (foldl (add_key k bits) arr keys) q"
  by (induction keys arbitrary: arr) (simp_all add: add_key_def add_probes_mono)

lemma foldl_add_key_check:
  "key \<in> set keys \<Longrightarrow> 0 < bits \<Longrightarrow> bits \<le> 8 * length arr \<Longrightarrow>
     check_probes k bits (BloomHash key) (bloom_delta (BloomHash key)) (foldl (add_key k bits) arr keys)"
proof (induction keys arbitrary: arr)
  case (Cons x keys)
  show ?case
  proof (cases "key = x")
    case True
    have "check_probes k bits (BloomHash key) (bloom_delta (BloomHash key)) (add_key k bits arr key)"
      using add_probes_check [OF Cons.prems(2,3)] by (simp add: add_key_def)
    with True show ?thesis by (auto intro: check_probes_mono foldl_add_key_mono)
  next
    case False
    with Cons show ?thesis by simp
  qed
qed simp

lemma bloom_k_range: "1 \<le> bloom_k (BloomFilterPolicy b) \<and> bloom_k (BloomFilterPolicy b) \<le> 30"
  by (simp add: BloomFilterPolicy_def Let_def)

lemma probes_read_back: "k \<le> 30 \<Longrightarrow> unat (scast (of_nat k :: byte) :: size_t) = k"
proof -
  assume k: "k \<le> 30"
  have "sint (of_nat k :: byte) = int k"
    using k by (simp add: sint_uint unsigned_of_nat take_bit_nat_eq_self signed_take_bit_int_eq_self)
  then have "(scast (of_nat k :: byte) :: size_t) = of_nat k" by (simp add: scast_eq)
  then show ?thesis using k by (simp add: unat_of_nat)
qed

lemma array_bit_append: "q div 8 < length arr \<Longrightarrow> array_bit (arr @ rest) q = array_bit arr q"
  by (simp add: array_bit_iff nth_append)

lemma check_probes_append:
  "0 < bits \<Longrightarrow> bits \<le> 8 * length arr \<Longrightarrow>
     check_probes k bits h delta (arr @ rest) = check_probes k bits h delta arr"
proof (induction k arbitrary: h)
  case (Suc k)
  have "unat h mod bits < bits" using Suc.prems(1) by simp
  then have "unat h mod bits div 8 < length arr" using Suc.prems(2) by (simp add: less_mult_imp_div_less mult.commute)
  with Suc array_bit_append show ?case by simp
qed simp

subsection \<open>Properties\<close>

text \<open>C11. No false negatives: every key that a filter was created for matches the filter, with the
  number of probes taken from the filter itself.\<close>

theorem bloom_no_false_negative:
  assumes "key \<in> set keys"
  shows "KeyMayMatch key (drop (length dst) (CreateFilter (BloomFilterPolicy b) keys dst))"
proof -
  let ?k = "bloom_k (BloomFilterPolicy b)"
  define bits where "bits = (if length keys * b < 64 then 64 else length keys * b)"
  define bytes where "bytes = (bits + 7) div 8"
  define arr where "arr = foldl (add_key ?k (bytes * 8)) (replicate bytes 0) keys"
  have "64 \<le> bits" by (simp add: bits_def)
  then have pos: "0 < bytes" by (simp add: bytes_def)
  have len: "length arr = bytes" by (simp add: arr_def)
  have f: "drop (length dst) (CreateFilter (BloomFilterPolicy b) keys dst) = arr @ [of_nat ?k]"
    by (simp add: CreateFilter_def arr_def bytes_def bits_def Let_def BloomFilterPolicy_def)
  have k: "unat (scast (of_nat ?k :: byte) :: size_t) = ?k"
    using probes_read_back bloom_k_range by simp
  have "check_probes ?k (bytes * 8) (BloomHash key) (bloom_delta (BloomHash key)) arr"
    unfolding arr_def by (rule foldl_add_key_check [OF assms]) (use pos in simp_all)
  moreover have "\<not> (scast (of_nat ?k :: byte) :: size_t) > 30"
    using k bloom_k_range [of b] by (simp add: word_less_nat_alt)
  ultimately show ?thesis
    using pos len k by (simp add: f KeyMayMatch_def Let_def check_probes_append nth_append)
qed

lemma bloom_no_false_negative_witness:
  "KeyMayMatch [1, 2] (drop (length [7 :: byte]) (CreateFilter (BloomFilterPolicy 10) [[], [1, 2]] [7]))"
  by (rule bloom_no_false_negative) simp

end
