(* ===== verification/LdbFormat.thy ===== *)
theory LdbFormat
  imports LdbComparator LdbBloom
begin

section \<open>Internal keys of LevelDB (db/dbformat.h, db/dbformat.cc)\<close>

text \<open>
  An internal key is a user key followed by eight bytes that hold a sequence number and a value
  type. \<open>InternalKeyComparator\<close> orders them by user key and then by falling sequence number,
  over any user comparator; it is shown to satisfy the laws of the interface whenever the user
  comparator does, on keys of at least eight bytes (the assertion of \<open>ExtractUserKey\<close>).
\<close>

subsection \<open>Packing\<close>

datatype ValueType = kTypeDeletion | kTypeValue

primrec type_code :: "ValueType \<Rightarrow> u64" where
  "type_code kTypeDeletion = 0x0"
| "type_code kTypeValue = 0x1"

definition kValueTypeForSeek :: ValueType where "kValueTypeForSeek = kTypeValue"

definition kMaxSequenceNumber :: u64 where "kMaxSequenceNumber = push_bit 56 1 - 1"

definition PackSequenceAndType :: "u64 \<Rightarrow> ValueType \<Rightarrow> u64" where
  "PackSequenceAndType seq t = push_bit 8 seq OR type_code t"

record ParsedInternalKey =
  pk_user_key :: "byte list"
  pk_sequence :: u64
  pk_type :: ValueType

definition InternalKeyEncodingLength :: "ParsedInternalKey \<Rightarrow> nat" where
  "InternalKeyEncodingLength key = length (pk_user_key key) + 8"

definition AppendInternalKey :: "byte list \<Rightarrow> ParsedInternalKey \<Rightarrow> byte list" where
  "AppendInternalKey result key =
     PutFixed64 (result @ pk_user_key key) (PackSequenceAndType (pk_sequence key) (pk_type key))"

definition ExtractUserKey :: "byte list \<Rightarrow> byte list" where
  "ExtractUserKey internal_key = take (length internal_key - 8) internal_key"

text \<open>\<open>DecodeFixed64(key.data() + key.size() - 8)\<close> of a key with at least eight bytes.\<close>

definition key_number :: "byte list \<Rightarrow> u64" where
  "key_number key = (case DecodeFixed64 (drop (length key - 8) key) of None \<Rightarrow> 0 | Some n \<Rightarrow> n)"

definition ParseInternalKey :: "byte list \<Rightarrow> ParsedInternalKey option" where
  "ParseInternalKey internal_key =
     (let n = length internal_key in
      if n < 8 then None
      else let num = key_number internal_key; c = num AND 0xff in
        if c = 0 then Some \<lparr>pk_user_key = take (n - 8) internal_key, pk_sequence = drop_bit 8 num,
                           pk_type = kTypeDeletion\<rparr>
        else if c = 1 then Some \<lparr>pk_user_key = take (n - 8) internal_key, pk_sequence = drop_bit 8 num,
                                pk_type = kTypeValue\<rparr>
        else None)"

text \<open>The class \<open>InternalKey\<close>: its member \<open>rep_\<close> is the list itself.\<close>

definition InternalKey :: "byte list \<Rightarrow> u64 \<Rightarrow> ValueType \<Rightarrow> byte list" where
  "InternalKey user_key s t =
     AppendInternalKey [] \<lparr>pk_user_key = user_key, pk_sequence = s, pk_type = t\<rparr>"

subsection \<open>\<open>InternalKeyComparator\<close>\<close>

definition ikey_Compare :: "comparator \<Rightarrow> byte list \<Rightarrow> byte list \<Rightarrow> int" where
  "ikey_Compare ucmp akey bkey =
     (let r = cmp_Compare ucmp (ExtractUserKey akey) (ExtractUserKey bkey) in
      if r = 0 then
        let anum = key_number akey; bnum = key_number bkey in
        if anum > bnum then - 1 else if anum < bnum then 1 else r
      else r)"

definition ikey_FindShortestSeparator :: "comparator \<Rightarrow> byte list \<Rightarrow> byte list \<Rightarrow> byte list" where
  "ikey_FindShortestSeparator ucmp start limit =
     (let user_start = ExtractUserKey start; user_limit = ExtractUserKey limit;
          tmp = cmp_FindShortestSeparator ucmp user_start user_limit in
      if length tmp < length user_start \<and> cmp_Compare ucmp user_start tmp < 0
      then PutFixed64 tmp (PackSequenceAndType kMaxSequenceNumber kValueTypeForSeek)
      else start)"

definition ikey_FindShortSuccessor :: "comparator \<Rightarrow> byte list \<Rightarrow> byte list" where
  "ikey_FindShortSuccessor ucmp key =
     (let user_key = ExtractUserKey key; tmp = cmp_FindShortSuccessor ucmp user_key in
      if length tmp < length user_key \<and> cmp_Compare ucmp user_key tmp < 0
      then PutFixed64 tmp (PackSequenceAndType kMaxSequenceNumber kValueTypeForSeek)
      else key)"

definition InternalKeyComparator :: "comparator \<Rightarrow> comparator" where
  "InternalKeyComparator ucmp =
     \<lparr>cmp_Compare = ikey_Compare ucmp, cmp_FindShortestSeparator = ikey_FindShortestSeparator ucmp,
      cmp_FindShortSuccessor = ikey_FindShortSuccessor ucmp\<rparr>"

subsection \<open>\<open>InternalFilterPolicy\<close> and \<open>LookupKey\<close>\<close>

text \<open>The filter policy over the user's, here with the Bloom filter as the user's policy.\<close>

definition internal_CreateFilter :: "bloom_policy \<Rightarrow> byte list list \<Rightarrow> byte list \<Rightarrow> byte list" where
  "internal_CreateFilter pol keys dst = CreateFilter pol (map ExtractUserKey keys) dst"

definition internal_KeyMayMatch :: "byte list \<Rightarrow> byte list \<Rightarrow> bool" where
  "internal_KeyMayMatch key f = KeyMayMatch (ExtractUserKey key) f"

text \<open>The array of a \<open>LookupKey\<close> and the offset of \<open>kstart_\<close> in it.\<close>

record LookupKey =
  lk_array :: "byte list"
  lk_kstart :: nat

definition make_LookupKey :: "byte list \<Rightarrow> u64 \<Rightarrow> LookupKey" where
  "make_LookupKey user_key s =
     (let len = EncodeVarint32 (of_nat (length user_key + 8)) in
      \<lparr>lk_array = len @ user_key @ EncodeFixed64 (PackSequenceAndType s kValueTypeForSeek),
       lk_kstart = length len\<rparr>)"

definition memtable_key :: "LookupKey \<Rightarrow> byte list" where
  "memtable_key k = lk_array k"

definition internal_key :: "LookupKey \<Rightarrow> byte list" where
  "internal_key k = drop (lk_kstart k) (lk_array k)"

definition lookup_user_key :: "LookupKey \<Rightarrow> byte list" where
  "lookup_user_key k = take (length (lk_array k) - lk_kstart k - 8) (drop (lk_kstart k) (lk_array k))"

subsection \<open>Facts: packing\<close>

lemma ikey_sel [simp]:
  "cmp_Compare (InternalKeyComparator u) = ikey_Compare u"
  "cmp_FindShortestSeparator (InternalKeyComparator u) = ikey_FindShortestSeparator u"
  "cmp_FindShortSuccessor (InternalKeyComparator u) = ikey_FindShortSuccessor u"
  by (simp_all add: InternalKeyComparator_def)

lemma key_parts [simp]:
  "ExtractUserKey (k @ EncodeFixed64 n) = k" "key_number (k @ EncodeFixed64 n) = n"
  using DecodeFixed64_encode [of n "[]"] by (simp_all add: ExtractUserKey_def key_number_def)

lemma AppendInternalKey_eq:
  "AppendInternalKey r k = r @ pk_user_key k @ EncodeFixed64 (PackSequenceAndType (pk_sequence k) (pk_type k))"
  by (simp add: AppendInternalKey_def PutFixed64_def)

lemma pack_sum: "unat s < 2 ^ 56 \<Longrightarrow> unat (PackSequenceAndType s t) = 256 * unat s + unat (type_code t)"
proof -
  assume s: "unat s < 2 ^ 56"
  have "push_bit 8 s OR type_code t = push_bit 8 s + type_code t"
  proof (rule disjunctive_add [symmetric])
    fix n
    have "bit (type_code t) n \<Longrightarrow> n < 1" by (cases t) (auto simp: bit_1_iff)
    then show "\<not> bit (push_bit 8 s) n \<or> \<not> bit (type_code t) n" by (auto simp: bit_simps)
  qed
  moreover have "push_bit 8 s = of_nat (256 * unat s)" by (simp add: push_bit_eq_mult)
  moreover have "type_code t = of_nat (unat (type_code t))" by simp
  ultimately have "PackSequenceAndType s t = of_nat (256 * unat s + unat (type_code t))"
    by (simp add: PackSequenceAndType_def)
  moreover have "unat (type_code t) \<le> 1" by (cases t) simp_all
  ultimately show ?thesis using s by (simp only: unat_of_nat) simp
qed

lemma pack_parts:
  assumes "unat s < 2 ^ 56"
  shows "PackSequenceAndType s t AND 0xff = type_code t" and "drop_bit 8 (PackSequenceAndType s t) = s"
proof -
  have "unat (type_code t) \<le> 1" by (cases t) simp_all
  then show "PackSequenceAndType s t AND 0xff = type_code t" "drop_bit 8 (PackSequenceAndType s t) = s"
    by (simp_all add: word_unat_eq_iff pack_sum [OF assms] unat_drop_bit)
qed

subsection \<open>Facts: the order\<close>

definition valid_ikey :: "(byte list \<Rightarrow> bool) \<Rightarrow> byte list \<Rightarrow> bool" where
  "valid_ikey valid k \<longleftrightarrow> 8 \<le> length k \<and> valid (ExtractUserKey k)"

lemma ikey_less_iff:
  "ikey_Compare u a b < 0 \<longleftrightarrow>
     cmp_Compare u (ExtractUserKey a) (ExtractUserKey b) < 0 \<or>
     cmp_Compare u (ExtractUserKey a) (ExtractUserKey b) = 0 \<and> key_number a > key_number b"
  by (simp add: ikey_Compare_def Let_def)

lemma ikey_le_iff:
  "ikey_Compare u a b \<le> 0 \<longleftrightarrow>
     cmp_Compare u (ExtractUserKey a) (ExtractUserKey b) < 0 \<or>
     cmp_Compare u (ExtractUserKey a) (ExtractUserKey b) = 0 \<and> key_number a \<ge> key_number b"
  by (auto simp: ikey_Compare_def Let_def)

lemma ikey_greater_iff:
  "ikey_Compare u a b > 0 \<longleftrightarrow>
     cmp_Compare u (ExtractUserKey a) (ExtractUserKey b) > 0 \<or>
     cmp_Compare u (ExtractUserKey a) (ExtractUserKey b) = 0 \<and> key_number a < key_number b"
  by (auto simp: ikey_Compare_def Let_def)

lemma ikey_zero_iff:
  "ikey_Compare u a b = 0 \<longleftrightarrow>
     cmp_Compare u (ExtractUserKey a) (ExtractUserKey b) = 0 \<and> key_number a = key_number b"
  by (auto simp: ikey_Compare_def Let_def)

context comparator_laws
begin

lemma ikey_trans:
  assumes v: "valid_ikey valid x" "valid_ikey valid y" "valid_ikey valid z"
    and xy: "ikey_Compare c x y \<le> 0" and yz: "ikey_Compare c y z \<le> 0"
  shows "ikey_Compare c x z \<le> 0"
proof -
  let ?x = "ExtractUserKey x" and ?y = "ExtractUserKey y" and ?z = "ExtractUserKey z"
  have v': "valid ?x" "valid ?y" "valid ?z" using v by (simp_all add: valid_ikey_def)
  show ?thesis
    using xy yz compare_less_trans [OF v'] compare_trans_less [OF v'] compare_eq_trans [OF v']
    unfolding ikey_le_iff by force
qed

text \<open>The shortened key, when it is taken: it lies above the start and below the limit.\<close>

lemma ikey_separator:
  assumes v: "valid_ikey valid a" "valid_ikey valid b" and le: "ikey_Compare c a b \<le> 0"
  shows "ikey_Compare c a (ikey_FindShortestSeparator c a b) \<le> 0"
    and "ikey_Compare c a b < 0 \<Longrightarrow> ikey_Compare c (ikey_FindShortestSeparator c a b) b < 0"
    and "valid_ikey valid (ikey_FindShortestSeparator c a b)"
proof -
  let ?a = "ExtractUserKey a" and ?b = "ExtractUserKey b"
  let ?tmp = "cmp_FindShortestSeparator c ?a ?b"
  have v': "valid ?a" "valid ?b" using v by (simp_all add: valid_ikey_def)
  show "valid_ikey valid (ikey_FindShortestSeparator c a b)"
    using v separator_valid [OF v']
    by (simp add: ikey_FindShortestSeparator_def Let_def PutFixed64_def valid_ikey_def)
  show "ikey_Compare c a (ikey_FindShortestSeparator c a b) \<le> 0"
    using compare_refl [OF v'(1)]
    by (simp add: ikey_FindShortestSeparator_def Let_def PutFixed64_def ikey_le_iff)
  assume less: "ikey_Compare c a b < 0"
  show "ikey_Compare c (ikey_FindShortestSeparator c a b) b < 0"
  proof (cases "length ?tmp < length ?a \<and> cmp_Compare c ?a ?tmp < 0")
    case False
    then show ?thesis using less by (auto simp: ikey_FindShortestSeparator_def Let_def)
  next
    case True
    then have "?tmp \<noteq> ?a" by auto
    then have "cmp_Compare c ?a ?b < 0"
      using less separator_equal [OF v'] unfolding ikey_less_iff by auto
    from separator_less [OF v' this] True show ?thesis
      by (simp add: ikey_FindShortestSeparator_def Let_def PutFixed64_def ikey_less_iff)
  qed
qed

lemma ikey_laws: "comparator_laws (InternalKeyComparator c) (valid_ikey valid)"
proof
  fix a b x y z
  assume a: "valid_ikey valid a" and b: "valid_ikey valid b"
  then have v: "valid (ExtractUserKey a)" "valid (ExtractUserKey b)" by (simp_all add: valid_ikey_def)
  show "cmp_Compare (InternalKeyComparator c) a b < 0 \<longleftrightarrow> cmp_Compare (InternalKeyComparator c) b a > 0"
    using compare_swap [OF v] compare_swap_eq [OF v] by (auto simp: ikey_less_iff ikey_greater_iff)
  show "cmp_FindShortestSeparator (InternalKeyComparator c) a b = a"
    if "cmp_Compare (InternalKeyComparator c) a b = 0"
    using that separator_equal [OF v] by (simp add: ikey_zero_iff ikey_FindShortestSeparator_def Let_def)
  show "cmp_Compare (InternalKeyComparator c) a (cmp_FindShortestSeparator (InternalKeyComparator c) a b) \<le> 0"
    if "cmp_Compare (InternalKeyComparator c) a b \<le> 0"
    using ikey_separator(1) [OF a b] that by simp
  show "cmp_Compare (InternalKeyComparator c) (cmp_FindShortestSeparator (InternalKeyComparator c) a b) b < 0"
    if "cmp_Compare (InternalKeyComparator c) a b < 0"
    using ikey_separator(2) [OF a b] that by simp
  show "valid_ikey valid (cmp_FindShortestSeparator (InternalKeyComparator c) a b)"
    using a separator_valid [OF v]
    by (simp add: ikey_FindShortestSeparator_def Let_def PutFixed64_def valid_ikey_def)
next
  fix a x y z
  assume a: "valid_ikey valid a"
  then have v: "valid (ExtractUserKey a)" by (simp add: valid_ikey_def)
  show "cmp_Compare (InternalKeyComparator c) a a = 0"
    using compare_refl [OF v] by (simp add: ikey_zero_iff)
  show "valid_ikey valid (cmp_FindShortSuccessor (InternalKeyComparator c) a)"
    using a successor_valid [OF v]
    by (simp add: ikey_FindShortSuccessor_def Let_def PutFixed64_def valid_ikey_def)
  show "cmp_Compare (InternalKeyComparator c) a (cmp_FindShortSuccessor (InternalKeyComparator c) a) \<le> 0"
    using compare_refl [OF v]
    by (simp add: ikey_FindShortSuccessor_def Let_def PutFixed64_def ikey_le_iff)
next
  fix x y z
  assume "valid_ikey valid x" "valid_ikey valid y" "valid_ikey valid z"
    "cmp_Compare (InternalKeyComparator c) x y \<le> 0" "cmp_Compare (InternalKeyComparator c) y z \<le> 0"
  then show "cmp_Compare (InternalKeyComparator c) x z \<le> 0" using ikey_trans [of x y z] by simp
qed

end

text \<open>The comparator that LevelDB opens its database with by default.\<close>

interpretation ikey: comparator_laws "InternalKeyComparator BytewiseComparator" "valid_ikey (\<lambda>_. True)"
  by (rule bytewise.ikey_laws)

subsection \<open>Facts: parsing\<close>

lemma parse_append:
  assumes "pk_sequence k \<le> kMaxSequenceNumber"
  shows "ParseInternalKey (AppendInternalKey [] k) = Some k \<and>
    length (AppendInternalKey [] k) = InternalKeyEncodingLength k"
proof -
  have s: "unat (pk_sequence k) < 2 ^ 56"
    using assms by (simp add: kMaxSequenceNumber_def word_le_nat_alt)
  let ?p = "PackSequenceAndType (pk_sequence k) (pk_type k)"
  note parts = pack_parts [OF s, of "pk_type k"]
  have app: "AppendInternalKey [] k = pk_user_key k @ EncodeFixed64 ?p" by (simp add: AppendInternalKey_eq)
  have len: "length (AppendInternalKey [] k) = InternalKeyEncodingLength k"
    by (simp add: app InternalKeyEncodingLength_def)
  have "ParseInternalKey (AppendInternalKey [] k) =
      (if type_code (pk_type k) = 0
       then Some \<lparr>pk_user_key = pk_user_key k, pk_sequence = pk_sequence k, pk_type = kTypeDeletion\<rparr>
       else if type_code (pk_type k) = 1
       then Some \<lparr>pk_user_key = pk_user_key k, pk_sequence = pk_sequence k, pk_type = kTypeValue\<rparr>
       else None)"
    unfolding ParseInternalKey_def Let_def app key_parts parts by simp
  also have "\<dots> = Some k" by (cases "pk_type k") simp_all
  finally show ?thesis using len by simp
qed

subsection \<open>Properties\<close>

text \<open>C35. Round trip: parsing an internal key gives back user key, sequence number and type, for
  every sequence number that fits into its 56 bits.\<close>

theorem internal_key_roundtrip:
  assumes "pk_sequence k \<le> kMaxSequenceNumber"
  shows "ParseInternalKey (AppendInternalKey [] k) = Some k \<and>
    length (AppendInternalKey [] k) = InternalKeyEncodingLength k"
  using assms by (rule parse_append)

lemma internal_key_roundtrip_witness:
  "ParseInternalKey (AppendInternalKey [] \<lparr>pk_user_key = [1, 2], pk_sequence = 7, pk_type = kTypeValue\<rparr>) =
     Some \<lparr>pk_user_key = [1, 2], pk_sequence = 7, pk_type = kTypeValue\<rparr>"
  using internal_key_roundtrip [of "\<lparr>pk_user_key = [1, 2], pk_sequence = 7, pk_type = kTypeValue\<rparr>"]
  by (simp add: kMaxSequenceNumber_def)

text \<open>C36. The order of internal keys: by user key, for equal user keys the newer entry first, and for
  the same sequence number a value before a deletion.\<close>

theorem internal_key_order:
  assumes "s \<le> kMaxSequenceNumber" and "s' \<le> kMaxSequenceNumber"
  shows "ikey_Compare BytewiseComparator (InternalKey k s t) (InternalKey k' s' t') < 0 \<longleftrightarrow>
    slice_compare k k' < 0 \<or> k = k' \<and> (s' < s \<or> s' = s \<and> t = kTypeValue \<and> t' = kTypeDeletion)"
proof -
  have fit: "unat s < 2 ^ 56" "unat s' < 2 ^ 56"
    using assms by (simp_all add: kMaxSequenceNumber_def word_le_nat_alt)
  have num: "(PackSequenceAndType s' t' < PackSequenceAndType s t) =
      (s' < s \<or> s' = s \<and> t = kTypeValue \<and> t' = kTypeDeletion)"
  proof -
    have "(PackSequenceAndType s' t' < PackSequenceAndType s t) =
        (256 * unat s' + unat (type_code t') < 256 * unat s + unat (type_code t))"
      by (simp only: word_less_nat_alt pack_sum [OF fit(1)] pack_sum [OF fit(2)])
    also have "\<dots> = (unat s' < unat s \<or> unat s' = unat s \<and> t = kTypeValue \<and> t' = kTypeDeletion)"
      by (cases t; cases t') auto
    finally show ?thesis by (simp add: word_less_nat_alt word_unat_eq_iff)
  qed
  show ?thesis
    by (auto simp: ikey_less_iff InternalKey_def AppendInternalKey_eq slice_compare_signs num)
qed

lemma internal_key_order_witness:
  "ikey_Compare BytewiseComparator (InternalKey [1] 9 kTypeDeletion) (InternalKey [1] 8 kTypeValue) < 0"
  using internal_key_order [of 9 8 "[1]" kTypeDeletion "[1]" kTypeValue] by (simp add: kMaxSequenceNumber_def)

text \<open>C37. The assertions of \<open>InternalKeyComparator::FindShortestSeparator\<close> hold: the key that goes
  into the index lies between the two keys, and no key of the block before it is above it.\<close>

theorem internal_separator:
  assumes "8 \<le> length start" and "8 \<le> length limit" and "ikey_Compare BytewiseComparator start limit < 0"
  shows "ikey_Compare BytewiseComparator start (ikey_FindShortestSeparator BytewiseComparator start limit) \<le> 0 \<and>
    ikey_Compare BytewiseComparator (ikey_FindShortestSeparator BytewiseComparator start limit) limit < 0"
  using ikey.separator_ge [of start limit] ikey.separator_less [of start limit] assms
  by (simp add: valid_ikey_def)

lemma internal_separator_witness:
  "ikey_Compare BytewiseComparator
    (ikey_FindShortestSeparator BytewiseComparator (InternalKey [1, 4, 4] 3 kTypeValue) (InternalKey [1, 8] 3 kTypeValue))
    (InternalKey [1, 8] 3 kTypeValue) < 0"
proof -
  have "ikey_Compare BytewiseComparator (InternalKey [1, 4, 4] 3 kTypeValue) (InternalKey [1, 8] 3 kTypeValue) < 0"
    using internal_key_order [of 3 3 "[1, 4, 4]" kTypeValue "[1, 8]" kTypeValue]
    by (simp add: kMaxSequenceNumber_def slice_compare_Cons)
  then show ?thesis
    using internal_separator [of "InternalKey [1, 4, 4] 3 kTypeValue" "InternalKey [1, 8] 3 kTypeValue"]
    by (simp add: InternalKey_def AppendInternalKey_eq)
qed

text \<open>C36. A \<open>LookupKey\<close> holds the same user key in all its views, and its memtable form is the
  internal key with a length prefix.\<close>

theorem lookup_key_views:
  assumes "length k + 8 < 2 ^ 32"
  shows "lookup_user_key (make_LookupKey k s) = k \<and>
    internal_key (make_LookupKey k s) = InternalKey k s kTypeValue \<and>
    GetLengthPrefixedSlice (memtable_key (make_LookupKey k s)) = (Some (InternalKey k s kTypeValue), [])"
proof -
  have "unat (of_nat (length k + 8) :: u32) = length k + 8" using assms by (simp only: unat_of_nat) simp
  then show ?thesis
    by (simp add: make_LookupKey_def Let_def lookup_user_key_def internal_key_def memtable_key_def
        GetLengthPrefixedSlice_def InternalKey_def AppendInternalKey_eq kValueTypeForSeek_def
        remove_prefix_def del: of_nat_add)
qed

lemma lookup_key_views_witness:
  "internal_key (make_LookupKey [5, 6] 3) = InternalKey [5, 6] 3 kTypeValue"
  using lookup_key_views [of "[5, 6]" 3] by simp

end
