(* ===== verification/LdbVersionEdit.thy ===== *)
theory LdbVersionEdit
  imports LdbFormat LdbFilename LdbEnv
begin

section \<open>Version edits (db/version_edit.cc, db/version_edit.h)\<close>

text \<open>
  The changes to the set of table files that the descriptor log stores. A \<open>std::set\<close> of deleted
  files is the list of its elements in order, an \<open>InternalKey\<close> its bytes. \<open>EncodeTo\<close> is None
  when the assertion that a key is not empty fails.

  Shown: an edit is read back from its encoding. This is for a new object: \<open>Clear\<close> keeps the
  compaction pointers, so that \<open>DecodeFrom\<close> into a used edit adds to the old ones.
\<close>

subsection \<open>The edit\<close>

record FileMetaData =
  fm_refs :: int
  fm_allowed_seeks :: int
  fm_number :: u64
  fm_file_size :: u64
  fm_smallest :: "byte list"
  fm_largest :: "byte list"

record version_edit =
  ve_comparator :: "byte list"
  ve_log_number :: u64
  ve_prev_log_number :: u64
  ve_next_file_number :: u64
  ve_last_sequence :: u64
  ve_has_comparator :: bool
  ve_has_log_number :: bool
  ve_has_prev_log_number :: bool
  ve_has_next_file_number :: bool
  ve_has_last_sequence :: bool
  ve_compact_pointers :: "(int \<times> byte list) list"
  ve_deleted_files :: "(int \<times> u64) list"
  ve_new_files :: "(int \<times> FileMetaData) list"

definition kNumLevels :: u32 where "kNumLevels = 7"

definition ve_Clear :: "version_edit \<Rightarrow> version_edit" where
  "ve_Clear e = e\<lparr>ve_comparator := [], ve_log_number := 0, ve_prev_log_number := 0, ve_last_sequence := 0,
     ve_next_file_number := 0, ve_has_comparator := False, ve_has_log_number := False,
     ve_has_prev_log_number := False, ve_has_next_file_number := False, ve_has_last_sequence := False,
     ve_deleted_files := [], ve_new_files := []\<rparr>"

text \<open>The numbers of a new object are set by \<open>Clear\<close>, its containers are empty.\<close>

definition new_VersionEdit :: version_edit where
  "new_VersionEdit = ve_Clear \<lparr>ve_comparator = [], ve_log_number = 0, ve_prev_log_number = 0,
     ve_next_file_number = 0, ve_last_sequence = 0, ve_has_comparator = False, ve_has_log_number = False,
     ve_has_prev_log_number = False, ve_has_next_file_number = False, ve_has_last_sequence = False,
     ve_compact_pointers = [], ve_deleted_files = [], ve_new_files = []\<rparr>"

text \<open>\<open>std::set::insert\<close>, with the order of pairs.\<close>

fun deleted_insert :: "int \<times> u64 \<Rightarrow> (int \<times> u64) list \<Rightarrow> (int \<times> u64) list" where
  "deleted_insert x [] = [x]"
| "deleted_insert x (y # ys) =
     (if x = y then y # ys
      else if fst x < fst y \<or> fst x = fst y \<and> snd x < snd y then x # y # ys
      else y # deleted_insert x ys)"

definition SetComparatorName where
  "SetComparatorName e nm = e\<lparr>ve_has_comparator := True, ve_comparator := nm\<rparr>"
definition SetLogNumber where
  "SetLogNumber e num = e\<lparr>ve_has_log_number := True, ve_log_number := num\<rparr>"
definition SetPrevLogNumber where
  "SetPrevLogNumber e num = e\<lparr>ve_has_prev_log_number := True, ve_prev_log_number := num\<rparr>"
definition SetNextFile where
  "SetNextFile e num = e\<lparr>ve_has_next_file_number := True, ve_next_file_number := num\<rparr>"
definition SetLastSequence where
  "SetLastSequence e sq = e\<lparr>ve_has_last_sequence := True, ve_last_sequence := sq\<rparr>"
definition SetCompactPointer where
  "SetCompactPointer e level key = e\<lparr>ve_compact_pointers := ve_compact_pointers e @ [(level, key)]\<rparr>"

definition ve_AddFile :: "version_edit \<Rightarrow> int \<Rightarrow> u64 \<Rightarrow> u64 \<Rightarrow> byte list \<Rightarrow> byte list \<Rightarrow> version_edit" where
  "ve_AddFile e level file file_size smallest largest =
     e\<lparr>ve_new_files := ve_new_files e @ [(level, \<lparr>fm_refs = 0, fm_allowed_seeks = 2 ^ 30, fm_number = file,
        fm_file_size = file_size, fm_smallest = smallest, fm_largest = largest\<rparr>)]\<rparr>"

definition ve_DeleteFile :: "version_edit \<Rightarrow> int \<Rightarrow> u64 \<Rightarrow> version_edit" where
  "ve_DeleteFile e level file = e\<lparr>ve_deleted_files := deleted_insert (level, file) (ve_deleted_files e)\<rparr>"

subsection \<open>\<open>EncodeTo\<close>\<close>

definition tComparator :: u32 where "tComparator = 1"
definition tLogNumber :: u32 where "tLogNumber = 2"
definition tNextFileNumber :: u32 where "tNextFileNumber = 3"
definition tLastSequence :: u32 where "tLastSequence = 4"
definition tCompactPointer :: u32 where "tCompactPointer = 5"
definition tDeletedFile :: u32 where "tDeletedFile = 6"
definition tNewFile :: u32 where "tNewFile = 7"
definition tPrevLogNumber :: u32 where "tPrevLogNumber = 9"

definition ikey_Encode :: "byte list \<Rightarrow> byte list option" where
  "ikey_Encode rep = (if rep = [] then None else Some rep)"

definition encode_pointer :: "int \<times> byte list \<Rightarrow> byte list \<Rightarrow> byte list option" where
  "encode_pointer p dst = do {
     key \<leftarrow> ikey_Encode (snd p);
     Some (PutLengthPrefixedSlice (PutVarint32 (PutVarint32 dst tCompactPointer) (of_int (fst p))) key)
   }"

definition encode_deleted :: "int \<times> u64 \<Rightarrow> byte list \<Rightarrow> byte list" where
  "encode_deleted d dst = PutVarint64 (PutVarint32 (PutVarint32 dst tDeletedFile) (of_int (fst d))) (snd d)"

definition encode_new_file :: "int \<times> FileMetaData \<Rightarrow> byte list \<Rightarrow> byte list option" where
  "encode_new_file nf dst =
     (let f = snd nf;
          dst = PutVarint32 (PutVarint32 dst tNewFile) (of_int (fst nf));
          dst = PutVarint64 (PutVarint64 dst (fm_number f)) (fm_file_size f)
      in do {
        smallest \<leftarrow> ikey_Encode (fm_smallest f);
        largest \<leftarrow> ikey_Encode (fm_largest f);
        Some (PutLengthPrefixedSlice (PutLengthPrefixedSlice dst smallest) largest)
      })"

fun encode_each :: "('a \<Rightarrow> byte list \<Rightarrow> byte list option) \<Rightarrow> 'a list \<Rightarrow> byte list \<Rightarrow> byte list option" where
  "encode_each f [] dst = Some dst"
| "encode_each f (x # xs) dst = Option.bind (f x dst) (encode_each f xs)"

definition ve_EncodeTo :: "version_edit \<Rightarrow> byte list \<Rightarrow> byte list option" where
  "ve_EncodeTo e dst =
     (let dst = (if ve_has_comparator e
                 then PutLengthPrefixedSlice (PutVarint32 dst tComparator) (ve_comparator e) else dst);
          dst = (if ve_has_log_number e
                 then PutVarint64 (PutVarint32 dst tLogNumber) (ve_log_number e) else dst);
          dst = (if ve_has_prev_log_number e
                 then PutVarint64 (PutVarint32 dst tPrevLogNumber) (ve_prev_log_number e) else dst);
          dst = (if ve_has_next_file_number e
                 then PutVarint64 (PutVarint32 dst tNextFileNumber) (ve_next_file_number e) else dst);
          dst = (if ve_has_last_sequence e
                 then PutVarint64 (PutVarint32 dst tLastSequence) (ve_last_sequence e) else dst)
      in do {
        dst \<leftarrow> encode_each encode_pointer (ve_compact_pointers e) dst;
        let dst = fold encode_deleted (ve_deleted_files e) dst;
        encode_each encode_new_file (ve_new_files e) dst
      })"

subsection \<open>\<open>DecodeFrom\<close>\<close>

text \<open>The readers give a value, if there is one, and what is left of the input.\<close>

definition GetInternalKey :: "byte list \<Rightarrow> byte list option \<times> byte list" where
  "GetInternalKey input = GetLengthPrefixedSlice input"

definition GetLevel :: "byte list \<Rightarrow> int option \<times> byte list" where
  "GetLevel input =
     (case GetVarint32 input of
        (Some v, q) \<Rightarrow> if v < kNumLevels then (Some (uint v), q) else (None, q)
      | (None, q) \<Rightarrow> (None, q))"

text \<open>One field: the edit and the rest of the input, or the message of the error.\<close>

definition decode_field :: "u32 \<Rightarrow> version_edit \<Rightarrow> byte list \<Rightarrow> string + version_edit \<times> byte list" where
  "decode_field tg e input =
     (if tg = tComparator then
        (case GetLengthPrefixedSlice input of
           (Some str, q) \<Rightarrow> Inr (e\<lparr>ve_comparator := str, ve_has_comparator := True\<rparr>, q)
         | _ \<Rightarrow> Inl ''comparator name'')
      else if tg = tLogNumber then
        (case GetVarint64 input of
           (Some v, q) \<Rightarrow> Inr (e\<lparr>ve_log_number := v, ve_has_log_number := True\<rparr>, q)
         | _ \<Rightarrow> Inl ''log number'')
      else if tg = tPrevLogNumber then
        (case GetVarint64 input of
           (Some v, q) \<Rightarrow> Inr (e\<lparr>ve_prev_log_number := v, ve_has_prev_log_number := True\<rparr>, q)
         | _ \<Rightarrow> Inl ''previous log number'')
      else if tg = tNextFileNumber then
        (case GetVarint64 input of
           (Some v, q) \<Rightarrow> Inr (e\<lparr>ve_next_file_number := v, ve_has_next_file_number := True\<rparr>, q)
         | _ \<Rightarrow> Inl ''next file number'')
      else if tg = tLastSequence then
        (case GetVarint64 input of
           (Some v, q) \<Rightarrow> Inr (e\<lparr>ve_last_sequence := v, ve_has_last_sequence := True\<rparr>, q)
         | _ \<Rightarrow> Inl ''last sequence number'')
      else if tg = tCompactPointer then
        (case GetLevel input of
           (Some level, q) \<Rightarrow>
             (case GetInternalKey q of
                (Some key, q) \<Rightarrow> Inr (e\<lparr>ve_compact_pointers := ve_compact_pointers e @ [(level, key)]\<rparr>, q)
              | _ \<Rightarrow> Inl ''compaction pointer'')
         | _ \<Rightarrow> Inl ''compaction pointer'')
      else if tg = tDeletedFile then
        (case GetLevel input of
           (Some level, q) \<Rightarrow>
             (case GetVarint64 q of
                (Some number, q) \<Rightarrow> Inr (e\<lparr>ve_deleted_files := deleted_insert (level, number) (ve_deleted_files e)\<rparr>, q)
              | _ \<Rightarrow> Inl ''deleted file'')
         | _ \<Rightarrow> Inl ''deleted file'')
      else if tg = tNewFile then
        (case GetLevel input of
           (Some level, q) \<Rightarrow>
             (case GetVarint64 q of
                (Some number, q) \<Rightarrow>
                  (case GetVarint64 q of
                     (Some file_size, q) \<Rightarrow>
                       (case GetInternalKey q of
                          (Some smallest, q) \<Rightarrow>
                            (case GetInternalKey q of
                               (Some largest, q) \<Rightarrow>
                                 Inr (e\<lparr>ve_new_files := ve_new_files e @ [(level, \<lparr>fm_refs = 0,
                                   fm_allowed_seeks = 2 ^ 30, fm_number = number, fm_file_size = file_size,
                                   fm_smallest = smallest, fm_largest = largest\<rparr>)]\<rparr>, q)
                             | _ \<Rightarrow> Inl ''new-file entry'')
                        | _ \<Rightarrow> Inl ''new-file entry'')
                   | _ \<Rightarrow> Inl ''new-file entry'')
              | _ \<Rightarrow> Inl ''new-file entry'')
         | _ \<Rightarrow> Inl ''new-file entry'')
      else Inl ''unknown tag'')"

lemma get_shorter:
  "GetLevel p = (Some l, q) \<Longrightarrow> length q < length p"
  "GetInternalKey p = (Some s, q) \<Longrightarrow> length q < length p"
  by (auto simp: GetLevel_def GetInternalKey_def dest!: reader_shorter split: option.splits if_splits prod.splits)

lemma decode_field_shorter: "decode_field tg e p = Inr (e', q) \<Longrightarrow> length q < length p"
  by (auto simp: decode_field_def dest!: get_shorter reader_shorter split: if_splits prod.splits option.splits)

text \<open>The loop: the edit, the message, and what is left.\<close>

function decode_edit :: "version_edit \<Rightarrow> byte list \<Rightarrow> version_edit \<times> string option \<times> byte list" where
  "decode_edit e input =
     (case GetVarint32 input of
        (None, q) \<Rightarrow> (e, None, q)
      | (Some tg, q) \<Rightarrow>
          (case decode_field tg e q of
             Inl msg \<Rightarrow> (e, Some msg, q)
           | Inr (e', q') \<Rightarrow> decode_edit e' q'))"
  by pat_completeness auto
termination
  by (relation "measure (length \<circ> snd)") (auto dest!: reader_shorter(1) [OF sym] decode_field_shorter)

declare decode_edit.simps [simp del]

definition ve_DecodeFrom :: "version_edit \<Rightarrow> byte list \<Rightarrow> Status \<times> version_edit" where
  "ve_DecodeFrom e src =
     (case decode_edit (ve_Clear e) src of
        (e', msg, input) \<Rightarrow>
          let msg = (if msg = None \<and> input \<noteq> [] then Some ''invalid tag'' else msg)
          in (case msg of None \<Rightarrow> OK | Some m \<Rightarrow> Corruption ''VersionEdit'' m, e'))"

subsection \<open>\<open>DebugString\<close>\<close>

definition pk_DebugString :: "ParsedInternalKey \<Rightarrow> byte list" where
  "pk_DebugString k = chars [CHR 39] @ EscapeString (pk_user_key k) @ chars [CHR 39] @ chars '' @ '' @
     show_nat (unat (pk_sequence k)) @ chars '' : '' @ show_nat (unat (type_code (pk_type k)))"

definition ikey_DebugString :: "byte list \<Rightarrow> byte list" where
  "ikey_DebugString rep =
     (case ParseInternalKey rep of
        Some parsed \<Rightarrow> pk_DebugString parsed
      | None \<Rightarrow> chars ''(bad)'' @ EscapeString rep)"

definition line :: "string \<Rightarrow> byte list" where
  "line s = chars (CHR 10 # '' '' @ '' '' @ s)"

definition ve_DebugString :: "version_edit \<Rightarrow> byte list" where
  "ve_DebugString e =
     chars ''VersionEdit {'' @
     (if ve_has_comparator e then line ''Comparator: '' @ ve_comparator e else []) @
     (if ve_has_log_number e then AppendNumberTo (line ''LogNumber: '') (ve_log_number e) else []) @
     (if ve_has_prev_log_number e then AppendNumberTo (line ''PrevLogNumber: '') (ve_prev_log_number e) else []) @
     (if ve_has_next_file_number e then AppendNumberTo (line ''NextFile: '') (ve_next_file_number e) else []) @
     (if ve_has_last_sequence e then AppendNumberTo (line ''LastSeq: '') (ve_last_sequence e) else []) @
     concat (map (\<lambda>(level, key). AppendNumberTo (line ''CompactPointer: '') (of_int level) @ chars '' '' @
       ikey_DebugString key) (ve_compact_pointers e)) @
     concat (map (\<lambda>(level, number). AppendNumberTo (AppendNumberTo (line ''DeleteFile: '') (of_int level) @
       chars '' '') number) (ve_deleted_files e)) @
     concat (map (\<lambda>(level, f). AppendNumberTo (AppendNumberTo (AppendNumberTo (line ''AddFile: '') (of_int level) @
       chars '' '') (fm_number f) @ chars '' '') (fm_file_size f) @ chars '' '' @
       ikey_DebugString (fm_smallest f) @ chars '' .. '' @ ikey_DebugString (fm_largest f)) (ve_new_files e)) @
     chars (CHR 10 # ''}'' @ [CHR 10])"

subsection \<open>Round trip\<close>

text \<open>What the setters make: levels in range, keys not empty, file data as \<open>AddFile\<close> fills it, and a
  set in order.\<close>

definition ve_ok :: "version_edit \<Rightarrow> bool" where
  "ve_ok e \<longleftrightarrow> length (ve_comparator e) < 2 ^ 32 \<and>
     (\<forall>(l, k) \<in> set (ve_compact_pointers e). 0 \<le> l \<and> l < 7 \<and> k \<noteq> [] \<and> length k < 2 ^ 32) \<and>
     (\<forall>(l, n) \<in> set (ve_deleted_files e). 0 \<le> l \<and> l < 7) \<and>
     (\<forall>(l, f) \<in> set (ve_new_files e). 0 \<le> l \<and> l < 7 \<and> fm_refs f = 0 \<and> fm_allowed_seeks f = 2 ^ 30 \<and>
        fm_smallest f \<noteq> [] \<and> length (fm_smallest f) < 2 ^ 32 \<and> fm_largest f \<noteq> [] \<and> length (fm_largest f) < 2 ^ 32) \<and>
     sorted_wrt (\<lambda>x y. fst x < fst y \<or> fst x = fst y \<and> snd x < snd y) (ve_deleted_files e) \<and>
     (\<not> ve_has_comparator e \<longrightarrow> ve_comparator e = []) \<and> (\<not> ve_has_log_number e \<longrightarrow> ve_log_number e = 0) \<and>
     (\<not> ve_has_prev_log_number e \<longrightarrow> ve_prev_log_number e = 0) \<and>
     (\<not> ve_has_next_file_number e \<longrightarrow> ve_next_file_number e = 0) \<and>
     (\<not> ve_has_last_sequence e \<longrightarrow> ve_last_sequence e = 0)"

lemma ve_okD:
  assumes "ve_ok e"
  shows "p \<in> set (ve_compact_pointers e) \<Longrightarrow> 0 \<le> fst p \<and> fst p < 7 \<and> snd p \<noteq> [] \<and> length (snd p) < 2 ^ 32"
    and "d \<in> set (ve_deleted_files e) \<Longrightarrow> 0 \<le> fst d \<and> fst d < 7"
    and "nf \<in> set (ve_new_files e) \<Longrightarrow> 0 \<le> fst nf \<and> fst nf < 7 \<and> fm_refs (snd nf) = 0 \<and>
      fm_allowed_seeks (snd nf) = 2 ^ 30 \<and> fm_smallest (snd nf) \<noteq> [] \<and> length (fm_smallest (snd nf)) < 2 ^ 32 \<and>
      fm_largest (snd nf) \<noteq> [] \<and> length (fm_largest (snd nf)) < 2 ^ 32"
    and "length (ve_comparator e) < 2 ^ 32"
    and "sorted_wrt (\<lambda>x y. fst x < fst y \<or> fst x = fst y \<and> snd x < snd y) (ve_deleted_files e)"
  using assms unfolding ve_ok_def by (simp_all add: case_prod_beta)

text \<open>A field in front of the input is decoded, and the loop goes on behind it.\<close>

definition decodes :: "(version_edit \<Rightarrow> version_edit) \<Rightarrow> byte list \<Rightarrow> bool" where
  "decodes f bs \<longleftrightarrow> (\<forall>e rest. decode_edit e (bs @ rest) = decode_edit (f e) rest)"

lemma decodes_Nil: "decodes id []"
  by (simp add: decodes_def)

lemma decodes_append: "decodes f a \<Longrightarrow> decodes g b \<Longrightarrow> decodes (g \<circ> f) (a @ b)"
  by (simp add: decodes_def)

lemma decodes_field:
  "(\<And>e rest. decode_field tg e (bs @ rest) = Inr (f e, rest)) \<Longrightarrow> decodes f (EncodeVarint32 tg @ bs)"
  by (simp add: decodes_def decode_edit.simps [of _ "EncodeVarint32 tg @ _"])

lemma decodes_fold:
  "(\<And>x. x \<in> set xs \<Longrightarrow> decodes (f x) (g x)) \<Longrightarrow> decodes (fold f xs) (concat (map g xs))"
proof (induction xs)
  case Nil
  then show ?case using decodes_Nil by (simp add: id_def)
next
  case (Cons x xs)
  then have "decodes (f x) (g x)" "decodes (fold f xs) (concat (map g xs))" by simp_all
  from decodes_append [OF this] show ?case by (simp add: comp_def)
qed

lemmas tg_defs = tComparator_def tLogNumber_def tNextFileNumber_def tLastSequence_def tCompactPointer_def
  tDeletedFile_def tNewFile_def tPrevLogNumber_def

lemma GetLevel_put: "0 \<le> l \<Longrightarrow> l < 7 \<Longrightarrow> GetLevel (EncodeVarint32 (of_int l) @ rest) = (Some l, rest)"
  by (simp add: GetLevel_def kNumLevels_def word_less_def uint_word_of_int)

definition pointer_bytes :: "int \<times> byte list \<Rightarrow> byte list" where
  "pointer_bytes p = EncodeVarint32 tCompactPointer @ EncodeVarint32 (of_int (fst p)) @ PutLengthPrefixedSlice [] (snd p)"

definition deleted_bytes :: "int \<times> u64 \<Rightarrow> byte list" where
  "deleted_bytes d = EncodeVarint32 tDeletedFile @ EncodeVarint32 (of_int (fst d)) @ EncodeVarint64 (snd d)"

definition new_file_bytes :: "int \<times> FileMetaData \<Rightarrow> byte list" where
  "new_file_bytes nf = EncodeVarint32 tNewFile @ EncodeVarint32 (of_int (fst nf)) @ EncodeVarint64 (fm_number (snd nf)) @
     EncodeVarint64 (fm_file_size (snd nf)) @ PutLengthPrefixedSlice [] (fm_smallest (snd nf)) @
     PutLengthPrefixedSlice [] (fm_largest (snd nf))"

definition added_file :: "int \<times> FileMetaData \<Rightarrow> version_edit \<Rightarrow> version_edit" where
  "added_file nf e = (let f = snd nf in ve_AddFile e (fst nf) (fm_number f) (fm_file_size f) (fm_smallest f) (fm_largest f))"

lemma decodes_pointer:
  assumes "0 \<le> fst p \<and> fst p < 7 \<and> snd p \<noteq> [] \<and> length (snd p) < 2 ^ 32"
  shows "decodes (\<lambda>e. SetCompactPointer e (fst p) (snd p)) (pointer_bytes p)"
  unfolding pointer_bytes_def using assms
  by (intro decodes_field) (simp add: decode_field_def tg_defs GetLevel_put GetInternalKey_def SetCompactPointer_def)

lemma decodes_deleted:
  assumes "0 \<le> fst d \<and> fst d < 7"
  shows "decodes (\<lambda>e. ve_DeleteFile e (fst d) (snd d)) (deleted_bytes d)"
  unfolding deleted_bytes_def using assms
  by (intro decodes_field) (simp add: decode_field_def tg_defs GetLevel_put ve_DeleteFile_def)

lemma decodes_new_file:
  assumes "0 \<le> fst nf \<and> fst nf < 7" "length (fm_smallest (snd nf)) < 2 ^ 32" "length (fm_largest (snd nf)) < 2 ^ 32"
  shows "decodes (added_file nf) (new_file_bytes nf)"
  unfolding new_file_bytes_def using assms
  by (intro decodes_field)
    (simp add: decode_field_def tg_defs GetLevel_put GetInternalKey_def ve_AddFile_def added_file_def Let_def)

lemma encode_each_bytes:
  "(\<And>x dst. x \<in> set xs \<Longrightarrow> f x dst = Some (dst @ g x)) \<Longrightarrow> encode_each f xs dst = Some (dst @ concat (map g xs))"
  by (induction xs arbitrary: dst) auto

lemma fold_deleted_bytes: "fold encode_deleted ds dst = dst @ concat (map deleted_bytes ds)"
  by (induction ds arbitrary: dst)
    (simp_all add: encode_deleted_def deleted_bytes_def PutVarint32_def PutVarint64_def)

definition flag_bytes :: "bool \<Rightarrow> byte list \<Rightarrow> byte list" where
  "flag_bytes has bs = (if has then bs else [])"

lemma decodes_flag: "decodes f bs \<Longrightarrow> decodes (if has then f else id) (flag_bytes has bs)"
  by (simp add: flag_bytes_def decodes_Nil)

lemma encode_bytes:
  assumes "ve_ok e"
  shows "ve_EncodeTo e dst = Some (dst @
     flag_bytes (ve_has_comparator e) (EncodeVarint32 tComparator @ PutLengthPrefixedSlice [] (ve_comparator e)) @
     flag_bytes (ve_has_log_number e) (EncodeVarint32 tLogNumber @ EncodeVarint64 (ve_log_number e)) @
     flag_bytes (ve_has_prev_log_number e) (EncodeVarint32 tPrevLogNumber @ EncodeVarint64 (ve_prev_log_number e)) @
     flag_bytes (ve_has_next_file_number e) (EncodeVarint32 tNextFileNumber @ EncodeVarint64 (ve_next_file_number e)) @
     flag_bytes (ve_has_last_sequence e) (EncodeVarint32 tLastSequence @ EncodeVarint64 (ve_last_sequence e)) @
     concat (map pointer_bytes (ve_compact_pointers e)) @ concat (map deleted_bytes (ve_deleted_files e)) @
     concat (map new_file_bytes (ve_new_files e)))"
proof -
  have p: "encode_each encode_pointer (ve_compact_pointers e) dst = Some (dst @ concat (map pointer_bytes (ve_compact_pointers e)))" for dst
    using ve_okD(1) [OF assms] by (intro encode_each_bytes) (auto simp: encode_pointer_def ikey_Encode_def pointer_bytes_def
        PutVarint32_def PutLengthPrefixedSlice_app [of "_ @ _"])
  have n: "encode_each encode_new_file (ve_new_files e) dst = Some (dst @ concat (map new_file_bytes (ve_new_files e)))" for dst
    using ve_okD(3) [OF assms] by (intro encode_each_bytes) (auto simp: encode_new_file_def ikey_Encode_def new_file_bytes_def
        PutVarint32_def PutVarint64_def PutLengthPrefixedSlice_app [of "_ @ _"] Let_def)
  show ?thesis
    by (auto simp: ve_EncodeTo_def Let_def p n fold_deleted_bytes flag_bytes_def PutVarint32_def PutVarint64_def
        PutLengthPrefixedSlice_app [of "_ @ _"])
qed

lemma fold_pointers: "fold (\<lambda>p e. SetCompactPointer e (fst p) (snd p)) ps e =
    e\<lparr>ve_compact_pointers := ve_compact_pointers e @ ps\<rparr>"
  by (induction ps arbitrary: e) (simp_all add: SetCompactPointer_def)

lemma deleted_insert_last:
  "\<forall>y \<in> set ys. fst y < fst x \<or> fst y = fst x \<and> snd y < snd x \<Longrightarrow> deleted_insert x ys = ys @ [x]"
  by (induction ys) auto

lemma fold_deleted:
  "sorted_wrt (\<lambda>x y. fst x < fst y \<or> fst x = fst y \<and> snd x < snd y) (ve_deleted_files e @ ds) \<Longrightarrow>
   fold (\<lambda>d e. ve_DeleteFile e (fst d) (snd d)) ds e = e\<lparr>ve_deleted_files := ve_deleted_files e @ ds\<rparr>"
proof (induction ds arbitrary: e)
  case (Cons d ds)
  then have "deleted_insert d (ve_deleted_files e) = ve_deleted_files e @ [d]"
    by (intro deleted_insert_last) (auto simp: sorted_wrt_append)
  with Cons.IH [of "ve_DeleteFile e (fst d) (snd d)"] Cons.prems show ?case by (simp add: ve_DeleteFile_def)
qed simp

lemma fold_new_files:
  "\<forall>nf \<in> set nfs. fm_refs (snd nf) = 0 \<and> fm_allowed_seeks (snd nf) = 2 ^ 30 \<Longrightarrow>
   fold added_file nfs e = e\<lparr>ve_new_files := ve_new_files e @ nfs\<rparr>"
proof (induction nfs arbitrary: e)
  case (Cons nf nfs)
  have "added_file nf e = e\<lparr>ve_new_files := ve_new_files e @ [nf]\<rparr>"
    using Cons.prems by (cases nf) (simp add: added_file_def ve_AddFile_def)
  with Cons show ?case by simp
qed simp

text \<open>C17. Round trip: \<open>DecodeFrom\<close> of the bytes \<open>EncodeTo\<close> appends gives the edit again, with status OK.\<close>

theorem version_edit_roundtrip:
  assumes ok: "ve_ok e"
  shows "\<exists>bs. ve_EncodeTo e [] = Some bs \<and> ve_DecodeFrom new_VersionEdit bs = (OK, e)"
proof -
  let ?c = "EncodeVarint32 tComparator @ PutLengthPrefixedSlice [] (ve_comparator e)"
  have c: "decodes (\<lambda>x. SetComparatorName x (ve_comparator e)) ?c"
    using ve_okD(4) [OF ok] by (intro decodes_field) (simp add: decode_field_def tg_defs SetComparatorName_def)
  have nums: "decodes (\<lambda>x. SetLogNumber x v) (EncodeVarint32 tLogNumber @ EncodeVarint64 v)"
    "decodes (\<lambda>x. SetPrevLogNumber x v) (EncodeVarint32 tPrevLogNumber @ EncodeVarint64 v)"
    "decodes (\<lambda>x. SetNextFile x v) (EncodeVarint32 tNextFileNumber @ EncodeVarint64 v)"
    "decodes (\<lambda>x. SetLastSequence x v) (EncodeVarint32 tLastSequence @ EncodeVarint64 v)" for v
    by (intro decodes_field; simp add: decode_field_def tg_defs SetLogNumber_def SetPrevLogNumber_def
        SetNextFile_def SetLastSequence_def)+
  have p: "decodes (fold (\<lambda>p e. SetCompactPointer e (fst p) (snd p)) (ve_compact_pointers e))
      (concat (map pointer_bytes (ve_compact_pointers e)))"
    using ve_okD(1) [OF ok] by (intro decodes_fold decodes_pointer)
  have d: "decodes (fold (\<lambda>d e. ve_DeleteFile e (fst d) (snd d)) (ve_deleted_files e))
      (concat (map deleted_bytes (ve_deleted_files e)))"
    using ve_okD(2) [OF ok] by (intro decodes_fold decodes_deleted)
  have n: "decodes (fold added_file (ve_new_files e)) (concat (map new_file_bytes (ve_new_files e)))"
    using ve_okD(3) [OF ok] by (intro decodes_fold decodes_new_file) blast+
  from decodes_append [OF decodes_flag [OF c, of "ve_has_comparator e"]
      decodes_append [OF decodes_flag [OF nums(1), of "ve_has_log_number e" "ve_log_number e"]
        decodes_append [OF decodes_flag [OF nums(2), of "ve_has_prev_log_number e" "ve_prev_log_number e"]
          decodes_append [OF decodes_flag [OF nums(3), of "ve_has_next_file_number e" "ve_next_file_number e"]
            decodes_append [OF decodes_flag [OF nums(4), of "ve_has_last_sequence e" "ve_last_sequence e"]
              decodes_append [OF p decodes_append [OF d n]]]]]]]
  obtain bs where bs: "ve_EncodeTo e [] = Some bs" and
    dec: "decode_edit new_VersionEdit bs = decode_edit (fold added_file (ve_new_files e)
      (fold (\<lambda>d e. ve_DeleteFile e (fst d) (snd d)) (ve_deleted_files e)
      (fold (\<lambda>p e. SetCompactPointer e (fst p) (snd p)) (ve_compact_pointers e)
      ((if ve_has_last_sequence e then \<lambda>x. SetLastSequence x (ve_last_sequence e) else id)
      ((if ve_has_next_file_number e then \<lambda>x. SetNextFile x (ve_next_file_number e) else id)
      ((if ve_has_prev_log_number e then \<lambda>x. SetPrevLogNumber x (ve_prev_log_number e) else id)
      ((if ve_has_log_number e then \<lambda>x. SetLogNumber x (ve_log_number e) else id)
      ((if ve_has_comparator e then \<lambda>x. SetComparatorName x (ve_comparator e) else id)
       new_VersionEdit)))))))) []"
    using encode_bytes [OF ok, of "[]"] by (simp add: decodes_def) (metis append_Nil2)
  let ?base = "(if ve_has_last_sequence e then \<lambda>x. SetLastSequence x (ve_last_sequence e) else id)
      ((if ve_has_next_file_number e then \<lambda>x. SetNextFile x (ve_next_file_number e) else id)
      ((if ve_has_prev_log_number e then \<lambda>x. SetPrevLogNumber x (ve_prev_log_number e) else id)
      ((if ve_has_log_number e then \<lambda>x. SetLogNumber x (ve_log_number e) else id)
      ((if ve_has_comparator e then \<lambda>x. SetComparatorName x (ve_comparator e) else id) new_VersionEdit))))"
  have base: "?base = e\<lparr>ve_compact_pointers := [], ve_deleted_files := [], ve_new_files := []\<rparr>"
    by (rule version_edit.equality) (use ok in \<open>simp_all add: ve_ok_def new_VersionEdit_def ve_Clear_def
      SetComparatorName_def SetLogNumber_def SetPrevLogNumber_def SetNextFile_def SetLastSequence_def\<close>)
  have "decode_edit new_VersionEdit bs = decode_edit e []"
    unfolding dec base using ve_okD(3,5) [OF ok] by (simp add: fold_pointers fold_deleted fold_new_files)
  also have "\<dots> = (e, None, [])"
    by (simp add: decode_edit.simps [of e "[]"] GetVarint32_def GetVarint32Ptr_def GetVarint32PtrFallback_def)
  finally have "ve_DecodeFrom new_VersionEdit bs = (OK, e)"
    by (simp add: ve_DecodeFrom_def new_VersionEdit_def ve_Clear_def)
  with bs show ?thesis by blast
qed

definition sample_edit :: version_edit where
  "sample_edit = ve_DeleteFile (ve_DeleteFile (ve_AddFile (SetCompactPointer (SetLastSequence (SetLogNumber
     (SetComparatorName new_VersionEdit [99]) 12) 300) 1 [7]) 2 40 500 [1] [2]) 3 9) 1 8"

theorem version_edit_roundtrip_witness:
  "ve_ok sample_edit \<and> (\<exists>bs. ve_EncodeTo sample_edit [] = Some bs \<and> ve_DecodeFrom new_VersionEdit bs = (OK, sample_edit))"
proof -
  have "ve_ok sample_edit"
    by (simp add: ve_ok_def sample_edit_def ve_DeleteFile_def ve_AddFile_def SetCompactPointer_def SetLastSequence_def
        SetLogNumber_def SetComparatorName_def new_VersionEdit_def ve_Clear_def)
  with version_edit_roundtrip [OF this] show ?thesis by blast
qed

end
