(* ===== verification/LdbSkipList.thy ===== *)
theory LdbSkipList
  imports LdbCoding
begin

section \<open>Random numbers and skip lists (util/random.h, db/skiplist.h)\<close>

text \<open>
  The nodes of a skip list lie in one list, the head first, and a pointer to a node is its index
  there (None: null); a node never moves and is never freed, as in the arena of the code. An
  operation is None when it follows a pointer or a level that does not exist, when an assertion
  fails, or when a search does not end. Insertion and reading run one after the other here: the
  barriers with which the code lets readers run beside one writer are not modelled.
\<close>

subsection \<open>\<open>Random\<close>\<close>

definition new_Random :: "u32 \<Rightarrow> u32" where
  "new_Random s =
     (let seed = s AND 0x7fffffff in if seed = 0 \<or> seed = 2147483647 then 1 else seed)"

text \<open>The new seed, which is also the result.\<close>

definition rnd_Next :: "u32 \<Rightarrow> u32" where
  "rnd_Next seed =
     (let M = (2147483647 :: u32); A = (16807 :: u64);
          product = ucast seed * A;
          seed = ucast (drop_bit 31 product + (product AND ucast M))
      in if seed > M then seed - M else seed)"

definition rnd_Uniform :: "u32 \<Rightarrow> u32 \<Rightarrow> u32 \<times> u32" where
  "rnd_Uniform seed n = (let seed = rnd_Next seed in (seed mod n, seed))"

definition rnd_OneIn :: "u32 \<Rightarrow> u32 \<Rightarrow> bool \<times> u32" where
  "rnd_OneIn seed n = (let seed = rnd_Next seed in (seed mod n = 0, seed))"

definition rnd_Skewed :: "u32 \<Rightarrow> u32 \<Rightarrow> u32 \<times> u32" where
  "rnd_Skewed seed max_log =
     (case rnd_Uniform seed (max_log + 1) of (b, seed) \<Rightarrow> rnd_Uniform seed (push_bit (unat b) 1))"

subsection \<open>Nodes\<close>

record 'k node =
  n_key :: 'k
  n_next :: "nat option list"

definition node_Next :: "'k node list \<Rightarrow> nat \<Rightarrow> nat \<Rightarrow> nat option option" where
  "node_Next nodes x n =
     (if x < length nodes \<and> n < length (n_next (nodes ! x)) then Some (n_next (nodes ! x) ! n) else None)"

definition node_SetNext :: "'k node list \<Rightarrow> nat \<Rightarrow> nat \<Rightarrow> nat option \<Rightarrow> 'k node list option" where
  "node_SetNext nodes x n y =
     (if x < length nodes \<and> n < length (n_next (nodes ! x))
      then Some (nodes[x := (nodes ! x)\<lparr>n_next := (n_next (nodes ! x))[n := y]\<rparr>]) else None)"

text \<open>A node at the end of the arena, its links not set.\<close>

definition NewNode :: "'k node list \<Rightarrow> 'k \<Rightarrow> nat \<Rightarrow> 'k node list" where
  "NewNode nodes key height = nodes @ [\<lparr>n_key = key, n_next = replicate height None\<rparr>]"

subsection \<open>The list\<close>

definition kMaxHeight :: nat where "kMaxHeight = 12"

record 'k skiplist =
  sl_compare :: "'k \<Rightarrow> 'k \<Rightarrow> int"
  sl_nodes :: "'k node list"
  sl_max_height :: nat
  sl_rnd :: u32

definition sl_head :: nat where "sl_head = 0"

definition new_SkipList :: "('k \<Rightarrow> 'k \<Rightarrow> int) \<Rightarrow> 'k \<Rightarrow> 'k skiplist" where
  "new_SkipList cmp any_key =
     \<lparr>sl_compare = cmp, sl_nodes = NewNode [] any_key kMaxHeight, sl_max_height = 1, sl_rnd = new_Random 0xdeadbeef\<rparr>"

definition sl_key :: "'k skiplist \<Rightarrow> nat \<Rightarrow> 'k" where
  "sl_key sl x = n_key (sl_nodes sl ! x)"

function random_height :: "u32 \<Rightarrow> nat \<Rightarrow> nat \<times> u32" where
  "random_height rnd height =
     (if height < kMaxHeight then
        (let rnd = rnd_Next rnd in if rnd mod 4 = 0 then random_height rnd (height + 1) else (height, rnd))
      else (height, rnd))"
  by pat_completeness auto
termination by (relation "measure (\<lambda>(rnd, height). kMaxHeight - height)") auto

declare random_height.simps [simp del]

definition RandomHeight :: "u32 \<Rightarrow> nat \<times> u32" where
  "RandomHeight rnd = random_height rnd 1"

definition KeyIsAfterNode :: "'k skiplist \<Rightarrow> 'k \<Rightarrow> nat option \<Rightarrow> bool" where
  "KeyIsAfterNode sl key n = (case n of None \<Rightarrow> False | Some x \<Rightarrow> sl_compare sl (sl_key sl x) key < 0)"

text \<open>The loop from node and level on; \<open>prev\<close> is null or the array to be filled.\<close>

partial_function (option) find_ge ::
  "'k skiplist \<Rightarrow> 'k \<Rightarrow> nat \<Rightarrow> nat \<Rightarrow> nat option list option \<Rightarrow> (nat option \<times> nat option list option) option" where
  "find_ge sl key x level prev =
     Option.bind (node_Next (sl_nodes sl) x level) (\<lambda>next.
       if KeyIsAfterNode sl key next then find_ge sl key (the next) level prev
       else
         let prev' = map_option (\<lambda>p. p[level := Some x]) prev
         in if level = 0 then Some (next, prev') else find_ge sl key x (level - 1) prev')"

definition FindGreaterOrEqual ::
  "'k skiplist \<Rightarrow> 'k \<Rightarrow> nat option list option \<Rightarrow> (nat option \<times> nat option list option) option" where
  "FindGreaterOrEqual sl key prev = find_ge sl key sl_head (sl_max_height sl - 1) prev"

partial_function (option) find_less :: "'k skiplist \<Rightarrow> 'k \<Rightarrow> nat \<Rightarrow> nat \<Rightarrow> nat option" where
  "find_less sl key x level =
     (if \<not> (x = sl_head \<or> sl_compare sl (sl_key sl x) key < 0) then None
      else Option.bind (node_Next (sl_nodes sl) x level) (\<lambda>next.
        if next = None \<or> sl_compare sl (sl_key sl (the next)) key \<ge> 0 then
          (if level = 0 then Some x else find_less sl key x (level - 1))
        else find_less sl key (the next) level))"

definition FindLessThan :: "'k skiplist \<Rightarrow> 'k \<Rightarrow> nat option" where
  "FindLessThan sl key = find_less sl key sl_head (sl_max_height sl - 1)"

partial_function (option) find_last :: "'k skiplist \<Rightarrow> nat \<Rightarrow> nat \<Rightarrow> nat option" where
  "find_last sl x level =
     Option.bind (node_Next (sl_nodes sl) x level) (\<lambda>next.
       if next = None then (if level = 0 then Some x else find_last sl x (level - 1))
       else find_last sl (the next) level)"

definition FindLast :: "'k skiplist \<Rightarrow> nat option" where
  "FindLast sl = find_last sl sl_head (sl_max_height sl - 1)"

text \<open>The loop that links the new node \<open>x\<close> into the levels from \<open>i\<close> on; None for a level that the
  array \<open>prev\<close> has no node for.\<close>

function link_levels :: "'k node list \<Rightarrow> nat \<Rightarrow> nat option list \<Rightarrow> nat \<Rightarrow> nat \<Rightarrow> 'k node list option" where
  "link_levels nodes x prev i height =
     (if i < height then
        (case prev ! i of
           None \<Rightarrow> None
         | Some p \<Rightarrow>
             Option.bind (node_Next nodes p i) (\<lambda>next.
               Option.bind (node_SetNext nodes x i next) (\<lambda>nodes.
                 Option.bind (node_SetNext nodes p i (Some x)) (\<lambda>nodes.
                   link_levels nodes x prev (i + 1) height))))
      else Some nodes)"
  by pat_completeness auto
termination by (relation "measure (\<lambda>(nodes, x, prev, i, height). height - i)") auto

declare link_levels.simps [simp del]

definition sl_Insert :: "'k skiplist \<Rightarrow> 'k \<Rightarrow> 'k skiplist option" where
  "sl_Insert sl key = do {
     (x, prev) \<leftarrow> FindGreaterOrEqual sl key (Some (replicate kMaxHeight None));
     if \<not> (case x of None \<Rightarrow> True | Some x \<Rightarrow> sl_compare sl key (sl_key sl x) \<noteq> 0) then None
     else
       let (height, rnd) = RandomHeight (sl_rnd sl);
           prev1 = (if height > sl_max_height sl
             then fold (\<lambda>i p. p[i := Some sl_head]) [sl_max_height sl ..< height] (the prev) else the prev);
           max_height = (if height > sl_max_height sl then height else sl_max_height sl);
           x = length (sl_nodes sl)
       in do {
         nodes \<leftarrow> link_levels (NewNode (sl_nodes sl) key height) x prev1 0 height;
         Some (sl\<lparr>sl_nodes := nodes, sl_max_height := max_height, sl_rnd := rnd\<rparr>)
       }
   }"

definition sl_Contains :: "'k skiplist \<Rightarrow> 'k \<Rightarrow> bool option" where
  "sl_Contains sl key = do {
     (x, prev) \<leftarrow> FindGreaterOrEqual sl key None;
     Some (case x of None \<Rightarrow> False | Some x \<Rightarrow> sl_compare sl key (sl_key sl x) = 0)
   }"

subsection \<open>\<open>Iterator\<close>\<close>

text \<open>The position is the member \<open>node_\<close>.\<close>

definition sl_Valid :: "nat option \<Rightarrow> bool" where
  "sl_Valid node \<longleftrightarrow> node \<noteq> None"

definition sl_iter_key :: "'k skiplist \<Rightarrow> nat option \<Rightarrow> 'k option" where
  "sl_iter_key sl node = map_option (sl_key sl) node"

definition sl_Next :: "'k skiplist \<Rightarrow> nat option \<Rightarrow> nat option option" where
  "sl_Next sl node = Option.bind node (\<lambda>x. node_Next (sl_nodes sl) x 0)"

definition sl_Prev :: "'k skiplist \<Rightarrow> nat option \<Rightarrow> nat option option" where
  "sl_Prev sl node = do {
     x \<leftarrow> node;
     y \<leftarrow> FindLessThan sl (sl_key sl x);
     Some (if y = sl_head then None else Some y)
   }"

definition sl_Seek :: "'k skiplist \<Rightarrow> 'k \<Rightarrow> nat option option" where
  "sl_Seek sl target = map_option fst (FindGreaterOrEqual sl target None)"

definition sl_SeekToFirst :: "'k skiplist \<Rightarrow> nat option option" where
  "sl_SeekToFirst sl = node_Next (sl_nodes sl) sl_head 0"

definition sl_SeekToLast :: "'k skiplist \<Rightarrow> nat option option" where
  "sl_SeekToLast sl = map_option (\<lambda>y. if y = sl_head then None else Some y) (FindLast sl)"

end
