(* ===== verification/LdbSkipListProps.thy ===== *)
theory LdbSkipListProps
  imports LdbSkipList LdbComparator
begin

section \<open>A skip list is a sorted list\<close>

text \<open>
  \<open>skip_inv\<close>: the nodes other than the head, in the order of their keys, are linked at each level
  to the next node that is high enough. A search goes down these chains and ends between the keys
  below the target and the others; an insertion links a node into them. Of the comparison only
  \<open>key_order\<close> is used, which the laws of a comparator imply.
\<close>

subsection \<open>The generator\<close>

lemma rnd_range:
  assumes "0 < unat seed" "unat seed < 2147483647"
  shows "unat (rnd_Next seed) = unat seed * 16807 mod 2147483647 \<and> 0 < unat (rnd_Next seed) \<and>
    unat (rnd_Next seed) < 2147483647"
proof -
  let ?p = "unat seed * 16807"
  have lt: "?p < 2147483647 * 16807" using assms(2) by simp
  have prod: "unat (ucast seed * 16807 :: u64) = ?p"
    using lt by (simp add: unat_word_ariths unat_ucast_mod)
  have "unat ((ucast seed * 16807 :: u64) AND ucast (2147483647 :: u32)) = ?p mod 2147483648"
    using unat_and_mask [of "ucast seed * 16807 :: u64" 31] prod by (simp add: mask_eq_exp_minus_1)
  moreover have "unat (drop_bit 31 (ucast seed * 16807 :: u64)) = ?p div 2147483648"
    using unat_drop_bit [of 31 "ucast seed * 16807 :: u64"] prod by simp
  moreover have small: "?p div 2147483648 \<le> 16807" using lt by simp
  ultimately have s: "unat (drop_bit 31 (ucast seed * 16807 :: u64) + ((ucast seed * 16807) AND ucast (2147483647 :: u32)))
      = ?p div 2147483648 + ?p mod 2147483648"
    by (simp add: unat_word_ariths)
  let ?s = "?p div 2147483648 + ?p mod 2147483648"
  have sl: "?s < 2147483648 + 16807" using small by (simp add: add_le_less_mono)
  have "?p = 2147483648 * (?p div 2147483648) + ?p mod 2147483648" by simp
  then have "?p = 2147483647 * (?p div 2147483648) + ?s" by linarith
  then have m: "?p mod 2147483647 = ?s mod 2147483647" by (metis mod_mult_self4)
  have nd: "\<not> (2147483647 :: nat) dvd ?p"
  proof
    assume d: "(2147483647 :: nat) dvd ?p"
    have "coprime (2147483647 :: nat) 16807" by (simp add: coprime_iff_gcd_eq_1 gcd_non_0_nat)
    then have "(2147483647 :: nat) dvd unat seed" using d coprime_dvd_mult_left_iff by blast
    then show False using assms by (auto dest: dvd_imp_le)
  qed
  have ne: "?s mod 2147483647 \<noteq> 0" using nd unfolding dvd_eq_mod_eq_0 m .
  define r where "r = (ucast (drop_bit 31 (ucast seed * 16807 :: u64) + ((ucast seed * 16807) AND ucast (2147483647 :: u32))) :: u32)"
  have r: "unat r = ?s" unfolding r_def using s sl by (simp add: unat_ucast_mod)
  have red: "q - 2147483647 = q mod 2147483647" if "q > 2147483647" "q < 2147483648 + 16807" for q :: nat
    using that by (simp add: le_mod_geq)
  have nx: "rnd_Next seed = (if r > 2147483647 then r - 2147483647 else r)"
    by (simp add: rnd_Next_def Let_def r_def)
  have "unat (rnd_Next seed) = ?s mod 2147483647"
  proof (cases "?s > 2147483647")
    case True
    then have "r > 2147483647" using r by (simp add: word_less_nat_alt)
    then have "unat (rnd_Next seed) = ?s - 2147483647" using r nx by (simp add: unat_sub word_le_nat_alt word_less_nat_alt)
    also have "\<dots> = ?s mod 2147483647" by (rule red [OF True sl])
    finally show ?thesis .
  next
    case False
    moreover have "?s \<noteq> 2147483647" using ne by auto
    ultimately show ?thesis using r nx by (simp add: word_less_nat_alt)
  qed
  then show ?thesis using ne m by simp
qed

subsection \<open>Order of keys\<close>

locale key_order =
  fixes cmp :: "'k \<Rightarrow> 'k \<Rightarrow> int" and valid :: "'k \<Rightarrow> bool"
  assumes key_swap: "valid a \<Longrightarrow> valid b \<Longrightarrow> cmp a b < 0 \<longleftrightarrow> cmp b a > 0"
    and key_trans: "valid a \<Longrightarrow> valid b \<Longrightarrow> valid d \<Longrightarrow> cmp a b < 0 \<Longrightarrow> cmp b d \<le> 0 \<Longrightarrow> cmp a d < 0"
    and key_trans': "valid a \<Longrightarrow> valid b \<Longrightarrow> valid d \<Longrightarrow> cmp a b \<le> 0 \<Longrightarrow> cmp b d < 0 \<Longrightarrow> cmp a d < 0"
begin

text \<open>A sorted list falls into the keys below a key and the others.\<close>

lemma sorted_split:
  assumes "sorted_wrt (\<lambda>a b. cmp a b < 0) ks" "\<forall>a \<in> set ks. valid a" "valid k"
  shows "\<forall>b \<in> set (dropWhile (\<lambda>a. cmp a k < 0) ks). \<not> cmp b k < 0"
  using assms
proof (induction ks)
  case (Cons a ks)
  show ?case
  proof (cases "cmp a k < 0")
    case True
    have "sorted_wrt (\<lambda>a b. cmp a b < 0) ks" "\<forall>a \<in> set ks. valid a" using Cons.prems by simp_all
    from Cons.IH [OF this Cons.prems(3)] show ?thesis by (simp only: dropWhile.simps True if_True)
  next
    case False
    have "\<not> cmp b k < 0" if b: "b \<in> set ks" for b
    proof
      assume "cmp b k < 0"
      moreover have "cmp a b < 0" using Cons.prems(1) b by simp
      ultimately have "cmp a k < 0" using key_trans [of a b k] Cons.prems(2,3) b by simp
      with False show False by simp
    qed
    with False show ?thesis by simp
  qed
qed simp

lemma sorted_insert:
  assumes "sorted_wrt (\<lambda>a b. cmp a b < 0) ks" "\<forall>a \<in> set ks. valid a" "valid k" "\<forall>a \<in> set ks. cmp k a \<noteq> 0"
  shows "sorted_wrt (\<lambda>a b. cmp a b < 0) (takeWhile (\<lambda>a. cmp a k < 0) ks @ k # dropWhile (\<lambda>a. cmp a k < 0) ks)"
proof -
  define A B where AB: "A = takeWhile (\<lambda>a. cmp a k < 0) ks" "B = dropWhile (\<lambda>a. cmp a k < 0) ks"
  then have ks: "ks = A @ B" by simp
  have A: "\<forall>a \<in> set A. cmp a k < 0" by (auto simp: AB dest: set_takeWhileD)
  have B: "\<forall>b \<in> set B. cmp k b < 0"
  proof
    fix b assume b: "b \<in> set B"
    then have in_ks: "b \<in> set ks" by (simp add: ks)
    have "\<not> cmp b k < 0" using sorted_split [OF assms(1-3), folded AB(2)] b by blast
    then have "\<not> cmp k b > 0" using key_swap [of b k] assms(2,3) in_ks by blast
    moreover have "cmp k b \<noteq> 0" using assms(4) in_ks by blast
    ultimately show "cmp k b < 0" by linarith
  qed
  show ?thesis unfolding AB [symmetric] using assms(1) A B by (simp add: ks sorted_wrt_append)
qed

end

sublocale comparator_laws \<subseteq> key_order "cmp_Compare c" valid
  by unfold_locales (use compare_swap compare_less_trans compare_trans_less in blast)+

context comparator_laws begin

lemma key_order_compare: "key_order (cmp_Compare c) valid"
  by unfold_locales

end

subsection \<open>Chains\<close>

definition first :: "'a list \<Rightarrow> 'a option" where
  "first xs = (case xs of [] \<Rightarrow> None | x # _ \<Rightarrow> Some x)"

lemma first_simps [simp]: "first [] = None" "first (x # xs) = Some x"
  by (simp_all add: first_def)

text \<open>\<open>xs\<close> are the nodes behind \<open>x\<close> when \<open>N\<close> leads from node to node.\<close>

fun chain :: "(nat \<Rightarrow> nat option option) \<Rightarrow> nat \<Rightarrow> nat list \<Rightarrow> bool" where
  "chain N x [] \<longleftrightarrow> N x = Some None"
| "chain N x (y # ys) \<longleftrightarrow> N x = Some (Some y) \<and> chain N y ys"

lemma chain_at: "chain N x0 xs \<Longrightarrow> x0 # xs = us @ x # vs \<Longrightarrow> N x = Some (first vs)"
proof (induction N x0 xs arbitrary: us rule: chain.induct)
  case (1 N x0)
  then show ?case by (cases us) auto
next
  case (2 N x0 y ys)
  show ?case
  proof (cases us)
    case Nil
    then show ?thesis using 2 by auto
  next
    case (Cons u us')
    then show ?thesis using 2 by simp
  qed
qed

lemma chain_cong: "(\<And>y. y \<in> set (x # xs) \<Longrightarrow> M y = N y) \<Longrightarrow> chain M x xs = chain N x xs"
  by (induction N x xs rule: chain.induct) auto

lemma chain_link:
  assumes "chain N x0 (P @ Q)" "distinct (x0 # P @ Q)" "k \<notin> set (x0 # P @ Q)"
    and "M k = N (last (x0 # P))" "M (last (x0 # P)) = Some (Some k)"
    and "\<And>y. y \<noteq> k \<Longrightarrow> y \<noteq> last (x0 # P) \<Longrightarrow> M y = N y"
  shows "chain M x0 (P @ k # Q)"
  using assms
proof (induction P arbitrary: x0)
  case Nil
  then show ?case
  proof (cases Q)
    case (Cons q Q')
    have "chain M q Q' = chain N q Q'"
    proof (rule chain_cong)
      fix y assume "y \<in> set (q # Q')"
      then have "y \<noteq> k" "y \<noteq> x0" using Nil.prems(2,3) Cons by auto
      then show "M y = N y" using Nil.prems(6) by simp
    qed
    with Nil Cons show ?thesis by simp
  qed simp
next
  case (Cons p P)
  have "x0 \<noteq> last (p # P)" using Cons.prems(2) by (metis Un_iff distinct.simps(2) last_in_set list.distinct(1) set_append append_Cons)
  then have "M x0 = N x0" using Cons.prems(3,6) by auto
  moreover have "chain M p (P @ k # Q)"
    using Cons.prems by (intro Cons.IH) (auto split: if_splits)
  ultimately show ?case using Cons.prems(1) by simp
qed

subsection \<open>The invariant\<close>

definition hgt :: "'k skiplist \<Rightarrow> nat \<Rightarrow> nat" where
  "hgt sl x = length (n_next (sl_nodes sl ! x))"

definition at_level :: "'k skiplist \<Rightarrow> nat \<Rightarrow> nat list \<Rightarrow> nat list" where
  "at_level sl i L = filter (\<lambda>x. i < hgt sl x) L"

definition level_next :: "'k skiplist \<Rightarrow> nat \<Rightarrow> nat \<Rightarrow> nat option option" where
  "level_next sl i = (\<lambda>x. node_Next (sl_nodes sl) x i)"

definition skip_inv :: "'k skiplist \<Rightarrow> nat list \<Rightarrow> bool" where
  "skip_inv sl L \<longleftrightarrow> distinct (0 # L) \<and> set (0 # L) = {..<length (sl_nodes sl)} \<and>
     sorted_wrt (\<lambda>x y. sl_compare sl (sl_key sl x) (sl_key sl y) < 0) L \<and> hgt sl 0 = kMaxHeight \<and>
     (\<forall>x \<in> set L. 1 \<le> hgt sl x \<and> hgt sl x \<le> sl_max_height sl) \<and> 1 \<le> sl_max_height sl \<and>
     sl_max_height sl \<le> kMaxHeight \<and> (\<forall>i < kMaxHeight. chain (level_next sl i) 0 (at_level sl i L))"

lemma at_level_append [simp]: "at_level sl i (A @ B) = at_level sl i A @ at_level sl i B" "at_level sl i [] = []"
  "at_level sl i (x # A) = (if i < hgt sl x then x # at_level sl i A else at_level sl i A)"
  by (simp_all add: at_level_def)

lemma at_level_set [simp]: "set (at_level sl i A) = {x \<in> set A. i < hgt sl x}"
  by (auto simp: at_level_def)

lemma at_level_0: "skip_inv sl L \<Longrightarrow> set A \<subseteq> set L \<Longrightarrow> at_level sl 0 A = A"
  by (fastforce simp: at_level_def skip_inv_def filter_id_conv)

text \<open>The last node of a level in front of the target.\<close>

definition pred_at :: "'k skiplist \<Rightarrow> nat list \<Rightarrow> nat \<Rightarrow> nat" where
  "pred_at sl A i = last (0 # at_level sl i A)"

lemma next_at:
  assumes "skip_inv sl (A @ B)" "i < kMaxHeight" "0 # at_level sl i A = us @ x # vs"
  shows "node_Next (sl_nodes sl) x i = Some (first (vs @ at_level sl i B))"
proof -
  have "chain (level_next sl i) 0 (at_level sl i (A @ B))" using assms(1,2) by (simp add: skip_inv_def)
  moreover have "0 # at_level sl i (A @ B) = us @ x # (vs @ at_level sl i B)" using assms(3) by simp
  ultimately show ?thesis using chain_at unfolding level_next_def by blast
qed

lemma down_split:
  assumes "skip_inv sl (A @ B)" "Suc i < kMaxHeight" "0 # at_level sl (Suc i) A = us @ [x]"
  obtains us' vs' where "0 # at_level sl i A = us' @ x # vs'"
proof -
  have "x \<in> set (0 # at_level sl (Suc i) A)" using assms(3) by simp
  then have "x \<in> set (0 # at_level sl i A)" by auto
  then show thesis using that by (metis split_list)
qed

subsection \<open>Searching\<close>

fun fill :: "(nat \<Rightarrow> nat) \<Rightarrow> nat \<Rightarrow> nat option list \<Rightarrow> nat option list" where
  "fill f 0 p = p[0 := Some (f 0)]"
| "fill f (Suc n) p = fill f n (p[Suc n := Some (f (Suc n))])"

lemma nth_fill: "n < length p \<Longrightarrow> length (fill f n p) = length p \<and>
    (\<forall>i < length p. fill f n p ! i = (if i \<le> n then Some (f i) else p ! i))"
  by (induction f n p rule: fill.induct) (auto simp: nth_list_update le_Suc_eq)

lemma not_after:
  assumes "\<forall>b \<in> set B. \<not> sl_compare sl (sl_key sl b) key < 0"
  shows "\<not> KeyIsAfterNode sl key (first (at_level sl i B))"
proof (cases "at_level sl i B")
  case (Cons b bs)
  then have "b \<in> set (at_level sl i B)" by (simp del: at_level_set)
  then have "b \<in> set B" by simp
  then show ?thesis using assms Cons by (simp add: KeyIsAfterNode_def)
qed (simp add: KeyIsAfterNode_def)

lemma find_ge_correct:
  assumes inv: "skip_inv sl (A @ B)" and A: "\<forall>a \<in> set A. sl_compare sl (sl_key sl a) key < 0"
    and B: "\<forall>b \<in> set B. \<not> sl_compare sl (sl_key sl b) key < 0"
  shows "level < kMaxHeight \<Longrightarrow> 0 # at_level sl level A = us @ x # vs \<Longrightarrow>
    find_ge sl key x level prev = Some (first (at_level sl 0 B), map_option (fill (pred_at sl A) level) prev)"
proof (induction level arbitrary: us x vs prev)
  case 0
  then show ?case
  proof (induction vs arbitrary: us x)
    case Nil
    have "pred_at sl A 0 = x" using Nil(2) by (simp add: pred_at_def)
    moreover have "\<not> KeyIsAfterNode sl key (first (at_level sl 0 B))"
      using not_after [OF B] .
    ultimately show ?case using next_at [OF inv Nil] by (subst find_ge.simps) (cases prev; simp)
  next
    case (Cons y vs)
    have "y \<in> set (0 # at_level sl 0 A)" "y \<in> set (tl (0 # at_level sl 0 A))"
      using Cons.prems(2) by (cases us; simp)+
    then have "KeyIsAfterNode sl key (Some y)" using A by (simp add: KeyIsAfterNode_def)
    with Cons.IH [of "us @ [x]" y] Cons.prems next_at [OF inv Cons.prems] show ?case
      by (subst find_ge.simps) (cases prev; simp)
  qed
next
  case (Suc level)
  note outer = Suc.IH
  from Suc.prems show ?case
  proof (induction vs arbitrary: us x)
    case Nil
    have "pred_at sl A (Suc level) = x" using Nil(2) by (simp add: pred_at_def)
    moreover have "\<not> KeyIsAfterNode sl key (first (at_level sl (Suc level) B))"
      using not_after [OF B] .
    moreover obtain us' vs' where "0 # at_level sl level A = us' @ x # vs'" using down_split [OF inv Nil] .
    ultimately show ?case
      using next_at [OF inv Nil] outer [of us' x vs'] Nil(1)
      by (subst find_ge.simps) (cases prev; simp add: comp_def)
  next
    case (Cons y vs)
    have "y \<in> set (tl (0 # at_level sl (Suc level) A))"
      using Cons.prems(2) by (cases us) simp_all
    then have "KeyIsAfterNode sl key (Some y)" using A by (simp add: KeyIsAfterNode_def)
    with Cons.IH [of "us @ [x]" y] Cons.prems next_at [OF inv Cons.prems] show ?case
      by (subst find_ge.simps) (cases prev; simp add: comp_def)
  qed
qed

lemma first_level_B:
  assumes "\<forall>b \<in> set B. \<not> sl_compare sl (sl_key sl b) key < 0"
  shows "first (at_level sl i B) = None \<or> sl_compare sl (sl_key sl (the (first (at_level sl i B)))) key \<ge> 0"
  using not_after [OF assms, of i] by (cases "first (at_level sl i B)") (auto simp: KeyIsAfterNode_def)

lemma find_less_correct:
  assumes inv: "skip_inv sl (A @ B)" and A: "\<forall>a \<in> set A. sl_compare sl (sl_key sl a) key < 0"
    and B: "\<forall>b \<in> set B. \<not> sl_compare sl (sl_key sl b) key < 0"
  shows "level < kMaxHeight \<Longrightarrow> 0 # at_level sl level A = us @ x # vs \<Longrightarrow>
    find_less sl key x level = Some (pred_at sl A 0)"
proof (induction level arbitrary: us x vs)
  case 0
  then show ?case
  proof (induction vs arbitrary: us x)
    case Nil
    have "x \<in> set (0 # at_level sl 0 A)" using Nil(2) by simp
    then have x: "x = sl_head \<or> sl_compare sl (sl_key sl x) key < 0" using A by (auto simp: sl_head_def)
    have "pred_at sl A 0 = x" using Nil(2) by (simp add: pred_at_def)
    then show ?case using next_at [OF inv Nil] x first_level_B [OF B, of 0] by (subst find_less.simps) auto
  next
    case (Cons y vs)
    have "x \<in> set (0 # at_level sl 0 A)" using Cons.prems(2) by simp
    then have x: "x = sl_head \<or> sl_compare sl (sl_key sl x) key < 0" using A by (auto simp: sl_head_def)
    have "y \<in> set (tl (0 # at_level sl 0 A))" using Cons.prems(2) by (cases us; simp)
    then have "\<not> sl_compare sl (sl_key sl y) key \<ge> 0" using A by auto
    with Cons.IH [of "us @ [x]" y] Cons.prems next_at [OF inv Cons.prems] x show ?case
      by (subst find_less.simps) simp
  qed
next
  case (Suc level)
  note outer = Suc.IH
  from Suc.prems show ?case
  proof (induction vs arbitrary: us x)
    case Nil
    have "x \<in> set (0 # at_level sl (Suc level) A)" using Nil(2) by simp
    then have x: "x = sl_head \<or> sl_compare sl (sl_key sl x) key < 0" using A by (auto simp: sl_head_def)
    obtain us' vs' where "0 # at_level sl level A = us' @ x # vs'" using down_split [OF inv Nil] .
    then show ?case
      using next_at [OF inv Nil] outer [of us' x vs'] Nil(1) x first_level_B [OF B, of "Suc level"]
      by (subst find_less.simps) auto
  next
    case (Cons y vs)
    have "x \<in> set (0 # at_level sl (Suc level) A)" using Cons.prems(2) by simp
    then have x: "x = sl_head \<or> sl_compare sl (sl_key sl x) key < 0" using A by (auto simp: sl_head_def)
    have "y \<in> set (tl (0 # at_level sl (Suc level) A))" using Cons.prems(2) by (cases us; simp)
    then have "\<not> sl_compare sl (sl_key sl y) key \<ge> 0" using A by auto
    with Cons.IH [of "us @ [x]" y] Cons.prems next_at [OF inv Cons.prems] x show ?case
      by (subst find_less.simps) simp
  qed
qed

lemma find_last_correct:
  assumes inv: "skip_inv sl A"
  shows "level < kMaxHeight \<Longrightarrow> 0 # at_level sl level A = us @ x # vs \<Longrightarrow>
    find_last sl x level = Some (pred_at sl A 0)"
proof (induction level arbitrary: us x vs)
  case 0
  then show ?case
  proof (induction vs arbitrary: us x)
    case Nil
    have "pred_at sl A 0 = x" using Nil(2) by (simp add: pred_at_def)
    then show ?case using next_at [of sl A "[]", OF _ Nil] inv by (subst find_last.simps) simp
  next
    case (Cons y vs)
    with Cons.IH [of "us @ [x]" y] next_at [of sl A "[]", OF _ Cons.prems] inv show ?case
      by (subst find_last.simps) simp
  qed
next
  case (Suc level)
  note outer = Suc.IH
  from Suc.prems show ?case
  proof (induction vs arbitrary: us x)
    case Nil
    obtain us' vs' where "0 # at_level sl level A = us' @ x # vs'"
      using down_split [of sl A "[]", OF _ Nil] inv by auto
    then show ?case
      using next_at [of sl A "[]", OF _ Nil] inv outer [of us' x vs'] Nil(1) by (subst find_last.simps) simp
  next
    case (Cons y vs)
    with Cons.IH [of "us @ [x]" y] next_at [of sl A "[]", OF _ Cons.prems] inv show ?case
      by (subst find_last.simps) simp
  qed
qed

lemma searches:
  assumes inv: "skip_inv sl (A @ B)" and A: "\<forall>a \<in> set A. sl_compare sl (sl_key sl a) key < 0"
    and B: "\<forall>b \<in> set B. \<not> sl_compare sl (sl_key sl b) key < 0"
  shows "FindGreaterOrEqual sl key prev = Some (first B, map_option (fill (pred_at sl A) (sl_max_height sl - 1)) prev)"
    and "FindLessThan sl key = Some (last (0 # A))"
proof -
  have l: "sl_max_height sl - 1 < kMaxHeight" using inv by (auto simp: skip_inv_def kMaxHeight_def)
  have h: "0 # at_level sl (sl_max_height sl - 1) A = [] @ sl_head # at_level sl (sl_max_height sl - 1) A"
    by (simp add: sl_head_def)
  have "at_level sl 0 B = B" "at_level sl 0 A = A" using at_level_0 [OF inv] by simp_all
  then show "FindGreaterOrEqual sl key prev = Some (first B, map_option (fill (pred_at sl A) (sl_max_height sl - 1)) prev)"
    "FindLessThan sl key = Some (last (0 # A))"
    using find_ge_correct [OF inv A B l h] find_less_correct [OF inv A B l h]
    by (simp_all add: FindGreaterOrEqual_def FindLessThan_def pred_at_def)
qed

lemma find_last_end:
  assumes inv: "skip_inv sl L"
  shows "FindLast sl = Some (last (0 # L))"
proof -
  have l: "sl_max_height sl - 1 < kMaxHeight" using inv by (auto simp: skip_inv_def kMaxHeight_def)
  have h: "0 # at_level sl (sl_max_height sl - 1) L = [] @ sl_head # at_level sl (sl_max_height sl - 1) L"
    by (simp add: sl_head_def)
  show ?thesis using find_last_correct [OF inv l h] at_level_0 [OF inv order_refl]
    by (simp add: FindLast_def pred_at_def)
qed

subsection \<open>Insertion\<close>

lemma random_height_range: "1 \<le> h \<Longrightarrow> h \<le> kMaxHeight \<Longrightarrow>
    1 \<le> fst (random_height r h) \<and> fst (random_height r h) \<le> kMaxHeight"
proof (induction r h rule: random_height.induct)
  case (1 r h)
  then show ?case by (simp add: random_height.simps [of r h] Let_def)
qed

text \<open>Links and shape of an array of nodes.\<close>

definition shape :: "'k node list \<Rightarrow> ('k \<times> nat) list" where
  "shape nodes = map (\<lambda>n. (n_key n, length (n_next n))) nodes"

lemma SetNext_ok:
  assumes "x < length nodes" "i < length (n_next (nodes ! x))"
  shows "\<exists>nodes'. node_SetNext nodes x i v = Some nodes' \<and> shape nodes' = shape nodes \<and>
    (\<forall>y j. node_Next nodes' y j = (if y = x \<and> j = i then Some v else node_Next nodes y j))"
proof -
  let ?n = "nodes[x := (nodes ! x)\<lparr>n_next := (n_next (nodes ! x))[i := v]\<rparr>]"
  have "shape ?n = shape nodes"
    using assms by (intro nth_equalityI) (auto simp: shape_def nth_list_update)
  then show ?thesis using assms by (auto simp: node_SetNext_def node_Next_def nth_list_update)
qed

lemma shape_nth:
  assumes "shape nodes' = shape nodes"
  shows "length nodes' = length nodes" "y < length nodes \<Longrightarrow> n_key (nodes' ! y) = n_key (nodes ! y)"
    "y < length nodes \<Longrightarrow> length (n_next (nodes' ! y)) = length (n_next (nodes ! y))"
proof -
  show l: "length nodes' = length nodes" using arg_cong [OF assms, of length] by (simp add: shape_def)
  assume y: "y < length nodes"
  have "shape nodes' ! y = shape nodes ! y" using assms by simp
  then show "n_key (nodes' ! y) = n_key (nodes ! y)" "length (n_next (nodes' ! y)) = length (n_next (nodes ! y))"
    using y l by (simp_all add: shape_def)
qed

lemma link_levels_ok:
  assumes "x < length nodes" "length (n_next (nodes ! x)) = h"
    and "\<forall>i < h. prev ! i = Some (f i) \<and> f i < length nodes \<and> i < length (n_next (nodes ! f i)) \<and> f i \<noteq> x"
  shows "\<exists>nodes'. link_levels nodes x prev i h = Some nodes' \<and> shape nodes' = shape nodes \<and>
    (\<forall>y j. node_Next nodes' y j =
      (if i \<le> j \<and> j < h then (if y = x then node_Next nodes (f j) j else if y = f j then Some (Some x) else node_Next nodes y j)
       else node_Next nodes y j))"
  using assms
proof (induction "h - i" arbitrary: nodes i)
  case 0
  then have "h \<le> i" by simp
  then show ?case by (auto simp: link_levels.simps)
next
  case (Suc k)
  then have i: "i < h" by simp
  have fi: "prev ! i = Some (f i)" "f i < length nodes" "i < length (n_next (nodes ! f i))" "f i \<noteq> x"
    using Suc.prems(3) i by simp_all
  obtain nxt where nxt: "node_Next nodes (f i) i = Some nxt" using fi by (simp add: node_Next_def)
  obtain n1 where n1: "node_SetNext nodes x i nxt = Some n1" "shape n1 = shape nodes"
    "\<forall>y j. node_Next n1 y j = (if y = x \<and> j = i then Some nxt else node_Next nodes y j)"
    using SetNext_ok [of x nodes i nxt] Suc.prems i by auto
  note s1 = shape_nth [OF n1(2)]
  obtain n2 where n2: "node_SetNext n1 (f i) i (Some x) = Some n2" "shape n2 = shape n1"
    "\<forall>y j. node_Next n2 y j = (if y = f i \<and> j = i then Some (Some x) else node_Next n1 y j)"
    using SetNext_ok [of "f i" n1 i "Some x"] fi s1 by auto
  note s2 = shape_nth [OF n2(2)]
  have "k = h - Suc i" using Suc.hyps(2) by simp
  moreover have "x < length n2" "length (n_next (n2 ! x)) = h" using Suc.prems s1 s2 by simp_all
  moreover have "\<forall>i < h. prev ! i = Some (f i) \<and> f i < length n2 \<and> i < length (n_next (n2 ! f i)) \<and> f i \<noteq> x"
    using Suc.prems(3) s1 s2 by simp
  ultimately obtain n3 where n3: "link_levels n2 x prev (Suc i) h = Some n3" "shape n3 = shape n2"
    "\<forall>y j. node_Next n3 y j = (if Suc i \<le> j \<and> j < h
       then (if y = x then node_Next n2 (f j) j else if y = f j then Some (Some x) else node_Next n2 y j)
       else node_Next n2 y j)"
    using Suc.hyps(1) by blast
  have "link_levels nodes x prev i h = Some n3"
    using i fi nxt n1(1) n2(1) n3(1) by (simp add: link_levels.simps [of nodes x prev i])
  moreover have "node_Next n3 y j = (if i \<le> j \<and> j < h
      then (if y = x then node_Next nodes (f j) j else if y = f j then Some (Some x) else node_Next nodes y j)
      else node_Next nodes y j)" for y j
    using n3(3) n2(3) n1(3) nxt fi(4) i by (cases "j = i") auto
  ultimately show ?case using n1(2) n2(2) n3(2) by auto
qed

lemma hgt_last: "skip_inv sl (A @ B) \<Longrightarrow> i < kMaxHeight \<Longrightarrow> i < hgt sl (pred_at sl A i) \<and> pred_at sl A i \<in> set (0 # A)"
proof -
  assume inv: "skip_inv sl (A @ B)" and i: "i < kMaxHeight"
  have "pred_at sl A i \<in> set (0 # at_level sl i A)" unfolding pred_at_def by (rule last_in_set) simp
  then show ?thesis using inv i by (auto simp: skip_inv_def)
qed

lemma prev_array:
  assumes inv: "skip_inv sl (A @ B)" and h: "h \<le> kMaxHeight"
    and p: "p = fill (pred_at sl A) (sl_max_height sl - 1) (replicate kMaxHeight None)"
  shows "\<forall>i < h. (if h > sl_max_height sl then fold (\<lambda>i p. p[i := Some sl_head]) [sl_max_height sl ..< h] p else p) ! i =
    Some (pred_at sl A i)"
proof -
  have m: "1 \<le> sl_max_height sl" "sl_max_height sl \<le> kMaxHeight" using inv by (simp_all add: skip_inv_def)
  have top: "pred_at sl A i = sl_head" if "sl_max_height sl \<le> i" for i
  proof -
    have "\<forall>a \<in> set A. hgt sl a \<le> sl_max_height sl" using inv by (simp add: skip_inv_def)
    then have "\<forall>a \<in> set A. \<not> i < hgt sl a" using that by force
    then have "at_level sl i A = []" by (auto simp: at_level_def filter_empty_conv)
    then show ?thesis by (simp add: pred_at_def sl_head_def)
  qed
  have nf: "length p = kMaxHeight" "\<forall>i < sl_max_height sl. p ! i = Some (pred_at sl A i)"
    using nth_fill [of "sl_max_height sl - 1" "replicate kMaxHeight None" "pred_at sl A"] m by (auto simp: p)
  have heads: "length q = kMaxHeight \<Longrightarrow> length (fold (\<lambda>i p. p[i := Some sl_head]) is q) = kMaxHeight \<and>
      (\<forall>i < kMaxHeight. fold (\<lambda>i p. p[i := Some sl_head]) is q ! i = (if i \<in> set is then Some sl_head else q ! i))"
    for "is" and q :: "nat option list"
    by (induction "is" arbitrary: q) (auto simp: nth_list_update)
  show ?thesis using nf heads [OF nf(1), of "[sl_max_height sl ..< h]"] h top by (auto simp: not_less)
qed

lemma insert_inv:
  assumes inv: "skip_inv sl (A @ B)" and A: "\<forall>a \<in> set A. sl_compare sl (sl_key sl a) key < 0"
    and B: "\<forall>b \<in> set B. sl_compare sl key (sl_key sl b) < 0"
    and B': "\<forall>b \<in> set B. \<not> sl_compare sl (sl_key sl b) key < 0"
  shows "\<exists>sl' k. sl_Insert sl key = Some sl' \<and> skip_inv sl' (A @ k # B) \<and> sl_key sl' k = key \<and> k = length (sl_nodes sl) \<and>
    sl_compare sl' = sl_compare sl \<and> (\<forall>x \<in> set (A @ B). sl_key sl' x = sl_key sl x)"
proof -
  let ?k = "length (sl_nodes sl)" and ?f = "pred_at sl A"
  obtain h rnd where hr: "RandomHeight (sl_rnd sl) = (h, rnd)" by (cases "RandomHeight (sl_rnd sl)")
  then have h: "1 \<le> h" "h \<le> kMaxHeight"
    using random_height_range [of 1 "sl_rnd sl"] by (simp_all add: RandomHeight_def kMaxHeight_def)
  let ?p = "fill ?f (sl_max_height sl - 1) (replicate kMaxHeight None)"
  define prev where "prev = (if h > sl_max_height sl then fold (\<lambda>i p. p[i := Some sl_head]) [sl_max_height sl ..< h] ?p else ?p)"
  have prev: "\<forall>i < h. prev ! i = Some (?f i)"
    using prev_array [OF inv h(2) refl] by (simp add: prev_def)
  let ?n = "NewNode (sl_nodes sl) key h"
  have nodes: "set (0 # A @ B) = {..<?k}" "distinct (0 # A @ B)" using inv by (auto simp: skip_inv_def)
  have lt: "x < ?k" if "x \<in> set (0 # A @ B)" for x using nodes(1) that by blast
  have old: "?n ! x = sl_nodes sl ! x" if "x < ?k" for x using that by (simp add: NewNode_def nth_append)
  have new: "?n ! ?k = \<lparr>n_key = key, n_next = replicate h None\<rparr>" by (simp add: NewNode_def)
  have f: "?f i < ?k \<and> i < length (n_next (sl_nodes sl ! ?f i))" if "i < h" for i
  proof -
    have "i < kMaxHeight" using that h by simp
    from hgt_last [OF inv this] have "?f i \<in> set (0 # A @ B)" "i < hgt sl (?f i)" by auto
    with lt show ?thesis by (auto simp: hgt_def)
  qed
  have "\<forall>i < h. prev ! i = Some (?f i) \<and> ?f i < length ?n \<and> i < length (n_next (?n ! ?f i)) \<and> ?f i \<noteq> ?k"
  proof (intro allI impI)
    fix i assume i: "i < h"
    with f [OF i] prev old [of "?f i"] show "prev ! i = Some (?f i) \<and> ?f i < length ?n \<and>
        i < length (n_next (?n ! ?f i)) \<and> ?f i \<noteq> ?k"
      by (simp add: NewNode_def)
  qed
  from link_levels_ok [OF _ _ this, where i = 0] new obtain nodes' where link: "link_levels ?n ?k prev 0 h = Some nodes'"
    "shape nodes' = shape ?n"
    "\<forall>y j. node_Next nodes' y j = (if j < h then (if y = ?k then node_Next ?n (?f j) j
       else if y = ?f j then Some (Some ?k) else node_Next ?n y j) else node_Next ?n y j)"
    by (auto simp: NewNode_def)
  note sh = shape_nth [OF link(2)]
  define mh where "mh = (if h > sl_max_height sl then h else sl_max_height sl)"
  define SL where SL: "SL = sl\<lparr>sl_nodes := nodes', sl_max_height := mh, sl_rnd := rnd\<rparr>"
  have sel [simp]: "sl_nodes SL = nodes'" "sl_max_height SL = mh" "sl_compare SL = sl_compare sl"
    by (simp_all add: SL)
  have ne: "case first B of None \<Rightarrow> True | Some x \<Rightarrow> sl_compare sl key (sl_key sl x) \<noteq> 0"
    using B by (cases B) auto
  have ins: "sl_Insert sl key = Some SL"
    using searches(1) [OF inv A B', of "Some (replicate kMaxHeight None)"] ne hr link(1)
    by (cases "sl_max_height sl < h") (simp_all add: sl_Insert_def prev_def Let_def SL mh_def)
  have keys: "sl_key SL x = sl_key sl x" "hgt SL x = hgt sl x" if "x \<in> set (0 # A @ B)" for x
    using sh(2,3) [of x] lt [OF that] old by (simp_all add: sl_key_def hgt_def NewNode_def)
  have kk: "sl_key SL ?k = key" "hgt SL ?k = h"
    using sh(2,3) [of ?k] new by (simp_all add: sl_key_def hgt_def NewNode_def)
  have lev: "at_level SL i xs = at_level sl i xs" if "set xs \<subseteq> set (0 # A @ B)" for i xs
    using that keys(2) unfolding at_level_def by (intro filter_cong) auto
  have levAB: "at_level SL i A = at_level sl i A" "at_level SL i B = at_level sl i B" for i
    by (intro lev; auto)+
  have chains: "chain (level_next SL i) 0 (at_level SL i (A @ ?k # B))" if i: "i < kMaxHeight" for i
  proof -
    have old_chain: "chain (level_next sl i) 0 (at_level sl i (A @ B))" using inv i by (simp add: skip_inv_def)
    have nn: "node_Next ?n y i = level_next sl i y" if "y < ?k" for y
      using that old by (simp add: node_Next_def level_next_def NewNode_def)
    have in_k: "y < ?k" if "y \<in> set (0 # at_level sl i (A @ B))" for y using that by (intro lt) auto
    show ?thesis
    proof (cases "i < h")
      case False
      have "chain (level_next SL i) 0 (at_level sl i (A @ B)) = chain (level_next sl i) 0 (at_level sl i (A @ B))"
        using False nn in_k by (intro chain_cong) (simp add: level_next_def link(3))
      then show ?thesis using old_chain False kk levAB by simp
    next
      case True
      have fi: "?f i < ?k" "?f i = last (0 # at_level sl i A)" using f [OF True] by (simp_all add: pred_at_def)
      have "chain (level_next SL i) 0 (at_level sl i A @ ?k # at_level sl i B)"
      proof (rule chain_link)
        show "chain (\<lambda>y. node_Next ?n y i) 0 (at_level sl i A @ at_level sl i B)"
          using old_chain nn in_k by (subst chain_cong [of _ _ _ "level_next sl i"]) auto
        show "distinct (0 # at_level sl i A @ at_level sl i B)"
          using nodes(2) by (auto simp: at_level_def)
        show "?k \<notin> set (0 # at_level sl i A @ at_level sl i B)" using in_k by force
      qed (use True fi link(3) in \<open>auto simp: level_next_def\<close>)
      then show ?thesis using True kk levAB by simp
    qed
  qed
  have "skip_inv SL (A @ ?k # B)"
    unfolding skip_inv_def
  proof (intro conjI)
    have "?k \<notin> set (0 # A @ B)" using lt by blast
    then show "distinct (0 # A @ ?k # B)" using nodes(2) by auto
    show "set (0 # A @ ?k # B) = {..<length (sl_nodes SL)}"
    proof -
      have "set (0 # A @ ?k # B) = insert ?k (set (0 # A @ B))" by auto
      also have "\<dots> = {..<Suc ?k}" unfolding nodes(1) by (simp add: lessThan_Suc)
      also have "Suc ?k = length nodes'" using sh(1) by (simp add: NewNode_def)
      finally show ?thesis by (simp only: sel)
    qed
    show "sorted_wrt (\<lambda>x y. sl_compare SL (sl_key SL x) (sl_key SL y) < 0) (A @ ?k # B)"
    proof -
      have "sorted_wrt (\<lambda>x y. sl_compare sl (sl_key sl x) (sl_key sl y) < 0) (A @ B)" using inv unfolding skip_inv_def by blast
      then have "sorted_wrt (\<lambda>x y. sl_compare SL (sl_key SL x) (sl_key SL y) < 0) (A @ B)"
        by (rule sorted_wrt_mono_rel [rotated]) (simp add: keys(1))
      moreover have "\<forall>a \<in> set A. sl_compare SL (sl_key SL a) (sl_key SL ?k) < 0"
        "\<forall>b \<in> set B. sl_compare SL (sl_key SL ?k) (sl_key SL b) < 0"
        unfolding sel kk(1) using A B keys(1) by (metis UnCI list.set_intros(2) set_append)+
      ultimately show ?thesis by (simp add: sorted_wrt_append)
    qed
    show "hgt SL 0 = kMaxHeight" using keys(2) [of 0] inv by (simp add: skip_inv_def)
    show "\<forall>x \<in> set (A @ ?k # B). 1 \<le> hgt SL x \<and> hgt SL x \<le> sl_max_height SL"
    proof
      have mh: "sl_max_height sl \<le> mh" "h \<le> mh" by (simp_all add: mh_def)
      have "\<forall>x \<in> set (A @ B). 1 \<le> hgt sl x \<and> hgt sl x \<le> sl_max_height sl" using inv by (simp add: skip_inv_def)
      then have "1 \<le> hgt SL x \<and> hgt SL x \<le> mh" if "x \<in> set (A @ B)" for x
        using keys(2) [of x] that mh(1) by fastforce
      moreover fix x assume "x \<in> set (A @ ?k # B)"
      ultimately show "1 \<le> hgt SL x \<and> hgt SL x \<le> sl_max_height SL" using kk(2) h mh(2) by auto
    qed
    show "1 \<le> sl_max_height SL" "sl_max_height SL \<le> kMaxHeight" using inv h by (simp_all add: skip_inv_def mh_def)
    show "\<forall>i < kMaxHeight. chain (level_next SL i) 0 (at_level SL i (A @ ?k # B))" using chains by blast
  qed
  then show ?thesis using ins kk keys by (intro exI [of _ SL] exI [of _ ?k]) auto
qed

lemma new_inv: "skip_inv (new_SkipList cmp any_key) []"
proof -
  have n: "sl_nodes (new_SkipList cmp any_key) = [\<lparr>n_key = any_key, n_next = replicate kMaxHeight None\<rparr>]"
    by (simp add: new_SkipList_def NewNode_def)
  have "level_next (new_SkipList cmp any_key) i 0 = Some None" if "i < kMaxHeight" for i
    using that by (simp add: level_next_def node_Next_def n)
  moreover have "sl_max_height (new_SkipList cmp any_key) = 1" by (simp add: new_SkipList_def)
  moreover have "hgt (new_SkipList cmp any_key) 0 = kMaxHeight" by (simp add: hgt_def n)
  ultimately show ?thesis by (simp add: skip_inv_def n kMaxHeight_def lessThan_Suc)
qed

subsection \<open>The sorted list\<close>

datatype 'k skip_op = Insert 'k | Contains 'k | SkSeek 'k | SkFirst | SkLast | SkNext | SkPrev

fun op_keys :: "'k skip_op \<Rightarrow> 'k list" where
  "op_keys (Insert k) = [k]" | "op_keys (Contains k) = [k]" | "op_keys (SkSeek k) = [k]" | "op_keys _ = []"

text \<open>The keys in order and the key the iterator is on; after a step, also what \<open>Contains\<close> says.\<close>

fun sorted_step :: "('k \<Rightarrow> 'k \<Rightarrow> int) \<Rightarrow> 'k skip_op \<Rightarrow> 'k list \<times> 'k option \<Rightarrow>
    (('k list \<times> 'k option) \<times> bool option) option" where
  "sorted_step cmp (Insert k) (ks, cur) =
     (if \<exists>a \<in> set ks. cmp k a = 0 then None
      else Some ((takeWhile (\<lambda>a. cmp a k < 0) ks @ k # dropWhile (\<lambda>a. cmp a k < 0) ks, cur), None))"
| "sorted_step cmp (Contains k) (ks, cur) = Some ((ks, cur), Some (\<exists>a \<in> set ks. cmp k a = 0))"
| "sorted_step cmp (SkSeek k) (ks, cur) = Some ((ks, first (dropWhile (\<lambda>a. cmp a k < 0) ks)), None)"
| "sorted_step cmp SkFirst (ks, cur) = Some ((ks, first ks), None)"
| "sorted_step cmp SkLast (ks, cur) = Some ((ks, first (rev ks)), None)"
| "sorted_step cmp SkNext (ks, cur) =
     (case cur of None \<Rightarrow> None
      | Some c \<Rightarrow> Some ((ks, first (tl (dropWhile (\<lambda>a. cmp a c < 0) ks))), None))"
| "sorted_step cmp SkPrev (ks, cur) =
     (case cur of None \<Rightarrow> None
      | Some c \<Rightarrow> Some ((ks, first (rev (takeWhile (\<lambda>a. cmp a c < 0) ks))), None))"

fun run_sorted :: "('k \<Rightarrow> 'k \<Rightarrow> int) \<Rightarrow> 'k skip_op list \<Rightarrow> 'k list \<times> 'k option \<Rightarrow> ('k option \<times> bool option) list option" where
  "run_sorted cmp [] st = Some []"
| "run_sorted cmp (x # xs) st = do {
     (st', b) \<leftarrow> sorted_step cmp x st;
     out \<leftarrow> run_sorted cmp xs st';
     Some ((snd st', b) # out)
   }"

fun skip_step :: "'k skip_op \<Rightarrow> 'k skiplist \<times> nat option \<Rightarrow> (('k skiplist \<times> nat option) \<times> bool option) option" where
  "skip_step (Insert k) (sl, node) = map_option (\<lambda>sl'. ((sl', node), None)) (sl_Insert sl k)"
| "skip_step (Contains k) (sl, node) = map_option (\<lambda>b. ((sl, node), Some b)) (sl_Contains sl k)"
| "skip_step (SkSeek k) (sl, node) = map_option (\<lambda>n. ((sl, n), None)) (sl_Seek sl k)"
| "skip_step SkFirst (sl, node) = map_option (\<lambda>n. ((sl, n), None)) (sl_SeekToFirst sl)"
| "skip_step SkLast (sl, node) = map_option (\<lambda>n. ((sl, n), None)) (sl_SeekToLast sl)"
| "skip_step SkNext (sl, node) = map_option (\<lambda>n. ((sl, n), None)) (sl_Next sl node)"
| "skip_step SkPrev (sl, node) = map_option (\<lambda>n. ((sl, n), None)) (sl_Prev sl node)"

fun run_skip :: "'k skip_op list \<Rightarrow> 'k skiplist \<times> nat option \<Rightarrow> ('k option \<times> bool option) list option" where
  "run_skip [] st = Some []"
| "run_skip (x # xs) st = do {
     (st', b) \<leftarrow> skip_step x st;
     out \<leftarrow> run_skip xs st';
     Some ((sl_iter_key (fst st') (snd st'), b) # out)
   }"

subsection \<open>Refinement\<close>

definition skip_abs :: "('k \<Rightarrow> 'k \<Rightarrow> int) \<Rightarrow> ('k \<Rightarrow> bool) \<Rightarrow> 'k skiplist \<times> nat option \<Rightarrow> 'k list \<times> 'k option \<Rightarrow> bool" where
  "skip_abs cmp valid cs as \<longleftrightarrow> (\<exists>L. skip_inv (fst cs) L \<and> sl_compare (fst cs) = cmp \<and>
     fst as = map (sl_key (fst cs)) L \<and> (\<forall>k \<in> set (fst as). valid k) \<and>
     (\<forall>x. snd cs = Some x \<longrightarrow> x \<in> set L) \<and> snd as = map_option (sl_key (fst cs)) (snd cs))"

lemma first_map: "first (map f xs) = map_option f (first xs)"
  by (cases xs) simp_all

lemma first_rev: "first (rev xs) = (if xs = [] then None else Some (last xs))"
  by (cases xs rule: rev_cases) simp_all

lemma last_head: "0 \<notin> set A \<Longrightarrow> (if last (0 # A) = sl_head then None else Some (last (0 # A))) = first (rev A)"
proof (cases "A = []")
  case False
  assume "0 \<notin> set A"
  with last_in_set [OF False] have "last A \<noteq> sl_head" unfolding sl_head_def by metis
  with False show ?thesis by (simp add: first_rev)
qed (simp add: first_rev sl_head_def)

context key_order begin

lemma inv_split:
  assumes inv: "skip_inv sl L" "sl_compare sl = cmp" and v: "\<forall>x \<in> set L. valid (sl_key sl x)" "valid k"
  defines "A \<equiv> takeWhile (\<lambda>x. cmp (sl_key sl x) k < 0) L" and "B \<equiv> dropWhile (\<lambda>x. cmp (sl_key sl x) k < 0) L"
  shows "L = A @ B" "\<forall>a \<in> set A. cmp (sl_key sl a) k < 0" "\<forall>b \<in> set B. \<not> cmp (sl_key sl b) k < 0"
    and "map (sl_key sl) A = takeWhile (\<lambda>a. cmp a k < 0) (map (sl_key sl) L)"
    and "map (sl_key sl) B = dropWhile (\<lambda>a. cmp a k < 0) (map (sl_key sl) L)"
proof -
  show "L = A @ B" by (simp add: A_def B_def)
  show "\<forall>a \<in> set A. cmp (sl_key sl a) k < 0" by (auto simp: A_def dest: set_takeWhileD)
  show m: "map (sl_key sl) A = takeWhile (\<lambda>a. cmp a k < 0) (map (sl_key sl) L)"
    "map (sl_key sl) B = dropWhile (\<lambda>a. cmp a k < 0) (map (sl_key sl) L)"
    by (simp_all add: A_def B_def takeWhile_map dropWhile_map comp_def)
  have s: "sorted_wrt (\<lambda>a b. cmp a b < 0) (map (sl_key sl) L)"
    using inv by (simp add: skip_inv_def sorted_wrt_map)
  have "\<forall>b \<in> set (map (sl_key sl) B). \<not> cmp b k < 0"
    unfolding m(2) using v by (intro sorted_split [OF s]) simp_all
  then show "\<forall>b \<in> set B. \<not> cmp (sl_key sl b) k < 0" by simp
qed

lemma equal_first:
  assumes "sorted_wrt (\<lambda>a b. cmp a b < 0) ks" "\<forall>a \<in> set ks. valid a" "valid k"
  shows "(\<exists>a \<in> set ks. cmp k a = 0) \<longleftrightarrow>
    (case first (dropWhile (\<lambda>a. cmp a k < 0) ks) of None \<Rightarrow> False | Some b \<Rightarrow> cmp k b = 0)"
proof -
  define A B where AB: "A = takeWhile (\<lambda>a. cmp a k < 0) ks" "B = dropWhile (\<lambda>a. cmp a k < 0) ks"
  then have ks: "ks = A @ B" by simp
  have A: "\<forall>a \<in> set A. cmp a k < 0" by (auto simp: AB dest: set_takeWhileD)
  have zero: "\<not> cmp a k < 0 \<and> \<not> cmp a k > 0" if "a \<in> set ks" "cmp k a = 0" for a
  proof -
    have "valid a" using assms(2) that(1) by blast
    from key_swap [OF this assms(3)] key_swap [OF assms(3) this] that(2) show ?thesis by linarith
  qed
  show ?thesis unfolding AB(2) [symmetric]
  proof
    assume "\<exists>a \<in> set ks. cmp k a = 0"
    then obtain a where a: "a \<in> set ks" "cmp k a = 0" by blast
    with zero A have "a \<in> set B" by (auto simp: ks)
    then obtain b B' where B: "B = b # B'" by (cases B) auto
    have "cmp k b = 0"
    proof (rule ccontr)
      assume ne: "cmp k b \<noteq> 0"
      then have "a \<noteq> b" using a by blast
      then have "cmp b a < 0" using assms(1) \<open>a \<in> set B\<close> by (simp add: ks B sorted_wrt_append)
      moreover have "cmp a k \<le> 0" using zero [OF a] by simp
      moreover have "valid a" using assms(2) a(1) by blast
      moreover have "valid b" using assms(2) by (simp add: ks B)
      ultimately have "cmp b k < 0" using key_trans assms(3) by blast
      moreover have "\<not> cmp b k < 0"
        using hd_dropWhile [of "\<lambda>a. cmp a k < 0" ks] unfolding AB(2) [symmetric] B list.sel by blast
      ultimately show False by blast
    qed
    then show "case first B of None \<Rightarrow> False | Some b \<Rightarrow> cmp k b = 0" by (simp add: B)
  next
    assume "case first B of None \<Rightarrow> False | Some b \<Rightarrow> cmp k b = 0"
    then show "\<exists>a \<in> set ks. cmp k a = 0" by (cases B) (auto simp: ks)
  qed
qed

lemma abs_split:
  assumes "skip_inv sl L" "sl_compare sl = cmp" "\<forall>x \<in> set L. valid (sl_key sl x)" "x \<in> set L"
  obtains P Q where "L = P @ x # Q" "takeWhile (\<lambda>a. cmp a (sl_key sl x) < 0) (map (sl_key sl) L) = map (sl_key sl) P"
    "dropWhile (\<lambda>a. cmp a (sl_key sl x) < 0) (map (sl_key sl) L) = map (sl_key sl) (x # Q)"
    "\<forall>a \<in> set P. cmp (sl_key sl a) (sl_key sl x) < 0" "\<forall>b \<in> set (x # Q). \<not> cmp (sl_key sl b) (sl_key sl x) < 0"
proof -
  obtain P Q where L: "L = P @ x # Q" using assms(4) by (meson split_list)
  have s: "sorted_wrt (\<lambda>x y. cmp (sl_key sl x) (sl_key sl y) < 0) L" using assms(1,2) by (simp add: skip_inv_def)
  then have P: "\<forall>a \<in> set P. cmp (sl_key sl a) (sl_key sl x) < 0" by (simp add: L sorted_wrt_append)
  have xx: "\<not> cmp (sl_key sl x) (sl_key sl x) < 0" using key_swap [of "sl_key sl x" "sl_key sl x"] assms(3,4) by force
  have tw: "takeWhile (\<lambda>a. cmp a (sl_key sl x) < 0) (map (sl_key sl) L) = map (sl_key sl) P"
    "dropWhile (\<lambda>a. cmp a (sl_key sl x) < 0) (map (sl_key sl) L) = map (sl_key sl) (x # Q)"
    unfolding L map_append using P xx
    by (subst takeWhile_append2, force, simp, subst dropWhile_append2, force, simp)
  have "\<forall>b \<in> set (map (sl_key sl) (x # Q)). \<not> cmp b (sl_key sl x) < 0"
    unfolding tw(2) [symmetric] using s assms(3,4) by (intro sorted_split) (simp_all add: sorted_wrt_map)
  then show ?thesis using that [OF L tw P] by simp
qed

lemma insert_step:
  assumes inv: "skip_inv sl L" "sl_compare sl = cmp" and v: "\<forall>x \<in> set L. valid (sl_key sl x)" "valid k"
    and cur: "\<forall>x. node = Some x \<longrightarrow> x \<in> set L"
  defines "ks \<equiv> map (sl_key sl) L"
  shows "case sorted_step cmp (Insert k) (ks, map_option (sl_key sl) node) of
      None \<Rightarrow> sl_Insert sl k = None
    | Some (st, b) \<Rightarrow> b = None \<and> (\<exists>sl'. sl_Insert sl k = Some sl' \<and> skip_abs cmp valid (sl', node) st)"
proof -
  define A B where AB: "A = takeWhile (\<lambda>x. cmp (sl_key sl x) k < 0) L" "B = dropWhile (\<lambda>x. cmp (sl_key sl x) k < 0) L"
  note sp = inv_split [OF inv v, folded AB]
  have inv': "skip_inv sl (A @ B)" using inv(1) sp(1) by simp
  have s: "sorted_wrt (\<lambda>a b. cmp a b < 0) ks" using inv by (simp add: ks_def skip_inv_def sorted_wrt_map)
  have vk: "\<forall>a \<in> set ks. valid a" using v by (simp add: ks_def)
  have eq: "(\<exists>a \<in> set ks. cmp k a = 0) \<longleftrightarrow> (case first B of None \<Rightarrow> False | Some b \<Rightarrow> cmp k (sl_key sl b) = 0)"
    using equal_first [OF s vk v(2)] unfolding ks_def sp(5) [symmetric] first_map by (simp split: option.splits)
  show ?thesis
  proof (cases "\<exists>a \<in> set ks. cmp k a = 0")
    case True
    then obtain b where "first B = Some b" "cmp k (sl_key sl b) = 0" using eq by (auto split: option.splits)
    then have "sl_Insert sl k = None"
      using searches(1) [OF inv', of k "Some (replicate kMaxHeight None)"] sp(2,3) inv(2) by (simp add: sl_Insert_def)
    with True show ?thesis by simp
  next
    case False
    have lt: "\<forall>b \<in> set B. cmp k (sl_key sl b) < 0"
    proof
      fix b assume b: "b \<in> set B"
      then have L: "b \<in> set L" using sp(1) by simp
      then have "cmp k (sl_key sl b) \<noteq> 0" using False by (auto simp: ks_def)
      moreover have "\<not> cmp k (sl_key sl b) > 0" using key_swap [of "sl_key sl b" k] sp(3) b v L by blast
      ultimately show "cmp k (sl_key sl b) < 0" by linarith
    qed
    obtain sl' x where n: "sl_Insert sl k = Some sl'" "skip_inv sl' (A @ x # B)" "sl_key sl' x = k"
      "sl_compare sl' = sl_compare sl" "\<forall>y \<in> set (A @ B). sl_key sl' y = sl_key sl y"
      using insert_inv [OF inv', of k] sp(2,3) lt inv(2) by auto
    have keys: "map (sl_key sl') A = map (sl_key sl) A" "map (sl_key sl') B = map (sl_key sl) B" using n(5) by auto
    have "map_option (sl_key sl') node = map_option (sl_key sl) node" using cur n(5) sp(1) by (cases node) auto
    moreover have "map (sl_key sl') (A @ x # B) =
        takeWhile (\<lambda>a. cmp a k < 0) ks @ k # dropWhile (\<lambda>a. cmp a k < 0) ks"
      using n(3) keys sp(4,5) by (simp add: ks_def)
    moreover have "set (A @ x # B) = insert x (set L)" using sp(1) by auto
    ultimately have "skip_abs cmp valid (sl', node)
        (takeWhile (\<lambda>a. cmp a k < 0) ks @ k # dropWhile (\<lambda>a. cmp a k < 0) ks, map_option (sl_key sl) node)"
      unfolding skip_abs_def fst_conv snd_conv
      using n(2,4) inv(2) cur v(2) vk by (intro exI [of _ "A @ x # B"]) (auto dest: set_takeWhileD set_dropWhileD)
    with n(1) False show ?thesis by simp
  qed
qed

lemma skip_abs_step:
  assumes abs: "skip_abs cmp valid cs as" and v: "\<forall>k \<in> set (op_keys x). valid k"
  shows "case sorted_step cmp x as of None \<Rightarrow> skip_step x cs = None
    | Some (as', b) \<Rightarrow> \<exists>cs'. skip_step x cs = Some (cs', b) \<and> skip_abs cmp valid cs' as'"
proof -
  obtain sl node ks cur where [simp]: "cs = (sl, node)" "as = (ks, cur)" by fastforce
  obtain L where inv: "skip_inv sl L" "sl_compare sl = cmp" and ks [simp]: "ks = map (sl_key sl) L"
    and vL: "\<forall>x \<in> set L. valid (sl_key sl x)" and node: "\<forall>x. node = Some x \<longrightarrow> x \<in> set L"
    and cur [simp]: "cur = map_option (sl_key sl) node"
    using abs by (auto simp: skip_abs_def)
  have abs_at: "skip_abs cmp valid (sl, n) (ks, map_option (sl_key sl) n)" if "\<forall>x. n = Some x \<longrightarrow> x \<in> set L" for n
    unfolding skip_abs_def using inv vL that by auto
  have nn: "first xs = Some y \<Longrightarrow> y \<in> set xs" for xs :: "nat list" and y by (cases xs) auto
  have zero: "0 \<notin> set L" using inv by (simp add: skip_inv_def)
  have lev: "at_level sl 0 L' = L'" if "set L' \<subseteq> set L" for L' using at_level_0 [OF inv(1) that] .
  have km: "0 < kMaxHeight" by (simp add: kMaxHeight_def)
  have head: "node_Next (sl_nodes sl) 0 0 = Some (first L)"
    using next_at [of sl "[]" L 0 "[]" 0 "[]"] inv(1) km lev [of L] by simp
  show ?thesis
  proof (cases x)
    case (Insert k)
    with insert_step [OF inv vL _ node, of k] v show ?thesis by (auto split: option.splits if_splits)
  next
    case (Contains k)
    then have vk: "valid k" using v by simp
    define A B where AB: "A = takeWhile (\<lambda>x. cmp (sl_key sl x) k < 0) L" "B = dropWhile (\<lambda>x. cmp (sl_key sl x) k < 0) L"
    note sp = inv_split [OF inv vL vk, folded AB]
    have inv': "skip_inv sl (A @ B)" using inv(1) sp(1) by simp
    have "sl_Contains sl k = Some (case first B of None \<Rightarrow> False | Some b \<Rightarrow> cmp k (sl_key sl b) = 0)"
      using searches(1) [OF inv', of k None] sp(2,3) inv(2)
      by (simp add: sl_Contains_def split: option.splits)
    moreover have "(\<exists>a \<in> set ks. cmp k a = 0) \<longleftrightarrow> (case first B of None \<Rightarrow> False | Some b \<Rightarrow> cmp k (sl_key sl b) = 0)"
      using equal_first [of ks k] inv vL vk unfolding ks sp(5) [symmetric] first_map
      by (simp add: skip_inv_def sorted_wrt_map split: option.splits)
    ultimately show ?thesis using Contains abs by simp
  next
    case (SkSeek k)
    then have vk: "valid k" using v by simp
    define A B where AB: "A = takeWhile (\<lambda>x. cmp (sl_key sl x) k < 0) L" "B = dropWhile (\<lambda>x. cmp (sl_key sl x) k < 0) L"
    note sp = inv_split [OF inv vL vk, folded AB]
    have inv': "skip_inv sl (A @ B)" using inv(1) sp(1) by simp
    have "sl_Seek sl k = Some (first B)"
      using searches(1) [OF inv', of k None] sp(2,3) inv(2)
      by (simp add: sl_Seek_def)
    moreover have "\<forall>x. first B = Some x \<longrightarrow> x \<in> set L" by (auto simp: sp(1) dest!: nn)
    note abs_at [OF this]
    ultimately show ?thesis using SkSeek by (simp add: sp(5) [symmetric] first_map)
  next
    case SkFirst
    have "\<forall>x. first L = Some x \<longrightarrow> x \<in> set L" using nn by blast
    from abs_at [OF this] show ?thesis using SkFirst head by (simp add: sl_SeekToFirst_def sl_head_def first_map)
  next
    case SkLast
    have "sl_SeekToLast sl = Some (first (rev L))"
      unfolding sl_SeekToLast_def find_last_end [OF inv(1)] option.map last_head [OF zero] ..
    moreover have "\<forall>x. first (rev L) = Some x \<longrightarrow> x \<in> set L" using nn [of "rev L"] by auto
    note abs_at [OF this]
    ultimately show ?thesis using SkLast by (simp add: rev_map first_map)
  next
    case SkNext
    show ?thesis
    proof (cases node)
      case None
      with SkNext show ?thesis by (simp add: sl_Next_def)
    next
      case (Some y)
      then obtain P Q where PQ: "L = P @ y # Q" "dropWhile (\<lambda>a. cmp a (sl_key sl y) < 0) (map (sl_key sl) L) = map (sl_key sl) (y # Q)"
        using abs_split [OF inv vL] node by metis
      have "node_Next (sl_nodes sl) y 0 = Some (first Q)"
        using next_at [of sl L "[]" 0 "0 # P" y Q] inv(1) km lev [of L] PQ(1) by simp
      moreover have "\<forall>x. first Q = Some x \<longrightarrow> x \<in> set L" using nn [of Q] PQ(1) by auto
      note abs_at [OF this]
      ultimately show ?thesis using SkNext Some PQ(2) by (simp add: sl_Next_def first_map)
    qed
  next
    case SkPrev
    show ?thesis
    proof (cases node)
      case None
      with SkPrev show ?thesis by (simp add: sl_Prev_def)
    next
      case (Some y)
      then obtain P Q where PQ: "L = P @ y # Q" "takeWhile (\<lambda>a. cmp a (sl_key sl y) < 0) (map (sl_key sl) L) = map (sl_key sl) P"
        "\<forall>a \<in> set P. cmp (sl_key sl a) (sl_key sl y) < 0" "\<forall>b \<in> set (y # Q). \<not> cmp (sl_key sl b) (sl_key sl y) < 0"
        using abs_split [OF inv vL] node by metis
      have "FindLessThan sl (sl_key sl y) = Some (last (0 # P))"
        using searches(2) [of sl P "y # Q"] inv PQ by simp
      moreover have "(if last (0 # P) = sl_head then None else Some (last (0 # P))) = first (rev P)"
        using last_head [of P] zero PQ(1) by simp
      ultimately have "sl_Prev sl node = Some (first (rev P))"
        unfolding Some sl_Prev_def by (simp only: Option.bind.bind_lunit)
      moreover have "\<forall>x. first (rev P) = Some x \<longrightarrow> x \<in> set L" using nn [of "rev P"] PQ(1) by auto
      note abs_at [OF this]
      ultimately show ?thesis using SkPrev Some PQ(2) by (simp add: rev_map first_map)
    qed
  qed
qed

lemma skip_abs_run:
  assumes "skip_abs cmp valid cs as" "\<forall>x \<in> set xs. \<forall>k \<in> set (op_keys x). valid k"
  shows "run_skip xs cs = run_sorted cmp xs as"
  using assms
proof (induction xs arbitrary: cs as)
  case (Cons x xs)
  have IH: "run_skip xs cs' = run_sorted cmp xs as'" if "skip_abs cmp valid cs' as'" for cs' as'
    using Cons.IH [OF that] Cons.prems(2) by simp
  have key: "sl_iter_key sl n = c" if "skip_abs cmp valid (sl, n) (ks, c)" for sl n ks c
    using that by (auto simp: skip_abs_def sl_iter_key_def)
  from skip_abs_step [OF Cons.prems(1), of x] Cons.prems(2) show ?case
    by (auto simp: IH key split: option.splits)
qed simp

lemma new_abs: "skip_abs cmp valid (new_SkipList cmp any_key, None) ([], None)"
  using new_inv [of cmp any_key] by (simp add: skip_abs_def new_SkipList_def)

end

subsection \<open>The properties\<close>

text \<open>C15. A skip list behaves as the sorted list of the keys inserted so far: from the empty list on,
  any sequence of insertions, membership tests and iterator movements (the iterator kept while keys
  are inserted) returns the same answers and stands on the same keys, whatever heights the generator
  draws; an equal key inserted again, and moving an iterator that is not on a key, are the only
  operations that fail their assertion.\<close>

theorem skiplist_refines_sorted:
  assumes "key_order cmp valid" "\<forall>x \<in> set ops. \<forall>k \<in> set (op_keys x). valid k"
  shows "run_skip ops (new_SkipList cmp any_key, None) = run_sorted cmp ops ([], None)"
  using key_order.skip_abs_run [OF assms(1) key_order.new_abs [OF assms(1)] assms(2)] .

text \<open>C. The generator is the Lehmer generator it is written for: from a seed in range the next one
  is \<open>16807 * seed mod (2^31 - 1)\<close>, computed without a division, and is in range again, so never zero.\<close>

theorem random_next_lehmer:
  assumes "0 < unat seed" "unat seed < 2147483647"
  shows "unat (rnd_Next seed) = unat seed * 16807 mod 2147483647 \<and> 0 < unat (rnd_Next seed) \<and>
    unat (rnd_Next seed) < 2147483647"
  using rnd_range [OF assms] .

lemma random_next_lehmer_witness: "unat (rnd_Next 301) = 5058907"
  using random_next_lehmer [of 301] by simp

lemma skiplist_refines_sorted_witness:
  "run_skip [Insert [2], Insert [1], SkFirst, Insert [3,0], SkNext, SkPrev, Contains [3,0], SkLast, SkNext]
     (new_SkipList (cmp_Compare BytewiseComparator) [], None) =
   Some [(None, None), (None, None), (Some [1], None), (Some [1], None), (Some [2], None), (Some [1], None),
     (Some [1], Some True), (Some [3,0], None), (None, None)]"
proof -
  have "key_order (cmp_Compare BytewiseComparator) (\<lambda>_. True)"
    by unfold_locales
  note skiplist_refines_sorted [OF this, of "[Insert [2], Insert [1], SkFirst, Insert [3,0], SkNext, SkPrev,
    Contains [3,0], SkLast, SkNext]" "[]"]
  then show ?thesis by simp code_simp
qed

end
