(* ===== verification/LdbMemTable.thy ===== *)
theory LdbMemTable
  imports LdbSkipListProps LdbFormat LdbEnv
begin

section \<open>Memtables and write batches (db/memtable.cc, db/write_batch.cc)\<close>

text \<open>
  An entry of a memtable is the array that \<open>Add\<close> allocates for it, and a pointer into an entry is
  the rest of the entry from there; a read past its end is None. The table is the skip list of
  \<open>LdbSkipList\<close> over these arrays. A \<open>WriteBatch\<close> is its \<open>rep_\<close>. Where an assertion fails or a
  pointer does not exist an operation is None.
\<close>

subsection \<open>Entries\<close>

text \<open>\<open>GetVarint32Ptr (p, p + 5, &v)\<close>: the number and what lies behind it.\<close>

definition varint32_at :: "byte list \<Rightarrow> (u32 \<times> byte list) option" where
  "varint32_at p =
     (case GetVarint32Ptr (take 5 p) of
        None \<Rightarrow> None
      | Some (v, q) \<Rightarrow> Some (v, drop (length (take 5 p) - length q) p))"

definition mem_GetLengthPrefixedSlice :: "byte list \<Rightarrow> byte list option" where
  "mem_GetLengthPrefixedSlice p =
     (case varint32_at p of
        None \<Rightarrow> None
      | Some (len, q) \<Rightarrow> if unat len \<le> length q then Some (take (unat len) q) else None)"

text \<open>\<open>KeyComparator\<close>; 0 where an entry is malformed.\<close>

definition mem_compare :: "comparator \<Rightarrow> byte list \<Rightarrow> byte list \<Rightarrow> int" where
  "mem_compare ucmp aptr bptr =
     (case (mem_GetLengthPrefixedSlice aptr, mem_GetLengthPrefixedSlice bptr) of
        (Some a, Some b) \<Rightarrow> ikey_Compare ucmp a b
      | _ \<Rightarrow> 0)"

definition EncodeKey :: "byte list \<Rightarrow> byte list" where
  "EncodeKey target = PutVarint32 [] (of_nat (length target)) @ target"

subsection \<open>\<open>MemTable\<close>\<close>

record memtable =
  mt_user_comparator :: comparator
  mt_refs :: int
  mt_table :: "byte list skiplist"

definition new_MemTable :: "comparator \<Rightarrow> memtable" where
  "new_MemTable ucmp =
     \<lparr>mt_user_comparator = ucmp, mt_refs = 0, mt_table = new_SkipList (mem_compare ucmp) []\<rparr>"

definition mt_Ref :: "memtable \<Rightarrow> memtable" where
  "mt_Ref m = m\<lparr>mt_refs := mt_refs m + 1\<rparr>"

text \<open>None: the assertion fails; Some None: the table is deleted.\<close>

definition mt_Unref :: "memtable \<Rightarrow> memtable option option" where
  "mt_Unref m =
     (let refs = mt_refs m - 1 in
      if refs < 0 then None
      else if refs \<le> 0 then Some None
      else Some (Some (m\<lparr>mt_refs := refs\<rparr>)))"

definition mem_entry :: "u64 \<Rightarrow> ValueType \<Rightarrow> byte list \<Rightarrow> byte list \<Rightarrow> byte list" where
  "mem_entry s t key val =
     EncodeVarint32 (of_nat (length key + 8)) @ key @ EncodeFixed64 (push_bit 8 s OR type_code t) @
     EncodeVarint32 (of_nat (length val)) @ val"

definition mt_Add :: "memtable \<Rightarrow> u64 \<Rightarrow> ValueType \<Rightarrow> byte list \<Rightarrow> byte list \<Rightarrow> memtable option" where
  "mt_Add m s t key val = do {
     table \<leftarrow> sl_Insert (mt_table m) (mem_entry s t key val);
     Some (m\<lparr>mt_table := table\<rparr>)
   }"

text \<open>\<open>*value\<close> and \<open>*s\<close> are passed in and returned as they are left.\<close>

definition mt_Get :: "memtable \<Rightarrow> LookupKey \<Rightarrow> byte list \<Rightarrow> Status \<Rightarrow> (bool \<times> byte list \<times> Status) option" where
  "mt_Get m key val st = do {
     node \<leftarrow> sl_Seek (mt_table m) (memtable_key key);
     if sl_Valid node then do {
       entry \<leftarrow> sl_iter_key (mt_table m) node;
       (key_length, key_ptr) \<leftarrow> varint32_at entry;
       if cmp_Compare (mt_user_comparator m) (take (unat (key_length - 8)) key_ptr) (lookup_user_key key) = 0 then do {
         n \<leftarrow> DecodeFixed64 (drop (unat key_length - 8) key_ptr);
         if n AND 0xff = type_code kTypeValue then do {
           v \<leftarrow> mem_GetLengthPrefixedSlice (drop (unat key_length) key_ptr);
           Some (True, v, st)
         }
         else if n AND 0xff = type_code kTypeDeletion then Some (True, val, NotFound [] [])
         else Some (False, val, st)
       }
       else Some (False, val, st)
     }
     else Some (False, val, st)
   }"

subsection \<open>\<open>MemTableIterator\<close>\<close>

text \<open>The position is that of the iterator of the table.\<close>

definition mit_Seek :: "memtable \<Rightarrow> byte list \<Rightarrow> nat option option" where
  "mit_Seek m k = sl_Seek (mt_table m) (EncodeKey k)"

definition mit_SeekToFirst :: "memtable \<Rightarrow> nat option option" where
  "mit_SeekToFirst m = sl_SeekToFirst (mt_table m)"

definition mit_SeekToLast :: "memtable \<Rightarrow> nat option option" where
  "mit_SeekToLast m = sl_SeekToLast (mt_table m)"

definition mit_Next :: "memtable \<Rightarrow> nat option \<Rightarrow> nat option option" where
  "mit_Next m node = sl_Next (mt_table m) node"

definition mit_Prev :: "memtable \<Rightarrow> nat option \<Rightarrow> nat option option" where
  "mit_Prev m node = sl_Prev (mt_table m) node"

definition mit_key :: "memtable \<Rightarrow> nat option \<Rightarrow> byte list option" where
  "mit_key m node = Option.bind (sl_iter_key (mt_table m) node) mem_GetLengthPrefixedSlice"

definition mit_value :: "memtable \<Rightarrow> nat option \<Rightarrow> byte list option" where
  "mit_value m node = do {
     entry \<leftarrow> sl_iter_key (mt_table m) node;
     (len, p) \<leftarrow> varint32_at entry;
     if unat len \<le> length p then mem_GetLengthPrefixedSlice (drop (unat len) p) else None
   }"

subsection \<open>\<open>WriteBatch\<close>\<close>

definition kHeader :: nat where "kHeader = 12"

definition wb_Clear :: "byte list \<Rightarrow> byte list" where
  "wb_Clear rep = replicate kHeader 0"

definition new_WriteBatch :: "byte list" where
  "new_WriteBatch = wb_Clear []"

definition wb_ApproximateSize :: "byte list \<Rightarrow> nat" where
  "wb_ApproximateSize rep = length rep"

definition wb_Count :: "byte list \<Rightarrow> int option" where
  "wb_Count rep = map_option sint (DecodeFixed32 (drop 8 rep))"

definition overwrite :: "byte list \<Rightarrow> nat \<Rightarrow> byte list \<Rightarrow> byte list option" where
  "overwrite rep i bs =
     (if i + length bs \<le> length rep then Some (take i rep @ bs @ drop (i + length bs) rep) else None)"

definition wb_SetCount :: "byte list \<Rightarrow> int \<Rightarrow> byte list option" where
  "wb_SetCount rep n = overwrite rep 8 (EncodeFixed32 (of_int n))"

definition wb_Sequence :: "byte list \<Rightarrow> u64 option" where
  "wb_Sequence rep = DecodeFixed64 rep"

definition wb_SetSequence :: "byte list \<Rightarrow> u64 \<Rightarrow> byte list option" where
  "wb_SetSequence rep s = overwrite rep 0 (EncodeFixed64 s)"

definition wb_Contents :: "byte list \<Rightarrow> byte list" where
  "wb_Contents rep = rep"

definition wb_ByteSize :: "byte list \<Rightarrow> nat" where
  "wb_ByteSize rep = length rep"

definition wb_Put :: "byte list \<Rightarrow> byte list \<Rightarrow> byte list \<Rightarrow> byte list option" where
  "wb_Put rep key val = do {
     n \<leftarrow> wb_Count rep;
     rep \<leftarrow> wb_SetCount rep (n + 1);
     Some (PutLengthPrefixedSlice (PutLengthPrefixedSlice (rep @ [ucast (type_code kTypeValue)]) key) val)
   }"

definition wb_Delete :: "byte list \<Rightarrow> byte list \<Rightarrow> byte list option" where
  "wb_Delete rep key = do {
     n \<leftarrow> wb_Count rep;
     rep \<leftarrow> wb_SetCount rep (n + 1);
     Some (PutLengthPrefixedSlice (rep @ [ucast (type_code kTypeDeletion)]) key)
   }"

definition wb_Append :: "byte list \<Rightarrow> byte list \<Rightarrow> byte list option" where
  "wb_Append dst src = do {
     m \<leftarrow> wb_Count dst;
     n \<leftarrow> wb_Count src;
     dst \<leftarrow> wb_SetCount dst (m + n);
     if length src \<ge> kHeader then Some (dst @ drop kHeader src) else None
   }"

definition wb_SetContents :: "byte list \<Rightarrow> byte list \<Rightarrow> byte list option" where
  "wb_SetContents rep contents = (if length contents \<ge> kHeader then Some contents else None)"

text \<open>A \<open>WriteBatch::Handler\<close>.\<close>

record 'h wb_handler =
  h_Put :: "byte list \<Rightarrow> byte list \<Rightarrow> 'h \<Rightarrow> 'h option"
  h_Delete :: "byte list \<Rightarrow> 'h \<Rightarrow> 'h option"

text \<open>The loop, with the number of records found so far.\<close>

function (sequential) wb_records :: "'h wb_handler \<Rightarrow> byte list \<Rightarrow> nat \<Rightarrow> 'h \<Rightarrow> (Status \<times> nat \<times> 'h) option" where
  "wb_records h [] found st = Some (OK, found, st)"
| "wb_records h (t # input) found st =
     (if t = ucast (type_code kTypeValue) then
        (case GetLengthPrefixedSlice input of
           (Some key, input1) \<Rightarrow>
             (case GetLengthPrefixedSlice input1 of
                (Some val, input2) \<Rightarrow>
                  (case h_Put h key val st of
                     None \<Rightarrow> None
                   | Some st \<Rightarrow> wb_records h input2 (found + 1) st)
              | _ \<Rightarrow> Some (Corruption ''bad WriteBatch Put'' [], found + 1, st))
         | _ \<Rightarrow> Some (Corruption ''bad WriteBatch Put'' [], found + 1, st))
      else if t = ucast (type_code kTypeDeletion) then
        (case GetLengthPrefixedSlice input of
           (Some key, input1) \<Rightarrow>
             (case h_Delete h key st of
                None \<Rightarrow> None
              | Some st \<Rightarrow> wb_records h input1 (found + 1) st)
         | _ \<Rightarrow> Some (Corruption ''bad WriteBatch Delete'' [], found + 1, st))
      else Some (Corruption ''unknown WriteBatch tag'' [], found + 1, st))"
  by pat_completeness auto
termination
  by (relation "measure (\<lambda>(h, input, found, st). length input)") (auto dest!: reader_shorter(3) [OF sym])

definition wb_Iterate :: "'h wb_handler \<Rightarrow> byte list \<Rightarrow> 'h \<Rightarrow> (Status \<times> 'h) option" where
  "wb_Iterate h rep st =
     (if length rep < kHeader then Some (Corruption ''malformed WriteBatch (too small)'' [], st)
      else
        (case wb_records h (remove_prefix kHeader rep) 0 st of
           None \<Rightarrow> None
         | Some (s, found, st) \<Rightarrow>
             if \<not> status_ok s then Some (s, st)
             else if wb_Count rep \<noteq> Some (int found)
             then Some (Corruption ''WriteBatch has wrong count'' [], st)
             else Some (OK, st)))"

subsection \<open>\<open>MemTableInserter\<close>\<close>

text \<open>The handler's state: the next sequence number and the table.\<close>

definition MemTableInserter :: "(u64 \<times> memtable) wb_handler" where
  "MemTableInserter =
     \<lparr>h_Put = (\<lambda>key val (s, m). map_option (\<lambda>m. (s + 1, m)) (mt_Add m s kTypeValue key val)),
      h_Delete = (\<lambda>key (s, m). map_option (\<lambda>m. (s + 1, m)) (mt_Add m s kTypeDeletion key []))\<rparr>"

definition InsertInto :: "byte list \<Rightarrow> memtable \<Rightarrow> (Status \<times> memtable) option" where
  "InsertInto rep m = do {
     s \<leftarrow> wb_Sequence rep;
     (st, s, m) \<leftarrow> wb_Iterate MemTableInserter rep (s, m);
     Some (st, m)
   }"

end
