(* ===== verification/LdbDb.thy ===== *)
theory LdbDb
  imports LdbMemTable LdbLog
begin

section \<open>Writing to the database and recovering it (db/db_impl.cc)\<close>

text \<open>
  The path of a write through \<open>DBImpl\<close>: the writer at the front of the queue gathers the batches
  behind it into one, numbers it, appends it to the log, syncs the log if asked to, inserts it into
  the memtable and takes the writers it served off the queue. And the way back: \<open>RecoverLogFile\<close>
  reads the records of a log and inserts them into a memtable.

  The queue is a list, its front first. The mutex and the condition variables only order the
  writers and are left out, so is \<open>MakeRoomForWrite\<close>, whose status is an argument. Table files are
  not modelled: what \<open>WriteLevel0Table\<close> does is an argument, and so is when a memtable is full.
\<close>

subsection \<open>\<open>PosixWritableFile::Sync\<close>\<close>

text \<open>The text up to the last slash and what follows it; None if there is no slash.\<close>

fun split_last_slash :: "string \<Rightarrow> (string \<times> string) option" where
  "split_last_slash [] = None"
| "split_last_slash (c # cs) =
     (case split_last_slash cs of
        Some (d, b) \<Rightarrow> Some (c # d, b)
      | None \<Rightarrow> if c = CHR ''/'' then Some ([], cs) else None)"

definition posix_Dirname :: "string \<Rightarrow> string" where
  "posix_Dirname filename = (case split_last_slash filename of None \<Rightarrow> ''.'' | Some (d, b) \<Rightarrow> d)"

definition posix_Basename :: "string \<Rightarrow> string" where
  "posix_Basename filename = (case split_last_slash filename of None \<Rightarrow> filename | Some (d, b) \<Rightarrow> b)"

definition IsManifest :: "string \<Rightarrow> bool" where
  "IsManifest filename \<longleftrightarrow> take 8 (posix_Basename filename) = ''MANIFEST''"

text \<open>\<open>sync_fd\<close> is the system call behind \<open>SyncFd\<close> with its errno, 0 for success, and \<open>sync_dir\<close> opens
  and syncs a directory.\<close>

definition SyncFd :: "'h os_file \<Rightarrow> ('h \<Rightarrow> int \<times> 'h) \<Rightarrow> 'h \<Rightarrow> string \<Rightarrow> Status \<times> 'h" where
  "SyncFd os sync_fd fd fd_path =
     (case sync_fd fd of (e, fd') \<Rightarrow> (if e = 0 then OK else PosixError os fd_path e, fd'))"

definition SyncDirIfManifest :: "'h os_file \<Rightarrow> (string \<Rightarrow> int) \<Rightarrow> 'h posix_writable \<Rightarrow> Status" where
  "SyncDirIfManifest os sync_dir f =
     (if \<not> IsManifest (pw_filename f) then OK
      else
        let dirname = posix_Dirname (pw_filename f); e = sync_dir dirname
        in if e = 0 then OK else PosixError os dirname e)"

definition posix_Sync ::
  "'h os_file \<Rightarrow> ('h \<Rightarrow> int \<times> 'h) \<Rightarrow> (string \<Rightarrow> int) \<Rightarrow> 'h posix_writable \<Rightarrow> (Status \<times> 'h posix_writable) option" where
  "posix_Sync os sync_fd sync_dir f =
     (let status = SyncDirIfManifest os sync_dir f
      in if \<not> status_ok status then Some (status, f)
         else do {
           (status, f) \<leftarrow> FlushBuffer os f;
           if \<not> status_ok status then Some (status, f)
           else case SyncFd os sync_fd (pw_fd f) (pw_filename f) of
             (status, fd) \<Rightarrow> Some (status, f\<lparr>pw_fd := fd\<rparr>)
         })"

subsection \<open>Writers\<close>

text \<open>A \<open>Writer\<close> as it is queued: its batch, null for one that only waits, and \<open>sync\<close>.\<close>

record writer =
  wr_batch :: "byte list option"
  wr_sync :: bool

record 'f db_impl =
  db_log :: "'f log_writer"
  db_mem :: memtable
  db_tmp_batch :: "byte list"
  db_last_sequence :: u64
  db_bg_error :: Status

text \<open>The loop of \<open>BuildBatchGroup\<close> over the writers behind the first: the size so far, \<open>result\<close>, and
  whether that is \<open>tmp_batch_\<close>. The last component counts the writers that join the group.\<close>

fun group_loop ::
  "byte list \<Rightarrow> bool \<Rightarrow> nat \<Rightarrow> nat \<Rightarrow> byte list \<Rightarrow> bool \<Rightarrow> writer list \<Rightarrow> (byte list \<times> bool \<times> nat) option" where
  "group_loop tmp_batch first_sync max_size size0 result is_tmp [] = Some (result, is_tmp, 0)"
| "group_loop tmp_batch first_sync max_size size0 result is_tmp (w # ws) =
     (if wr_sync w \<and> \<not> first_sync then Some (result, is_tmp, 0)
      else
        case wr_batch w of
          None \<Rightarrow> map_option (\<lambda>(r, t, n). (r, t, n + 1)) (group_loop tmp_batch first_sync max_size size0 result is_tmp ws)
        | Some b \<Rightarrow>
            let size1 = size0 + wb_ByteSize b
            in if size1 > max_size then Some (result, is_tmp, 0)
               else do {
                 result \<leftarrow> (if is_tmp then Some result
                            else if wb_Count tmp_batch = Some 0 then wb_Append tmp_batch result else None);
                 result \<leftarrow> wb_Append result b;
                 map_option (\<lambda>(r, t, n). (r, t, n + 1)) (group_loop tmp_batch first_sync max_size size1 result True ws)
               })"

definition BuildBatchGroup :: "byte list \<Rightarrow> writer list \<Rightarrow> (byte list \<times> bool \<times> nat) option" where
  "BuildBatchGroup tmp_batch writers =
     (case writers of
        [] \<Rightarrow> None
      | w # ws \<Rightarrow>
          (case wr_batch w of
             None \<Rightarrow> None
           | Some b \<Rightarrow>
               let size0 = wb_ByteSize b;
                   max_size = (if size0 \<le> push_bit 10 128 then size0 + push_bit 10 128 else push_bit 20 1)
               in group_loop tmp_batch (wr_sync w) max_size size0 b False ws))"

definition RecordBackgroundError :: "'f db_impl \<Rightarrow> Status \<Rightarrow> 'f db_impl" where
  "RecordBackgroundError db s = (if status_ok (db_bg_error db) then db\<lparr>db_bg_error := s\<rparr> else db)"

text \<open>The block in which the lock is released: log, sync, memtable.\<close>

definition log_and_apply ::
  "'f writable_file \<Rightarrow> ('f \<Rightarrow> (Status \<times> 'f) option) \<Rightarrow> bool \<Rightarrow> byte list \<Rightarrow> 'f db_impl \<Rightarrow> (Status \<times> 'f db_impl) option" where
  "log_and_apply wfile sync_file sync updates db = do {
     (status, log) \<leftarrow> AddRecord wfile (db_log db) (wb_Contents updates);
     let db = db\<lparr>db_log := log\<rparr>;
     (status, sync_error, db) \<leftarrow>
       (if status_ok status \<and> sync then do {
          (status, f) \<leftarrow> sync_file (lw_dest (db_log db));
          Some (status, \<not> status_ok status, db\<lparr>db_log := (db_log db)\<lparr>lw_dest := f\<rparr>\<rparr>)
        }
        else Some (status, False, db));
     (status, db) \<leftarrow>
       (if status_ok status then do {
          (status, mem) \<leftarrow> InsertInto updates (db_mem db);
          Some (status, db\<lparr>db_mem := mem\<rparr>)
        }
        else Some (status, db));
     Some (status, if sync_error then RecordBackgroundError db status else db)
   }"

text \<open>\<open>DBImpl::Write\<close> of the writer at the front, after \<open>MakeRoomForWrite\<close> has returned \<open>status\<close>: the
  status of all the writers taken off the queue, and how many there are behind the front.\<close>

definition db_Write ::
  "'f writable_file \<Rightarrow> ('f \<Rightarrow> (Status \<times> 'f) option) \<Rightarrow> Status \<Rightarrow> writer list \<Rightarrow> 'f db_impl \<Rightarrow>
   (Status \<times> nat \<times> 'f db_impl) option" where
  "db_Write wfile sync_file status writers db =
     (case writers of
        [] \<Rightarrow> None
      | w # ws \<Rightarrow>
          if status_ok status \<and> wr_batch w \<noteq> None then do {
            let last_sequence = db_last_sequence db;
            (updates, is_tmp, n) \<leftarrow> BuildBatchGroup (db_tmp_batch db) writers;
            updates \<leftarrow> wb_SetSequence updates (last_sequence + 1);
            count \<leftarrow> wb_Count updates;
            let last_sequence = last_sequence + of_int count;
            (status, db) \<leftarrow> log_and_apply wfile sync_file (wr_sync w) updates db;
            let db = (if is_tmp then db\<lparr>db_tmp_batch := wb_Clear (db_tmp_batch db)\<rparr> else db);
            Some (status, n, db\<lparr>db_last_sequence := last_sequence\<rparr>)
          }
          else Some (status, 0, db))"

subsection \<open>\<open>RecoverLogFile\<close>\<close>

text \<open>The options, the test for a full memtable, and \<open>WriteLevel0Table\<close> on the state of the tables.\<close>

record 'v recovery =
  ro_comparator :: comparator
  ro_paranoid_checks :: bool
  ro_reuse_logs :: bool
  ro_full :: "memtable \<Rightarrow> bool"
  ro_WriteLevel0Table :: "memtable \<Rightarrow> 'v \<Rightarrow> Status \<times> 'v"

record 'v rec_vars =
  rv_status :: Status
  rv_mem :: "memtable option"
  rv_compactions :: int
  rv_max_sequence :: u64
  rv_save_manifest :: bool
  rv_tables :: 'v

definition MaybeIgnoreError :: "bool \<Rightarrow> Status \<Rightarrow> Status" where
  "MaybeIgnoreError paranoid_checks s = (if status_ok s \<or> paranoid_checks then s else OK)"

text \<open>\<open>LogReporter::Corruption\<close> on the reports of a call: the first one sets the status.\<close>

definition report_status :: "bool \<Rightarrow> (u64 \<times> Status) list \<Rightarrow> Status \<Rightarrow> Status" where
  "report_status paranoid_checks reports status =
     foldl (\<lambda>status (bytes, s). if paranoid_checks \<and> status_ok status then s else status) status reports"

text \<open>A record of at least 12 bytes; True when the loop is left.\<close>

definition recover_record :: "'v recovery \<Rightarrow> byte list \<Rightarrow> 'v rec_vars \<Rightarrow> (bool \<times> 'v rec_vars) option" where
  "recover_record ro record st = do {
     batch \<leftarrow> wb_SetContents new_WriteBatch record;
     let mem = (case rv_mem st of None \<Rightarrow> mt_Ref (new_MemTable (ro_comparator ro)) | Some mem \<Rightarrow> mem);
     (status, mem) \<leftarrow> InsertInto batch mem;
     let st = st\<lparr>rv_status := MaybeIgnoreError (ro_paranoid_checks ro) status, rv_mem := Some mem\<rparr>;
     if \<not> status_ok (rv_status st) then Some (True, st)
     else do {
       s \<leftarrow> wb_Sequence batch;
       n \<leftarrow> wb_Count batch;
       let last_seq = s + of_int n - 1;
       let st = (if last_seq > rv_max_sequence st then st\<lparr>rv_max_sequence := last_seq\<rparr> else st);
       if ro_full ro mem then
         (case ro_WriteLevel0Table ro mem (rv_tables st) of
            (status, tables) \<Rightarrow>
              Some (\<not> status_ok status,
                st\<lparr>rv_compactions := rv_compactions st + 1, rv_save_manifest := True, rv_status := status,
                   rv_tables := tables, rv_mem := None\<rparr>))
       else Some (False, st)
     }
   }"

partial_function (option) recover_loop ::
  "'f sequential_file \<Rightarrow> 'v recovery \<Rightarrow> 'f log_reader \<Rightarrow> byte list \<Rightarrow> byte list \<Rightarrow> 'v rec_vars \<Rightarrow>
   ('v rec_vars \<times> 'f log_reader) option" where
  "recover_loop q ro r record scratch st =
     (case ReadRecord q r record scratch of
        None \<Rightarrow> None
      | Some (ok, record, scratch, r1) \<Rightarrow>
          let st = st\<lparr>rv_status := report_status (ro_paranoid_checks ro)
                 (drop (length (lr_reports r)) (lr_reports r1)) (rv_status st)\<rparr>
          in if \<not> (ok \<and> status_ok (rv_status st)) then Some (st, r1)
             else if length record < 12 then
               let report = (of_nat (length record), Corruption ''log record too small'' [])
               in recover_loop q ro (r1\<lparr>lr_reports := lr_reports r1 @ [report]\<rparr>) record scratch
                    (st\<lparr>rv_status := report_status (ro_paranoid_checks ro) [report] (rv_status st)\<rparr>)
             else
               (case recover_record ro record st of
                  None \<Rightarrow> None
                | Some (stop, st) \<Rightarrow> if stop then Some (st, r1) else recover_loop q ro r1 record scratch st))"

text \<open>\<open>opened\<close> is the result of \<open>NewSequentialFile\<close>; \<open>reopened\<close> is the log writer at the end of the same
  file, None when \<open>GetFileSize\<close> or \<open>NewAppendableFile\<close> fails. The second result is what \<open>log_\<close> and
  \<open>mem_\<close> are set to when the log is used further.\<close>

definition RecoverLogFile ::
  "'f sequential_file \<Rightarrow> 'v recovery \<Rightarrow> Status \<times> 'f \<Rightarrow> 'w log_writer option \<Rightarrow> bool \<Rightarrow> u64 \<Rightarrow> bool \<Rightarrow> 'v \<Rightarrow>
   ('v rec_vars \<times> ('w log_writer \<times> memtable) option) option" where
  "RecoverLogFile q ro opened reopened last_log max_sequence save_manifest tables =
     (let st = \<lparr>rv_status = fst opened, rv_mem = None, rv_compactions = 0, rv_max_sequence = max_sequence,
                rv_save_manifest = save_manifest, rv_tables = tables\<rparr>
      in if \<not> status_ok (fst opened)
         then Some (st\<lparr>rv_status := MaybeIgnoreError (ro_paranoid_checks ro) (fst opened)\<rparr>, None)
         else do {
           (st, r) \<leftarrow> recover_loop q ro (log_Reader (snd opened) True True 0) [] [] st;
           let (st, reused) =
             (if status_ok (rv_status st) \<and> ro_reuse_logs ro \<and> last_log \<and> rv_compactions st = 0 then
                (case reopened of
                   None \<Rightarrow> (st, None)
                 | Some log \<Rightarrow>
                     (st\<lparr>rv_mem := None\<rparr>,
                      Some (log, case rv_mem st of Some mem \<Rightarrow> mem | None \<Rightarrow> mt_Ref (new_MemTable (ro_comparator ro)))))
              else (st, None));
           Some (case rv_mem st of
              None \<Rightarrow> (st, reused)
            | Some mem \<Rightarrow>
                if status_ok (rv_status st) then
                  (case ro_WriteLevel0Table ro mem (rv_tables st) of
                     (status, tables) \<Rightarrow>
                       (st\<lparr>rv_save_manifest := True, rv_status := status, rv_tables := tables, rv_mem := None\<rparr>, reused))
                else (st\<lparr>rv_mem := None\<rparr>, reused))
         })"

end
