(* ===== verification/LdbMemTableProps.thy ===== *)
theory LdbMemTableProps
  imports LdbMemTable
begin

section \<open>What memtables and write batches hold\<close>

text \<open>
  The entries of a memtable are the keys of a skip list, so by \<open>skip_abs_step\<close> a lookup stops at
  the first entry in order that is not below the wanted internal key; \<open>seek_newest\<close> says which
  write that is. A batch is read back as the operations that were put into it, and inserted
  into a memtable it adds them under consecutive sequence numbers.
\<close>

subsection \<open>Entries\<close>

lemma length_varint32: "length (EncodeVarint32 v) \<le> 5"
  by (simp add: EncodeVarint32_def)

lemma varint32_at_encode [simp]: "varint32_at (EncodeVarint32 v @ rest) = Some (v, rest)"
proof -
  have "take 5 (EncodeVarint32 v @ rest) = EncodeVarint32 v @ take (5 - length (EncodeVarint32 v)) rest"
    using length_varint32 [of v] by simp
  then show ?thesis using length_varint32 [of v] by (simp add: varint32_at_def GetVarint32Ptr_encode)
qed

lemma prefixed_at [simp]:
  "length k < 2 ^ 32 \<Longrightarrow> mem_GetLengthPrefixedSlice (EncodeVarint32 (of_nat (length k)) @ k @ rest) = Some k"
  by (simp add: mem_GetLengthPrefixedSlice_def unat_of_nat)

lemma InternalKey_eq: "InternalKey k s t = k @ EncodeFixed64 (push_bit 8 s OR type_code t)"
  by (simp add: InternalKey_def AppendInternalKey_eq PackSequenceAndType_def)

lemma InternalKey_parts [simp]:
  "length (InternalKey k s t) = length k + 8" "ExtractUserKey (InternalKey k s t) = k"
  "key_number (InternalKey k s t) = PackSequenceAndType s t"
  by (simp_all add: InternalKey_def AppendInternalKey_eq)

lemma mem_entry_eq: "mem_entry s t k v =
    EncodeVarint32 (of_nat (length (InternalKey k s t))) @ InternalKey k s t @ EncodeVarint32 (of_nat (length v)) @ v"
  by (simp only: InternalKey_parts) (simp add: mem_entry_def InternalKey_eq)

lemma entry_key: "length k + 8 < 2 ^ 32 \<Longrightarrow> mem_GetLengthPrefixedSlice (mem_entry s t k v) = Some (InternalKey k s t)"
  unfolding mem_entry_eq by (rule prefixed_at) simp

lemma lookup_key:
  "memtable_key (make_LookupKey k s) = EncodeVarint32 (of_nat (length (InternalKey k s kTypeValue))) @ InternalKey k s kTypeValue @ []"
  "lookup_user_key (make_LookupKey k s) = k"
  by (simp_all only: InternalKey_parts)
    (simp_all add: memtable_key_def make_LookupKey_def Let_def InternalKey_eq PackSequenceAndType_def
      kValueTypeForSeek_def lookup_user_key_def)

lemma memtable_key_slice: "length k + 8 < 2 ^ 32 \<Longrightarrow>
    mem_GetLengthPrefixedSlice (memtable_key (make_LookupKey k s)) = Some (InternalKey k s kTypeValue)"
  unfolding lookup_key(1) by (rule prefixed_at) simp

definition valid_entry :: "(byte list \<Rightarrow> bool) \<Rightarrow> byte list \<Rightarrow> bool" where
  "valid_entry valid e \<longleftrightarrow> (\<exists>k. mem_GetLengthPrefixedSlice e = Some k \<and> valid_ikey valid k)"

context comparator_laws begin

text \<open>The order of the entries is an order of keys for the skip list.\<close>

lemma entry_order: "key_order (mem_compare c) (valid_entry valid)"
proof -
  have o: "key_order (ikey_Compare c) (valid_ikey valid)"
    using comparator_laws.key_order_compare [OF ikey_laws] by simp
  show ?thesis
  proof
    fix a b d
    assume "valid_entry valid a" "valid_entry valid b"
    then obtain x y where a: "mem_GetLengthPrefixedSlice a = Some x" "valid_ikey valid x"
      and b: "mem_GetLengthPrefixedSlice b = Some y" "valid_ikey valid y"
      by (auto simp: valid_entry_def)
    show "mem_compare c a b < 0 \<longleftrightarrow> mem_compare c b a > 0"
      unfolding mem_compare_def a(1) b(1) option.case prod.case by (rule key_order.key_swap [OF o a(2) b(2)])
    assume "valid_entry valid d"
    then obtain z where d: "mem_GetLengthPrefixedSlice d = Some z" "valid_ikey valid z"
      by (auto simp: valid_entry_def)
    show "mem_compare c a b < 0 \<Longrightarrow> mem_compare c b d \<le> 0 \<Longrightarrow> mem_compare c a d < 0"
      unfolding mem_compare_def a(1) b(1) d(1) option.case prod.case by (rule key_order.key_trans [OF o a(2) b(2) d(2)])
    show "mem_compare c a b \<le> 0 \<Longrightarrow> mem_compare c b d < 0 \<Longrightarrow> mem_compare c a d < 0"
      unfolding mem_compare_def a(1) b(1) d(1) option.case prod.case by (rule key_order.key_trans' [OF o a(2) b(2) d(2)])
  qed
qed

end

subsection \<open>Tables\<close>

text \<open>A write: sequence number, type, key and value.\<close>

type_synonym mem_write = "u64 \<times> ValueType \<times> byte list \<times> byte list"

fun write_entry :: "mem_write \<Rightarrow> byte list" where
  "write_entry (s, t, k, v) = mem_entry s t k v"

fun write_fits :: "(byte list \<Rightarrow> bool) \<Rightarrow> mem_write \<Rightarrow> bool" where
  "write_fits valid (s, t, k, v) \<longleftrightarrow> valid k \<and> length k + 8 < 2 ^ 32 \<and> length v < 2 ^ 32 \<and> s \<le> kMaxSequenceNumber"

fun write_seq :: "mem_write \<Rightarrow> u64" where
  "write_seq (s, t, k, v) = s"

fun mt_Adds :: "memtable \<Rightarrow> mem_write list \<Rightarrow> memtable option" where
  "mt_Adds m [] = Some m"
| "mt_Adds m ((s, t, k, v) # ws) = Option.bind (mt_Add m s t k v) (\<lambda>m. mt_Adds m ws)"

text \<open>The newest write of a key that a snapshot sees.\<close>

definition newest :: "comparator \<Rightarrow> byte list \<Rightarrow> u64 \<Rightarrow> mem_write list \<Rightarrow> mem_write option" where
  "newest u k s ws = find (\<lambda>(s', t, k', v). s' \<le> s \<and> cmp_Compare u k' k = 0) (rev ws)"

lemma skip_abs_sorted: "skip_abs cmp valid cs (ks, cur) \<Longrightarrow> sorted_wrt (\<lambda>a b. cmp a b < 0) ks"
  by (auto simp: skip_abs_def skip_inv_def sorted_wrt_map)

definition mem_abs :: "comparator \<Rightarrow> (byte list \<Rightarrow> bool) \<Rightarrow> memtable \<Rightarrow> mem_write list \<Rightarrow> bool" where
  "mem_abs u valid m ws \<longleftrightarrow> mt_user_comparator m = u \<and> (\<forall>w \<in> set ws. write_fits valid w) \<and>
     sorted_wrt (\<lambda>x y. write_seq x < write_seq y) ws \<and>
     (\<exists>ks. skip_abs (mem_compare u) (valid_entry valid) (mt_table m, None) (ks, None) \<and> set ks = write_entry ` set ws)"

lemma seq_fits: "s \<le> kMaxSequenceNumber \<Longrightarrow> unat s < 2 ^ 56"
  by (simp add: kMaxSequenceNumber_def word_le_nat_alt)

lemma pack_less:
  assumes "s \<le> kMaxSequenceNumber" "s' \<le> kMaxSequenceNumber"
  shows "s < s' \<Longrightarrow> PackSequenceAndType s t < PackSequenceAndType s' t'"
    and "PackSequenceAndType s t \<le> PackSequenceAndType s' kTypeValue \<longleftrightarrow> s \<le> s'"
proof -
  have t: "unat (type_code t) \<le> 1" for t by (cases t) simp_all
  show "PackSequenceAndType s t < PackSequenceAndType s' t'" if "s < s'"
    using that t [of t] t [of t'] assms [THEN seq_fits] by (simp add: word_less_nat_alt pack_sum)
  show "PackSequenceAndType s t \<le> PackSequenceAndType s' kTypeValue \<longleftrightarrow> s \<le> s'"
    using t [of t] assms [THEN seq_fits] by (simp add: word_le_nat_alt pack_sum) linarith
qed

lemma find_latest:
  assumes "sorted_wrt (\<lambda>x y. write_seq x < write_seq y) ws" "w \<in> set ws" "P w"
    "\<And>y. y \<in> set ws \<Longrightarrow> P y \<Longrightarrow> write_seq y \<le> write_seq w"
  shows "find P (rev ws) = Some w"
  using assms
proof (induction ws rule: rev_induct)
  case (snoc x ws)
  show ?case
  proof (cases "w = x")
    case False
    then have "w \<in> set ws" "write_seq w < write_seq x" using snoc.prems(1,2) by (auto simp: sorted_wrt_append)
    moreover then have "\<not> P x" using snoc.prems(4) [of x] by force
    ultimately show ?thesis using snoc by (auto simp: sorted_wrt_append)
  qed (use snoc.prems(3) in simp)
qed simp

lemma write_valid: "write_fits valid w \<Longrightarrow> valid_entry valid (write_entry w)"
  by (cases w) (auto simp: valid_entry_def entry_key valid_ikey_def)

lemma entry_compare:
  assumes "length k + 8 < 2 ^ 32" "length k' + 8 < 2 ^ 32"
  shows "mem_compare u (mem_entry s t k v) (mem_entry s' t' k' v') = ikey_Compare u (InternalKey k s t) (InternalKey k' s' t')"
    and "mem_compare u (mem_entry s t k v) (memtable_key (make_LookupKey k' s')) =
      ikey_Compare u (InternalKey k s t) (InternalKey k' s' kTypeValue)"
  using assms by (simp_all add: mem_compare_def entry_key memtable_key_slice)

context comparator_laws begin

lemma new_mem_abs: "mem_abs c valid (new_MemTable c) []"
  using key_order.new_abs [OF entry_order, of "[]"]
  unfolding mem_abs_def by (auto simp: new_MemTable_def)

lemma Add_abs:
  assumes abs: "mem_abs c valid m ws" and fits: "write_fits valid (s, t, k, v)" and new: "\<forall>w \<in> set ws. write_seq w < s"
  shows "\<exists>m'. mt_Add m s t k v = Some m' \<and> mem_abs c valid m' (ws @ [(s, t, k, v)])"
proof -
  let ?e = "mem_entry s t k v" and ?cmp = "mem_compare c"
  obtain ks where ks: "skip_abs ?cmp (valid_entry valid) (mt_table m, None) (ks, None)" "set ks = write_entry ` set ws"
    and m: "mt_user_comparator m = c" "\<forall>w \<in> set ws. write_fits valid w" "sorted_wrt (\<lambda>x y. write_seq x < write_seq y) ws"
    using abs by (auto simp: mem_abs_def)
  have differ: "\<not> (\<exists>a \<in> set ks. ?cmp ?e a = 0)"
  proof
    assume "\<exists>a \<in> set ks. ?cmp ?e a = 0"
    then obtain s' t' k' v' where w: "(s', t', k', v') \<in> set ws" and z: "?cmp ?e (mem_entry s' t' k' v') = 0"
      using ks(2) by (fastforce elim: write_entry.elims)
    have w': "write_fits valid (s', t', k', v')" "s' < s" using m(2) new w by fastforce+
    have "PackSequenceAndType s' t' < PackSequenceAndType s t"
      by (rule pack_less(1)) (use fits w' in auto)
    with z fits w' show False by (simp add: entry_compare ikey_zero_iff)
  qed
  let ?ks = "takeWhile (\<lambda>a. ?cmp a ?e < 0) ks @ ?e # dropWhile (\<lambda>a. ?cmp a ?e < 0) ks"
  have "valid_entry valid ?e" using write_valid [OF fits] by simp
  with key_order.skip_abs_step [OF entry_order ks(1), of "Insert ?e"] differ
  obtain cs where cs: "skip_step (Insert ?e) (mt_table m, None) = Some (cs, None)"
    "skip_abs ?cmp (valid_entry valid) cs (?ks, None)"
    by (auto split: if_splits)
  then obtain sl where sl: "sl_Insert (mt_table m) ?e = Some sl" "cs = (sl, None)" by auto
  have "set (A @ e # B) = insert e (set (A @ B))" for A B and e :: "byte list" by auto
  then have "set ?ks = insert ?e (set ks)" by (simp only: takeWhile_dropWhile_id)
  then have "set ?ks = write_entry ` set (ws @ [(s, t, k, v)])" using ks(2) by simp
  then have "mem_abs c valid (m\<lparr>mt_table := sl\<rparr>) (ws @ [(s, t, k, v)])"
    unfolding mem_abs_def using cs(2) sl(2) m fits new
    by (intro conjI exI [of _ ?ks]) (simp_all add: sorted_wrt_append del: write_fits.simps)
  with sl(1) show ?thesis by (simp add: mt_Add_def)
qed

lemma Adds_abs:
  assumes "mem_abs c valid m ws" "\<forall>w \<in> set ws'. write_fits valid w"
    "sorted_wrt (\<lambda>x y. write_seq x < write_seq y) (ws @ ws')"
  shows "\<exists>m'. mt_Adds m ws' = Some m' \<and> mem_abs c valid m' (ws @ ws')"
  using assms
proof (induction ws' arbitrary: m ws)
  case (Cons w ws')
  obtain s t k v where w: "w = (s, t, k, v)" by (cases w)
  obtain m' where m': "mt_Add m s t k v = Some m'" "mem_abs c valid m' (ws @ [w])"
    using Add_abs [OF Cons.prems(1), of s t k v] Cons.prems(2,3) by (auto simp: w sorted_wrt_append)
  with Cons.IH [OF m'(2)] Cons.prems(2,3) show ?case by (auto simp: w)
qed auto

text \<open>Where a search for a key at a snapshot stops, on the sorted entries.\<close>

lemma seek_newest:
  assumes fits: "\<forall>w \<in> set ws. write_fits valid w" and ws: "sorted_wrt (\<lambda>x y. write_seq x < write_seq y) ws"
    and ks: "set ks = write_entry ` set ws" "sorted_wrt (\<lambda>a b. mem_compare c a b < 0) ks"
    and k: "valid k" "length k + 8 < 2 ^ 32" "s \<le> kMaxSequenceNumber"
  defines "b \<equiv> first (dropWhile (\<lambda>a. mem_compare c a (memtable_key (make_LookupKey k s)) < 0) ks)"
  shows "case b of
      None \<Rightarrow> newest c k s ws = None
    | Some e \<Rightarrow> \<exists>s' t' k' v'. (s', t', k', v') \<in> set ws \<and> e = mem_entry s' t' k' v' \<and>
        newest c k s ws = (if cmp_Compare c k' k = 0 then Some (s', t', k', v') else None)"
proof -
  let ?hit = "\<lambda>(s', t, k', v). s' \<le> s \<and> cmp_Compare c k' k = 0"
  let ?lk = "memtable_key (make_LookupKey k s)"
  define A B where AB: "A = takeWhile (\<lambda>a. mem_compare c a ?lk < 0) ks" "B = dropWhile (\<lambda>a. mem_compare c a ?lk < 0) ks"
  then have split: "ks = A @ B" by simp
  have low: "\<forall>a \<in> set A. mem_compare c a ?lk < 0" by (auto simp: AB dest: set_takeWhileD)
  have hit_B: "mem_entry s' t' k' v' \<in> set B" if "(s', t', k', v') \<in> set ws" "?hit (s', t', k', v')" for s' t' k' v'
  proof -
    have "\<not> mem_compare c (mem_entry s' t' k' v') ?lk < 0"
      using that fits k pack_less(2) [of s' s t'] by (auto simp: entry_compare ikey_less_iff)
    moreover have "mem_entry s' t' k' v' \<in> set A \<union> set B" using that(1) ks(1) split by force
    ultimately show ?thesis using low by blast
  qed
  show ?thesis
  proof (cases B)
    case Nil
    then have "\<not> (\<exists>w. w \<in> set ws \<and> ?hit w)" using hit_B by fastforce
    then have "newest c k s ws = None" unfolding newest_def find_None_iff set_rev .
    then show ?thesis using Nil by (simp add: b_def AB(2) [symmetric])
  next
    case (Cons e B')
    have "e \<in> set ks" using Cons split by simp
    then obtain s' t' k' v' where e: "(s', t', k', v') \<in> set ws" "e = mem_entry s' t' k' v'"
      using ks(1) by (fastforce elim: write_entry.elims)
    have fit: "valid k'" "length k' + 8 < 2 ^ 32" "s' \<le> kMaxSequenceNumber" using fits e(1) by fastforce+
    have not_low: "\<not> mem_compare c e ?lk < 0"
      using hd_dropWhile [of "\<lambda>a. mem_compare c a ?lk < 0" ks] unfolding AB(2) [symmetric] Cons list.sel by blast
    have first: "mem_compare c e x < 0" if "x \<in> set B" "x \<noteq> e" for x
      using ks(2) that by (auto simp: split Cons sorted_wrt_append)
    have "newest c k s ws = (if cmp_Compare c k' k = 0 then Some (s', t', k', v') else None)"
    proof (cases "cmp_Compare c k' k = 0")
      case True
      have "s' \<le> s"
        using not_low True fit k pack_less(2) [of s' s t'] by (auto simp: e(2) entry_compare ikey_less_iff)
      moreover have "s2 \<le> s'" if y: "(s2, t2, k2, v2) \<in> set ws" "?hit (s2, t2, k2, v2)" for s2 t2 k2 v2
      proof (rule ccontr)
        assume "\<not> s2 \<le> s'"
        have fit2: "valid k2" "length k2 + 8 < 2 ^ 32" "s2 \<le> kMaxSequenceNumber" using fits y(1) by fastforce+
        have less: "PackSequenceAndType s' t' < PackSequenceAndType s2 t2"
          by (rule pack_less(1)) (use \<open>\<not> s2 \<le> s'\<close> fit fit2 in auto)
        have "cmp_Compare c k k2 = 0" using compare_swap_eq [OF fit2(1) k(1)] y(2) by simp
        then have "cmp_Compare c k' k2 = 0" by (rule compare_eq_trans [OF fit(1) k(1) fit2(1) True])
        then have "\<not> mem_compare c e (mem_entry s2 t2 k2 v2) < 0"
          using less fit fit2 by (simp add: e(2) entry_compare ikey_less_iff)
        then have "mem_entry s2 t2 k2 v2 = e" using first hit_B [OF y] by blast
        then have "InternalKey k2 s2 t2 = InternalKey k' s' t'"
          using entry_key [OF fit(2)] entry_key [OF fit2(2)] e(2) by (metis option.inject)
        then show False using less InternalKey_parts(3) by (metis less_irrefl)
      qed
      ultimately have "newest c k s ws = Some (s', t', k', v')"
        unfolding newest_def using True e(1) by (intro find_latest [OF ws]) auto
      then show ?thesis using True by simp
    next
      case False
      then have above: "cmp_Compare c k' k > 0"
        using not_low fit k by (auto simp: e(2) entry_compare ikey_less_iff)
      have "\<not> ?hit (s2, t2, k2, v2)" if y: "(s2, t2, k2, v2) \<in> set ws" for s2 t2 k2 v2
      proof
        assume hit: "?hit (s2, t2, k2, v2)"
        have fit2: "valid k2" "length k2 + 8 < 2 ^ 32" using fits y by fastforce+
        have "cmp_Compare c k' k2 \<le> 0"
        proof (cases "mem_entry s2 t2 k2 v2 = e")
          case True
          then have "InternalKey k2 s2 t2 = InternalKey k' s' t'"
            using entry_key [OF fit(2)] entry_key [OF fit2(2)] e(2) by (metis option.inject)
          then have "k2 = k'" using InternalKey_parts(2) by metis
          then show ?thesis using compare_refl [OF fit(1)] by simp
        next
          case False
          then show ?thesis using first [OF hit_B [OF y hit]] fit fit2
            by (auto simp: e(2) entry_compare ikey_less_iff)
        qed
        then have "cmp_Compare c k' k \<le> 0" using compare_trans [OF fit(1) fit2(1) k(1)] hit by simp
        with above show False by simp
      qed
      then have "\<not> (\<exists>w. w \<in> set ws \<and> ?hit w)" by auto
      then have "newest c k s ws = None" unfolding newest_def find_None_iff set_rev .
      then show ?thesis using False by simp
    qed
    then show ?thesis using e Cons by (auto simp: b_def AB(2) [symmetric])
  qed
qed

lemma Get_newest:
  assumes abs: "mem_abs c valid m ws" and k: "valid k" "length k + 8 < 2 ^ 32" "s \<le> kMaxSequenceNumber"
  shows "mt_Get m (make_LookupKey k s) val st = Some (case newest c k s ws of
      None \<Rightarrow> (False, val, st)
    | Some (s', t, k', v) \<Rightarrow> (case t of kTypeValue \<Rightarrow> (True, v, st) | kTypeDeletion \<Rightarrow> (True, val, NotFound [] [])))"
proof -
  let ?lk = "memtable_key (make_LookupKey k s)"
  obtain ks where ks: "skip_abs (mem_compare c) (valid_entry valid) (mt_table m, None) (ks, None)" "set ks = write_entry ` set ws"
    and m: "mt_user_comparator m = c" "\<forall>w \<in> set ws. write_fits valid w" "sorted_wrt (\<lambda>x y. write_seq x < write_seq y) ws"
    using abs by (auto simp: mem_abs_def)
  have "valid_entry valid ?lk" using k by (simp add: valid_entry_def memtable_key_slice valid_ikey_def)
  with key_order.skip_abs_step [OF entry_order ks(1), of "SkSeek ?lk"]
  obtain node where node: "sl_Seek (mt_table m) ?lk = Some node"
    and key: "sl_iter_key (mt_table m) node = first (dropWhile (\<lambda>a. mem_compare c a ?lk < 0) ks)"
    by (auto simp: skip_abs_def sl_iter_key_def)
  note seek = seek_newest [OF m(2,3) ks(2) skip_abs_sorted [OF ks(1)] k, folded key]
  show ?thesis
  proof (cases node)
    case None
    then show ?thesis using node seek by (simp add: mt_Get_def sl_Valid_def sl_iter_key_def)
  next
    case (Some n)
    then obtain e where e: "sl_iter_key (mt_table m) node = Some e" by (simp add: sl_iter_key_def)
    obtain s' t' k' v' where w: "(s', t', k', v') \<in> set ws" "e = mem_entry s' t' k' v'"
      and new: "newest c k s ws = (if cmp_Compare c k' k = 0 then Some (s', t', k', v') else None)"
      using seek e by auto
    have fit: "length k' + 8 < 2 ^ 32" "length v' < 2 ^ 32" "s' \<le> kMaxSequenceNumber" using m(2) w(1) by fastforce+
    define L where "L = (of_nat (length k' + 8) :: u32)"
    define p where "p = InternalKey k' s' t' @ EncodeVarint32 (of_nat (length v')) @ v'"
    have L: "unat L = length k' + 8" unfolding L_def using fit(1) by (simp only: unat_of_nat) simp
    have L8: "unat (L - 8) = length k'" using L fit(1) by (simp add: unat_sub word_le_nat_alt)
    have at: "varint32_at e = Some (L, p)"
      unfolding w(2) mem_entry_eq InternalKey_parts(1) L_def p_def by (rule varint32_at_encode)
    have p: "take (length k') p = k'" "DecodeFixed64 (drop (length k') p) = Some (PackSequenceAndType s' t')"
      "mem_GetLengthPrefixedSlice (drop (length k' + 8) p) = Some v'"
      using prefixed_at [OF fit(2), of "[]"] by (simp_all add: p_def InternalKey_eq PackSequenceAndType_def)
    note tg = pack_parts(1) [OF seq_fits [OF fit(3)], of t']
    show ?thesis
      unfolding mt_Get_def node e Some sl_Valid_def new
      using e Some tg
      by (cases t') (simp_all add: at L L8 p m(1) lookup_key(2))
  qed
qed

end

subsection \<open>Batches\<close>

datatype batch_op = BPut "byte list" "byte list" | BDelete "byte list"

fun batch_op_fits :: "batch_op \<Rightarrow> bool" where
  "batch_op_fits (BPut k v) \<longleftrightarrow> length k < 2 ^ 32 \<and> length v < 2 ^ 32"
| "batch_op_fits (BDelete k) \<longleftrightarrow> length k < 2 ^ 32"

text \<open>The operations on a batch, and on a handler.\<close>

fun wb_apply :: "batch_op \<Rightarrow> byte list \<Rightarrow> byte list option" where
  "wb_apply (BPut k v) rep = wb_Put rep k v"
| "wb_apply (BDelete k) rep = wb_Delete rep k"

fun wb_build :: "batch_op list \<Rightarrow> byte list \<Rightarrow> byte list option" where
  "wb_build [] rep = Some rep"
| "wb_build (x # xs) rep = Option.bind (wb_apply x rep) (wb_build xs)"

fun run_handler :: "'h wb_handler \<Rightarrow> batch_op list \<Rightarrow> 'h \<Rightarrow> 'h option" where
  "run_handler h [] st = Some st"
| "run_handler h (BPut k v # xs) st = Option.bind (h_Put h k v st) (run_handler h xs)"
| "run_handler h (BDelete k # xs) st = Option.bind (h_Delete h k st) (run_handler h xs)"

fun op_bytes :: "batch_op \<Rightarrow> byte list" where
  "op_bytes (BPut k v) = 1 # PutLengthPrefixedSlice [] k @ PutLengthPrefixedSlice [] v"
| "op_bytes (BDelete k) = 0 # PutLengthPrefixedSlice [] k"

definition batch_rep :: "u64 \<Rightarrow> batch_op list \<Rightarrow> byte list" where
  "batch_rep s ops = EncodeFixed64 s @ EncodeFixed32 (of_nat (length ops)) @ concat (map op_bytes ops)"

lemma new_batch: "new_WriteBatch = batch_rep 0 []"
  by code_simp

lemma batch_count: "wb_Count (batch_rep s ops) = Some (sint (of_nat (length ops) :: u32))"
  by (simp add: wb_Count_def batch_rep_def)

lemma batch_set_count:
  "wb_SetCount (EncodeFixed64 s @ EncodeFixed32 m @ r) n = Some (EncodeFixed64 s @ EncodeFixed32 (of_int n) @ r)"
  by (simp add: wb_SetCount_def overwrite_def)

lemma batch_sequence:
  "wb_Sequence (batch_rep s ops) = Some s" "wb_SetSequence (batch_rep s ops) s' = Some (batch_rep s' ops)"
  by (simp_all add: wb_Sequence_def wb_SetSequence_def batch_rep_def overwrite_def)

lemma batch_apply: "wb_apply x (batch_rep s ops) = Some (batch_rep s (ops @ [x]))"
proof -
  have n: "of_int (sint (of_nat (length ops) :: u32) + 1) = (of_nat (length (ops @ [x])) :: u32)" by simp
  show ?thesis
    by (cases x) (simp_all add: wb_Put_def wb_Delete_def batch_count,
      simp_all add: batch_rep_def batch_set_count n add.commute PutLengthPrefixedSlice_def PutVarint32_def)
qed

lemma batch_build: "wb_build xs (batch_rep s ops) = Some (batch_rep s (ops @ xs))"
  by (induction xs arbitrary: ops) (simp_all add: batch_apply)

lemma batch_append: "wb_Append (batch_rep s ops) (batch_rep s' ops') = Some (batch_rep s (ops @ ops'))"
proof -
  have "of_int (sint (of_nat (length ops) :: u32) + sint (of_nat (length ops') :: u32)) =
      (of_nat (length (ops @ ops')) :: u32)" by simp
  then show ?thesis
    unfolding wb_Append_def batch_count by (simp add: batch_rep_def batch_set_count kHeader_def)
qed

lemma batch_records:
  "\<forall>x \<in> set ops. batch_op_fits x \<Longrightarrow>
    wb_records h (concat (map op_bytes ops)) n st = map_option (\<lambda>st. (OK, n + length ops, st)) (run_handler h ops st)"
proof (induction ops arbitrary: n st)
  case (Cons x ops)
  then show ?case
    by (cases x) (simp_all split: option.split bind_splits)
qed simp

lemma batch_iterate:
  assumes "\<forall>x \<in> set ops. batch_op_fits x" "length ops < 2 ^ 31"
  shows "wb_Iterate h (batch_rep s ops) st = map_option (Pair OK) (run_handler h ops st)"
proof -
  have "sint (of_nat (length ops) :: u32) = int (length ops)"
    by (rule sint_index [OF assms(2)])
  moreover have "remove_prefix kHeader (batch_rep s ops) = concat (map op_bytes ops)"
    by (simp add: remove_prefix_def kHeader_def batch_rep_def)
  moreover have "\<not> length (batch_rep s ops) < kHeader" by (simp add: kHeader_def batch_rep_def)
  ultimately show ?thesis using batch_records [OF assms(1), of h 0 st]
    by (simp add: wb_Iterate_def batch_count split: option.split)
qed

text \<open>The writes of a batch that starts at a sequence number.\<close>

fun batch_writes :: "u64 \<Rightarrow> batch_op list \<Rightarrow> mem_write list" where
  "batch_writes s [] = []"
| "batch_writes s (BPut k v # xs) = (s, kTypeValue, k, v) # batch_writes (s + 1) xs"
| "batch_writes s (BDelete k # xs) = (s, kTypeDeletion, k, []) # batch_writes (s + 1) xs"

lemma inserter:
  "h_Put MemTableInserter k v (s, m) = map_option (Pair (s + 1)) (mt_Add m s kTypeValue k v)"
  "h_Delete MemTableInserter k (s, m) = map_option (Pair (s + 1)) (mt_Add m s kTypeDeletion k [])"
  by (simp_all add: MemTableInserter_def)

lemma run_inserter:
  "run_handler MemTableInserter ops (s, m) = map_option (Pair (s + of_nat (length ops))) (mt_Adds m (batch_writes s ops))"
  by (induction s ops arbitrary: m rule: batch_writes.induct)
    (auto simp: inserter algebra_simps split: bind_splits)

lemma batch_insert:
  assumes "\<forall>x \<in> set ops. batch_op_fits x" "length ops < 2 ^ 31"
  shows "InsertInto (batch_rep s ops) m = map_option (Pair OK) (mt_Adds m (batch_writes s ops))"
  by (simp add: InsertInto_def batch_sequence batch_iterate [OF assms] run_inserter split: bind_splits option.split)

subsection \<open>The properties\<close>

text \<open>C13. A memtable is a multi-version map: after any writes under rising sequence numbers, a lookup
  of a key at a snapshot finds the newest write of that key which the snapshot sees, its value or,
  for a deletion, the status NotFound; without such a write it finds nothing. This holds for every
  user comparator that satisfies the laws of the interface.\<close>

theorem memtable_get:
  assumes "comparator_laws u valid" "\<forall>w \<in> set ws. write_fits valid w"
    and "sorted_wrt (\<lambda>x y. write_seq x < write_seq y) ws"
    and "valid k" "length k + 8 < 2 ^ 32" "s \<le> kMaxSequenceNumber"
  shows "\<exists>m. mt_Adds (new_MemTable u) ws = Some m \<and>
    mt_Get m (make_LookupKey k s) val st = Some (case newest u k s ws of
      None \<Rightarrow> (False, val, st)
    | Some (s', t, k', v) \<Rightarrow> (case t of kTypeValue \<Rightarrow> (True, v, st) | kTypeDeletion \<Rightarrow> (True, val, NotFound [] [])))"
proof -
  note laws = assms(1)
  obtain m where "mt_Adds (new_MemTable u) ws = Some m" "mem_abs u valid m ws"
    using comparator_laws.Adds_abs [OF laws comparator_laws.new_mem_abs [OF laws]] assms(2,3) by fastforce
  with comparator_laws.Get_newest [OF laws _ assms(4-6)] show ?thesis by blast
qed

text \<open>The key \<open>[1]\<close> is written, overwritten and deleted.\<close>

definition sample_writes :: "mem_write list" where
  "sample_writes = [(3, kTypeValue, [1], [7]), (4, kTypeValue, [2], [8]), (5, kTypeValue, [1], [9]), (6, kTypeDeletion, [1], [])]"

lemma memtable_get_witness:
  "\<exists>m. mt_Adds (new_MemTable BytewiseComparator) sample_writes = Some m \<and>
     mt_Get m (make_LookupKey [1] 5) [] OK = Some (True, [9], OK)"
proof -
  have "newest BytewiseComparator [1] 5 sample_writes = Some (5, kTypeValue, [1], [9])" by code_simp
  moreover have "\<forall>w \<in> set sample_writes. write_fits (\<lambda>_. True) w" "sorted_wrt (\<lambda>x y. write_seq x < write_seq y) sample_writes"
    by (simp_all add: sample_writes_def kMaxSequenceNumber_def)
  ultimately show ?thesis
    using memtable_get [OF bytewise_laws, of sample_writes "[1]" 5 "[]" OK] by (simp add: kMaxSequenceNumber_def)
qed

text \<open>C16. Round trip of write batches: a batch that is filled by \<open>Put\<close> and \<open>Delete\<close>, and one that is
  appended to another, is iterated as exactly the operations put into it, in their order, with
  status OK; setting the sequence number changes none of them.\<close>

theorem write_batch_roundtrip:
  assumes "\<forall>x \<in> set (xs @ ys). batch_op_fits x" "length (xs @ ys) < 2 ^ 31"
  shows "\<exists>a b c d. wb_build xs new_WriteBatch = Some a \<and> wb_build ys new_WriteBatch = Some b \<and>
    wb_Append a b = Some c \<and> wb_SetSequence c s = Some d \<and>
    wb_Sequence d = Some s \<and> wb_Count d = Some (int (length (xs @ ys))) \<and>
    (\<forall>h st. wb_Iterate h d st = map_option (Pair OK) (run_handler h (xs @ ys) st))"
proof -
  have a: "wb_build zs new_WriteBatch = Some (batch_rep 0 zs)" for zs
    using batch_build [of zs 0 "[]"] unfolding new_batch append_Nil .
  have "wb_Count (batch_rep s (xs @ ys)) = Some (int (length (xs @ ys)))"
    unfolding batch_count sint_index [OF assms(2)] ..
  then show ?thesis
    by (intro exI [of _ "batch_rep 0 xs"] exI [of _ "batch_rep 0 ys"] exI [of _ "batch_rep 0 (xs @ ys)"]
        exI [of _ "batch_rep s (xs @ ys)"] conjI allI a batch_append batch_sequence batch_iterate [OF assms])
qed

definition collect_handler :: "batch_op list wb_handler" where
  "collect_handler = \<lparr>h_Put = (\<lambda>k v st. Some (st @ [BPut k v])), h_Delete = (\<lambda>k st. Some (st @ [BDelete k]))\<rparr>"

lemma write_batch_roundtrip_witness:
  "\<exists>a b c d. wb_build [BPut [1] [2, 3], BDelete []] new_WriteBatch = Some a \<and> wb_build [BPut [] [4]] new_WriteBatch = Some b \<and>
     wb_Append a b = Some c \<and> wb_SetSequence c 77 = Some d \<and>
     wb_Iterate collect_handler d [] = Some (OK, [BPut [1] [2, 3], BDelete [], BPut [] [4]])"
proof -
  have "run_handler collect_handler [BPut [1] [2, 3], BDelete [], BPut [] [4]] [] =
      Some [BPut [1] [2, 3], BDelete [], BPut [] [4]]"
    by (simp add: collect_handler_def)
  moreover have "\<forall>x \<in> set ([BPut [1] [2, 3], BDelete []] @ [BPut [] [4]]). batch_op_fits x"
    "length ([BPut [1] [2, 3], BDelete []] @ [BPut [] [4]]) < 2 ^ 31" by simp_all
  note write_batch_roundtrip [where ?'a = "batch_op list", OF this, of 77, unfolded append_Cons append_Nil]
  ultimately show ?thesis by (elim exE conjE) (rule exI conjI | assumption | simp only: option.map)+
qed

end
