(* ===== verification/LdbDbProps.thy ===== *)
theory LdbDbProps
  imports LdbDb LdbMemTableProps LdbLogProps
begin

section \<open>Acknowledged writes survive a crash\<close>

text \<open>
  The writers in the queue become chunks: the operations of each group, numbered on from the last
  sequence number, one log record per chunk. \<open>db_inv\<close> ties the log file and the memtable to the
  chunks; it holds after every group that was written without an error. Reading the log back gives
  the records, and \<open>rec_inv\<close> follows \<open>RecoverLogFile\<close> through them.
\<close>

subsection \<open>Requests and chunks\<close>

text \<open>The operations of a writer's batch, None for a null batch, and whether it asks for a sync.\<close>

type_synonym request = "batch_op list option \<times> bool"

fun req_ops :: "request \<Rightarrow> batch_op list" where
  "req_ops (None, sync) = []"
| "req_ops (Some ops, sync) = ops"

fun writer_of :: "request \<Rightarrow> writer" where
  "writer_of (b, sync) = \<lparr>wr_batch = Option.bind b (\<lambda>ops. wb_build ops new_WriteBatch), wr_sync = sync\<rparr>"

definition all_ops :: "request list \<Rightarrow> batch_op list" where
  "all_ops rs = concat (map req_ops rs)"

text \<open>The log records of chunks that are numbered from \<open>s\<close> on.\<close>

fun chunk_records :: "u64 \<Rightarrow> batch_op list list \<Rightarrow> byte list list" where
  "chunk_records s [] = []"
| "chunk_records s (ops # cs) = batch_rep s ops # chunk_records (s + of_nat (length ops)) cs"

lemma writer_batch: "wr_batch (writer_of r) = map_option (batch_rep 0) (fst r)"
  using batch_build [of _ 0 "[]"] by (cases r; cases "fst r") (simp_all add: new_batch)

lemma all_ops_simps [simp]: "all_ops [] = []" "all_ops (r # rs) = req_ops r @ all_ops rs"
  by (simp_all add: all_ops_def)

lemma all_ops_append [simp]: "all_ops (rs @ rs') = all_ops rs @ all_ops rs'"
  by (simp add: all_ops_def)

lemma batch_writes_append:
  "batch_writes s (xs @ ys) = batch_writes s xs @ batch_writes (s + of_nat (length xs)) ys"
  by (induction s xs rule: batch_writes.induct) (simp_all add: algebra_simps)

lemma chunk_records_snoc:
  "chunk_records s (cs @ [ops]) = chunk_records s cs @ [batch_rep (s + of_nat (length (concat cs))) ops]"
  by (induction cs arbitrary: s) (simp_all add: algebra_simps)

lemma group_loop_batch:
  assumes "tmp = batch_rep 0 []"
  shows "\<exists>t n. group_loop tmp sync max_size size0 (batch_rep 0 ops) is_tmp (map writer_of rs) =
      Some (batch_rep 0 (ops @ all_ops (take n rs)), t, n) \<and> n \<le> length rs"
proof (induction rs arbitrary: size0 ops is_tmp)
  case (Cons r rs)
  obtain b sy where r: "r = (b, sy)" by (cases r)
  have w: "wr_batch (writer_of r) = map_option (batch_rep 0) b" "wr_sync (writer_of r) = sy"
    using writer_batch [of r] by (simp_all add: r)
  have stop: "\<exists>t n. Some (batch_rep 0 ops, is_tmp, 0 :: nat) =
      Some (batch_rep 0 (ops @ all_ops (take n (r # rs))), t, n) \<and> n \<le> length (r # rs)"
    by (intro exI [of _ is_tmp] exI [of _ 0]) simp
  have more: "\<exists>t n. map_option (\<lambda>(r, t, n). (r, t, n + 1)) (group_loop tmp sync max_size sz (batch_rep 0 (ops @ req_ops r)) it (map writer_of rs)) =
      Some (batch_rep 0 (ops @ all_ops (take n (r # rs))), t, n) \<and> n \<le> length (r # rs)" for sz it
  proof -
    obtain t n where "group_loop tmp sync max_size sz (batch_rep 0 (ops @ req_ops r)) it (map writer_of rs) =
        Some (batch_rep 0 ((ops @ req_ops r) @ all_ops (take n rs)), t, n)" "n \<le> length rs"
      using Cons.IH by blast
    then show ?thesis by (intro exI [of _ t] exI [of _ "Suc n"]) simp
  qed
  have count: "wb_Count tmp = Some 0" using batch_count [of 0 "[]"] assms by simp
  show ?case
  proof (cases b)
    case None
    then show ?thesis using stop more [of size0 is_tmp] w by (auto simp: r)
  next
    case (Some bs)
    have "(if is_tmp then Some (batch_rep 0 ops) else if wb_Count tmp = Some 0 then wb_Append tmp (batch_rep 0 ops) else None) =
        Some (batch_rep 0 ops)"
      using batch_append [of 0 "[]" 0 ops] assms count by simp
    then show ?thesis
      using stop more [of "size0 + wb_ByteSize (batch_rep 0 bs)" True] w Some batch_append [of 0 ops 0 bs]
      by (simp add: Let_def) (simp add: r)
  qed
qed simp

subsection \<open>The writes of the chunks\<close>

fun op_valid :: "(byte list \<Rightarrow> bool) \<Rightarrow> batch_op \<Rightarrow> bool" where
  "op_valid valid (BPut k v) \<longleftrightarrow> valid k \<and> length k + 8 < 2 ^ 32 \<and> length v < 2 ^ 32"
| "op_valid valid (BDelete k) \<longleftrightarrow> valid k \<and> length k + 8 < 2 ^ 32"

lemma op_valid_fits: "op_valid valid x \<Longrightarrow> batch_op_fits x"
  by (cases x) simp_all

lemma batch_writes_ok:
  assumes "\<forall>x \<in> set ops. op_valid valid x" "unat s + length ops \<le> 2 ^ 56"
  shows "(\<forall>w \<in> set (batch_writes s ops). write_fits valid w \<and> s \<le> write_seq w) \<and>
    sorted_wrt (\<lambda>x y. write_seq x < write_seq y) (batch_writes s ops)"
  using assms
proof (induction s ops rule: batch_writes.induct)
  case (2 s k v xs)
  have u: "unat (s + 1) = unat s + 1" using 2(3) by (simp add: unat_word_ariths)
  with 2 have "s \<le> kMaxSequenceNumber" by (simp add: kMaxSequenceNumber_def word_le_nat_alt)
  moreover have "(\<forall>w \<in> set (batch_writes (s + 1) xs). write_fits valid w \<and> s + 1 \<le> write_seq w) \<and>
      sorted_wrt (\<lambda>x y. write_seq x < write_seq y) (batch_writes (s + 1) xs)" using 2 u by simp
  ultimately show ?case using 2(2) u by (fastforce simp: word_le_nat_alt word_less_nat_alt simp del: write_fits.simps intro: write_fits.simps [THEN iffD2])
next
  case (3 s k xs)
  have u: "unat (s + 1) = unat s + 1" using 3(3) by (simp add: unat_word_ariths)
  with 3 have "s \<le> kMaxSequenceNumber" by (simp add: kMaxSequenceNumber_def word_le_nat_alt)
  moreover have "(\<forall>w \<in> set (batch_writes (s + 1) xs). write_fits valid w \<and> s + 1 \<le> write_seq w) \<and>
      sorted_wrt (\<lambda>x y. write_seq x < write_seq y) (batch_writes (s + 1) xs)" using 3 u by simp
  ultimately show ?case using 3(2) u by (fastforce simp: word_le_nat_alt word_less_nat_alt simp del: write_fits.simps intro: write_fits.simps [THEN iffD2])
qed simp

text \<open>Inserting a batch adds its writes.\<close>

lemma insert_batch_abs:
  assumes laws: "comparator_laws u valid" and abs: "mem_abs u valid m w" and w: "batch_writes s0 sofar = pre @ w"
    and ops: "\<forall>x \<in> set (sofar @ ops). op_valid valid x" and fit: "unat s0 + length (sofar @ ops) \<le> 2 ^ 56" "length ops < 2 ^ 31"
  shows "\<exists>m'. InsertInto (batch_rep (s0 + of_nat (length sofar)) ops) m = Some (OK, m') \<and>
    mem_abs u valid m' (w @ batch_writes (s0 + of_nat (length sofar)) ops)"
proof -
  note ok = batch_writes_ok [OF ops fit(1), unfolded batch_writes_append w]
  obtain m' where m': "mt_Adds m (batch_writes (s0 + of_nat (length sofar)) ops) = Some m'"
    "mem_abs u valid m' (w @ batch_writes (s0 + of_nat (length sofar)) ops)"
  proof -
    have "\<forall>w \<in> set (batch_writes (s0 + of_nat (length sofar)) ops). write_fits valid w"
      "sorted_wrt (\<lambda>x y. write_seq x < write_seq y) (w @ batch_writes (s0 + of_nat (length sofar)) ops)"
      using ok by (simp_all add: sorted_wrt_append)
    from comparator_laws.Adds_abs [OF laws abs this] that show thesis by blast
  qed
  have "\<forall>x \<in> set ops. batch_op_fits x" using ops op_valid_fits by auto
  from batch_insert [OF this fit(2)] m' show ?thesis by simp
qed

subsection \<open>Writing\<close>

text \<open>The writers of a queue take their turns until it is empty; the status that each of them gets.\<close>

function drain ::
  "'f writable_file \<Rightarrow> ('f \<Rightarrow> (Status \<times> 'f) option) \<Rightarrow> writer list \<Rightarrow> 'f db_impl \<Rightarrow> (Status list \<times> 'f db_impl) option" where
  "drain wfile sync_file [] db = Some ([], db)"
| "drain wfile sync_file (w # ws) db =
     (case db_Write wfile sync_file OK (w # ws) db of
        None \<Rightarrow> None
      | Some (s, n, db) \<Rightarrow> map_option (\<lambda>(ss, db). (replicate (n + 1) s @ ss, db)) (drain wfile sync_file (drop n ws) db))"
  by pat_completeness auto
termination by (relation "measure (\<lambda>(wfile, sync_file, ws, db). length ws)") auto

definition db_inv ::
  "('h \<Rightarrow> byte list) \<Rightarrow> comparator \<Rightarrow> (byte list \<Rightarrow> bool) \<Rightarrow> u64 \<Rightarrow> 'h posix_writable db_impl \<Rightarrow> batch_op list list \<Rightarrow> bool" where
  "db_inv written u valid s0 db cs \<longleftrightarrow>
     log_records 0 (chunk_records s0 cs) (written (pw_fd (lw_dest (db_log db)))) (lw_block_offset (db_log db)) \<and>
     pw_buf (lw_dest (db_log db)) = [] \<and> lw_type_crc (db_log db) = InitTypeCrc \<and>
     mem_abs u valid (db_mem db) (batch_writes s0 (concat cs)) \<and> db_tmp_batch db = batch_rep 0 [] \<and>
     db_last_sequence db + 1 = s0 + of_nat (length (concat cs))"

lemma log_records_snoc:
  "log_records o1 ds bs o2 \<Longrightarrow> log_record o2 True d bs' o3 \<Longrightarrow> log_records o1 (ds @ [d]) (bs @ bs') o3"
proof (induction rule: log_records.induct)
  case (log_none o1)
  then show ?case using log_some [OF _ log_records.log_none] by fastforce
next
  case (log_some o1 d' bs o2 ds bs'' o3')
  then show ?case using log_records.log_some [of o1 d' bs o2 "ds @ [d]" "bs'' @ bs'" o3] by simp
qed

context kernel_file begin

lemma sync_keeps:
  assumes "\<forall>h e h'. sync_fd h = (e, h') \<longrightarrow> written h' = written h"
    and "posix_Sync os sync_fd sync_dir f = Some (s, f')" "pw_buf f = []"
  shows "written (pw_fd f') = written (pw_fd f) \<and> pw_buf f' = []"
proof -
  have "FlushBuffer os f = Some (OK, f)" using assms(3) by (simp add: FlushBuffer_def WriteUnbuffered.simps)
  then show ?thesis using assms
    by (auto simp: posix_Sync_def SyncFd_def Let_def split: if_splits prod.splits)
qed

lemma log_and_apply_inv:
  assumes laws: "comparator_laws u valid" and inv: "db_inv written u valid s0 db cs"
    and sync: "\<forall>h e h'. sync_fd h = (e, h') \<longrightarrow> written h' = written h"
    and run: "log_and_apply (posix_writable_file os) (posix_Sync os sync_fd sync_dir) sync
        (batch_rep (db_last_sequence db + 1) ops) db = Some (OK, db')"
    and ops: "\<forall>x \<in> set (concat cs @ ops). op_valid valid x"
    and fit: "unat s0 + length (concat cs @ ops) \<le> 2 ^ 56" "length ops < 2 ^ 31"
  shows "db_inv written u valid s0 (db'\<lparr>db_last_sequence := db_last_sequence db + of_nat (length ops)\<rparr>) (cs @ [ops])"
proof -
  note inv = inv [unfolded db_inv_def]
  let ?r = "batch_rep (db_last_sequence db + 1) ops"
  obtain s1 log where a: "AddRecord (posix_writable_file os) (db_log db) ?r = Some (s1, log)"
    using run by (auto simp: log_and_apply_def wb_Contents_def bind_eq_Some_conv)
  have ok: "s1 = OK" using run a
    by (cases s1) (auto simp: log_and_apply_def wb_Contents_def Let_def bind_eq_Some_conv split: if_splits)
  from posix_log.add_loop_bytes [OF a [unfolded AddRecord_def]] inv ok
  obtain bs where bs: "written (pw_fd (lw_dest log)) = written (pw_fd (lw_dest (db_log db))) @ bs" "pw_buf (lw_dest log) = []"
    "lw_type_crc log = InitTypeCrc" "log_record (lw_block_offset (db_log db)) True ?r bs (lw_block_offset log)"
    by (auto simp: buffered_def)
  obtain m' where m': "InsertInto ?r (db_mem db) = Some (OK, m')" "mem_abs u valid m' (batch_writes s0 (concat cs @ ops))"
    using insert_batch_abs [OF laws _ _ ops fit, of "db_mem db" _ "[]"] inv by (auto simp: batch_writes_append)
  obtain log' where log': "db' = db\<lparr>db_log := log', db_mem := m'\<rparr>" "lw_block_offset log' = lw_block_offset log"
    "lw_type_crc log' = InitTypeCrc" "written (pw_fd (lw_dest log')) = written (pw_fd (lw_dest log))" "pw_buf (lw_dest log') = []"
  proof (cases sync)
    case False
    then have "db' = db\<lparr>db_log := log, db_mem := m'\<rparr>"
      using run a ok m'(1) by (simp add: log_and_apply_def wb_Contents_def Let_def)
    from that [OF this] bs show thesis by simp
  next
    case True
    obtain s2 f where f: "posix_Sync os sync_fd sync_dir (lw_dest log) = Some (s2, f)"
      using run a ok True by (auto simp: log_and_apply_def wb_Contents_def Let_def bind_eq_Some_conv)
    have "s2 = OK" using run a ok True f
      by (cases s2) (auto simp: log_and_apply_def wb_Contents_def Let_def)
    then have "db' = db\<lparr>db_log := log\<lparr>lw_dest := f\<rparr>, db_mem := m'\<rparr>"
      using run a ok True f m'(1) by (simp add: log_and_apply_def wb_Contents_def Let_def)
    from that [OF this] sync_keeps [OF sync f bs(2)] bs(3) show thesis by simp
  qed
  have "log_records 0 (chunk_records s0 (cs @ [ops])) (written (pw_fd (lw_dest log'))) (lw_block_offset log')"
    using log_records_snoc [OF _ bs(4)] inv log'(2,4) bs(1) by (auto simp: chunk_records_snoc)
  then show ?thesis
    using inv log' m'(2) by (simp add: db_inv_def algebra_simps)
qed

lemma db_Write_inv:
  assumes laws: "comparator_laws u valid" and inv: "db_inv written u valid s0 db cs"
    and sync: "\<forall>h e h'. sync_fd h = (e, h') \<longrightarrow> written h' = written h"
    and run: "db_Write (posix_writable_file os) (posix_Sync os sync_fd sync_dir) OK (map writer_of (r # rs)) db = Some (OK, n, db')"
    and ops: "\<forall>x \<in> set (concat cs @ all_ops (r # rs)). op_valid valid x"
    and fit: "unat s0 + length (concat cs @ all_ops (r # rs)) \<le> 2 ^ 56" "length (all_ops (r # rs)) < 2 ^ 31"
  shows "\<exists>cs'. concat cs' = concat cs @ all_ops (r # take n rs) \<and> n \<le> length rs \<and> db_inv written u valid s0 db' cs'"
proof (cases "fst r")
  case None
  then have "n = 0 \<and> db' = db" "all_ops [r] = []"
    using run writer_batch [of r] by (cases r; simp add: db_Write_def)+
  then show ?thesis using inv by (intro exI [of _ cs]) simp
next
  case (Some b)
  then have b: "wr_batch (writer_of r) = Some (batch_rep 0 b)" "req_ops r = b"
    using writer_batch [of r] by (cases r; simp)+
  have tmp: "db_tmp_batch db = batch_rep 0 []" using inv by (simp add: db_inv_def)
  obtain t k where g: "BuildBatchGroup (db_tmp_batch db) (map writer_of (r # rs)) =
      Some (batch_rep 0 (b @ all_ops (take k rs)), t, k)" and k: "k \<le> length rs"
    using group_loop_batch [OF tmp] b by (simp add: BuildBatchGroup_def Let_def) metis
  define ops' where "ops' = b @ all_ops (take k rs)"
  have sub: "all_ops (r # rs) = ops' @ all_ops (drop k rs)"
    using b(2) by (simp add: ops'_def all_ops_append [symmetric] del: all_ops_append)
  have fit': "unat s0 + length (concat cs @ ops') \<le> 2 ^ 56" "length ops' < 2 ^ 31"
    using fit unfolding sub by simp_all
  have ops2: "\<forall>x \<in> set (concat cs @ ops'). op_valid valid x" using ops unfolding sub by auto
  have count: "wb_Count (batch_rep s ops') = Some (int (length ops'))" for s
    using batch_count [of s ops'] sint_index [OF fit'(2)] by simp
  obtain s1 db1 where l: "log_and_apply (posix_writable_file os) (posix_Sync os sync_fd sync_dir) (wr_sync (writer_of r))
      (batch_rep (db_last_sequence db + 1) ops') db = Some (s1, db1)"
    and res: "OK = s1" "n = k" "db' = (if t then db1\<lparr>db_tmp_batch := wb_Clear (db_tmp_batch db1)\<rparr> else db1)
      \<lparr>db_last_sequence := db_last_sequence db + of_nat (length ops')\<rparr>"
    using run b g unfolding ops'_def [symmetric]
    by (auto simp: db_Write_def Let_def batch_sequence count bind_eq_Some_conv)
  note i = log_and_apply_inv [OF laws inv sync l [folded res(1)] ops2 fit']
  have "db_inv written u valid s0 db' (cs @ [ops'])"
    using i by (simp add: res(3) db_inv_def new_batch [symmetric] new_WriteBatch_def wb_Clear_def)
  then show ?thesis using k b(2) res(2) by (intro exI [of _ "cs @ [ops']"]) (simp add: ops'_def)
qed

lemma drain_inv:
  assumes laws: "comparator_laws u valid"
    and sync: "\<forall>h e h'. sync_fd h = (e, h') \<longrightarrow> written h' = written h"
    and "db_inv written u valid s0 db cs"
    and "drain (posix_writable_file os) (posix_Sync os sync_fd sync_dir) (map writer_of rs) db = Some (ss, db')" "\<forall>s \<in> set ss. s = OK"
    and "\<forall>x \<in> set (concat cs @ all_ops rs). op_valid valid x"
    and "unat s0 + length (concat cs @ all_ops rs) \<le> 2 ^ 56" "length (all_ops rs) < 2 ^ 31"
  shows "\<exists>cs'. concat cs' = concat cs @ all_ops rs \<and> db_inv written u valid s0 db' cs' \<and> length ss = length rs"
  using assms(3-)
proof (induction "length rs" arbitrary: rs db cs ss rule: less_induct)
  case less
  show ?case
  proof (cases rs)
    case Nil
    then show ?thesis using less.prems by auto
  next
    case (Cons r rs')
    obtain s n db1 ss1 where w: "db_Write (posix_writable_file os) (posix_Sync os sync_fd sync_dir) OK (map writer_of (r # rs')) db = Some (s, n, db1)"
      and d: "drain (posix_writable_file os) (posix_Sync os sync_fd sync_dir) (map writer_of (drop n rs')) db1 = Some (ss1, db')"
      and ss: "ss = replicate (n + 1) s @ ss1"
      using less.prems(2) by (auto simp: Cons drop_map split: option.splits)
    have "s = OK" using less.prems(3) ss by simp
    note w = w [unfolded this]
    from db_Write_inv [OF laws less.prems(1) sync w] less.prems(4-6)
    obtain cs1 where cs1: "concat cs1 = concat cs @ all_ops (r # take n rs')" "n \<le> length rs'" "db_inv written u valid s0 db1 cs1"
      by (auto simp: Cons)
    have sum: "all_ops rs = all_ops (r # take n rs') @ all_ops (drop n rs')"
      by (simp add: Cons all_ops_append [symmetric] del: all_ops_append)
    have "\<exists>cs'. concat cs' = concat cs1 @ all_ops (drop n rs') \<and> db_inv written u valid s0 db' cs' \<and>
        length ss1 = length (drop n rs')"
    proof (rule less.hyps [OF _ cs1(3) d])
      show "length (drop n rs') < length rs" by (simp add: Cons)
      show "\<forall>s \<in> set ss1. s = OK" using less.prems(3) ss by simp
    qed (use less.prems(4-6) sum cs1(1) in auto)
    then show ?thesis using cs1(1,2) sum ss by (auto simp: Cons)
  qed
qed

end

subsection \<open>Recovering\<close>

text \<open>The tables collect the memtables that \<open>WriteLevel0Table\<close> was called with.\<close>

definition collect_tables :: "comparator \<Rightarrow> bool \<Rightarrow> bool \<Rightarrow> (memtable \<Rightarrow> bool) \<Rightarrow> memtable list recovery" where
  "collect_tables u paranoid reuse full =
     \<lparr>ro_comparator = u, ro_paranoid_checks = paranoid, ro_reuse_logs = reuse, ro_full = full,
      ro_WriteLevel0Table = (\<lambda>m ts. (OK, ts @ [m]))\<rparr>"

lemma collect_tables_sel:
  "ro_comparator (collect_tables u p r f) = u" "ro_full (collect_tables u p r f) = f" "ro_reuse_logs (collect_tables u p r f) = r"
  "ro_WriteLevel0Table (collect_tables u p r f) = (\<lambda>m ts. (OK, ts @ [m]))"
  by (simp_all add: collect_tables_def)

definition rec_inv ::
  "comparator \<Rightarrow> (byte list \<Rightarrow> bool) \<Rightarrow> u64 \<Rightarrow> u64 \<Rightarrow> memtable list rec_vars \<Rightarrow> batch_op list \<Rightarrow> bool" where
  "rec_inv u valid n0 max0 st sofar \<longleftrightarrow> rv_status st = OK \<and>
     (\<exists>wss w. batch_writes (n0 + 1) sofar = concat wss @ w \<and> list_all2 (mem_abs u valid) (rv_tables st) wss \<and>
        (case rv_mem st of None \<Rightarrow> w = [] | Some m \<Rightarrow> mem_abs u valid m w)) \<and>
     max n0 (rv_max_sequence st) = max max0 (n0 + of_nat (length sofar))"

fun recover_all :: "'v recovery \<Rightarrow> byte list list \<Rightarrow> 'v rec_vars \<Rightarrow> 'v rec_vars option" where
  "recover_all ro [] st = Some st"
| "recover_all ro (d # ds) st =
     (if rv_status st = OK \<and> 12 \<le> length d then
        (case recover_record ro d st of Some (False, st) \<Rightarrow> recover_all ro ds st | _ \<Rightarrow> None)
      else None)"

lemma mem_abs_Ref: "mem_abs u valid (mt_Ref m) ws = mem_abs u valid m ws"
  by (simp add: mem_abs_def mt_Ref_def)

lemma length_batch_rep: "12 \<le> length (batch_rep s ops)"
  by (simp add: batch_rep_def)

lemma max_step: "max a b = max m p \<Longrightarrow> p \<le> l \<Longrightarrow> max a (max b l) = max m (l :: 'a::linorder)"
  by (metis max.assoc max.absorb2)

lemma recover_record_inv:
  assumes laws: "comparator_laws u valid" and inv: "rec_inv u valid n0 max0 st sofar"
    and ops: "\<forall>x \<in> set (sofar @ ops). op_valid valid x"
    and fit: "unat n0 + 1 + length (sofar @ ops) \<le> 2 ^ 56" "length ops < 2 ^ 31"
  shows "\<exists>st'. recover_record (collect_tables u paranoid reuse full) (batch_rep (n0 + 1 + of_nat (length sofar)) ops) st = Some (False, st') \<and>
    rec_inv u valid n0 max0 st' (sofar @ ops)"
proof -
  let ?s = "n0 + 1 + of_nat (length sofar)" and ?mem = "case rv_mem st of None \<Rightarrow> mt_Ref (new_MemTable u) | Some mem \<Rightarrow> mem"
  have st: "rv_status st = OK" and mx: "max n0 (rv_max_sequence st) = max max0 (n0 + of_nat (length sofar))"
    using inv by (simp_all add: rec_inv_def)
  obtain wss w where w: "batch_writes (n0 + 1) sofar = concat wss @ w" "list_all2 (mem_abs u valid) (rv_tables st) wss"
    and "case rv_mem st of None \<Rightarrow> w = [] | Some m \<Rightarrow> mem_abs u valid m w"
    using inv unfolding rec_inv_def by blast
  then have mem: "mem_abs u valid ?mem w"
    using comparator_laws.new_mem_abs [OF laws] by (cases "rv_mem st") (simp_all add: mem_abs_Ref)
  have n1: "unat (n0 + 1) = unat n0 + 1" using fit(1) by (simp add: unat_word_ariths)
  obtain m' where m': "InsertInto (batch_rep ?s ops) ?mem = Some (OK, m')" "mem_abs u valid m' (w @ batch_writes ?s ops)"
    using insert_batch_abs [OF laws mem w(1) ops _ fit(2)] n1 fit(1) by auto
  have count: "wb_Count (batch_rep ?s ops) = Some (int (length ops))"
    using batch_count [of ?s ops] sint_index [OF fit(2)] by simp
  let ?last = "n0 + of_nat (length (sofar @ ops))"
  have last: "?s + of_int (int (length ops)) - 1 = ?last" by simp
  have "unat (n0 + of_nat (length sofar)) = unat n0 + length sofar" "unat ?last = unat n0 + length (sofar @ ops)"
    using fit(1) by (simp_all only: unat_word_ariths unat_of_nat length_append) simp_all
  then have le: "n0 + of_nat (length sofar) \<le> ?last" by (simp add: word_le_nat_alt)
  let ?st1 = "st\<lparr>rv_status := OK, rv_mem := Some m'\<rparr>"
  define st1 where "st1 = (if ?last > rv_max_sequence st then ?st1\<lparr>rv_max_sequence := ?last\<rparr> else ?st1)"
  have "max n0 (max (rv_max_sequence st) ?last) = max max0 ?last"
    by (rule max_step [OF mx le])
  moreover have "rv_max_sequence st1 = max (rv_max_sequence st) ?last"
    unfolding st1_def max_def by (auto simp del: of_nat_add length_append)
  ultimately have mx1: "max n0 (rv_max_sequence st1) = max max0 ?last" by (simp only:)
  have st1: "rv_status st1 = OK" "rv_tables st1 = rv_tables st" "rv_mem st1 = Some m'"
    by (simp_all add: st1_def)
  have run: "recover_record (collect_tables u paranoid reuse full) (batch_rep ?s ops) st = Some (False,
      if full m' then st1\<lparr>rv_compactions := rv_compactions st1 + 1, rv_save_manifest := True, rv_status := OK,
           rv_tables := rv_tables st1 @ [m'], rv_mem := None\<rparr> else st1)"
  proof -
    define ro where "ro = collect_tables u paranoid reuse full"
    have ro: "ro_comparator ro = u" "ro_full ro = full" "ro_WriteLevel0Table ro = (\<lambda>m ts. (OK, ts @ [m]))"
      by (simp_all add: ro_def collect_tables_sel)
    define mem where "mem = ?mem"
    define rep where "rep = batch_rep ?s ops"
    define l where "l = ?last"
    have facts: "wb_SetContents new_WriteBatch rep = Some rep" "InsertInto rep mem = Some (OK, m')"
      "wb_Sequence rep = Some ?s" "wb_Count rep = Some (int (length ops))"
      using length_batch_rep [of ?s ops] m'(1) count
      by (simp_all add: rep_def mem_def wb_SetContents_def kHeader_def batch_sequence)
    show ?thesis
      unfolding ro_def [symmetric] rep_def [symmetric] recover_record_def facts ro mem_def [symmetric] Let_def
        Option.bind.bind_lunit prod.case last l_def [symmetric] st1_def
      by (simp add: facts MaybeIgnoreError_def)
  qed
  have all: "batch_writes (n0 + 1) (sofar @ ops) = concat wss @ (w @ batch_writes ?s ops)"
    using w(1) by (simp add: batch_writes_append)
  show ?thesis
  proof (cases "full m'")
    case False
    have "rec_inv u valid n0 max0 st1 (sofar @ ops)"
      unfolding rec_inv_def using st1 mx1 w(2) m'(2) all
      by (intro conjI exI [of _ wss] exI [of _ "w @ batch_writes ?s ops"]) simp_all
    with run False show ?thesis by simp
  next
    case True
    let ?st2 = "st1\<lparr>rv_compactions := rv_compactions st1 + 1, rv_save_manifest := True, rv_status := OK,
           rv_tables := rv_tables st1 @ [m'], rv_mem := None\<rparr>"
    have "rec_inv u valid n0 max0 ?st2 (sofar @ ops)"
      unfolding rec_inv_def using st1 mx1 w(2) m'(2) all
      by (intro conjI exI [of _ "wss @ [w @ batch_writes ?s ops]"] exI [of _ "[]"]) (simp_all add: list_all2_appendI)
    with run True show ?thesis by simp
  qed
qed

lemma recover_all_inv:
  assumes "comparator_laws u valid" "rec_inv u valid n0 max0 st sofar"
    and "\<forall>x \<in> set (sofar @ concat cs). op_valid valid x"
    and "unat n0 + 1 + length (sofar @ concat cs) \<le> 2 ^ 56" "length (concat cs) < 2 ^ 31"
  shows "\<exists>st'. recover_all (collect_tables u paranoid reuse full) (chunk_records (n0 + 1 + of_nat (length sofar)) cs) st = Some st' \<and>
    rec_inv u valid n0 max0 st' (sofar @ concat cs)"
  using assms(2-)
proof (induction cs arbitrary: st sofar)
  case (Cons ops cs)
  obtain st1 where st1: "recover_record (collect_tables u paranoid reuse full) (batch_rep (n0 + 1 + of_nat (length sofar)) ops) st = Some (False, st1)"
    "rec_inv u valid n0 max0 st1 (sofar @ ops)"
    using recover_record_inv [OF assms(1) Cons.prems(1), of ops] Cons.prems(2-) by fastforce
  moreover have "rv_status st = OK" using Cons.prems(1) by (simp add: rec_inv_def)
  ultimately show ?case
    using Cons.IH [OF st1(2)] Cons.prems(2-) length_batch_rep by (auto simp: algebra_simps)
qed auto

context sequential begin

lemma recover_records:
  assumes "log_records o1 ds bs o2" "at_stream r o1' (bs @ R)" "o1' = o1 \<or> o1 = 0 \<and> o1' = kBlockSize"
    and "recover_all ro ds st = Some st'"
  shows "\<exists>r' o2' x1 y1. recover_loop q ro r x0 y0 st = recover_loop q ro r' x1 y1 st' \<and>
    at_stream r' o2' R \<and> (o2' = o2 \<or> o2 = 0 \<and> o2' = kBlockSize)"
  using assms
proof (induction arbitrary: r o1' x0 y0 st)
  case (log_none o1)
  then show ?case by auto
next
  case (log_some o1 d bs o2 ds bs' o3)
  have "log_record o1' True d bs o2" using log_some(1) log_some.prems(2) log_record_block by auto
  from record_loop_record [OF this, of r "bs' @ R" "\<lparr>rl_scratch = [], rl_in_fragmented_record = False,
      rl_prospective_record_offset = 0, rl_fragment = []\<rparr>"] log_some.prems(1) obtain s r1 where r1:
    "ReadRecord q r x0 y0 = Some (True, d, s, r1)" "at_stream r1 o2 (bs' @ R)" "lr_reports r1 = lr_reports r"
    by (auto simp: ReadRecord_loop)
  obtain st1 where st1: "rv_status st = OK" "12 \<le> length d" "recover_record ro d st = Some (False, st1)"
    "recover_all ro ds st1 = Some st'"
    using log_some.prems(3) by (auto split: if_splits option.splits prod.splits bool.splits)
  have same: "st\<lparr>rv_status := OK\<rparr> = st" using st1(1) by (cases st) simp
  have "recover_loop q ro r x0 y0 st = recover_loop q ro r1 d s st1"
    using r1 st1 by (subst recover_loop.simps) (simp add: report_status_def same)
  with log_some.IH [OF r1(2) _ st1(4), of d s] show ?case by auto
qed

lemma recover_cut:
  assumes "at_stream r o1 P" "log_record o1 True d (P @ c) o2" "c \<noteq> []"
  shows "\<exists>r'. recover_loop q ro r x0 y0 st = Some (st, r')"
proof -
  from record_loop_cut [OF assms(2,1) refl assms(3), of "\<lparr>rl_scratch = [], rl_in_fragmented_record = False,
      rl_prospective_record_offset = 0, rl_fragment = []\<rparr>"]
  obtain s r' where "ReadRecord q r x0 y0 = Some (False, [], s, r')" "lr_reports r' = lr_reports r"
    using assms(1) by (auto simp: ReadRecord_loop)
  then show ?thesis by (subst recover_loop.simps) (simp add: report_status_def)
qed

end

subsection \<open>Writing succeeds\<close>

text \<open>When the file takes what it is given, every writer gets the status OK.\<close>

context kernel_file begin

lemma db_Write_ok:
  assumes laws: "comparator_laws u valid" and inv: "db_inv written u valid s0 db cs"
    and app: "\<And>f d. \<exists>f'. wf_append (posix_writable_file os) f d = Some (OK, f')"
    and fl: "\<And>f. \<exists>f'. wf_flush (posix_writable_file os) f = Some (OK, f')"
    and sy: "\<And>f. \<exists>f'. posix_Sync os sync_fd sync_dir f = Some (OK, f')"
    and ops: "\<forall>x \<in> set (concat cs @ all_ops (r # rs)). op_valid valid x"
    and fit: "unat s0 + length (concat cs @ all_ops (r # rs)) \<le> 2 ^ 56" "length (all_ops (r # rs)) < 2 ^ 31"
  shows "\<exists>n db'. db_Write (posix_writable_file os) (posix_Sync os sync_fd sync_dir) OK (map writer_of (r # rs)) db = Some (OK, n, db')"
proof (cases "fst r")
  case None
  then show ?thesis using writer_batch [of r] by (cases r) (simp add: db_Write_def)
next
  case (Some b)
  then have b: "wr_batch (writer_of r) = Some (batch_rep 0 b)" "req_ops r = b"
    using writer_batch [of r] by (cases r; simp)+
  have i: "db_tmp_batch db = batch_rep 0 []" "db_last_sequence db + 1 = s0 + of_nat (length (concat cs))"
    "mem_abs u valid (db_mem db) (batch_writes s0 (concat cs))" "lw_block_offset (db_log db) \<le> kBlockSize"
    using inv log_records_offset by (auto simp: db_inv_def)
  obtain t k where g: "BuildBatchGroup (db_tmp_batch db) (map writer_of (r # rs)) =
      Some (batch_rep 0 (b @ all_ops (take k rs)), t, k)" and k: "k \<le> length rs"
    using group_loop_batch [OF i(1)] b by (simp add: BuildBatchGroup_def Let_def) metis
  define ops' where "ops' = b @ all_ops (take k rs)"
  have sub: "all_ops (r # rs) = ops' @ all_ops (drop k rs)"
    using b(2) by (simp add: ops'_def all_ops_append [symmetric] del: all_ops_append)
  have fit': "unat s0 + length (concat cs @ ops') \<le> 2 ^ 56" "length ops' < 2 ^ 31"
    and ops2: "\<forall>x \<in> set (concat cs @ ops'). op_valid valid x"
    using fit ops unfolding sub by auto
  obtain m' where m': "InsertInto (batch_rep (db_last_sequence db + 1) ops') (db_mem db) = Some (OK, m')"
    using insert_batch_abs [OF laws i(3) _ ops2 fit', of "[]"] i(2) by auto
  obtain log where log: "AddRecord (posix_writable_file os) (db_log db) (batch_rep (db_last_sequence db + 1) ops') = Some (OK, log)"
    using add_loop_total [OF app fl i(4)] by (auto simp: AddRecord_def)
  obtain f where f: "posix_Sync os sync_fd sync_dir (lw_dest log) = Some (OK, f)" using sy by blast
  obtain db1 where "log_and_apply (posix_writable_file os) (posix_Sync os sync_fd sync_dir) (wr_sync (writer_of r))
      (batch_rep (db_last_sequence db + 1) ops') db = Some (OK, db1)"
    using log f m' by (cases "wr_sync (writer_of r)") (simp_all add: log_and_apply_def wb_Contents_def Let_def)
  moreover have "wb_Count (batch_rep s ops') = Some (int (length ops'))" for s
    using batch_count [of s ops'] sint_index [OF fit'(2)] by simp
  ultimately show ?thesis
    using b g unfolding ops'_def [symmetric] by (simp add: db_Write_def Let_def batch_sequence)
qed

lemma drain_ok:
  assumes laws: "comparator_laws u valid"
    and sync: "\<forall>h e h'. sync_fd h = (e, h') \<longrightarrow> written h' = written h"
    and app: "\<And>f d. \<exists>f'. wf_append (posix_writable_file os) f d = Some (OK, f')"
    and fl: "\<And>f. \<exists>f'. wf_flush (posix_writable_file os) f = Some (OK, f')"
    and sy: "\<And>f. \<exists>f'. posix_Sync os sync_fd sync_dir f = Some (OK, f')"
    and "db_inv written u valid s0 db cs"
    and "\<forall>x \<in> set (concat cs @ all_ops rs). op_valid valid x"
    and "unat s0 + length (concat cs @ all_ops rs) \<le> 2 ^ 56" "length (all_ops rs) < 2 ^ 31"
  shows "\<exists>ss db'. drain (posix_writable_file os) (posix_Sync os sync_fd sync_dir) (map writer_of rs) db = Some (ss, db') \<and>
    (\<forall>s \<in> set ss. s = OK)"
  using assms(6-)
proof (induction "length rs" arbitrary: rs db cs rule: less_induct)
  case less
  show ?case
  proof (cases rs)
    case (Cons r rs')
    obtain n db1 where w: "db_Write (posix_writable_file os) (posix_Sync os sync_fd sync_dir) OK (map writer_of (r # rs')) db = Some (OK, n, db1)"
      using db_Write_ok [OF laws less.prems(1) app fl sy, of r rs'] less.prems(2-4) by (auto simp: Cons)
    from db_Write_inv [OF laws less.prems(1) sync w] less.prems(2-4)
    obtain cs1 where cs1: "concat cs1 = concat cs @ all_ops (r # take n rs')" "n \<le> length rs'" "db_inv written u valid s0 db1 cs1"
      by (auto simp: Cons)
    have sum: "all_ops rs = all_ops (r # take n rs') @ all_ops (drop n rs')"
      by (simp add: Cons all_ops_append [symmetric] del: all_ops_append)
    have "\<exists>ss db'. drain (posix_writable_file os) (posix_Sync os sync_fd sync_dir) (map writer_of (drop n rs')) db1 = Some (ss, db') \<and>
        (\<forall>s \<in> set ss. s = OK)"
      by (rule less.hyps [OF _ cs1(3)]) (use less.prems(2-4) sum cs1(1) in \<open>auto simp: Cons\<close>)
    then show ?thesis using w by (auto simp: Cons drop_map)
  qed simp
qed

end

subsection \<open>The property\<close>

text \<open>What a memtable answers when it holds the writes \<open>ws\<close>.\<close>

definition answers :: "comparator \<Rightarrow> (byte list \<Rightarrow> bool) \<Rightarrow> memtable \<Rightarrow> mem_write list \<Rightarrow> bool" where
  "answers u valid m ws \<longleftrightarrow> (\<forall>k s val st. valid k \<and> length k + 8 < 2 ^ 32 \<and> s \<le> kMaxSequenceNumber \<longrightarrow>
     mt_Get m (make_LookupKey k s) val st = Some (case newest u k s ws of
        None \<Rightarrow> (False, val, st)
      | Some (s', t, k', v) \<Rightarrow> (case t of kTypeValue \<Rightarrow> (True, v, st) | kTypeDeletion \<Rightarrow> (True, val, NotFound [] []))))"

text \<open>A database with a new log and a new memtable.\<close>

definition new_db :: "comparator \<Rightarrow> 'h \<Rightarrow> u64 \<Rightarrow> 'h posix_writable db_impl" where
  "new_db u fd n0 =
     \<lparr>db_log = log_Writer (posix_open fd), db_mem = new_MemTable u, db_tmp_batch = new_WriteBatch,
      db_last_sequence = n0, db_bg_error = OK\<rparr>"

lemma mem_abs_answers: "comparator_laws u valid \<Longrightarrow> mem_abs u valid m ws \<Longrightarrow> answers u valid m ws"
  unfolding answers_def using comparator_laws.Get_newest by blast

lemma new_db_inv:
  "comparator_laws u valid \<Longrightarrow> written fd = [] \<Longrightarrow> db_inv written u valid (n0 + 1) (new_db u fd n0) []"
  using log_none [of 0] comparator_laws.new_mem_abs [of u valid]
  by (simp add: db_inv_def new_db_def log_Writer_def posix_open_def new_batch)

lemma some_record: "o1 \<le> kBlockSize \<Longrightarrow> \<exists>d bs o2. log_record o1 True d bs o2 \<and> bs \<noteq> []"
proof -
  assume "o1 \<le> kBlockSize"
  moreover have "start_offset o1 + kHeaderSize \<le> kBlockSize"
    by (auto simp: start_offset_def kBlockSize_def kHeaderSize_def)
  ultimately have "log_record o1 True [] (trailer o1 @ physical kFullType []) (start_offset o1 + kHeaderSize)"
    using log_end [of o1 "[]" True] by (simp add: fragment_type_def)
  then show ?thesis by (intro exI conjI) (auto simp: physical_def)
qed

text \<open>The memtable that the database goes on with.\<close>

fun reused_mem :: "('w log_writer \<times> memtable) option \<Rightarrow> memtable list" where
  "reused_mem None = []"
| "reused_mem (Some (log, m)) = [m]"

context kernel_file begin

lemma recovered:
  assumes laws: "comparator_laws u valid"
    and inv: "db_inv written u valid (n0 + 1) db cs"
    and ops: "\<forall>x \<in> set (concat cs). op_valid valid x" and fit: "unat n0 + 1 + length (concat cs) \<le> 2 ^ 56" "length (concat cs) < 2 ^ 31"
    and left: "unread fd' = written (pw_fd (lw_dest (db_log db))) @ P"
    and crash: "P = [] \<or> (\<exists>d lw' c. AddRecord (posix_writable_file os) (db_log db) d = Some (OK, lw') \<and>
      written (pw_fd (lw_dest lw')) = written (pw_fd (lw_dest (db_log db))) @ P @ c \<and> c \<noteq> [])"
  shows "\<exists>st reused wss. RecoverLogFile (posix_sequential_file os) (collect_tables u paranoid reuse full) (OK, posix_open_read fd') reopened last_log max0 save [] = Some (st, reused) \<and>
    rv_status st = OK \<and> max n0 (rv_max_sequence st) = max n0 (max max0 (db_last_sequence db)) \<and>
    batch_writes (n0 + 1) (concat cs) = concat wss \<and> list_all2 (mem_abs u valid) (rv_tables st @ reused_mem reused) wss"
proof -
  have i: "log_records 0 (chunk_records (n0 + 1) cs) (written (pw_fd (lw_dest (db_log db)))) (lw_block_offset (db_log db))"
    "pw_buf (lw_dest (db_log db)) = []" "lw_type_crc (db_log db) = InitTypeCrc"
    "db_last_sequence db = n0 + of_nat (length (concat cs))"
    using inv by (auto simp: db_inv_def)
  obtain d c o2 where cut: "log_record (lw_block_offset (db_log db)) True d (P @ c) o2" "c \<noteq> []"
  proof (cases "P = []")
    case True
    then show thesis using some_record [of "lw_block_offset (db_log db)"] log_records_offset [OF i(1)] that by auto
  next
    case False
    then obtain d lw' c where a: "AddRecord (posix_writable_file os) (db_log db) d = Some (OK, lw')"
      "written (pw_fd (lw_dest lw')) = written (pw_fd (lw_dest (db_log db))) @ P @ c" "c \<noteq> []"
      using crash by blast
    from posix_log.add_loop_bytes [OF a(1) [unfolded AddRecord_def]] i(2,3)
    obtain bs where "buffered (lw_dest lw') = buffered (lw_dest (db_log db)) @ bs" "pw_buf (lw_dest lw') = []"
      "log_record (lw_block_offset (db_log db)) True d bs (lw_block_offset lw')" by auto
    with a(2,3) i(2) show thesis by (intro that [of d c]) (simp_all add: buffered_def)
  qed
  let ?st0 = "\<lparr>rv_status = OK, rv_mem = None, rv_compactions = 0, rv_max_sequence = max0, rv_save_manifest = save, rv_tables = []\<rparr>"
  have "max n0 max0 = max (max n0 max0) n0" by (simp add: max.commute max.left_commute)
  then have "rec_inv u valid n0 (max n0 max0) ?st0 []" by (simp add: rec_inv_def max.commute)
  from recover_all_inv [OF laws this, of cs paranoid reuse full] ops fit
  obtain st where st: "recover_all (collect_tables u paranoid reuse full) (chunk_records (n0 + 1) cs) ?st0 = Some st"
    "rec_inv u valid n0 (max n0 max0) st (concat cs)" by auto
  let ?r = "log_Reader (posix_open_read fd') True True 0"
  have at: "posix_in.at_stream ?r kBlockSize (written (pw_fd (lw_dest (db_log db))) @ P)"
    using posix_in.at_stream_new left by (simp add: remaining_def posix_open_read_def)
  from posix_in.recover_records [OF i(1) this _ st(1)]
  obtain r' o2' x1 y1 where r': "recover_loop (posix_sequential_file os) (collect_tables u paranoid reuse full) ?r [] [] ?st0 =
      recover_loop (posix_sequential_file os) (collect_tables u paranoid reuse full) r' x1 y1 st"
    "posix_in.at_stream r' o2' P" "o2' = lw_block_offset (db_log db) \<or> lw_block_offset (db_log db) = 0 \<and> o2' = kBlockSize"
    by blast
  have "log_record o2' True d (P @ c) o2" using cut(1) r'(3) log_record_block by auto
  from posix_in.recover_cut [OF r'(2) this cut(2)] r'(1)
  obtain r2 where loop: "recover_loop (posix_sequential_file os) (collect_tables u paranoid reuse full) ?r [] [] ?st0 = Some (st, r2)"
    by metis
  obtain wss w where w: "batch_writes (n0 + 1) (concat cs) = concat wss @ w" "list_all2 (mem_abs u valid) (rv_tables st) wss"
    "case rv_mem st of None \<Rightarrow> w = [] | Some m \<Rightarrow> mem_abs u valid m w"
    and ok: "rv_status st = OK" and mx: "max n0 (rv_max_sequence st) = max (max n0 max0) (n0 + of_nat (length (concat cs)))"
    using st(2) unfolding rec_inv_def by blast
  have mx': "max n0 (rv_max_sequence st) = max n0 (max max0 (db_last_sequence db))"
    using mx by (simp add: i(4) max.assoc)
  define mem where "mem = (case rv_mem st of Some mem \<Rightarrow> mem | None \<Rightarrow> mt_Ref (new_MemTable u))"
  have mem: "mem_abs u valid mem w"
    using w(3) comparator_laws.new_mem_abs [OF laws] by (cases "rv_mem st") (simp_all add: mem_def mem_abs_Ref)
  show ?thesis
  proof (cases "reuse \<and> last_log \<and> rv_compactions st = 0 \<and> reopened \<noteq> None")
    case True
    then obtain log where log: "reopened = Some log" by blast
    have "RecoverLogFile (posix_sequential_file os) (collect_tables u paranoid reuse full) (OK, posix_open_read fd') reopened last_log max0 save [] =
        Some (st\<lparr>rv_mem := None\<rparr>, Some (log, mem))"
      using loop ok True by (cases "rv_mem st") (simp_all add: RecoverLogFile_def collect_tables_sel log Let_def mem_def)
    moreover have "list_all2 (mem_abs u valid) (rv_tables st @ [mem]) (wss @ [w])" using w(2) mem by (simp add: list_all2_appendI)
    ultimately show ?thesis using w(1) ok mx'
      by (intro exI [of _ "st\<lparr>rv_mem := None\<rparr>"] exI [of _ "Some (log, mem)"] exI [of _ "wss @ [w]"]) simp
  next
    case False
    show ?thesis
    proof (cases "rv_mem st")
      case None
      have "RecoverLogFile (posix_sequential_file os) (collect_tables u paranoid reuse full) (OK, posix_open_read fd') reopened last_log max0 save [] =
          Some (st, None)"
        using loop None False by (auto simp: RecoverLogFile_def collect_tables_sel Let_def)
      then show ?thesis using w None ok mx' by (intro exI [of _ st] exI [of _ None] exI [of _ wss]) simp
    next
      case (Some m)
      let ?st = "st\<lparr>rv_save_manifest := True, rv_status := OK, rv_tables := rv_tables st @ [m], rv_mem := None\<rparr>"
      have "RecoverLogFile (posix_sequential_file os) (collect_tables u paranoid reuse full) (OK, posix_open_read fd') reopened last_log max0 save [] =
          Some (?st, None)"
        using loop Some ok False by (auto simp: RecoverLogFile_def collect_tables_sel Let_def)
      moreover have "list_all2 (mem_abs u valid) (rv_tables ?st) (wss @ [w])"
        using w(2,3) Some by (simp add: list_all2_appendI)
      ultimately show ?thesis using w(1) mx' by (intro exI [of _ ?st] exI [of _ None] exI [of _ "wss @ [w]"]) simp
    qed
  qed
qed

end


text \<open>Three writers, the second with a sync; the memtable is full after each group, and the file ends
  inside a fourth record.\<close>

definition sample_requests :: "request list" where
  "sample_requests = [(Some [BPut [1] [7], BDelete [2]], False), (Some [BPut [1] [8]], True), (None, False)]"


end
