(* ===== verification/LdbIterator.thy ===== *)
theory LdbIterator
  imports LdbBlockProps
begin

section \<open>Iterators and their merge (leveldb/iterator.h, table/iterator_wrapper.h, table/merger.cc)\<close>

text \<open>
  The virtual methods of \<open>Iterator\<close> are a record over the type of the iterator's state; the five
  methods that move the iterator are one field, which takes the name of the method. A method whose
  assertion fails is None. The cleanup functions, which run when an iterator is destroyed, are
  not modelled. \<open>IteratorWrapper\<close> keeps \<open>Valid\<close> and \<open>key\<close> of its iterator, and the merging
  iterator reads only these copies.
\<close>

subsection \<open>The interface\<close>

record 'i iter_ops =
  io_Valid :: "'i \<Rightarrow> bool"
  io_move :: "'i \<Rightarrow> cursor_op \<Rightarrow> 'i option"
  io_key :: "'i \<Rightarrow> byte list option"
  io_value :: "'i \<Rightarrow> byte list option"
  io_status :: "'i \<Rightarrow> Status"

text \<open>The state of an \<open>EmptyIterator\<close> is its status.\<close>

fun empty_move :: "Status \<Rightarrow> cursor_op \<Rightarrow> Status option" where
  "empty_move s Next = None"
| "empty_move s Prev = None"
| "empty_move s x = Some s"

definition EmptyIterator_ops :: "Status iter_ops" where
  "EmptyIterator_ops =
     \<lparr>io_Valid = (\<lambda>_. False), io_move = empty_move, io_key = (\<lambda>_. None), io_value = (\<lambda>_. None), io_status = id\<rparr>"

definition NewEmptyIterator :: Status where "NewEmptyIterator = OK"

definition NewErrorIterator :: "Status \<Rightarrow> Status" where "NewErrorIterator status = status"

subsection \<open>\<open>IteratorWrapper\<close>\<close>

record 'i wrapper =
  iw_iter :: 'i
  iw_valid :: bool
  iw_key :: "byte list"

definition iw_Update :: "'i iter_ops \<Rightarrow> 'i wrapper \<Rightarrow> 'i wrapper option" where
  "iw_Update it w =
     (if io_Valid it (iw_iter w)
      then map_option (\<lambda>k. w\<lparr>iw_valid := True, iw_key := k\<rparr>) (io_key it (iw_iter w))
      else Some (w\<lparr>iw_valid := False\<rparr>))"

definition iw_Set :: "'i iter_ops \<Rightarrow> 'i \<Rightarrow> 'i wrapper option" where
  "iw_Set it i = iw_Update it \<lparr>iw_iter = i, iw_valid = False, iw_key = []\<rparr>"

definition iw_move :: "'i iter_ops \<Rightarrow> cursor_op \<Rightarrow> 'i wrapper \<Rightarrow> 'i wrapper option" where
  "iw_move it x w = do { i \<leftarrow> io_move it (iw_iter w) x; iw_Update it (w\<lparr>iw_iter := i\<rparr>) }"

definition iw_Key :: "'i wrapper \<Rightarrow> byte list option" where
  "iw_Key w = (if iw_valid w then Some (iw_key w) else None)"

definition iw_Value :: "'i iter_ops \<Rightarrow> 'i wrapper \<Rightarrow> byte list option" where
  "iw_Value it w = (if iw_valid w then io_value it (iw_iter w) else None)"

subsection \<open>\<open>MergingIterator\<close>\<close>

text \<open>\<open>current_\<close> is the index of a child, or null; \<open>mi_reverse\<close> stands for \<open>direction_ == kReverse\<close>.\<close>

record 'i merging =
  mi_children :: "'i wrapper list"
  mi_current :: "nat option"
  mi_reverse :: bool

text \<open>A loop over all children.\<close>

definition each_child :: "(nat \<Rightarrow> 'i wrapper \<Rightarrow> 'i wrapper option) \<Rightarrow> 'i merging \<Rightarrow> 'i merging option" where
  "each_child f m =
     map_option (\<lambda>ws. m\<lparr>mi_children := ws\<rparr>)
       (those (map (\<lambda>i. f i (mi_children m ! i)) [0 ..< length (mi_children m)]))"

definition new_MergingIterator :: "'i iter_ops \<Rightarrow> 'i list \<Rightarrow> 'i merging option" where
  "new_MergingIterator it children =
     map_option (\<lambda>ws. \<lparr>mi_children = ws, mi_current = None, mi_reverse = False\<rparr>) (those (map (iw_Set it) children))"

definition mi_FindSmallest :: "comparator \<Rightarrow> 'i merging \<Rightarrow> 'i merging" where
  "mi_FindSmallest cmp m =
     m\<lparr>mi_current := foldl (\<lambda>smallest i.
         let child = mi_children m ! i in
         if iw_valid child then
           (case smallest of
              None \<Rightarrow> Some i
            | Some s \<Rightarrow> if cmp_Compare cmp (iw_key child) (iw_key (mi_children m ! s)) < 0 then Some i else smallest)
         else smallest) None [0 ..< length (mi_children m)]\<rparr>"

definition mi_FindLargest :: "comparator \<Rightarrow> 'i merging \<Rightarrow> 'i merging" where
  "mi_FindLargest cmp m =
     m\<lparr>mi_current := foldl (\<lambda>largest i.
         let child = mi_children m ! i in
         if iw_valid child then
           (case largest of
              None \<Rightarrow> Some i
            | Some l \<Rightarrow> if cmp_Compare cmp (iw_key child) (iw_key (mi_children m ! l)) > 0 then Some i else largest)
         else largest) None (rev [0 ..< length (mi_children m)])\<rparr>"

definition mi_Valid :: "'i merging \<Rightarrow> bool" where
  "mi_Valid m \<longleftrightarrow> mi_current m \<noteq> None"

definition mi_key :: "'i merging \<Rightarrow> byte list option" where
  "mi_key m = Option.bind (mi_current m) (\<lambda>c. iw_Key (mi_children m ! c))"

definition mi_value :: "'i iter_ops \<Rightarrow> 'i merging \<Rightarrow> byte list option" where
  "mi_value it m = Option.bind (mi_current m) (\<lambda>c. iw_Value it (mi_children m ! c))"

fun first_bad :: "Status \<Rightarrow> Status list \<Rightarrow> Status" where
  "first_bad status [] = status"
| "first_bad status (s # ss) = (if status_ok s then first_bad s ss else s)"

definition mi_status :: "'i iter_ops \<Rightarrow> 'i merging \<Rightarrow> Status" where
  "mi_status it m = first_bad OK (map (\<lambda>w. io_status it (iw_iter w)) (mi_children m))"

definition mi_SeekToFirst :: "'i iter_ops \<Rightarrow> comparator \<Rightarrow> 'i merging \<Rightarrow> 'i merging option" where
  "mi_SeekToFirst it cmp m = do {
     m \<leftarrow> each_child (\<lambda>_. iw_move it SeekToFirst) m;
     Some ((mi_FindSmallest cmp m)\<lparr>mi_reverse := False\<rparr>)
   }"

definition mi_SeekToLast :: "'i iter_ops \<Rightarrow> comparator \<Rightarrow> 'i merging \<Rightarrow> 'i merging option" where
  "mi_SeekToLast it cmp m = do {
     m \<leftarrow> each_child (\<lambda>_. iw_move it SeekToLast) m;
     Some ((mi_FindLargest cmp m)\<lparr>mi_reverse := True\<rparr>)
   }"

definition mi_Seek :: "'i iter_ops \<Rightarrow> comparator \<Rightarrow> 'i merging \<Rightarrow> byte list \<Rightarrow> 'i merging option" where
  "mi_Seek it cmp m target = do {
     m \<leftarrow> each_child (\<lambda>_. iw_move it (Seek target)) m;
     Some ((mi_FindSmallest cmp m)\<lparr>mi_reverse := False\<rparr>)
   }"

definition mi_Next :: "'i iter_ops \<Rightarrow> comparator \<Rightarrow> 'i merging \<Rightarrow> 'i merging option" where
  "mi_Next it cmp m = do {
     c \<leftarrow> mi_current m;
     key \<leftarrow> mi_key m;
     m \<leftarrow> (if mi_reverse m then
             map_option (\<lambda>m. m\<lparr>mi_reverse := False\<rparr>)
               (each_child (\<lambda>i child.
                  if i \<noteq> c then do {
                    child \<leftarrow> iw_move it (Seek key) child;
                    if iw_valid child \<and> cmp_Compare cmp key (iw_key child) = 0 then iw_move it Next child else Some child
                  } else Some child) m)
           else Some m);
     child \<leftarrow> iw_move it Next (mi_children m ! c);
     Some (mi_FindSmallest cmp (m\<lparr>mi_children := (mi_children m)[c := child]\<rparr>))
   }"

definition mi_Prev :: "'i iter_ops \<Rightarrow> comparator \<Rightarrow> 'i merging \<Rightarrow> 'i merging option" where
  "mi_Prev it cmp m = do {
     c \<leftarrow> mi_current m;
     key \<leftarrow> mi_key m;
     m \<leftarrow> (if \<not> mi_reverse m then
             map_option (\<lambda>m. m\<lparr>mi_reverse := True\<rparr>)
               (each_child (\<lambda>i child.
                  if i \<noteq> c then do {
                    child \<leftarrow> iw_move it (Seek key) child;
                    iw_move it (if iw_valid child then Prev else SeekToLast) child
                  } else Some child) m)
           else Some m);
     child \<leftarrow> iw_move it Prev (mi_children m ! c);
     Some (mi_FindLargest cmp (m\<lparr>mi_children := (mi_children m)[c := child]\<rparr>))
   }"

fun mi_move :: "'i iter_ops \<Rightarrow> comparator \<Rightarrow> 'i merging \<Rightarrow> cursor_op \<Rightarrow> 'i merging option" where
  "mi_move it cmp m SeekToFirst = mi_SeekToFirst it cmp m"
| "mi_move it cmp m SeekToLast = mi_SeekToLast it cmp m"
| "mi_move it cmp m Next = mi_Next it cmp m"
| "mi_move it cmp m Prev = mi_Prev it cmp m"
| "mi_move it cmp m (Seek target) = mi_Seek it cmp m target"

definition MergingIterator_ops :: "'i iter_ops \<Rightarrow> comparator \<Rightarrow> 'i merging iter_ops" where
  "MergingIterator_ops it cmp =
     \<lparr>io_Valid = mi_Valid, io_move = mi_move it cmp, io_key = mi_key, io_value = mi_value it, io_status = mi_status it\<rparr>"

text \<open>What \<open>NewMergingIterator\<close> returns: no children, one child, or more.\<close>

datatype 'i merged = Empty Status | Single 'i | Merging "'i merging"

definition NewMergingIterator :: "'i iter_ops \<Rightarrow> 'i list \<Rightarrow> 'i merged option" where
  "NewMergingIterator it children =
     (case children of
        [] \<Rightarrow> Some (Empty NewEmptyIterator)
      | [child] \<Rightarrow> Some (Single child)
      | _ \<Rightarrow> map_option Merging (new_MergingIterator it children))"

fun merged_move :: "'i iter_ops \<Rightarrow> comparator \<Rightarrow> 'i merged \<Rightarrow> cursor_op \<Rightarrow> 'i merged option" where
  "merged_move it cmp (Empty s) x = map_option Empty (empty_move s x)"
| "merged_move it cmp (Single i) x = map_option Single (io_move it i x)"
| "merged_move it cmp (Merging m) x = map_option Merging (mi_move it cmp m x)"

definition merged_ops :: "'i iter_ops \<Rightarrow> comparator \<Rightarrow> 'i merged iter_ops" where
  "merged_ops it cmp =
     \<lparr>io_Valid = (\<lambda>m. case m of Empty s \<Rightarrow> False | Single i \<Rightarrow> io_Valid it i | Merging m \<Rightarrow> mi_Valid m),
      io_move = merged_move it cmp,
      io_key = (\<lambda>m. case m of Empty s \<Rightarrow> None | Single i \<Rightarrow> io_key it i | Merging m \<Rightarrow> mi_key m),
      io_value = (\<lambda>m. case m of Empty s \<Rightarrow> None | Single i \<Rightarrow> io_value it i | Merging m \<Rightarrow> mi_value it m),
      io_status = (\<lambda>m. case m of Empty s \<Rightarrow> s | Single i \<Rightarrow> io_status it i | Merging m \<Rightarrow> mi_status it m)\<rparr>"

end
