(* ===== verification/LdbDbIter.thy ===== *)
theory LdbDbIter
  imports LdbIterator LdbDb
begin

section \<open>Reading a database in order (db/db_iter.cc, db/db_impl.cc)\<close>

text \<open>
  \<open>DBIter\<close> turns an iterator over internal keys into one over user keys: it shows, for every user
  key, the newest entry that its snapshot sees, unless that is a deletion. Its internal iterator is
  any iterator; \<open>DBImpl::NewIterator\<close> hands it the merge of the memtables and of the iterators that
  the current version adds for its table files, which are an argument. A loop that may not end is
  a partial function. The keys handed to \<open>RecordReadSample\<close> are collected in a list; the capacity
  that \<open>ClearSavedValue\<close> gives back is not modelled.
\<close>

subsection \<open>\<open>DBIter\<close>\<close>

definition kReadBytesPeriod :: u32 where "kReadBytesPeriod = 1048576"

record 'i db_iter =
  di_user_comparator :: comparator
  di_iter :: 'i
  di_sequence :: u64
  di_status :: Status
  di_saved_key :: "byte list"
  di_saved_value :: "byte list"
  di_reverse :: bool
  di_valid :: bool
  di_rnd :: u32
  di_bytes_until_read_sampling :: nat
  di_samples :: "byte list list"

definition RandomCompactionPeriod :: "u32 \<Rightarrow> nat \<times> u32" where
  "RandomCompactionPeriod rnd = (case rnd_Uniform rnd (2 * kReadBytesPeriod) of (n, rnd) \<Rightarrow> (unat n, rnd))"

definition new_DBIter :: "comparator \<Rightarrow> 'i \<Rightarrow> u64 \<Rightarrow> u32 \<Rightarrow> 'i db_iter" where
  "new_DBIter cmp iter s seed =
     (case RandomCompactionPeriod (new_Random seed) of
        (n, rnd) \<Rightarrow>
          \<lparr>di_user_comparator = cmp, di_iter = iter, di_sequence = s, di_status = OK, di_saved_key = [],
           di_saved_value = [], di_reverse = False, di_valid = False, di_rnd = rnd,
           di_bytes_until_read_sampling = n, di_samples = []\<rparr>)"

definition di_key :: "'i iter_ops \<Rightarrow> 'i db_iter \<Rightarrow> byte list option" where
  "di_key it d =
     (if \<not> di_valid d then None
      else if \<not> di_reverse d then map_option ExtractUserKey (io_key it (di_iter d))
      else Some (di_saved_key d))"

definition di_value :: "'i iter_ops \<Rightarrow> 'i db_iter \<Rightarrow> byte list option" where
  "di_value it d =
     (if \<not> di_valid d then None
      else if \<not> di_reverse d then io_value it (di_iter d)
      else Some (di_saved_value d))"

definition di_Status :: "'i iter_ops \<Rightarrow> 'i db_iter \<Rightarrow> Status" where
  "di_Status it d = (if status_ok (di_status d) then io_status it (di_iter d) else di_status d)"

definition ClearSavedValue :: "'i db_iter \<Rightarrow> 'i db_iter" where
  "ClearSavedValue d = d\<lparr>di_saved_value := []\<rparr>"

text \<open>The loop of \<open>ParseKey\<close>: generator, count and samples.\<close>

partial_function (option) sample_loop ::
  "byte list \<Rightarrow> nat \<Rightarrow> u32 \<Rightarrow> nat \<Rightarrow> byte list list \<Rightarrow> (u32 \<times> nat \<times> byte list list) option" where
  "sample_loop k bytes_read rnd until samples =
     (if until < bytes_read then
        (case RandomCompactionPeriod rnd of (n, rnd) \<Rightarrow> sample_loop k bytes_read rnd (until + n) (samples @ [k]))
      else Some (rnd, until, samples))"

text \<open>The parsed key, or None with a bad status.\<close>

definition ParseKey :: "'i iter_ops \<Rightarrow> 'i db_iter \<Rightarrow> (ParsedInternalKey option \<times> 'i db_iter) option" where
  "ParseKey it d = do {
     k \<leftarrow> io_key it (di_iter d);
     v \<leftarrow> io_value it (di_iter d);
     let bytes_read = length k + length v;
     (rnd, until, samples) \<leftarrow> sample_loop k bytes_read (di_rnd d) (di_bytes_until_read_sampling d) (di_samples d);
     let d = d\<lparr>di_rnd := rnd, di_bytes_until_read_sampling := until - bytes_read, di_samples := samples\<rparr>;
     Some (case ParseInternalKey k of
         None \<Rightarrow> (None, d\<lparr>di_status := Corruption ''corrupted internal key in DBIter'' []\<rparr>)
       | Some ikey \<Rightarrow> (Some ikey, d))
   }"

definition inner_move :: "'i iter_ops \<Rightarrow> cursor_op \<Rightarrow> 'i db_iter \<Rightarrow> 'i db_iter option" where
  "inner_move it x d = map_option (\<lambda>i. d\<lparr>di_iter := i\<rparr>) (io_move it (di_iter d) x)"

text \<open>The body of \<open>FindNextUserEntry\<close>'s loop before it moves on: True when the entry is shown. \<open>*skip\<close> is always
  \<open>saved_key_\<close>.\<close>

definition next_entry :: "'i iter_ops \<Rightarrow> bool \<Rightarrow> 'i db_iter \<Rightarrow> (bool \<times> bool \<times> 'i db_iter) option" where
  "next_entry it skipping d = do {
     (parsed, d) \<leftarrow> ParseKey it d;
     Some (case parsed of
         None \<Rightarrow> (False, skipping, d)
       | Some ikey \<Rightarrow>
           if pk_sequence ikey \<le> di_sequence d then
             (case pk_type ikey of
                kTypeDeletion \<Rightarrow> (False, True, d\<lparr>di_saved_key := pk_user_key ikey\<rparr>)
              | kTypeValue \<Rightarrow>
                  if skipping \<and> cmp_Compare (di_user_comparator d) (pk_user_key ikey) (di_saved_key d) \<le> 0
                  then (False, skipping, d)
                  else (True, skipping, d\<lparr>di_valid := True, di_saved_key := []\<rparr>))
           else (False, skipping, d))
   }"

partial_function (option) FindNextUserEntry :: "'i iter_ops \<Rightarrow> bool \<Rightarrow> 'i db_iter \<Rightarrow> 'i db_iter option" where
  "FindNextUserEntry it skipping d =
     Option.bind (next_entry it skipping d) (\<lambda>(shown, skipping, d).
       if shown then Some d
       else Option.bind (inner_move it Next d) (\<lambda>d.
         if io_Valid it (di_iter d) then FindNextUserEntry it skipping d
         else Some (d\<lparr>di_saved_key := [], di_valid := False\<rparr>)))"

definition di_Next :: "'i iter_ops \<Rightarrow> 'i db_iter \<Rightarrow> 'i db_iter option" where
  "di_Next it d =
     (if \<not> di_valid d then None
      else if di_reverse d then do {
        d \<leftarrow> inner_move it (if \<not> io_Valid it (di_iter d) then SeekToFirst else Next) (d\<lparr>di_reverse := False\<rparr>);
        if \<not> io_Valid it (di_iter d) then Some (d\<lparr>di_valid := False, di_saved_key := []\<rparr>)
        else FindNextUserEntry it True d
      }
      else do {
        k \<leftarrow> io_key it (di_iter d);
        FindNextUserEntry it True (d\<lparr>di_saved_key := ExtractUserKey k\<rparr>)
      })"

text \<open>The body of \<open>FindPrevUserEntry\<close>'s loop before it moves on: True when the loop is left.\<close>

definition prev_entry :: "'i iter_ops \<Rightarrow> ValueType \<Rightarrow> 'i db_iter \<Rightarrow> (bool \<times> ValueType \<times> 'i db_iter) option" where
  "prev_entry it value_type d = do {
     (parsed, d) \<leftarrow> ParseKey it d;
     case parsed of
       None \<Rightarrow> Some (False, value_type, d)
     | Some ikey \<Rightarrow>
         if pk_sequence ikey \<le> di_sequence d then
           if value_type \<noteq> kTypeDeletion \<and> cmp_Compare (di_user_comparator d) (pk_user_key ikey) (di_saved_key d) < 0
           then Some (True, value_type, d)
           else if pk_type ikey = kTypeDeletion
           then Some (False, pk_type ikey, ClearSavedValue (d\<lparr>di_saved_key := []\<rparr>))
           else do {
             k \<leftarrow> io_key it (di_iter d);
             raw_value \<leftarrow> io_value it (di_iter d);
             Some (False, pk_type ikey, d\<lparr>di_saved_key := ExtractUserKey k, di_saved_value := raw_value\<rparr>)
           }
         else Some (False, value_type, d)
   }"

partial_function (option) prev_loop :: "'i iter_ops \<Rightarrow> ValueType \<Rightarrow> 'i db_iter \<Rightarrow> (ValueType \<times> 'i db_iter) option" where
  "prev_loop it value_type d =
     Option.bind (prev_entry it value_type d) (\<lambda>(leave, value_type, d).
       if leave then Some (value_type, d)
       else Option.bind (inner_move it Prev d) (\<lambda>d.
         if io_Valid it (di_iter d) then prev_loop it value_type d else Some (value_type, d)))"

definition FindPrevUserEntry :: "'i iter_ops \<Rightarrow> 'i db_iter \<Rightarrow> 'i db_iter option" where
  "FindPrevUserEntry it d = do {
     (value_type, d) \<leftarrow> (if io_Valid it (di_iter d) then prev_loop it kTypeDeletion d else Some (kTypeDeletion, d));
     Some (if value_type = kTypeDeletion
       then (ClearSavedValue (d\<lparr>di_valid := False, di_saved_key := []\<rparr>))\<lparr>di_reverse := False\<rparr>
       else d\<lparr>di_valid := True\<rparr>)
   }"

text \<open>The loop of \<open>Prev\<close> that leaves the entries of the current key; False when there is no entry before
  them.\<close>

partial_function (option) before_key :: "'i iter_ops \<Rightarrow> 'i db_iter \<Rightarrow> (bool \<times> 'i db_iter) option" where
  "before_key it d =
     Option.bind (inner_move it Prev d) (\<lambda>d.
       if \<not> io_Valid it (di_iter d) then Some (False, ClearSavedValue (d\<lparr>di_valid := False, di_saved_key := []\<rparr>))
       else Option.bind (io_key it (di_iter d)) (\<lambda>k.
         if cmp_Compare (di_user_comparator d) (ExtractUserKey k) (di_saved_key d) < 0 then Some (True, d)
         else before_key it d))"

definition di_Prev :: "'i iter_ops \<Rightarrow> 'i db_iter \<Rightarrow> 'i db_iter option" where
  "di_Prev it d =
     (if \<not> di_valid d then None
      else if \<not> di_reverse d then do {
        k \<leftarrow> io_key it (di_iter d);
        (found, d) \<leftarrow> before_key it (d\<lparr>di_saved_key := ExtractUserKey k\<rparr>);
        if \<not> found then Some d else FindPrevUserEntry it (d\<lparr>di_reverse := True\<rparr>)
      }
      else FindPrevUserEntry it d)"

definition di_Seek :: "'i iter_ops \<Rightarrow> 'i db_iter \<Rightarrow> byte list \<Rightarrow> 'i db_iter option" where
  "di_Seek it d target = do {
     let d = (ClearSavedValue (d\<lparr>di_reverse := False\<rparr>))\<lparr>di_saved_key := AppendInternalKey []
           \<lparr>pk_user_key = target, pk_sequence = di_sequence d, pk_type = kValueTypeForSeek\<rparr>\<rparr>;
     d \<leftarrow> inner_move it (Seek (di_saved_key d)) d;
     if io_Valid it (di_iter d) then FindNextUserEntry it False d else Some (d\<lparr>di_valid := False\<rparr>)
   }"

definition di_SeekToFirst :: "'i iter_ops \<Rightarrow> 'i db_iter \<Rightarrow> 'i db_iter option" where
  "di_SeekToFirst it d = do {
     d \<leftarrow> inner_move it SeekToFirst (ClearSavedValue (d\<lparr>di_reverse := False\<rparr>));
     if io_Valid it (di_iter d) then FindNextUserEntry it False d else Some (d\<lparr>di_valid := False\<rparr>)
   }"

definition di_SeekToLast :: "'i iter_ops \<Rightarrow> 'i db_iter \<Rightarrow> 'i db_iter option" where
  "di_SeekToLast it d = do {
     d \<leftarrow> inner_move it SeekToLast (ClearSavedValue (d\<lparr>di_reverse := True\<rparr>));
     FindPrevUserEntry it d
   }"

fun di_move :: "'i iter_ops \<Rightarrow> 'i db_iter \<Rightarrow> cursor_op \<Rightarrow> 'i db_iter option" where
  "di_move it d SeekToFirst = di_SeekToFirst it d"
| "di_move it d SeekToLast = di_SeekToLast it d"
| "di_move it d Next = di_Next it d"
| "di_move it d Prev = di_Prev it d"
| "di_move it d (Seek target) = di_Seek it d target"

definition DBIter_ops :: "'i iter_ops \<Rightarrow> 'i db_iter iter_ops" where
  "DBIter_ops it =
     \<lparr>io_Valid = di_valid, io_move = di_move it, io_key = di_key it, io_value = di_value it, io_status = di_Status it\<rparr>"

subsection \<open>\<open>NewIterator\<close>\<close>

text \<open>\<open>MemTableIterator\<close> as an iterator: the table and the position in it.\<close>

fun mit_move :: "memtable \<times> nat option \<Rightarrow> cursor_op \<Rightarrow> (memtable \<times> nat option) option" where
  "mit_move (m, n) SeekToFirst = map_option (Pair m) (mit_SeekToFirst m)"
| "mit_move (m, n) SeekToLast = map_option (Pair m) (mit_SeekToLast m)"
| "mit_move (m, n) Next = map_option (Pair m) (mit_Next m n)"
| "mit_move (m, n) Prev = map_option (Pair m) (mit_Prev m n)"
| "mit_move (m, n) (Seek k) = map_option (Pair m) (mit_Seek m k)"

definition MemTableIterator_ops :: "(memtable \<times> nat option) iter_ops" where
  "MemTableIterator_ops =
     \<lparr>io_Valid = (\<lambda>(m, n). sl_Valid n), io_move = mit_move, io_key = (\<lambda>(m, n). mit_key m n),
      io_value = (\<lambda>(m, n). mit_value m n), io_status = (\<lambda>_. OK)\<rparr>"

text \<open>The children of the internal iterator: a memtable's iterator, or one of the version's.\<close>

datatype 't internal_child = MemIter "memtable \<times> nat option" | TableIter 't

definition internal_child_ops :: "'t iter_ops \<Rightarrow> 't internal_child iter_ops" where
  "internal_child_ops tab =
     \<lparr>io_Valid = case_internal_child (io_Valid MemTableIterator_ops) (io_Valid tab),
      io_move = case_internal_child (\<lambda>i x. map_option MemIter (io_move MemTableIterator_ops i x))
        (\<lambda>i x. map_option TableIter (io_move tab i x)),
      io_key = case_internal_child (io_key MemTableIterator_ops) (io_key tab),
      io_value = case_internal_child (io_value MemTableIterator_ops) (io_value tab),
      io_status = case_internal_child (io_status MemTableIterator_ops) (io_status tab)\<rparr>"

text \<open>\<open>tables\<close> is what \<open>AddIterators\<close> adds. The iterator, the latest sequence number, the new seed, and the
  memtables, which the iterator holds a reference to.\<close>

definition NewInternalIterator ::
  "'t iter_ops \<Rightarrow> 't list \<Rightarrow> 'f db_impl \<Rightarrow> memtable option \<Rightarrow> u32 \<Rightarrow>
   ('t internal_child merged \<times> u64 \<times> u32 \<times> 'f db_impl \<times> memtable option) option" where
  "NewInternalIterator tab tables db imm seed =
     (let children = MemIter (db_mem db, None) # (case imm of None \<Rightarrow> [] | Some m \<Rightarrow> [MemIter (m, None)]) @ map TableIter tables
      in map_option (\<lambda>iter. (iter, db_last_sequence db, seed + 1, db\<lparr>db_mem := mt_Ref (db_mem db)\<rparr>, map_option mt_Ref imm))
           (NewMergingIterator (internal_child_ops tab) children))"

definition db_NewIterator ::
  "'t iter_ops \<Rightarrow> 't list \<Rightarrow> 'f db_impl \<Rightarrow> memtable option \<Rightarrow> u32 \<Rightarrow> u64 option \<Rightarrow>
   ('t internal_child merged db_iter \<times> u32 \<times> 'f db_impl \<times> memtable option) option" where
  "db_NewIterator tab tables db imm seed snapshot = do {
     (iter, latest_snapshot, seed, db, imm) \<leftarrow> NewInternalIterator tab tables db imm seed;
     Some (new_DBIter (mt_user_comparator (db_mem db)) iter
             (case snapshot of Some s \<Rightarrow> s | None \<Rightarrow> latest_snapshot) seed, seed, db, imm)
   }"

text \<open>The methods of the iterator that \<open>NewIterator\<close> returns.\<close>

definition db_iterator_ops :: "'t iter_ops \<Rightarrow> comparator \<Rightarrow> 't internal_child merged db_iter iter_ops" where
  "db_iterator_ops tab ucmp = DBIter_ops (merged_ops (internal_child_ops tab) (InternalKeyComparator ucmp))"

end
