(* ===== verification/LdbIteratorProps.thy ===== *)
theory LdbIteratorProps
  imports LdbIterator LdbMemTableProps "HOL-Library.Multiset"
begin

section \<open>Iterators as cursors\<close>

text \<open>
  The contract of \<open>leveldb/iterator.h\<close> as a locale: an iterator stands for a position in a sorted
  list of keys and values, and its methods do what \<open>list_op\<close> does on the list. The iterators of
  memtables and blocks satisfy it, the empty iterator does, and the merging iterator does over children that do: it
  is a cursor on the sorted union of their lists, where the keys of different children differ.
\<close>

subsection \<open>The contract\<close>

locale cursor_iterator = comparator_laws c valid
  for c :: comparator and valid :: "byte list \<Rightarrow> bool" +
  fixes it :: "'i iter_ops" and at :: "'i \<Rightarrow> (byte list \<times> byte list) list \<Rightarrow> nat \<Rightarrow> bool"
  assumes at_sorted: "at i kvs p \<Longrightarrow> key_sorted c kvs \<and> (\<forall>kv \<in> set kvs. valid (fst kv))"
    and at_range: "at i kvs p \<Longrightarrow> p \<le> length kvs"
    and at_Valid: "at i kvs p \<Longrightarrow> io_Valid it i \<longleftrightarrow> p < length kvs"
    and at_key: "at i kvs p \<Longrightarrow> p < length kvs \<Longrightarrow> io_key it i = Some (fst (kvs ! p))"
    and at_value: "at i kvs p \<Longrightarrow> p < length kvs \<Longrightarrow> io_value it i = Some (snd (kvs ! p))"
    and at_status: "at i kvs p \<Longrightarrow> io_status it i = OK"
    and at_move: "at i kvs p \<Longrightarrow> list_op c kvs p x = Some p' \<Longrightarrow> \<forall>t. x = Seek t \<longrightarrow> valid t \<Longrightarrow>
      \<exists>i'. io_move it i x = Some i' \<and> at i' kvs p'"
    and at_stuck: "at i kvs p \<Longrightarrow> list_op c kvs p x = None \<Longrightarrow> io_move it i x = None"

text \<open>What a client sees after each operation.\<close>

definition io_entry :: "'i iter_ops \<Rightarrow> 'i \<Rightarrow> (byte list \<times> byte list option) option" where
  "io_entry it i = (if io_Valid it i then map_option (\<lambda>k. (k, io_value it i)) (io_key it i) else None)"

fun run_iter :: "'i iter_ops \<Rightarrow> 'i \<Rightarrow> cursor_op list \<Rightarrow> ((byte list \<times> byte list option) option \<times> Status) list option" where
  "run_iter it i [] = Some []"
| "run_iter it i (x # xs) = do {
     i' \<leftarrow> io_move it i x;
     out \<leftarrow> run_iter it i' xs;
     Some ((io_entry it i', io_status it i') # out)
   }"

context cursor_iterator begin

lemma at_entry: "at i kvs p \<Longrightarrow> io_entry it i = list_entry kvs p"
  using at_Valid at_key at_value by (simp add: io_entry_def list_entry_def)

lemma runs: "at i kvs p \<Longrightarrow> \<forall>t. Seek t \<in> set xs \<longrightarrow> valid t \<Longrightarrow> run_iter it i xs = run_list c kvs p xs"
proof (induction xs arbitrary: i p)
  case (Cons x xs)
  show ?case
  proof (cases "list_op c kvs p x")
    case None
    then show ?thesis using at_stuck [OF Cons.prems(1)] by simp
  next
    case (Some p')
    obtain i' where i': "io_move it i x = Some i'" "at i' kvs p'"
      using at_move [OF Cons.prems(1) Some] Cons.prems(2) by auto
    then show ?thesis using Cons.IH [OF i'(2)] Cons.prems(2) Some at_entry [OF i'(2)] at_status [OF i'(2)] by simp
  qed
qed simp

end

subsection \<open>The empty iterator\<close>

lemma empty_cursor:
  assumes "comparator_laws c valid"
  shows "cursor_iterator c valid EmptyIterator_ops (\<lambda>s kvs p. s = OK \<and> kvs = [] \<and> p = 0)"
proof -
  have "list_op c [] 0 x = Some p' \<Longrightarrow> empty_move OK x = Some OK \<and> p' = 0" "list_op c [] 0 x = None \<Longrightarrow> empty_move OK x = None"
    for x p' by (cases x; auto)+
  with assms show ?thesis
    by (auto simp: cursor_iterator_def cursor_iterator_axioms_def EmptyIterator_ops_def key_sorted_def)
qed

interpretation empty: cursor_iterator BytewiseComparator "\<lambda>_. True" EmptyIterator_ops "\<lambda>s kvs p. s = OK \<and> kvs = [] \<and> p = 0"
  by (rule empty_cursor) (rule bytewise_laws)

subsection \<open>The iterator of a block\<close>

definition BlockIterator_ops :: "(block_consts \<times> block_iter) iter_ops" where
  "BlockIterator_ops =
     \<lparr>io_Valid = (\<lambda>(bc, i). bi_Valid bc i), io_move = (\<lambda>(bc, i) x. map_option (Pair bc) (block_op bc i x)),
      io_key = (\<lambda>(bc, i). if bi_Valid bc i then Some (bi_key i) else None),
      io_value = (\<lambda>(bc, i). bi_value_bytes bc i), io_status = (\<lambda>(bc, i). bi_status i)\<rparr>"

definition block_at ::
  "comparator \<Rightarrow> (byte list \<Rightarrow> bool) \<Rightarrow> block_consts \<times> block_iter \<Rightarrow> (byte list \<times> byte list) list \<Rightarrow> nat \<Rightarrow> bool" where
  "block_at c valid bi kvs p \<longleftrightarrow> p \<le> length kvs \<and> key_sorted c kvs \<and> (\<forall>kv \<in> set kvs. valid (fst kv)) \<and> bc_comparator (fst bi) = c \<and>
     (\<exists>es R. holds (fst bi) es R \<and> map snd es = kvs \<and> stands (fst bi) es R (snd bi) p)"

lemma list_op_range: "list_op c kvs p x = Some p' \<Longrightarrow> p' \<le> length kvs"
  by (cases x) (auto simp: length_takeWhile_le split: if_splits)

context comparator_laws begin

lemma block_cursor: "cursor_iterator c valid BlockIterator_ops (block_at c valid)"
proof
  fix bi kvs p
  assume at: "block_at c valid bi kvs p"
  obtain bc i where bi: "bi = (bc, i)" by (cases bi)
  obtain es R where h: "holds bc es R" "map snd es = kvs" "stands bc es R i p" and bc: "bc_comparator bc = c"
    and kvs: "key_sorted c kvs" "\<forall>kv \<in> set kvs. valid (fst kv)" "p \<le> length kvs"
    using at by (auto simp: block_at_def bi)
  show "key_sorted c kvs \<and> (\<forall>kv \<in> set kvs. valid (fst kv))" "p \<le> length kvs" using kvs by auto
  have e: "block_entry bc i = list_entry kvs p" "bi_status i = OK"
    using stands_entry [OF h(1,3)] unfolding h(2) by auto
  have v: "bi_Valid bc i \<longleftrightarrow> p < length kvs"
    using e(1) by (simp add: block_entry_def list_entry_def split: if_split_asm)
  then show "io_Valid BlockIterator_ops bi \<longleftrightarrow> p < length kvs" "io_status BlockIterator_ops bi = OK"
    using e(2) by (simp_all add: BlockIterator_ops_def bi)
  show "io_key BlockIterator_ops bi = Some (fst (kvs ! p))" "io_value BlockIterator_ops bi = Some (snd (kvs ! p))"
    if "p < length kvs"
    using that v e(1) by (simp_all add: BlockIterator_ops_def bi block_entry_def list_entry_def)
  fix x
  have vk: "\<forall>e \<in> set es. valid (e_key e)" using kvs(2) unfolding h(2) [symmetric] by simp
  have srt: "key_sorted c (map snd es)" using kvs(1) h(2) by simp
  have lb: "below (bc_comparator bc) t (es ! j) \<longleftrightarrow> j < lower_bound (bc_comparator bc) t es" if "valid t" "j < length es" for t j
    unfolding bc by (rule lower_bound_iff [OF below_closed [OF srt vk that(1)] that(2)])
  show "\<exists>i'. io_move BlockIterator_ops bi x = Some i' \<and> block_at c valid i' kvs p'"
    if "list_op c kvs p x = Some p'" "\<forall>t. x = Seek t \<longrightarrow> valid t" for p'
  proof -
    note mv = that(1)
    have "below (bc_comparator bc) t (es ! j) \<longleftrightarrow> j < lower_bound (bc_comparator bc) t es" if "x = Seek t" "j < length es" for t j
      using lb \<open>\<forall>t. x = Seek t \<longrightarrow> valid t\<close> that by simp
    from op_refines [OF h(1,3), of x] this obtain i' where i': "block_op bc i x = Some i'" "stands bc es R i' p'"
      using mv by (auto simp: bc h(2))
    have "block_at c valid (bc, i') kvs p'"
      unfolding block_at_def using kvs(1,2) bc h(1,2) i'(2) list_op_range [OF mv] by auto
    then show ?thesis using i'(1) by (simp add: BlockIterator_ops_def bi)
  qed
  show "io_move BlockIterator_ops bi x = None" if "list_op c kvs p x = None"
  proof -
    have "x \<noteq> Seek t" for t using that by auto
    then show ?thesis using op_refines [OF h(1,3), of x] that by (simp add: bi bc h(2) BlockIterator_ops_def)
  qed
qed

end

interpretation block: cursor_iterator BytewiseComparator "\<lambda>_. True" BlockIterator_ops "block_at BytewiseComparator (\<lambda>_. True)"
  by (rule bytewise.block_cursor)

subsection \<open>Merging: sorted lists\<close>

lemma filter_down:
  assumes "\<And>i j. i < j \<Longrightarrow> j < length xs \<Longrightarrow> P (xs ! j) \<Longrightarrow> P (xs ! i)"
  shows "filter P xs = takeWhile P xs" and "i < length xs \<Longrightarrow> P (xs ! i) \<longleftrightarrow> i < length (filter P xs)"
proof -
  show eq: "filter P xs = takeWhile P xs"
    using assms
  proof (induction xs)
    case (Cons x xs)
    have "filter P xs = takeWhile P xs" using Cons.prems [of "Suc _" "Suc _"] by (intro Cons.IH) auto
    moreover have "\<not> P x \<Longrightarrow> filter P xs = []" using Cons.prems [of 0 "Suc _"] by (auto simp: filter_empty_conv in_set_conv_nth)
    ultimately show ?case by auto
  qed simp
  assume i: "i < length xs"
  show "P (xs ! i) \<longleftrightarrow> i < length (filter P xs)"
  proof
    assume "i < length (filter P xs)"
    then show "P (xs ! i)" unfolding eq by (metis nth_mem set_takeWhileD takeWhile_nth)
  next
    assume P: "P (xs ! i)"
    show "i < length (filter P xs)"
    proof (rule ccontr)
      assume n: "\<not> i < length (filter P xs)"
      then have "\<not> P (xs ! length (takeWhile P xs))" using i unfolding eq by (intro nth_length_takeWhile) simp
      moreover have "P (xs ! length (takeWhile P xs))"
        using assms [OF _ i P, of "length (takeWhile P xs)"] P n unfolding eq by (cases "length (takeWhile P xs) = i") auto
      ultimately show False by simp
    qed
  qed
qed

text \<open>How many entries of \<open>kvs\<close> are among the first \<open>p\<close> of \<open>ms\<close>.\<close>

definition kv_before :: "'a list \<Rightarrow> nat \<Rightarrow> 'a list \<Rightarrow> nat" where
  "kv_before ms p kvs = length (filter (\<lambda>kv. kv \<in> set (take p ms)) kvs)"

text \<open>The position before, where the length of the list stands for none.\<close>

definition kv_back :: "'a list \<Rightarrow> nat \<Rightarrow> 'a list \<Rightarrow> nat" where
  "kv_back ms p kvs = (if kv_before ms p kvs = 0 then length kvs else kv_before ms p kvs - 1)"

definition merges :: "comparator \<Rightarrow> (byte list \<times> byte list) list \<Rightarrow> (byte list \<times> byte list) list list \<Rightarrow> bool" where
  "merges c ms kss \<longleftrightarrow> key_sorted c ms \<and> set ms = (\<Union>kvs \<in> set kss. set kvs) \<and>
     (\<forall>j k. j < k \<and> k < length kss \<longrightarrow> set (kss ! j) \<inter> set (kss ! k) = {})"

lemma merges_one:
  assumes "merges c ms kss" "kv \<in> set (kss ! j)" "kv \<in> set (kss ! k)" "j < length kss" "k < length kss"
  shows "j = k"
proof -
  have "set (kss ! a) \<inter> set (kss ! b) = {}" if "a < b" "b < length kss" for a b
    using assms(1) that unfolding merges_def by blast
  from this [of j k] this [of k j] show ?thesis using assms(2-) by (cases j k rule: linorder_cases) auto
qed

lemma kv_before_le: "kv_before ms p kvs \<le> length kvs"
  by (simp add: kv_before_def)

context comparator_laws begin

lemma key_sorted_nth: "key_sorted c ms \<Longrightarrow> i < j \<Longrightarrow> j < length ms \<Longrightarrow> cmp_Compare c (fst (ms ! i)) (fst (ms ! j)) < 0"
  by (auto simp: key_sorted_def sorted_wrt_iff_nth_less)

lemma key_sorted_less:
  assumes "key_sorted c ms" "\<forall>kv \<in> set ms. valid (fst kv)" "i < length ms" "j < length ms"
  shows "cmp_Compare c (fst (ms ! i)) (fst (ms ! j)) < 0 \<longleftrightarrow> i < j"
proof (cases i j rule: linorder_cases)
  case equal
  then show ?thesis using assms compare_refl by simp
next
  case greater
  then have "cmp_Compare c (fst (ms ! j)) (fst (ms ! i)) < 0" using key_sorted_nth assms by blast
  then show ?thesis using greater compare_swap [of "fst (ms ! j)" "fst (ms ! i)"] assms by auto
qed (use assms key_sorted_nth in auto)

lemma key_sorted_distinct: "key_sorted c ms \<Longrightarrow> \<forall>kv \<in> set ms. valid (fst kv) \<Longrightarrow> distinct ms"
  unfolding distinct_conv_nth
proof (intro allI impI)
  fix i j
  assume "key_sorted c ms" "\<forall>kv \<in> set ms. valid (fst kv)" and ij: "i < length ms" "j < length ms" "i \<noteq> j"
  then show "ms ! i \<noteq> ms ! j"
    using key_sorted_less [of ms i j] key_sorted_less [of ms j i] key_sorted_less [of ms i i] by (cases i j rule: linorder_cases) auto
qed

lemma below_iff:
  assumes "key_sorted c kvs" "\<forall>kv \<in> set kvs. valid (fst kv)" "valid t"
  shows "length (takeWhile (\<lambda>kv. cmp_Compare c (fst kv) t < 0) kvs) = length (filter (\<lambda>kv. cmp_Compare c (fst kv) t < 0) kvs)"
    and "i < length kvs \<Longrightarrow> cmp_Compare c (fst (kvs ! i)) t < 0 \<longleftrightarrow> i < length (filter (\<lambda>kv. cmp_Compare c (fst kv) t < 0) kvs)"
proof -
  have d: "cmp_Compare c (fst (kvs ! i)) t < 0" if "i < j" "j < length kvs" "cmp_Compare c (fst (kvs ! j)) t < 0" for i j
    using key_sorted_nth [OF assms(1) that(1,2)] that assms compare_less_trans [of "fst (kvs ! i)" "fst (kvs ! j)" t] by simp
  from filter_down [where P = "\<lambda>kv. cmp_Compare c (fst kv) t < 0", OF d]
  show "length (takeWhile (\<lambda>kv. cmp_Compare c (fst kv) t < 0) kvs) = length (filter (\<lambda>kv. cmp_Compare c (fst kv) t < 0) kvs)"
    "i < length kvs \<Longrightarrow> cmp_Compare c (fst (kvs ! i)) t < 0 \<longleftrightarrow> i < length (filter (\<lambda>kv. cmp_Compare c (fst kv) t < 0) kvs)"
    by auto
qed

end

context comparator_laws begin

text \<open>A list and a sorted part of it.\<close>

definition sorted_part :: "(byte list \<times> byte list) list \<Rightarrow> (byte list \<times> byte list) list \<Rightarrow> bool" where
  "sorted_part ms kvs \<longleftrightarrow> key_sorted c ms \<and> (\<forall>kv \<in> set ms. valid (fst kv)) \<and> key_sorted c kvs \<and> set kvs \<subseteq> set ms"

lemma sorted_partD:
  assumes "sorted_part ms kvs"
  shows "key_sorted c ms" "\<forall>kv \<in> set ms. valid (fst kv)" "key_sorted c kvs" "set kvs \<subseteq> set ms" "\<forall>kv \<in> set kvs. valid (fst kv)"
  using assms unfolding sorted_part_def by blast+

lemma among:
  assumes sp: "sorted_part ms kvs"
  shows "i < length ms \<Longrightarrow> ms ! i \<in> set (take p ms) \<longleftrightarrow> i < p"
  using key_sorted_distinct [OF sorted_partD(1,2) [OF sp]] by (auto simp: in_set_conv_nth nth_eq_iff_index_eq)

lemma before_iff:
  assumes sp: "sorted_part ms kvs"
  shows "i < length kvs \<Longrightarrow> kvs ! i \<in> set (take p ms) \<longleftrightarrow> i < kv_before ms p kvs"
proof -
  note ms = sorted_partD(1,2) [OF sp] and kvs = sorted_partD(3) [OF sp] and part = sorted_partD(4) [OF sp] and vkvs = sorted_partD(5) [OF sp]
  have "kvs ! i \<in> set (take p ms)" if ij: "i < j" "j < length kvs" "kvs ! j \<in> set (take p ms)" for i j
  proof -
    have "kvs ! i \<in> set ms" "kvs ! j \<in> set ms" using part ij nth_mem [of i kvs] nth_mem [of j kvs] by auto
    then obtain a b where ab: "a < length ms" "kvs ! i = ms ! a" "b < length ms" "kvs ! j = ms ! b"
      by (metis in_set_conv_nth)
    then have "a < b" using key_sorted_less [OF ms] key_sorted_nth [OF kvs ij(1,2)] by simp
    then show ?thesis using among [OF sp] ab ij(3) by auto
  qed
  from filter_down(2) [where P = "\<lambda>kv. kv \<in> set (take p ms)", OF this]
  show "i < length kvs \<Longrightarrow> kvs ! i \<in> set (take p ms) \<longleftrightarrow> i < kv_before ms p kvs"
    by (simp add: kv_before_def)
qed

lemma before_0:
  assumes sp: "sorted_part ms kvs"
  shows "kv_before ms 0 kvs = 0"
  by (simp add: kv_before_def)

lemma before_end:
  assumes sp: "sorted_part ms kvs"
  shows "kv_before ms (length ms) kvs = length kvs"
proof -
  note ms = sorted_partD(1,2) [OF sp] and kvs = sorted_partD(3) [OF sp] and part = sorted_partD(4) [OF sp] and vkvs = sorted_partD(5) [OF sp]
  have "filter (\<lambda>kv. kv \<in> set ms) kvs = kvs" by (rule filter_True) (use part in blast)
  then show ?thesis by (simp add: kv_before_def)
qed

lemma before_Suc:
  assumes sp: "sorted_part ms kvs"
  shows "p < length ms \<Longrightarrow> kv_before ms (Suc p) kvs = kv_before ms p kvs + (if ms ! p \<in> set kvs then 1 else 0)"
proof -
  note ms = sorted_partD(1,2) [OF sp] and kvs = sorted_partD(3) [OF sp] and part = sorted_partD(4) [OF sp] and vkvs = sorted_partD(5) [OF sp]
  assume p: "p < length ms"
  have new: "ms ! p \<notin> set (take p ms)" using among [OF sp p] by simp
  have d: "distinct kvs" by (rule key_sorted_distinct [OF kvs vkvs])
  have "length (filter (\<lambda>kv. kv = x \<or> P kv) kvs) = length (filter P kvs) + length (filter (\<lambda>kv. kv = x) kvs)"
    if "\<not> P x" for P x
    using that by (induction kvs) auto
  from this [of "\<lambda>kv. kv \<in> set (take p ms)", OF new]
  have "kv_before ms (Suc p) kvs = kv_before ms p kvs + length (filter (\<lambda>kv. kv = ms ! p) kvs)"
    using p by (simp add: kv_before_def take_Suc_conv_app_nth)
  moreover have "length (filter (\<lambda>kv. kv = x) kvs) = (if x \<in> set kvs then 1 else 0)" for x
    using d by (induction kvs) auto
  ultimately show ?thesis by simp
qed

lemma before_at:
  assumes sp: "sorted_part ms kvs"
  shows "p < length ms \<Longrightarrow> ms ! p \<in> set kvs \<Longrightarrow> kv_before ms p kvs < length kvs \<and> kvs ! kv_before ms p kvs = ms ! p"
proof -
  note ms = sorted_partD(1,2) [OF sp] and kvs = sorted_partD(3) [OF sp] and part = sorted_partD(4) [OF sp] and vkvs = sorted_partD(5) [OF sp]
  assume p: "p < length ms" and m: "ms ! p \<in> set kvs"
  then obtain q where q: "q < length kvs" "kvs ! q = ms ! p" by (metis in_set_conv_nth)
  have "\<not> q < kv_before ms p kvs" using before_iff [OF sp q(1), of p] q(2) among [OF sp p, of p] by simp
  moreover have "q < kv_before ms (Suc p) kvs" using before_iff [OF sp q(1), of "Suc p"] q(2) among [OF sp p, of "Suc p"] by simp
  ultimately have "q = kv_before ms p kvs" using before_Suc [OF sp p] m by simp
  then show ?thesis using q by simp
qed

lemma before_drop:
  assumes sp: "sorted_part ms kvs"
  shows "q < length kvs \<Longrightarrow> q = kv_before ms p kvs \<Longrightarrow> kvs ! q \<in> set (drop p ms)"
proof -
  note ms = sorted_partD(1,2) [OF sp] and kvs = sorted_partD(3) [OF sp] and part = sorted_partD(4) [OF sp] and vkvs = sorted_partD(5) [OF sp]
  assume q: "q < length kvs" "q = kv_before ms p kvs"
  have "kvs ! q \<notin> set (take p ms)" using before_iff [OF sp q(1), of p] q(2) by simp
  moreover have "kvs ! q \<in> set (take p ms) \<union> set (drop p ms)"
    unfolding set_append [symmetric] append_take_drop_id using part nth_mem [OF q(1)] by blast
  ultimately show ?thesis by blast
qed

lemma seek_before:
  assumes sp: "sorted_part ms kvs" and t: "valid t"
  shows "length (takeWhile (\<lambda>kv. cmp_Compare c (fst kv) t < 0) kvs) =
    kv_before ms (length (takeWhile (\<lambda>kv. cmp_Compare c (fst kv) t < 0) ms)) kvs"
proof -
  note ms = sorted_partD(1,2) [OF sp] and kvs = sorted_partD(3) [OF sp] and part = sorted_partD(4) [OF sp] and vkvs = sorted_partD(5) [OF sp]
  let ?P = "\<lambda>kv. cmp_Compare c (fst kv) t < 0"
  have "?P kv \<longleftrightarrow> kv \<in> set (take (length (takeWhile ?P ms)) ms)" if kv: "kv \<in> set kvs" for kv
  proof -
    have "kv \<in> set ms" using part kv by blast
    then obtain i where i: "i < length ms" "kv = ms ! i" by (metis in_set_conv_nth)
    have "ms ! i \<in> set (take (length (takeWhile ?P ms)) ms) \<longleftrightarrow> i < length (takeWhile ?P ms)" by (rule among [OF sp i(1)])
    also have "\<dots> \<longleftrightarrow> ?P (ms ! i)" unfolding below_iff(1) [OF ms t] using below_iff(2) [OF ms t i(1)] by blast
    finally show ?thesis unfolding i(2) by blast
  qed
  then show ?thesis unfolding below_iff(1) [OF kvs vkvs t] kv_before_def by (rule arg_cong [OF filter_cong [OF refl]])
qed

lemma seek_at:
  assumes sp: "sorted_part ms kvs"
  shows "p < length ms \<Longrightarrow> length (takeWhile (\<lambda>kv. cmp_Compare c (fst kv) (fst (ms ! p)) < 0) ms) = p"
proof -
  note ms = sorted_partD(1,2) [OF sp] and kvs = sorted_partD(3) [OF sp] and part = sorted_partD(4) [OF sp] and vkvs = sorted_partD(5) [OF sp]
  assume p: "p < length ms"
  let ?P = "\<lambda>kv. cmp_Compare c (fst kv) (fst (ms ! p)) < 0"
  have v: "valid (fst (ms ! p))" using ms(2) p by simp
  have iff: "i < length (filter ?P ms) \<longleftrightarrow> i < p" if "i < length ms" for i
    using below_iff(2) [OF ms v that] key_sorted_less [OF ms that p] by blast
  have "length (filter ?P ms) \<le> p" using iff [OF p] by (simp add: not_less)
  moreover have "p \<le> length (filter ?P ms)"
  proof (rule ccontr)
    assume "\<not> p \<le> length (filter ?P ms)"
    then have "length (filter ?P ms) < p" "length (filter ?P ms) < length ms" using p by simp_all
    with iff [of "length (filter ?P ms)"] show False by blast
  qed
  ultimately show ?thesis unfolding below_iff(1) [OF ms v] by simp
qed

end

subsection \<open>Merging: the children\<close>

definition child_at ::
  "('i \<Rightarrow> (byte list \<times> byte list) list \<Rightarrow> nat \<Rightarrow> bool) \<Rightarrow> 'i wrapper \<Rightarrow> (byte list \<times> byte list) list \<Rightarrow> nat \<Rightarrow> bool" where
  "child_at at w kvs q \<longleftrightarrow> at (iw_iter w) kvs q \<and> (iw_valid w \<longleftrightarrow> q < length kvs) \<and> (q < length kvs \<longrightarrow> iw_key w = fst (kvs ! q))"

text \<open>The search for the best valid child; \<open>le s i\<close>: child \<open>s\<close> is as good as child \<open>i\<close>.\<close>

lemma fold_best:
  assumes "\<And>i. i \<in> set xs \<Longrightarrow> V i \<Longrightarrow> le i i"
    and "\<And>i j k. i \<in> set xs \<Longrightarrow> j \<in> set xs \<Longrightarrow> k \<in> set xs \<Longrightarrow> V i \<Longrightarrow> V j \<Longrightarrow> V k \<Longrightarrow> le i j \<Longrightarrow> le j k \<Longrightarrow> le i k"
    and "\<And>i j. i \<in> set xs \<Longrightarrow> j \<in> set xs \<Longrightarrow> V i \<Longrightarrow> V j \<Longrightarrow> (if B i j then le i j else le j i)"
  shows "case foldl (\<lambda>b i. if V i then (case b of None \<Rightarrow> Some i | Some s \<Rightarrow> if B i s then Some i else b) else b) None xs of
      None \<Rightarrow> \<forall>i \<in> set xs. \<not> V i
    | Some s \<Rightarrow> s \<in> set xs \<and> V s \<and> (\<forall>i \<in> set xs. V i \<longrightarrow> le s i)"
  using assms
proof (induction xs rule: rev_induct)
  case (snoc x xs)
  let ?f = "\<lambda>b i. if V i then (case b of None \<Rightarrow> Some i | Some s \<Rightarrow> if B i s then Some i else b) else b"
  have IH: "case foldl ?f None xs of None \<Rightarrow> \<forall>i \<in> set xs. \<not> V i
    | Some s \<Rightarrow> s \<in> set xs \<and> V s \<and> (\<forall>i \<in> set xs. V i \<longrightarrow> le s i)"
  proof (rule snoc.IH)
    show "le i i" if "i \<in> set xs" "V i" for i using snoc.prems(1) that by simp
    show "le i k" if "i \<in> set xs" "j \<in> set xs" "k \<in> set xs" "V i" "V j" "V k" "le i j" "le j k" for i j k
      using snoc.prems(2) [of i j k] that by simp
    show "if B i j then le i j else le j i" if "i \<in> set xs" "j \<in> set xs" "V i" "V j" for i j
      using snoc.prems(3) [of i j] that by simp
  qed
  show ?case
  proof (cases "V x")
    case False
    then show ?thesis using IH by (auto split: option.splits)
  next
    case V: True
    show ?thesis
    proof (cases "foldl ?f None xs")
      case None
      then show ?thesis using IH V snoc.prems(1) [of x] by simp
    next
      case (Some s)
      then have s: "s \<in> set xs" "V s" "\<And>i. i \<in> set xs \<Longrightarrow> V i \<Longrightarrow> le s i" using IH by auto
      have r: "le x x" using snoc.prems(1) V by simp
      show ?thesis
      proof (cases "B x s")
        case True
        then have "le x s" using snoc.prems(3) [of x s] s(1,2) V by simp
        then have "le x i" if "i \<in> set xs" "V i" for i
          using snoc.prems(2) [of x s i] s that V by simp
        then show ?thesis using Some True V r by simp
      next
        case False
        then have "le s x" using snoc.prems(3) [of x s] s(1,2) V by simp
        then show ?thesis using Some False V s by simp
      qed
    qed
  qed
qed simp

context comparator_laws begin

lemma compare_ge_trans: "cmp_Compare c a b \<ge> 0 \<Longrightarrow> cmp_Compare c b d \<ge> 0 \<Longrightarrow> valid a \<Longrightarrow> valid b \<Longrightarrow> valid d \<Longrightarrow> cmp_Compare c a d \<ge> 0"
  using compare_trans [of d b a] compare_swap [of b a] compare_swap [of d b] compare_swap [of a d] compare_swap [of d a]
    compare_swap [of a b] compare_swap [of b d] by linarith

lemma fold_smallest:
  assumes "\<And>i. i \<in> set xs \<Longrightarrow> V i \<Longrightarrow> valid (k i)"
  shows "case foldl (\<lambda>b i. if V i then (case b of None \<Rightarrow> Some i | Some s \<Rightarrow> if cmp_Compare c (k i) (k s) < 0 then Some i else b) else b) None xs of
      None \<Rightarrow> \<forall>i \<in> set xs. \<not> V i
    | Some s \<Rightarrow> s \<in> set xs \<and> V s \<and> (\<forall>i \<in> set xs. V i \<longrightarrow> cmp_Compare c (k s) (k i) \<le> 0)"
proof (rule fold_best)
  show "cmp_Compare c (k i) (k i) \<le> 0" if "i \<in> set xs" "V i" for i using compare_refl assms that by simp
  show "cmp_Compare c (k i) (k l) \<le> 0" if "i \<in> set xs" "j \<in> set xs" "l \<in> set xs" "V i" "V j" "V l"
    "cmp_Compare c (k i) (k j) \<le> 0" "cmp_Compare c (k j) (k l) \<le> 0" for i j l
    using compare_trans [of "k i" "k j" "k l"] assms that by blast
  show "if cmp_Compare c (k i) (k j) < 0 then cmp_Compare c (k i) (k j) \<le> 0 else cmp_Compare c (k j) (k i) \<le> 0"
    if "i \<in> set xs" "j \<in> set xs" "V i" "V j" for i j
    using compare_swap [of "k i" "k j"] compare_swap [of "k j" "k i"] assms that by auto
qed

lemma fold_largest:
  assumes "\<And>i. i \<in> set xs \<Longrightarrow> V i \<Longrightarrow> valid (k i)"
  shows "case foldl (\<lambda>b i. if V i then (case b of None \<Rightarrow> Some i | Some s \<Rightarrow> if cmp_Compare c (k i) (k s) > 0 then Some i else b) else b) None xs of
      None \<Rightarrow> \<forall>i \<in> set xs. \<not> V i
    | Some s \<Rightarrow> s \<in> set xs \<and> V s \<and> (\<forall>i \<in> set xs. V i \<longrightarrow> cmp_Compare c (k s) (k i) \<ge> 0)"
proof (rule fold_best)
  show "cmp_Compare c (k i) (k i) \<ge> 0" if "i \<in> set xs" "V i" for i using compare_refl assms that by simp
  show "cmp_Compare c (k i) (k l) \<ge> 0" if "i \<in> set xs" "j \<in> set xs" "l \<in> set xs" "V i" "V j" "V l"
    "cmp_Compare c (k i) (k j) \<ge> 0" "cmp_Compare c (k j) (k l) \<ge> 0" for i j l
    using compare_ge_trans [of "k i" "k j" "k l"] assms that by blast
  show "if cmp_Compare c (k i) (k j) > 0 then cmp_Compare c (k i) (k j) \<ge> 0 else cmp_Compare c (k j) (k i) \<ge> 0"
    if "i \<in> set xs" "j \<in> set xs" "V i" "V j" for i j
    using compare_swap [of "k i" "k j"] compare_swap [of "k j" "k i"] assms that by auto
qed

end

lemma those_nth:
  assumes "\<And>i. i < length xs \<Longrightarrow> \<exists>y. xs ! i = Some y \<and> Q i y"
  shows "\<exists>ys. those xs = Some ys \<and> length ys = length xs \<and> (\<forall>i < length xs. Q i (ys ! i))"
  using assms
proof (induction xs arbitrary: Q)
  case (Cons x xs)
  obtain y where y: "x = Some y" "Q 0 y" using Cons.prems [of 0] by auto
  obtain ys where "those xs = Some ys" "length ys = length xs" "\<forall>i < length xs. Q (Suc i) (ys ! i)"
    using Cons.IH [of "\<lambda>i. Q (Suc i)"] Cons.prems [of "Suc _"] by auto
  then show ?case using y by (intro exI [of _ "y # ys"]) (auto simp: nth_Cons split: nat.splits)
qed simp

lemma each_child_ok:
  assumes "\<And>i. i < length (mi_children m) \<Longrightarrow> \<exists>w. f i (mi_children m ! i) = Some w \<and> Q i w"
  shows "\<exists>ws. each_child f m = Some (m\<lparr>mi_children := ws\<rparr>) \<and> length ws = length (mi_children m) \<and>
    (\<forall>i < length (mi_children m). Q i (ws ! i))"
proof -
  have "\<exists>ys. those (map (\<lambda>i. f i (mi_children m ! i)) [0 ..< length (mi_children m)]) = Some ys \<and>
      length ys = length (map (\<lambda>i. f i (mi_children m ! i)) [0 ..< length (mi_children m)]) \<and>
      (\<forall>i < length (map (\<lambda>i. f i (mi_children m ! i)) [0 ..< length (mi_children m)]). Q i (ys ! i))"
    using assms by (intro those_nth) simp
  then show ?thesis by (auto simp: each_child_def)
qed

context cursor_iterator begin

lemma child_move:
  assumes "child_at at w kvs q" "list_op c kvs q x = Some q'" "\<forall>t. x = Seek t \<longrightarrow> valid t"
  shows "\<exists>w'. iw_move it x w = Some w' \<and> child_at at w' kvs q'"
proof -
  obtain i' where i': "io_move it (iw_iter w) x = Some i'" "at i' kvs q'"
    using at_move [OF _ assms(2,3)] assms(1) by (auto simp: child_at_def)
  then show ?thesis using at_Valid [OF i'(2)] at_key [OF i'(2)] by (auto simp: iw_move_def iw_Update_def child_at_def)
qed

text \<open>The merging iterator at position \<open>p\<close> of \<open>ms\<close>, its children cursors on \<open>kss\<close>. Going forward, every child is
  on its first entry from position \<open>p\<close> on; going backward, the children other than the current one are
  on the last entry before.\<close>

definition merge_on :: "'i merging \<Rightarrow> (byte list \<times> byte list) list list \<Rightarrow> (byte list \<times> byte list) list \<Rightarrow> bool" where
  "merge_on m kss ms \<longleftrightarrow> merges c ms kss \<and> (\<forall>kv \<in> set ms. valid (fst kv)) \<and> length kss = length (mi_children m) \<and>
     (\<forall>j < length kss. \<exists>q. child_at at (mi_children m ! j) (kss ! j) q)"

definition merge_at :: "'i merging \<Rightarrow> (byte list \<times> byte list) list \<Rightarrow> nat \<Rightarrow> bool" where
  "merge_at m ms p \<longleftrightarrow> (\<exists>kss. merge_on m kss ms \<and>
     (case mi_current m of
        None \<Rightarrow> p = length ms
      | Some k \<Rightarrow> p < length ms \<and> k < length kss \<and> ms ! p \<in> set (kss ! k) \<and>
          (\<forall>j < length kss. child_at at (mi_children m ! j) (kss ! j)
             (if mi_reverse m \<and> j \<noteq> k then kv_back ms p (kss ! j) else kv_before ms p (kss ! j)))))"

lemma merge_part:
  assumes "merge_on m kss ms" "j < length kss"
  shows "sorted_part ms (kss ! j)"
  unfolding sorted_part_def
proof (intro conjI)
  show "key_sorted c ms" "\<forall>kv \<in> set ms. valid (fst kv)" using assms(1) by (auto simp: merge_on_def merges_def)
  obtain q where "child_at at (mi_children m ! j) (kss ! j) q" using assms by (auto simp: merge_on_def)
  then show "key_sorted c (kss ! j)" using at_sorted by (auto simp: child_at_def)
  show "set (kss ! j) \<subseteq> set ms" using assms by (auto simp: merge_on_def merges_def)
qed

lemma merge_facts:
  assumes "merge_on m kss ms"
  shows "merges c ms kss" "key_sorted c ms" "\<forall>kv \<in> set ms. valid (fst kv)" "length kss = length (mi_children m)"
    "kv \<in> set ms \<Longrightarrow> \<exists>j < length kss. kv \<in> set (kss ! j)"
proof -
  show m: "merges c ms kss" "\<forall>kv \<in> set ms. valid (fst kv)" "length kss = length (mi_children m)"
    using assms by (simp_all add: merge_on_def)
  show "key_sorted c ms" using m(1) by (simp add: merges_def)
  assume "kv \<in> set ms"
  then obtain kvs where "kvs \<in> set kss" "kv \<in> set kvs" using m(1) by (auto simp: merges_def)
  then show "\<exists>j < length kss. kv \<in> set (kss ! j)" by (metis in_set_conv_nth)
qed

lemma FindSmallest_at:
  assumes on: "merge_on m kss ms" and p: "p \<le> length ms"
    and at: "\<forall>j < length kss. child_at at (mi_children m ! j) (kss ! j) (kv_before ms p (kss ! j))"
  shows "merge_at ((mi_FindSmallest c m)\<lparr>mi_reverse := False\<rparr>) ms p"
proof -
  note f = merge_facts [OF on]
  let ?V = "\<lambda>i. iw_valid (mi_children m ! i)" and ?k = "\<lambda>i. iw_key (mi_children m ! i)"
  let ?le = "\<lambda>i j. cmp_Compare c (?k i) (?k j) \<le> 0" and ?q = "\<lambda>j. kv_before ms p (kss ! j)"
  have V: "?V j \<longleftrightarrow> ?q j < length (kss ! j)" if "j < length kss" for j using at that by (auto simp: child_at_def)
  have K: "?k j = fst (kss ! j ! ?q j)" "kss ! j ! ?q j \<in> set (drop p ms)" "kss ! j ! ?q j \<in> set (kss ! j)"
    if "j < length kss" "?V j" for j
    using at that V [OF that(1)] before_drop [OF merge_part [OF on that(1)]] by (auto simp: child_at_def)
  have Kv: "valid (?k j)" if "j < length kss" "?V j" for j using K [OF that] f(3) in_set_dropD by fastforce
  define cur where "cur = mi_current (mi_FindSmallest c m)"
  have best: "case cur of None \<Rightarrow> \<forall>i < length kss. \<not> ?V i | Some s \<Rightarrow> s < length kss \<and> ?V s \<and> (\<forall>i < length kss. ?V i \<longrightarrow> ?le s i)"
  proof -
    note fold_smallest [of "[0 ..< length kss]" ?V ?k]
    then show ?thesis using Kv by (simp add: cur_def mi_FindSmallest_def Let_def f(4) split: option.splits)
  qed
  have rest: "merge_on ((mi_FindSmallest c m)\<lparr>mi_reverse := False\<rparr>) kss ms" "mi_children (mi_FindSmallest c m) = mi_children m"
    using on by (simp_all add: merge_on_def mi_FindSmallest_def)
  show ?thesis
  proof (cases "p = length ms")
    case True
    have "cur = None"
    proof (cases cur)
      case (Some s)
      then have "s < length kss" "?V s" using best by auto
      from K(2) [OF this] True show ?thesis by simp
    qed
    then show ?thesis using rest True by (auto simp: merge_at_def cur_def)
  next
    case False
    then have pl: "p < length ms" using p by simp
    then obtain j where j: "j < length kss" "ms ! p \<in> set (kss ! j)" using f(5) [of "ms ! p"] by auto
    from before_at [OF merge_part [OF on j(1)] pl j(2)]
    have qj: "?V j" "kss ! j ! ?q j = ms ! p" using V [OF j(1)] by auto
    then obtain s where s: "cur = Some s" "s < length kss" "?V s" "?le s j" using best j(1) by (cases cur) auto
    have "kss ! s ! ?q s = ms ! p"
    proof -
      obtain b where b: "p \<le> b" "b < length ms" "kss ! s ! ?q s = ms ! b"
        using K(2) [OF s(2,3)] by (auto simp: in_set_conv_nth) (metis add.commute le_add1 less_diff_conv)
      have "cmp_Compare c (fst (ms ! b)) (fst (ms ! p)) \<le> 0" using s(4) K(1) [OF s(2,3)] K(1) [OF j(1) qj(1)] qj(2) b(3) by simp
      then have "\<not> p < b" using key_sorted_less [OF f(2,3) pl b(2)] compare_swap [of "fst (ms ! p)" "fst (ms ! b)"] f(3) pl b(2) by auto
      then show ?thesis using b by simp
    qed
    then have "ms ! p \<in> set (kss ! s)" using K(3) [OF s(2,3)] by simp
    then show ?thesis using rest at pl s(1,2) by (auto simp: merge_at_def cur_def intro!: exI [of _ kss])
  qed
qed

lemma FindLargest_at:
  assumes on: "merge_on m kss ms" and p: "p \<le> length ms"
    and at: "\<forall>j < length kss. child_at at (mi_children m ! j) (kss ! j) (kv_back ms p (kss ! j))"
  shows "merge_at ((mi_FindLargest c m)\<lparr>mi_reverse := True\<rparr>) ms (if p = 0 then length ms else p - 1)"
proof -
  note f = merge_facts [OF on]
  let ?V = "\<lambda>i. iw_valid (mi_children m ! i)" and ?k = "\<lambda>i. iw_key (mi_children m ! i)"
  let ?le = "\<lambda>i j. cmp_Compare c (?k i) (?k j) \<ge> 0" and ?q = "\<lambda>j. kv_before ms p (kss ! j)"
  have q: "?q j \<le> length (kss ! j)" for j by (rule kv_before_le)
  have V: "?V j \<longleftrightarrow> 0 < ?q j" if "j < length kss" for j
    using at that q [of j] by (auto simp: child_at_def kv_back_def split: if_splits)
  have K: "?k j = fst (kss ! j ! (?q j - 1))" "kss ! j ! (?q j - 1) \<in> set (take p ms)" "kss ! j ! (?q j - 1) \<in> set (kss ! j)"
    if "j < length kss" "?V j" for j
  proof -
    have l: "?q j - 1 < length (kss ! j)" "?q j - 1 < ?q j" using V [OF that(1)] that(2) q [of j] by auto
    then show "?k j = fst (kss ! j ! (?q j - 1))"
      using at that(1) by (auto simp: child_at_def kv_back_def split: if_splits)
    show "kss ! j ! (?q j - 1) \<in> set (take p ms)"
      using before_iff [OF merge_part [OF on that(1)] l(1), of p] l(2) by blast
    show "kss ! j ! (?q j - 1) \<in> set (kss ! j)" using l(1) by simp
  qed
  have Kv: "valid (?k j)" if "j < length kss" "?V j" for j using K [OF that] f(3) in_set_takeD by fastforce
  define cur where "cur = mi_current (mi_FindLargest c m)"
  have best: "case cur of None \<Rightarrow> \<forall>i < length kss. \<not> ?V i | Some s \<Rightarrow> s < length kss \<and> ?V s \<and> (\<forall>i < length kss. ?V i \<longrightarrow> ?le s i)"
  proof -
    note fold_largest [of "rev [0 ..< length kss]" ?V ?k]
    then show ?thesis using Kv by (simp add: cur_def mi_FindLargest_def Let_def f(4) split: option.splits)
  qed
  have rest: "merge_on ((mi_FindLargest c m)\<lparr>mi_reverse := True\<rparr>) kss ms" "mi_children (mi_FindLargest c m) = mi_children m"
    using on by (simp_all add: merge_on_def mi_FindLargest_def)
  show ?thesis
  proof (cases p)
    case 0
    have "cur = None"
    proof (cases cur)
      case (Some s)
      then have "s < length kss" "?V s" using best by auto
      from K(2) [OF this] 0 show ?thesis by simp
    qed
    then show ?thesis using rest 0 by (auto simp: merge_at_def cur_def)
  next
    case (Suc r)
    then have rl: "r < length ms" using p by simp
    have step: "?q j = kv_before ms r (kss ! j) + (if ms ! r \<in> set (kss ! j) then 1 else 0)" if "j < length kss" for j
      unfolding Suc using before_Suc [OF merge_part [OF on that] rl] .
    have "ms ! r \<in> set ms" using rl by simp
    then obtain j where j: "j < length kss" "ms ! r \<in> set (kss ! j)" using f(5) by blast
    from before_at [OF merge_part [OF on j(1)] rl j(2)]
    have qj: "?V j" "kss ! j ! (?q j - 1) = ms ! r" using V [OF j(1)] step [OF j(1)] j(2) by auto
    then obtain s where s: "cur = Some s" "s < length kss" "?V s" "?le s j" using best j(1) by (cases cur) auto
    have "kss ! s ! (?q s - 1) = ms ! r"
    proof -
      obtain b where b: "b < Suc r" "b < length ms" "ms ! b = kss ! s ! (?q s - 1)"
        using K(2) [OF s(2,3)] unfolding Suc by (auto simp: in_set_conv_nth)
      have "cmp_Compare c (fst (ms ! b)) (fst (ms ! r)) \<ge> 0" using s(4) K(1) [OF s(2,3)] K(1) [OF j(1) qj(1)] qj(2) b(3) by simp
      then have "\<not> b < r" using key_sorted_less [OF f(2,3) b(2) rl] by auto
      then show ?thesis using b(1) b(3) [symmetric] by (simp add: less_Suc_eq)
    qed
    then have s_in: "ms ! r \<in> set (kss ! s)" using K(3) [OF s(2,3)] by simp
    have "child_at at (mi_children m ! j) (kss ! j) (if j \<noteq> s then kv_back ms r (kss ! j) else kv_before ms r (kss ! j))"
      if "j < length kss" for j
    proof (cases "j = s")
      case True
      then show ?thesis using at s_in step [OF that] that by (auto simp: kv_back_def)
    next
      case False
      then have "ms ! r \<notin> set (kss ! j)" using merges_one [OF f(1)] s_in that s(2) by blast
      then have "kv_back ms r (kss ! j) = kv_back ms p (kss ! j)" using step [OF that] by (simp add: kv_back_def)
      then show ?thesis using at that False by simp
    qed
    then have ch: "\<forall>j < length kss. child_at at (mi_children m ! j) (kss ! j) (if j \<noteq> s then kv_back ms r (kss ! j) else kv_before ms r (kss ! j))"
      by simp
    have "mi_current (mi_FindLargest c m) = Some s" using s(1) by (simp add: cur_def)
    moreover have e: "(if Suc r = 0 then length ms else Suc r - 1) = r" by simp
    ultimately show ?thesis
      unfolding merge_at_def Suc e using rest rl s(2) s_in ch by (intro exI [of _ kss]) (simp split del: if_split del: One_nat_def)
  qed
qed

lemma merge_on_children:
  assumes "merge_on m kss ms" "length ws = length (mi_children m)" "\<forall>j < length kss. child_at at (ws ! j) (kss ! j) (q j)"
  shows "merge_on (m\<lparr>mi_children := ws, mi_reverse := r\<rparr>) kss ms" "merge_on (m\<lparr>mi_children := ws\<rparr>) kss ms"
  using assms by (auto simp: merge_on_def)

lemma merge_on_reverse: "merge_on (m\<lparr>mi_reverse := r\<rparr>) kss ms \<longleftrightarrow> merge_on m kss ms"
  by (simp add: merge_on_def)

text \<open>One movement of all children.\<close>

lemma seek_children:
  assumes on: "merge_on m kss ms" and x: "\<forall>t. x = Seek t \<longrightarrow> valid t" "x \<noteq> Next" "x \<noteq> Prev"
  shows "\<exists>ws. each_child (\<lambda>_. iw_move it x) m = Some (m\<lparr>mi_children := ws\<rparr>) \<and> length ws = length (mi_children m) \<and>
    (\<forall>j < length kss. child_at at (ws ! j) (kss ! j) (the (list_op c (kss ! j) 0 x)))"
proof -
  have "\<exists>w. iw_move it x (mi_children m ! j) = Some w \<and> child_at at w (kss ! j) (the (list_op c (kss ! j) 0 x))"
    if j: "j < length kss" for j
  proof -
    obtain q where q: "child_at at (mi_children m ! j) (kss ! j) q" using on j by (auto simp: merge_on_def)
    have "list_op c (kss ! j) q x = Some (the (list_op c (kss ! j) 0 x))" using x(2,3) by (cases x) auto
    from child_move [OF q this x(1)] show ?thesis .
  qed
  with each_child_ok [of m "\<lambda>_. iw_move it x" "\<lambda>j w. child_at at w (kss ! j) (the (list_op c (kss ! j) 0 x))"] merge_facts(4) [OF on]
  show ?thesis by simp
qed

lemma seek_all:
  assumes on: "merge_on m kss ms" and t: "valid t"
  shows "\<exists>m'. mi_Seek it c m t = Some m' \<and> merge_at m' ms (length (takeWhile (\<lambda>kv. cmp_Compare c (fst kv) t < 0) ms))"
proof -
  obtain ws where ws: "each_child (\<lambda>_. iw_move it (Seek t)) m = Some (m\<lparr>mi_children := ws\<rparr>)" "length ws = length (mi_children m)"
    "\<forall>j < length kss. child_at at (ws ! j) (kss ! j) (the (list_op c (kss ! j) 0 (Seek t)))"
    using seek_children [OF on, of "Seek t"] t by auto
  have "\<forall>j < length kss. child_at at (ws ! j) (kss ! j)
      (kv_before ms (length (takeWhile (\<lambda>kv. cmp_Compare c (fst kv) t < 0) ms)) (kss ! j))"
    using ws(3) seek_before [OF merge_part [OF on] t] by simp
  with FindSmallest_at [OF merge_on_children(2) [OF on ws(2,3)], of "length (takeWhile (\<lambda>kv. cmp_Compare c (fst kv) t < 0) ms)"]
  show ?thesis using ws(1) length_takeWhile_le by (auto simp: mi_Seek_def)
qed

lemma first_all:
  assumes on: "merge_on m kss ms"
  shows "\<exists>m'. mi_SeekToFirst it c m = Some m' \<and> merge_at m' ms 0"
proof -
  obtain ws where ws: "each_child (\<lambda>_. iw_move it SeekToFirst) m = Some (m\<lparr>mi_children := ws\<rparr>)" "length ws = length (mi_children m)"
    "\<forall>j < length kss. child_at at (ws ! j) (kss ! j) (the (list_op c (kss ! j) 0 SeekToFirst))"
    using seek_children [OF on, of SeekToFirst] by auto
  have "\<forall>j < length kss. child_at at (ws ! j) (kss ! j) (kv_before ms 0 (kss ! j))"
    using ws(3) before_0 [OF merge_part [OF on]] by simp
  with FindSmallest_at [OF merge_on_children(2) [OF on ws(2,3)], of 0] show ?thesis using ws(1) by (simp add: mi_SeekToFirst_def)
qed

lemma last_all:
  assumes on: "merge_on m kss ms"
  shows "\<exists>m'. mi_SeekToLast it c m = Some m' \<and> merge_at m' ms (length ms - 1)"
proof -
  obtain ws where ws: "each_child (\<lambda>_. iw_move it SeekToLast) m = Some (m\<lparr>mi_children := ws\<rparr>)" "length ws = length (mi_children m)"
    "\<forall>j < length kss. child_at at (ws ! j) (kss ! j) (the (list_op c (kss ! j) 0 SeekToLast))"
    using seek_children [OF on, of SeekToLast] by auto
  have "\<forall>j < length kss. child_at at (ws ! j) (kss ! j) (kv_back ms (length ms) (kss ! j))"
  proof (intro allI impI)
    fix j
    assume j: "j < length kss"
    have "kv_back ms (length ms) (kss ! j) = length (kss ! j) - 1"
      using before_end [OF merge_part [OF on j]] by (simp add: kv_back_def)
    then show "child_at at (ws ! j) (kss ! j) (kv_back ms (length ms) (kss ! j))" using ws(3) j by simp
  qed
  with FindLargest_at [OF merge_on_children(2) [OF on ws(2,3)], of "length ms"] show ?thesis
    using ws(1) by (cases ms) (simp_all add: mi_SeekToLast_def)
qed

text \<open>Turning round: the children other than the current one.\<close>

lemma list_op_seek_at: "merge_on m kss ms \<Longrightarrow> j < length kss \<Longrightarrow> p < length ms \<Longrightarrow>
    list_op c (kss ! j) q (Seek (fst (ms ! p))) = Some (kv_before ms p (kss ! j))"
  using seek_before [OF merge_part] seek_at [OF merge_part] merge_facts(3) by fastforce

lemma turn_forward:
  assumes on: "merge_on m kss ms" and p: "p < length ms" and k: "k < length kss" "ms ! p \<in> set (kss ! k)"
    and at: "child_at at (mi_children m ! k) (kss ! k) (kv_before ms p (kss ! k))"
  defines "key \<equiv> fst (ms ! p)"
  shows "\<exists>ws. each_child (\<lambda>i child. if i \<noteq> k then do {
                    child \<leftarrow> iw_move it (Seek key) child;
                    if iw_valid child \<and> cmp_Compare c key (iw_key child) = 0 then iw_move it Next child else Some child
                  } else Some child) m = Some (m\<lparr>mi_children := ws\<rparr>) \<and> length ws = length (mi_children m) \<and>
    (\<forall>j < length kss. child_at at (ws ! j) (kss ! j) (kv_before ms p (kss ! j)))"
proof -
  note f = merge_facts [OF on]
  have "\<exists>w. (if j \<noteq> k then do {
                    child \<leftarrow> iw_move it (Seek key) (mi_children m ! j);
                    if iw_valid child \<and> cmp_Compare c key (iw_key child) = 0 then iw_move it Next child else Some child
                  } else Some (mi_children m ! j)) = Some w \<and> child_at at w (kss ! j) (kv_before ms p (kss ! j))"
    if j: "j < length kss" for j
  proof (cases "j = k")
    case False
    obtain q where q: "child_at at (mi_children m ! j) (kss ! j) q" using on j by (auto simp: merge_on_def)
    obtain w where w: "iw_move it (Seek key) (mi_children m ! j) = Some w" "child_at at w (kss ! j) (kv_before ms p (kss ! j))"
      using child_move [OF q list_op_seek_at [OF on j p]] f(3) p by (auto simp: key_def)
    have "\<not> (iw_valid w \<and> cmp_Compare c key (iw_key w) = 0)"
    proof
      assume a: "iw_valid w \<and> cmp_Compare c key (iw_key w) = 0"
      then have l: "kv_before ms p (kss ! j) < length (kss ! j)" "iw_key w = fst (kss ! j ! kv_before ms p (kss ! j))"
        using w(2) by (auto simp: child_at_def)
      have m: "kss ! j ! kv_before ms p (kss ! j) \<in> set (kss ! j)" using l(1) by simp
      then have "kss ! j ! kv_before ms p (kss ! j) \<in> set ms" using f(1) j by (auto simp: merges_def)
      then obtain b where b: "b < length ms" "kss ! j ! kv_before ms p (kss ! j) = ms ! b" by (metis in_set_conv_nth)
      have "cmp_Compare c (fst (ms ! p)) (fst (ms ! b)) = 0" using a l(2) b(2) by (simp add: key_def)
      then have "b = p"
        using key_sorted_less [OF f(2,3) p b(1)] key_sorted_less [OF f(2,3) b(1) p] compare_swap_eq [of "fst (ms ! p)" "fst (ms ! b)"]
          f(3) p b(1) by auto
      then show False using merges_one [OF f(1)] m b(2) k j False by metis
    qed
    then show ?thesis using w False by auto
  qed (use at in simp)
  with each_child_ok [of m _ "\<lambda>j w. child_at at w (kss ! j) (kv_before ms p (kss ! j))"] f(4) show ?thesis by simp
qed

lemma turn_back:
  assumes on: "merge_on m kss ms" and p: "p < length ms" and k: "k < length kss" "ms ! p \<in> set (kss ! k)"
    and at: "child_at at (mi_children m ! k) (kss ! k) (kv_before ms p (kss ! k))"
  defines "key \<equiv> fst (ms ! p)"
  shows "\<exists>ws. each_child (\<lambda>i child. if i \<noteq> k then do {
                    child \<leftarrow> iw_move it (Seek key) child;
                    iw_move it (if iw_valid child then Prev else SeekToLast) child
                  } else Some child) m = Some (m\<lparr>mi_children := ws\<rparr>) \<and> length ws = length (mi_children m) \<and>
    (\<forall>j < length kss. child_at at (ws ! j) (kss ! j) (if j \<noteq> k then kv_back ms p (kss ! j) else kv_before ms p (kss ! j)))"
proof -
  note f = merge_facts [OF on]
  have "\<exists>w. (if j \<noteq> k then do {
                    child \<leftarrow> iw_move it (Seek key) (mi_children m ! j);
                    iw_move it (if iw_valid child then Prev else SeekToLast) child
                  } else Some (mi_children m ! j)) = Some w \<and>
      child_at at w (kss ! j) (if j \<noteq> k then kv_back ms p (kss ! j) else kv_before ms p (kss ! j))"
    if j: "j < length kss" for j
  proof (cases "j = k")
    case False
    let ?q = "kv_before ms p (kss ! j)"
    obtain q where q: "child_at at (mi_children m ! j) (kss ! j) q" using on j by (auto simp: merge_on_def)
    obtain w where w: "iw_move it (Seek key) (mi_children m ! j) = Some w" "child_at at w (kss ! j) ?q"
      using child_move [OF q list_op_seek_at [OF on j p]] f(3) p by (auto simp: key_def)
    have v: "iw_valid w \<longleftrightarrow> ?q < length (kss ! j)" using w(2) by (simp add: child_at_def)
    have "list_op c (kss ! j) ?q (if iw_valid w then Prev else SeekToLast) = Some (kv_back ms p (kss ! j))"
      using v kv_before_le [of ms p "kss ! j"] by (auto simp: kv_back_def)
    from child_move [OF w(2) this] have "\<exists>w'. iw_move it (if iw_valid w then Prev else SeekToLast) w = Some w' \<and>
        child_at at w' (kss ! j) (kv_back ms p (kss ! j))"
      by (simp split: if_split_asm)
    then obtain w' where "iw_move it (if iw_valid w then Prev else SeekToLast) w = Some w'"
      "child_at at w' (kss ! j) (kv_back ms p (kss ! j))" by auto
    then show ?thesis using w(1) False by auto
  qed (use at in simp)
  with each_child_ok [of m _ "\<lambda>j w. child_at at w (kss ! j) (if j \<noteq> k then kv_back ms p (kss ! j) else kv_before ms p (kss ! j))"] f(4)
  show ?thesis by simp
qed

text \<open>\<open>Next\<close> and \<open>Prev\<close>, the children in place for the direction.\<close>

lemma merge_at_current:
  assumes "merge_at m ms p" "p < length ms"
  obtains kss k where "merge_on m kss ms" "mi_current m = Some k" "k < length kss" "ms ! p \<in> set (kss ! k)"
    "mi_key m = Some (fst (ms ! p))"
    "child_at at (mi_children m ! k) (kss ! k) (kv_before ms p (kss ! k))"
    "\<forall>j < length kss. child_at at (mi_children m ! j) (kss ! j)
             (if mi_reverse m \<and> j \<noteq> k then kv_back ms p (kss ! j) else kv_before ms p (kss ! j))"
proof -
  obtain kss where on: "merge_on m kss ms" and cur: "case mi_current m of
        None \<Rightarrow> p = length ms
      | Some k \<Rightarrow> p < length ms \<and> k < length kss \<and> ms ! p \<in> set (kss ! k) \<and>
          (\<forall>j < length kss. child_at at (mi_children m ! j) (kss ! j)
             (if mi_reverse m \<and> j \<noteq> k then kv_back ms p (kss ! j) else kv_before ms p (kss ! j)))"
    using assms(1) by (auto simp: merge_at_def)
  obtain k where k: "mi_current m = Some k" using cur assms(2) by (cases "mi_current m") auto
  then have k': "k < length kss" "ms ! p \<in> set (kss ! k)" and ch: "\<forall>j < length kss. child_at at (mi_children m ! j) (kss ! j)
             (if mi_reverse m \<and> j \<noteq> k then kv_back ms p (kss ! j) else kv_before ms p (kss ! j))"
    using cur by simp_all
  have c: "child_at at (mi_children m ! k) (kss ! k) (kv_before ms p (kss ! k))" using ch k'(1) by auto
  have "mi_key m = Some (fst (ms ! p))"
    using c before_at [OF merge_part [OF on k'(1)] assms(2) k'(2)] by (simp add: mi_key_def k iw_Key_def child_at_def)
  with that on k k' c ch show thesis by blast
qed

lemma next_all:
  assumes at: "merge_at m ms p" and p: "p < length ms"
  shows "\<exists>m'. mi_Next it c m = Some m' \<and> merge_at m' ms (p + 1)"
proof -
  obtain kss k where on: "merge_on m kss ms" and k: "mi_current m = Some k" "k < length kss" "ms ! p \<in> set (kss ! k)"
    and key: "mi_key m = Some (fst (ms ! p))" and kat: "child_at at (mi_children m ! k) (kss ! k) (kv_before ms p (kss ! k))"
    and ch: "\<forall>j < length kss. child_at at (mi_children m ! j) (kss ! j)
             (if mi_reverse m \<and> j \<noteq> k then kv_back ms p (kss ! j) else kv_before ms p (kss ! j))"
    by (rule merge_at_current [OF at p])
  let ?turn = "each_child (\<lambda>i child. if i \<noteq> k then do {
                    child \<leftarrow> iw_move it (Seek (fst (ms ! p))) child;
                    if iw_valid child \<and> cmp_Compare c (fst (ms ! p)) (iw_key child) = 0 then iw_move it Next child else Some child
                  } else Some child) m"
  obtain ws where ws: "(if mi_reverse m then map_option (\<lambda>m. m\<lparr>mi_reverse := False\<rparr>) ?turn else Some m) =
      Some (m\<lparr>mi_children := ws, mi_reverse := False\<rparr>)"
    "length ws = length (mi_children m)" "\<forall>j < length kss. child_at at (ws ! j) (kss ! j) (kv_before ms p (kss ! j))"
  proof (cases "mi_reverse m")
    case True
    with turn_forward [OF on p k(2,3) kat] that show thesis by auto
  next
    case False
    then have "m = m\<lparr>mi_children := mi_children m, mi_reverse := False\<rparr>" by simp
    with False ch that [of "mi_children m"] show thesis by simp
  qed
  have "list_op c (kss ! k) (kv_before ms p (kss ! k)) Next = Some (kv_before ms p (kss ! k) + 1)"
    using before_at [OF merge_part [OF on k(2)] p k(3)] by simp
  from child_move [OF _ this] ws(3) k(2) obtain w where
    w: "iw_move it Next (ws ! k) = Some w" "child_at at w (kss ! k) (kv_before ms p (kss ! k) + 1)" by auto
  let ?m = "m\<lparr>mi_children := ws[k := w], mi_reverse := False\<rparr>"
  have kl: "k < length ws" using k(2) ws(2) merge_facts(4) [OF on] by simp
  have new: "\<forall>j < length kss. child_at at (ws[k := w] ! j) (kss ! j) (kv_before ms (Suc p) (kss ! j))"
  proof (intro allI impI)
    fix j
    assume j: "j < length kss"
    show "child_at at (ws[k := w] ! j) (kss ! j) (kv_before ms (Suc p) (kss ! j))"
    proof (cases "j = k")
      case True
      then show ?thesis using w(2) kl before_Suc [OF merge_part [OF on j] p] k(3) by simp
    next
      case False
      then have "ms ! p \<notin> set (kss ! j)" using merges_one [OF merge_facts(1) [OF on]] k j by blast
      then show ?thesis using ws(3) j False before_Suc [OF merge_part [OF on j] p] by simp
    qed
  qed
  have "merge_on ?m kss ms" using merge_on_children(1) [OF on _ new] ws(2) by simp
  from FindSmallest_at [OF this, of "Suc p"] new p
  have "merge_at ((mi_FindSmallest c ?m)\<lparr>mi_reverse := False\<rparr>) ms (Suc p)" by simp
  moreover have "(mi_FindSmallest c ?m)\<lparr>mi_reverse := False\<rparr> = mi_FindSmallest c ?m" by (simp add: mi_FindSmallest_def)
  ultimately have "merge_at (mi_FindSmallest c ?m) ms (Suc p)" by simp
  moreover have e: "m\<lparr>mi_reverse := False, mi_children := ws[k := w]\<rparr> = ?m" by (cases m) simp
  have "mi_Next it c m = Some (mi_FindSmallest c ?m)" using ws(1) w(1) by (simp add: mi_Next_def k(1) key e)
  ultimately show ?thesis by simp
qed

lemma prev_all:
  assumes at: "merge_at m ms p" and p: "p < length ms"
  shows "\<exists>m'. mi_Prev it c m = Some m' \<and> merge_at m' ms (if p = 0 then length ms else p - 1)"
proof -
  obtain kss k where on: "merge_on m kss ms" and k: "mi_current m = Some k" "k < length kss" "ms ! p \<in> set (kss ! k)"
    and key: "mi_key m = Some (fst (ms ! p))" and kat: "child_at at (mi_children m ! k) (kss ! k) (kv_before ms p (kss ! k))"
    and ch: "\<forall>j < length kss. child_at at (mi_children m ! j) (kss ! j)
             (if mi_reverse m \<and> j \<noteq> k then kv_back ms p (kss ! j) else kv_before ms p (kss ! j))"
    by (rule merge_at_current [OF at p])
  let ?turn = "each_child (\<lambda>i child. if i \<noteq> k then do {
                    child \<leftarrow> iw_move it (Seek (fst (ms ! p))) child;
                    iw_move it (if iw_valid child then Prev else SeekToLast) child
                  } else Some child) m"
  obtain ws where ws: "(if \<not> mi_reverse m then map_option (\<lambda>m. m\<lparr>mi_reverse := True\<rparr>) ?turn else Some m) =
      Some (m\<lparr>mi_children := ws, mi_reverse := True\<rparr>)"
    "length ws = length (mi_children m)"
    "\<forall>j < length kss. child_at at (ws ! j) (kss ! j) (if j \<noteq> k then kv_back ms p (kss ! j) else kv_before ms p (kss ! j))"
  proof (cases "mi_reverse m")
    case False
    from turn_back [OF on p k(2,3) kat] obtain ws where "?turn = Some (m\<lparr>mi_children := ws\<rparr>)" "length ws = length (mi_children m)"
      "\<forall>j < length kss. child_at at (ws ! j) (kss ! j) (if j \<noteq> k then kv_back ms p (kss ! j) else kv_before ms p (kss ! j))" by blast
    with False that [of ws] show thesis by simp
  next
    case True
    then have "m = m\<lparr>mi_children := mi_children m, mi_reverse := True\<rparr>" by simp
    moreover have "\<forall>j < length kss. child_at at (mi_children m ! j) (kss ! j) (if j \<noteq> k then kv_back ms p (kss ! j) else kv_before ms p (kss ! j))"
      using ch True by (simp split del: if_split)
    ultimately show thesis using True that [of "mi_children m"] by simp
  qed
  have b: "kv_before ms p (kss ! k) < length (kss ! k)"
    using before_at [OF merge_part [OF on k(2)] p k(3)] by simp
  then have "list_op c (kss ! k) (kv_before ms p (kss ! k)) Prev = Some (kv_back ms p (kss ! k))" by (simp add: kv_back_def)
  from child_move [OF _ this, of "ws ! k"] ws(3) [rule_format, OF k(2)] obtain w where
    w: "iw_move it Prev (ws ! k) = Some w" "child_at at w (kss ! k) (kv_back ms p (kss ! k))" by auto
  let ?m = "m\<lparr>mi_children := ws[k := w], mi_reverse := True\<rparr>"
  have kl: "k < length ws" using k(2) ws(2) merge_facts(4) [OF on] by simp
  have new: "\<forall>j < length kss. child_at at (ws[k := w] ! j) (kss ! j) (kv_back ms p (kss ! j))"
  proof (intro allI impI)
    fix j
    assume "j < length kss"
    then show "child_at at (ws[k := w] ! j) (kss ! j) (kv_back ms p (kss ! j))" using ws(3) w(2) kl by (cases "j = k") auto
  qed
  have "merge_on ?m kss ms" using merge_on_children(1) [OF on _ new] ws(2) by simp
  from FindLargest_at [OF this, of p] new p
  have "merge_at ((mi_FindLargest c ?m)\<lparr>mi_reverse := True\<rparr>) ms (if p = 0 then length ms else p - 1)" by simp
  moreover have "(mi_FindLargest c ?m)\<lparr>mi_reverse := True\<rparr> = mi_FindLargest c ?m" by (simp add: mi_FindLargest_def)
  ultimately have "merge_at (mi_FindLargest c ?m) ms (if p = 0 then length ms else p - 1)" by simp
  moreover have e: "m\<lparr>mi_reverse := True, mi_children := ws[k := w]\<rparr> = ?m" by (cases m) simp
  have "mi_Prev it c m = Some (mi_FindLargest c ?m)" using ws(1) w(1) by (simp add: mi_Prev_def k(1) key e)
  ultimately show ?thesis by simp
qed

subsection \<open>Merging: the cursor\<close>

text \<open>The merging iterator satisfies the contract that its children satisfy.\<close>

lemma first_bad_ok: "\<forall>s \<in> set ss. s = OK \<Longrightarrow> first_bad OK ss = OK"
  by (induction ss) simp_all

lemma merging_cursor: "cursor_iterator c valid (MergingIterator_ops it c) merge_at"
proof
  fix m ms p
  assume at: "merge_at m ms p"
  then obtain kss where on: "merge_on m kss ms" by (auto simp: merge_at_def)
  show "key_sorted c ms \<and> (\<forall>kv \<in> set ms. valid (fst kv))" using merge_facts [OF on] by blast
  show r: "p \<le> length ms" "io_Valid (MergingIterator_ops it c) m \<longleftrightarrow> p < length ms"
    using at by (auto simp: merge_at_def MergingIterator_ops_def mi_Valid_def split: option.splits)
  show "io_key (MergingIterator_ops it c) m = Some (fst (ms ! p))" if "p < length ms"
    by (rule merge_at_current [OF at that]) (simp add: MergingIterator_ops_def)
  show "io_value (MergingIterator_ops it c) m = Some (snd (ms ! p))" if p: "p < length ms"
  proof (rule merge_at_current [OF at p])
    fix kss k
    assume k: "merge_on m kss ms" "mi_current m = Some k" "k < length kss" "ms ! p \<in> set (kss ! k)"
      "child_at at (mi_children m ! k) (kss ! k) (kv_before ms p (kss ! k))"
    from before_at [OF merge_part [OF k(1,3)] p k(4)] k(5) at_value
    show ?thesis by (fastforce simp: MergingIterator_ops_def mi_value_def k(2) iw_Value_def child_at_def)
  qed
  have "io_status it (iw_iter w) = OK" if "w \<in> set (mi_children m)" for w
    using that on at_status by (fastforce simp: merge_on_def child_at_def in_set_conv_nth)
  then show "io_status (MergingIterator_ops it c) m = OK"
    by (simp add: MergingIterator_ops_def mi_status_def first_bad_ok)
  fix x
  show "\<exists>m'. io_move (MergingIterator_ops it c) m x = Some m' \<and> merge_at m' ms p'"
    if "list_op c ms p x = Some p'" "\<forall>t. x = Seek t \<longrightarrow> valid t" for p'
    using that first_all [OF on] last_all [OF on] seek_all [OF on] next_all [OF at] prev_all [OF at]
    by (cases x) (auto simp: MergingIterator_ops_def split: if_split_asm)
  show "io_move (MergingIterator_ops it c) m x = None" if "list_op c ms p x = None"
  proof -
    have "\<not> p < length ms" using that by (cases x) (auto split: if_split_asm)
    then have "mi_current m = None" using r by (simp add: MergingIterator_ops_def mi_Valid_def)
    then show ?thesis using that by (cases x) (simp_all add: MergingIterator_ops_def mi_Next_def mi_Prev_def)
  qed
qed

definition merged_at :: "'i merged \<Rightarrow> (byte list \<times> byte list) list \<Rightarrow> nat \<Rightarrow> bool" where
  "merged_at m kvs p = (case m of Empty s \<Rightarrow> s = OK \<and> kvs = [] \<and> p = 0 | Single i \<Rightarrow> at i kvs p | Merging m \<Rightarrow> merge_at m kvs p)"

lemma merged_cursor: "cursor_iterator c valid (merged_ops it c) merged_at"
proof -
  note m = merging_cursor and e = empty_cursor [OF comparator_laws_axioms]
  note E = cursor_iterator.at_sorted [OF e] cursor_iterator.at_move [OF e] cursor_iterator.at_stuck [OF e]
  note M = cursor_iterator.at_sorted [OF m] cursor_iterator.at_range [OF m] cursor_iterator.at_Valid [OF m] cursor_iterator.at_key [OF m]
    cursor_iterator.at_value [OF m] cursor_iterator.at_status [OF m]
  show ?thesis
  proof
    fix i kvs p x
    assume at: "merged_at i kvs p"
    show "key_sorted c kvs \<and> (\<forall>kv \<in> set kvs. valid (fst kv))"
      using at at_sorted M(1) by (cases i) (auto simp: merged_at_def key_sorted_def)
    show "p \<le> length kvs" using at at_range M(2) by (cases i) (auto simp: merged_at_def)
    show "io_Valid (merged_ops it c) i \<longleftrightarrow> p < length kvs"
      using at at_Valid M(3) by (cases i) (auto simp: merged_at_def merged_ops_def MergingIterator_ops_def)
    show "io_key (merged_ops it c) i = Some (fst (kvs ! p))" if "p < length kvs"
      using that at at_key M(4) by (cases i) (auto simp: merged_at_def merged_ops_def MergingIterator_ops_def)
    show "io_value (merged_ops it c) i = Some (snd (kvs ! p))" if "p < length kvs"
      using that at at_value M(5) by (cases i) (auto simp: merged_at_def merged_ops_def MergingIterator_ops_def)
    show "io_status (merged_ops it c) i = OK"
      using at at_status M(6) by (cases i) (auto simp: merged_at_def merged_ops_def MergingIterator_ops_def)
    show "\<exists>i'. io_move (merged_ops it c) i x = Some i' \<and> merged_at i' kvs p'"
      if x: "list_op c kvs p x = Some p'" "\<forall>t. x = Seek t \<longrightarrow> valid t" for p'
    proof (cases i)
      case (Empty s)
      then show ?thesis using at E(2) [of s kvs p x p'] x by (auto simp: merged_at_def merged_ops_def EmptyIterator_ops_def)
    next
      case (Single j)
      then show ?thesis using at at_move [OF _ x, of j] by (auto simp: merged_at_def merged_ops_def)
    next
      case (Merging m)
      then show ?thesis using at cursor_iterator.at_move [OF merging_cursor _ x, of m]
        by (auto simp: merged_at_def merged_ops_def MergingIterator_ops_def)
    qed
    show "io_move (merged_ops it c) i x = None" if x: "list_op c kvs p x = None"
    proof (cases i)
      case (Empty s)
      then show ?thesis using at E(3) [of s kvs p x] x by (auto simp: merged_at_def merged_ops_def EmptyIterator_ops_def)
    next
      case (Single j)
      then show ?thesis using at at_stuck [OF _ x, of j] by (auto simp: merged_at_def merged_ops_def)
    next
      case (Merging m)
      then show ?thesis using at cursor_iterator.at_stuck [OF merging_cursor _ x, of m]
        by (auto simp: merged_at_def merged_ops_def MergingIterator_ops_def)
    qed
  qed
qed

lemma key_sorted_unique: "key_sorted c xs \<Longrightarrow> key_sorted c ys \<Longrightarrow> \<forall>kv \<in> set xs. valid (fst kv) \<Longrightarrow> set xs = set ys \<Longrightarrow> xs = ys"
proof (induction xs arbitrary: ys)
  case (Cons x xs)
  obtain y ys' where ys: "ys = y # ys'" using Cons.prems(4) by (cases ys) auto
  have vy: "\<forall>kv \<in> set ys. valid (fst kv)" using Cons.prems(3) unfolding Cons.prems(4) .
  have d: "x \<notin> set xs" "y \<notin> set ys'"
    using key_sorted_distinct [OF Cons.prems(1,3)] key_sorted_distinct [OF Cons.prems(2) vy] by (auto simp: ys)
  have "x = y"
  proof (rule ccontr)
    assume "x \<noteq> y"
    then have "x \<in> set ys'" "y \<in> set xs" using Cons.prems(4) by (auto simp: ys)
    then have "cmp_Compare c (fst x) (fst y) < 0" "cmp_Compare c (fst y) (fst x) < 0"
      using Cons.prems(1,2) by (auto simp: key_sorted_def ys)
    then show False using compare_swap [of "fst x" "fst y"] Cons.prems(3) vy by (auto simp: ys)
  qed
  moreover then have "set xs = set ys'" using Cons.prems(4) d by (auto simp: ys)
  ultimately show ?case using Cons.IH [of ys'] Cons.prems by (simp add: key_sorted_def ys)
qed simp

lemma NewMergingIterator_at:
  assumes ms: "merges c ms kss" "\<forall>kv \<in> set ms. valid (fst kv)"
    and at: "length is = length kss" "\<forall>j < length kss. at (is ! j) (kss ! j) (length (kss ! j))"
  shows "\<exists>m. NewMergingIterator it is = Some m \<and> merged_at m ms (length ms)"
proof (cases "is")
  case Nil
  then show ?thesis using ms(1) at(1) by (simp add: NewMergingIterator_def merged_at_def NewEmptyIterator_def merges_def)
next
  case (Cons i rest)
  show ?thesis
  proof (cases rest)
    case Nil
    have k1: "length kss = 1" "is ! 0 = i" using at(1) Nil Cons by simp_all
    then have k: "length kss = 1" "at i (kss ! 0) (length (kss ! 0))" using at(2) [rule_format, of 0] by simp_all
    obtain kvs where "kss = [kvs]" using k(1) by (cases kss) simp_all
    then have e: "set ms = set (kss ! 0)" using ms(1) by (simp add: merges_def)
    have "ms = kss ! 0"
      by (rule key_sorted_unique [OF _ _ ms(2) e]) (use ms(1) at_sorted [OF k(2)] in \<open>simp_all add: merges_def\<close>)
    then show ?thesis using k(2) by (simp add: NewMergingIterator_def merged_at_def Cons Nil)
  next
    case (Cons i2 rest')
    have "\<exists>y. map (iw_Set it) is ! j = Some y \<and> child_at at y (kss ! j) (length (kss ! j))" if "j < length (map (iw_Set it) is)" for j
      using that at at_Valid [of "is ! j" "kss ! j" "length (kss ! j)"] by (auto simp: iw_Set_def iw_Update_def child_at_def)
    from those_nth [of "map (iw_Set it) is", OF this] obtain ws where
      ws: "those (map (iw_Set it) is) = Some ws" "length ws = length is" "\<forall>j < length is. child_at at (ws ! j) (kss ! j) (length (kss ! j))"
      by auto
    then have "merge_at \<lparr>mi_children = ws, mi_current = None, mi_reverse = False\<rparr> ms (length ms)"
      using ms at(1) by (auto simp: merge_at_def merge_on_def intro!: exI [of _ kss])
    then show ?thesis using ws(1) \<open>is = i # rest\<close> Cons
      by (simp add: NewMergingIterator_def merged_at_def new_MergingIterator_def)
  qed
qed

end

subsection \<open>The sorted union\<close>

fun kv_merge :: "comparator \<Rightarrow> (byte list \<times> byte list) list \<Rightarrow> (byte list \<times> byte list) list \<Rightarrow> (byte list \<times> byte list) list" where
  "kv_merge c (x # xs) (y # ys) =
     (if cmp_Compare c (fst x) (fst y) < 0 then x # kv_merge c xs (y # ys) else y # kv_merge c (x # xs) ys)"
| "kv_merge c xs [] = xs"
| "kv_merge c [] ys = ys"

definition kv_union :: "comparator \<Rightarrow> (byte list \<times> byte list) list list \<Rightarrow> (byte list \<times> byte list) list" where
  "kv_union c kss = foldr (kv_merge c) kss []"

text \<open>Keys of different lists differ.\<close>

definition keys_differ :: "comparator \<Rightarrow> (byte list \<times> byte list) list list \<Rightarrow> bool" where
  "keys_differ c kss \<longleftrightarrow> (\<forall>j k. j < k \<and> k < length kss \<longrightarrow>
     (\<forall>x \<in> set (kss ! j). \<forall>y \<in> set (kss ! k). cmp_Compare c (fst x) (fst y) \<noteq> 0))"

lemma set_kv_merge [simp]: "set (kv_merge c xs ys) = set xs \<union> set ys"
  by (induction c xs ys rule: kv_merge.induct) auto

lemma set_kv_union [simp]: "set (kv_union c kss) = (\<Union>kvs \<in> set kss. set kvs)"
  by (induction kss) (simp_all add: kv_union_def)

context comparator_laws begin

lemma key_sorted_merge:
  "c' = c \<Longrightarrow> key_sorted c xs \<Longrightarrow> key_sorted c ys \<Longrightarrow> \<forall>kv \<in> set xs \<union> set ys. valid (fst kv) \<Longrightarrow>
    \<forall>x \<in> set xs. \<forall>y \<in> set ys. cmp_Compare c (fst x) (fst y) \<noteq> 0 \<Longrightarrow> key_sorted c (kv_merge c' xs ys)"
proof (induction c' xs ys rule: kv_merge.induct)
  case (1 c' x xs y ys)
  show ?case
  proof (cases "cmp_Compare c (fst x) (fst y) < 0")
    case True
    have "cmp_Compare c (fst x) (fst z) < 0" if "z \<in> set (y # ys)" for z
      using that True 1(5,6) compare_less_trans [of "fst x" "fst y" "fst z"] by (auto simp: key_sorted_def)
    then show ?thesis using 1 True by (auto simp: key_sorted_def)
  next
    case False
    then have yx: "cmp_Compare c (fst y) (fst x) < 0"
      using 1(6,7) compare_swap [of "fst y" "fst x"] by auto
    have "cmp_Compare c (fst y) (fst z) < 0" if "z \<in> set (x # xs)" for z
      using that yx 1(4,6) compare_less_trans [of "fst y" "fst x" "fst z"] by (auto simp: key_sorted_def)
    then show ?thesis using 1 False by (auto simp: key_sorted_def)
  qed
qed simp_all

lemma kv_union_sorted:
  "\<forall>kvs \<in> set kss. key_sorted c kvs \<and> (\<forall>kv \<in> set kvs. valid (fst kv)) \<Longrightarrow> keys_differ c kss \<Longrightarrow> key_sorted c (kv_union c kss)"
proof (induction kss)
  case (Cons kvs kss)
  have d: "keys_differ c kss"
    using Cons.prems(2) unfolding keys_differ_def by (metis Suc_less_eq length_Cons nth_Cons_Suc)
  have "cmp_Compare c (fst x) (fst y) \<noteq> 0" if x: "x \<in> set kvs" and y: "y \<in> set (kv_union c kss)" for x y
  proof -
    obtain kvs' where "kvs' \<in> set kss" "y \<in> set kvs'" using y by auto
    then obtain k where "k < length kss" "y \<in> set (kss ! k)" by (metis in_set_conv_nth)
    with Cons.prems(2) [unfolded keys_differ_def, rule_format, of 0 "Suc k" x y] x show ?thesis by simp
  qed
  then have "key_sorted c (kv_merge c kvs (kv_union c kss))"
    using Cons.IH [OF _ d] Cons.prems(1) by (intro key_sorted_merge) auto
  then show ?case by (simp add: kv_union_def)
qed (simp add: kv_union_def key_sorted_def)

lemma kv_union_merges:
  assumes "\<forall>kvs \<in> set kss. key_sorted c kvs \<and> (\<forall>kv \<in> set kvs. valid (fst kv))" "keys_differ c kss"
  shows "merges c (kv_union c kss) kss"
proof -
  have "set (kss ! j) \<inter> set (kss ! k) = {}" if "j < k" "k < length kss" for j k
  proof (rule ccontr)
    assume "set (kss ! j) \<inter> set (kss ! k) \<noteq> {}"
    then obtain x where x: "x \<in> set (kss ! j)" "x \<in> set (kss ! k)" by blast
    then have "valid (fst x)" using assms(1) that by (meson nth_mem)
    with assms(2) [unfolded keys_differ_def, rule_format, of j k x x] x that compare_refl show False by simp
  qed
  then show ?thesis using kv_union_sorted [OF assms] by (simp add: merges_def)
qed

end

end
