(* ===== verification/LdbDbIterProps.thy ===== *)
theory LdbDbIterProps
  imports LdbDbIter LdbIteratorProps LdbDbProps
begin

section \<open>The database iterator shows the newest values\<close>

text \<open>
  What a snapshot shows of a sorted list of internal keys is the list of its user keys with the
  newest value each, deletions left out. \<open>DBIter\<close> over any iterator that satisfies the contract of
  \<open>LdbIteratorProps\<close> satisfies the contract itself, on that list and with the user's comparator:
  the loops end, and every sequence of operations, forward and backward, shows what a cursor on the
  list shows.
\<close>

subsection \<open>The sampling loop ends\<close>

definition rnd_ok :: "u32 \<Rightarrow> bool" where
  "rnd_ok r \<longleftrightarrow> 0 < unat r \<and> unat r < 2147483647"

lemma new_Random_ok: "rnd_ok (new_Random s)"
proof -
  define r where "r = s AND 0x7fffffff"
  have "unat r < 2147483648"
    using unat_and_mask [of s 31] by (simp add: r_def mask_eq_exp_minus_1)
  moreover have "r \<noteq> 2147483647 \<Longrightarrow> unat r \<noteq> 2147483647" "r \<noteq> 0 \<Longrightarrow> 0 < unat r"
    using word_unat_eq_iff [of r 2147483647] unat_gt_0 [of r] by simp_all
  ultimately show ?thesis by (auto simp: rnd_ok_def new_Random_def Let_def r_def [symmetric])
qed

text \<open>Two draws in a row are not both zero.\<close>

lemma draws_nonzero:
  assumes "rnd_ok r" "r mod 2097152 = 0"
  shows "rnd_Next r mod 2097152 \<noteq> 0"
proof -
  have "unat r mod 2097152 = 0" using arg_cong [OF assms(2), of unat] by (simp add: unat_mod)
  then obtain k where k: "unat r = 2097152 * k" by (auto simp: dvd_def dest: mod_0_imp_dvd)
  have kr: "1 \<le> k" "k < 1024" using assms(1) k by (auto simp: rnd_ok_def)
  define q where "q = 16807 * k div 1024"
  define m where "m = 16807 * k mod 1024"
  have qm: "16807 * k = 1024 * q + m" "m < 1024" by (simp_all add: q_def m_def)
  have q: "16 \<le> q" "q < 16807" using kr by (simp_all add: q_def)
  have "unat r * 16807 = 2097152 * (1024 * q + m)" using k qm(1) by simp
  also have "\<dots> = 2147483647 * q + (q + 2097152 * m)" by simp
  finally have "unat (rnd_Next r) = (2147483647 * q + (q + 2097152 * m)) mod 2147483647"
    using rnd_range [of r] assms(1) by (simp add: rnd_ok_def)
  also have "\<dots> = q + 2097152 * m" using q qm(2) by (simp only: mod_mult_self4) simp
  finally have "unat (rnd_Next r) mod 2097152 = q" using q by simp
  then show ?thesis using q by (simp add: word_unat_eq_iff unat_mod)
qed

lemma period: "RandomCompactionPeriod r = (unat (rnd_Next r mod 2097152), rnd_Next r)"
  by (simp add: RandomCompactionPeriod_def rnd_Uniform_def kReadBytesPeriod_def Let_def)

lemma rnd_Next_ok: "rnd_ok r \<Longrightarrow> rnd_ok (rnd_Next r)"
  using rnd_range [of r] by (simp add: rnd_ok_def)

lemma sample_loop_ends:
  assumes "rnd_ok r"
  shows "\<exists>r' until' samples'. sample_loop k n r until samples = Some (r', until', samples') \<and> rnd_ok r' \<and> n \<le> until'"
  using assms
proof (induction "n - until" arbitrary: r until samples rule: less_induct)
  case less
  show ?case
  proof (cases "until < n")
    case False
    then show ?thesis using less.prems by (subst sample_loop.simps) auto
  next
    case True
    let ?a = "unat (rnd_Next r mod 2097152)" and ?r = "rnd_Next r"
    have step: "sample_loop k n r until samples = sample_loop k n ?r (until + ?a) (samples @ [k])"
      using True by (subst sample_loop.simps) (simp add: period)
    show ?thesis
    proof (cases "?a = 0")
      case False
      then show ?thesis unfolding step using True by (intro less.hyps) (auto simp: rnd_Next_ok less.prems)
    next
      case zero: True
      let ?b = "unat (rnd_Next ?r mod 2097152)"
      have "0 < ?b" using draws_nonzero [OF rnd_Next_ok [OF less.prems]] zero by (simp add: unat_eq_zero unat_gt_0)
      moreover have "sample_loop k n ?r (until + ?a) (samples @ [k]) =
          sample_loop k n (rnd_Next ?r) (until + ?b) (samples @ [k] @ [k])"
        using True zero by (subst sample_loop.simps) (simp add: period)
      ultimately show ?thesis unfolding step using True by (simp only:) (intro less.hyps; auto simp: rnd_Next_ok less.prems)
    qed
  qed
qed

subsection \<open>The view of a snapshot\<close>

definition kv_parse :: "byte list \<times> byte list \<Rightarrow> ParsedInternalKey" where
  "kv_parse kv = the (ParseInternalKey (fst kv))"

definition kv_user :: "byte list \<times> byte list \<Rightarrow> byte list" where
  "kv_user kv = ExtractUserKey (fst kv)"

definition seen :: "u64 \<Rightarrow> byte list \<times> byte list \<Rightarrow> bool" where
  "seen s kv \<longleftrightarrow> pk_sequence (kv_parse kv) \<le> s"

definition shown :: "comparator \<Rightarrow> u64 \<Rightarrow> (byte list \<times> byte list) list \<Rightarrow> nat \<Rightarrow> bool" where
  "shown u s kvs i \<longleftrightarrow> i < length kvs \<and> seen s (kvs ! i) \<and> pk_type (kv_parse (kvs ! i)) = kTypeValue \<and>
     (\<forall>j < i. seen s (kvs ! j) \<longrightarrow> cmp_Compare u (kv_user (kvs ! j)) (kv_user (kvs ! i)) \<noteq> 0)"

definition shown_before :: "comparator \<Rightarrow> u64 \<Rightarrow> (byte list \<times> byte list) list \<Rightarrow> nat \<Rightarrow> nat list" where
  "shown_before u s kvs b = filter (shown u s kvs) [0 ..< b]"

definition user_view :: "comparator \<Rightarrow> u64 \<Rightarrow> (byte list \<times> byte list) list \<Rightarrow> (byte list \<times> byte list) list" where
  "user_view u s kvs = map (\<lambda>i. (kv_user (kvs ! i), snd (kvs ! i))) (shown_before u s kvs (length kvs))"

text \<open>How many entries of the view stem from before index \<open>b\<close>.\<close>

definition rank :: "comparator \<Rightarrow> u64 \<Rightarrow> (byte list \<times> byte list) list \<Rightarrow> nat \<Rightarrow> nat" where
  "rank u s kvs b = length (shown_before u s kvs b)"

lemma rank_end [simp]: "rank u s kvs (length kvs) = length (user_view u s kvs)"
  by (simp add: rank_def user_view_def)

lemma rank_Suc: "rank u s kvs (Suc b) = rank u s kvs b + (if shown u s kvs b then 1 else 0)"
  by (simp add: rank_def shown_before_def)

lemma rank_0 [simp]: "rank u s kvs 0 = 0"
  by (simp add: rank_def shown_before_def)

lemma rank_none: "b \<le> t \<Longrightarrow> \<forall>j. b \<le> j \<and> j < t \<longrightarrow> \<not> shown u s kvs j \<Longrightarrow> rank u s kvs t = rank u s kvs b"
  by (induction t rule: nat_induct_at_least [of b]) (auto simp: rank_Suc)

lemma shown_prefix: "b \<le> n \<Longrightarrow> \<exists>r. shown_before u s kvs n = shown_before u s kvs b @ r"
  by (metis filter_append le_add_diff_inverse shown_before_def upt_add_eq_append zero_le)

lemma rank_nth:
  assumes "shown u s kvs i"
  shows "rank u s kvs i < length (user_view u s kvs)" "user_view u s kvs ! rank u s kvs i = (kv_user (kvs ! i), snd (kvs ! i))"
proof -
  have i: "i < length kvs" using assms by (simp add: shown_def)
  have "shown_before u s kvs (Suc i) = shown_before u s kvs i @ [i]" using assms by (simp add: shown_before_def)
  then obtain r where r: "shown_before u s kvs (length kvs) = shown_before u s kvs i @ i # r"
    using shown_prefix [of "Suc i" "length kvs" u s kvs] i by auto
  show "rank u s kvs i < length (user_view u s kvs)" "user_view u s kvs ! rank u s kvs i = (kv_user (kvs ! i), snd (kvs ! i))"
    by (simp_all add: rank_def user_view_def r nth_append)
qed

text \<open>All keys can be parsed.\<close>

definition keys_parse :: "(byte list \<times> byte list) list \<Rightarrow> bool" where
  "keys_parse kvs \<longleftrightarrow> (\<forall>kv \<in> set kvs. ParseInternalKey (fst kv) \<noteq> None)"

lemma parse_parts:
  assumes "ParseInternalKey k = Some ik"
  shows "pk_user_key ik = ExtractUserKey k" "unat (key_number k) = 256 * unat (pk_sequence ik) + unat (type_code (pk_type ik))"
proof -
  let ?n = "key_number k"
  have c: "?n AND 0xff = type_code (pk_type ik)" "pk_sequence ik = drop_bit 8 ?n" "pk_user_key ik = ExtractUserKey k"
    using assms by (auto simp: ParseInternalKey_def Let_def ExtractUserKey_def split: if_splits)
  show "pk_user_key ik = ExtractUserKey k" by (rule c(3))
  have "unat (?n AND 0xff) = unat ?n mod 256" using unat_and_mask [of ?n 8] by (simp add: mask_eq_exp_minus_1)
  moreover have "unat (drop_bit 8 ?n) = unat ?n div 256" by (simp add: unat_drop_bit)
  ultimately show "unat ?n = 256 * unat (pk_sequence ik) + unat (type_code (pk_type ik))"
    unfolding c(1,2) [symmetric] by simp
qed

lemma seen_below:
  assumes "ParseInternalKey (fst kv) \<noteq> None" "seen s kv" "s \<le> kMaxSequenceNumber"
  shows "key_number (fst kv) \<le> PackSequenceAndType s kTypeValue"
proof -
  obtain ik where ik: "ParseInternalKey (fst kv) = Some ik" using assms(1) by auto
  have "unat (pk_sequence ik) \<le> unat s" using assms(2) ik by (simp add: seen_def kv_parse_def word_le_nat_alt)
  moreover have "unat (type_code (pk_type ik)) \<le> 1" by (cases "pk_type ik") simp_all
  ultimately show ?thesis
    unfolding word_le_nat_alt parse_parts(2) [OF ik] pack_sum [OF seq_fits [OF assms(3)]] by simp
qed

subsection \<open>The loops\<close>

text \<open>An iterator over internal keys that satisfies the contract.\<close>

locale internal_iterator = comparator_laws u valid +
  inner: cursor_iterator "InternalKeyComparator u" "valid_ikey valid" it at
  for u :: comparator and valid :: "byte list \<Rightarrow> bool" and it :: "'i iter_ops" and at :: "'i \<Rightarrow> (byte list \<times> byte list) list \<Rightarrow> nat \<Rightarrow> bool"
begin

lemma user_valid: "at i kvs p \<Longrightarrow> j < length kvs \<Longrightarrow> valid (kv_user (kvs ! j))"
  using inner.at_sorted [of i kvs p] by (auto simp: kv_user_def valid_ikey_def)

lemma user_order: "at i kvs p \<Longrightarrow> j \<le> k \<Longrightarrow> k < length kvs \<Longrightarrow> cmp_Compare u (kv_user (kvs ! j)) (kv_user (kvs ! k)) \<le> 0"
proof (cases "j = k")
  case True
  then show "at i kvs p \<Longrightarrow> k < length kvs \<Longrightarrow> ?thesis" using user_valid compare_refl by simp
next
  case False
  moreover assume "at i kvs p" "j \<le> k" "k < length kvs"
  ultimately have "ikey_Compare u (fst (kvs ! j)) (fst (kvs ! k)) < 0"
    using inner.key_sorted_nth [of kvs j k] inner.at_sorted [of i kvs p] by simp
  then show ?thesis unfolding ikey_less_iff kv_user_def by auto
qed

definition inner_ok :: "'i db_iter \<Rightarrow> u64 \<Rightarrow> (byte list \<times> byte list) list \<Rightarrow> nat \<Rightarrow> bool" where
  "inner_ok d s kvs q \<longleftrightarrow> at (di_iter d) kvs q \<and> keys_parse kvs \<and> rnd_ok (di_rnd d) \<and> di_user_comparator d = u \<and>
     di_status d = OK \<and> di_sequence d = s \<and> s \<le> kMaxSequenceNumber"

lemma inner_okD:
  assumes "inner_ok d s kvs q"
  shows "at (di_iter d) kvs q" "di_user_comparator d = u" "di_sequence d = s" "io_Valid it (di_iter d) \<longleftrightarrow> q < length kvs"
    "q \<le> length kvs"
  using assms inner.at_Valid inner.at_range by (auto simp: inner_ok_def)

lemma inner_ok_update:
  "inner_ok (d\<lparr>di_saved_key := a\<rparr>) s kvs q = inner_ok d s kvs q" "inner_ok (d\<lparr>di_saved_value := a\<rparr>) s kvs q = inner_ok d s kvs q"
  "inner_ok (d\<lparr>di_valid := b\<rparr>) s kvs q = inner_ok d s kvs q" "inner_ok (d\<lparr>di_reverse := b\<rparr>) s kvs q = inner_ok d s kvs q"
  by (simp_all add: inner_ok_def)

text \<open>What the loops leave unchanged.\<close>

definition same_state :: "'i db_iter \<Rightarrow> 'i db_iter \<Rightarrow> bool" where
  "same_state d d' \<longleftrightarrow> di_saved_key d' = di_saved_key d \<and> di_saved_value d' = di_saved_value d \<and> di_reverse d' = di_reverse d \<and>
     di_valid d' = di_valid d"

lemma inner_move_ok:
  assumes "inner_ok d s kvs q" "list_op (InternalKeyComparator u) kvs q x = Some q'" "\<forall>t. x = Seek t \<longrightarrow> valid_ikey valid t"
  shows "\<exists>d'. inner_move it x d = Some d' \<and> inner_ok d' s kvs q' \<and> same_state d d'"
proof -
  obtain i' where "io_move it (di_iter d) x = Some i'" "at i' kvs q'"
    using inner.at_move [OF inner_okD(1) [OF assms(1)] assms(2,3)] by blast
  then show ?thesis using assms(1) by (auto simp: inner_move_def inner_ok_def same_state_def)
qed

lemma ParseKey_ok:
  assumes ok: "inner_ok d s kvs q" and q: "q < length kvs"
  shows "\<exists>d'. ParseKey it d = Some (Some (kv_parse (kvs ! q)), d') \<and> inner_ok d' s kvs q \<and> same_state d d'"
proof -
  let ?kv = "kvs ! q"
  have kv: "io_key it (di_iter d) = Some (fst ?kv)" "io_value it (di_iter d) = Some (snd ?kv)"
    using inner.at_key inner.at_value inner_okD(1) [OF ok] q by auto
  have r: "rnd_ok (di_rnd d)" and "keys_parse kvs" using ok by (simp_all add: inner_ok_def)
  then obtain ik where ik: "ParseInternalKey (fst ?kv) = Some ik" using q by (fastforce simp: keys_parse_def)
  obtain r' n samples where loop: "sample_loop (fst ?kv) (length (fst ?kv) + length (snd ?kv)) (di_rnd d)
      (di_bytes_until_read_sampling d) (di_samples d) = Some (r', n, samples)" "rnd_ok r'"
    using sample_loop_ends [OF r] by blast
  then show ?thesis
    using ok ik by (simp add: ParseKey_def kv kv_parse_def inner_ok_def same_state_def Let_def)
qed

lemma parse_user: "at i kvs p \<Longrightarrow> keys_parse kvs \<Longrightarrow> j < length kvs \<Longrightarrow> pk_user_key (kv_parse (kvs ! j)) = kv_user (kvs ! j)"
  using parse_parts(1) by (fastforce simp: keys_parse_def kv_parse_def kv_user_def)

text \<open>The entries that \<open>FindNextUserEntry\<close> may stop at.\<close>

definition candidate :: "u64 \<Rightarrow> (byte list \<times> byte list) list \<Rightarrow> bool \<Rightarrow> byte list \<Rightarrow> nat \<Rightarrow> bool" where
  "candidate s kvs skipping skip j \<longleftrightarrow> shown u s kvs j \<and> \<not> (skipping \<and> cmp_Compare u (kv_user (kvs ! j)) skip \<le> 0)"

text \<open>What the skipped key stands for at index \<open>i\<close>: the entries from there on that it hides are those with an
  entry of the same user key before, which the snapshot sees.\<close>

definition hides :: "u64 \<Rightarrow> (byte list \<times> byte list) list \<Rightarrow> nat \<Rightarrow> bool \<Rightarrow> byte list \<Rightarrow> bool" where
  "hides s kvs i skipping skip \<longleftrightarrow>
     (\<forall>j j'. i \<le> j \<and> j < length kvs \<and> seen s (kvs ! j) \<and> j' < i \<and> seen s (kvs ! j') \<and>
        cmp_Compare u (kv_user (kvs ! j')) (kv_user (kvs ! j)) = 0 \<longrightarrow> skipping \<and> cmp_Compare u (kv_user (kvs ! j)) skip \<le> 0) \<and>
     (\<forall>j. skipping \<and> i \<le> j \<and> j < length kvs \<and> seen s (kvs ! j) \<longrightarrow> cmp_Compare u skip (kv_user (kvs ! j)) \<le> 0) \<and>
     (skipping \<longrightarrow> valid skip)"

lemma hidesI:
  assumes "\<And>j j'. i \<le> j \<Longrightarrow> j < length kvs \<Longrightarrow> seen s (kvs ! j) \<Longrightarrow> j' < i \<Longrightarrow> seen s (kvs ! j') \<Longrightarrow>
      cmp_Compare u (kv_user (kvs ! j')) (kv_user (kvs ! j)) = 0 \<Longrightarrow> skipping \<and> cmp_Compare u (kv_user (kvs ! j)) skip \<le> 0"
    and "\<And>j. skipping \<Longrightarrow> i \<le> j \<Longrightarrow> j < length kvs \<Longrightarrow> seen s (kvs ! j) \<Longrightarrow> cmp_Compare u skip (kv_user (kvs ! j)) \<le> 0"
    and "skipping \<Longrightarrow> valid skip"
  shows "hides s kvs i skipping skip"
  using assms unfolding hides_def by blast

lemma hidesD:
  assumes "hides s kvs i skipping skip"
  shows "i \<le> j \<Longrightarrow> j < length kvs \<Longrightarrow> seen s (kvs ! j) \<Longrightarrow> j' < i \<Longrightarrow> seen s (kvs ! j') \<Longrightarrow>
      cmp_Compare u (kv_user (kvs ! j')) (kv_user (kvs ! j)) = 0 \<Longrightarrow> skipping \<and> cmp_Compare u (kv_user (kvs ! j)) skip \<le> 0"
    and "skipping \<Longrightarrow> i \<le> j \<Longrightarrow> j < length kvs \<Longrightarrow> seen s (kvs ! j) \<Longrightarrow> cmp_Compare u skip (kv_user (kvs ! j)) \<le> 0"
    and "skipping \<Longrightarrow> valid skip"
  using assms unfolding hides_def by blast+

lemma next_entry_ok:
  assumes ok: "inner_ok d s kvs i" and i: "i < length kvs" and hides: "hides s kvs i skipping (di_saved_key d)"
  shows "\<exists>stop skipping' d'. next_entry it skipping d = Some (stop, skipping', d') \<and> inner_ok d' s kvs i \<and> di_reverse d' = di_reverse d \<and>
    (if stop then di_valid d' \<and> candidate s kvs skipping (di_saved_key d) i
     else \<not> candidate s kvs skipping (di_saved_key d) i \<and> hides s kvs (Suc i) skipping' (di_saved_key d') \<and>
       (\<forall>j. Suc i \<le> j \<longrightarrow> candidate s kvs skipping' (di_saved_key d') j = candidate s kvs skipping (di_saved_key d) j))"
proof -
  note hidden = hidesD(1) [OF hides] and above = hidesD(2) [OF hides] and skip = hidesD(3) [OF hides]
  note at = inner_okD(1) [OF ok]
  let ?U = "\<lambda>j. kv_user (kvs ! j)" and ?skip = "di_saved_key d"
  have V: "j < length kvs \<Longrightarrow> valid (?U j)" for j by (rule user_valid [OF at])
  have O: "j \<le> k \<Longrightarrow> k < length kvs \<Longrightarrow> cmp_Compare u (?U j) (?U k) \<le> 0" for j k by (rule user_order [OF at])
  obtain d1 where d1: "ParseKey it d = Some (Some (kv_parse (kvs ! i)), d1)" "inner_ok d1 s kvs i" "same_state d d1"
    using ParseKey_ok [OF ok i] by blast
  have f: "di_sequence d1 = s" "di_user_comparator d1 = u" "pk_user_key (kv_parse (kvs ! i)) = ?U i" "di_saved_key d1 = ?skip"
      "di_reverse d1 = di_reverse d"
    using inner_okD [OF d1(2)] parse_user [OF at _ i] ok d1(3) by (auto simp: inner_ok_def same_state_def)
  show ?thesis
  proof (cases "seen s (kvs ! i)")
    case False
    then have ns: "\<not> shown u s kvs i" by (simp add: shown_def)
    have "next_entry it skipping d = Some (False, skipping, d1)" using False by (simp add: next_entry_def d1(1) seen_def f(1))
    moreover have "hides s kvs (Suc i) skipping ?skip"
    proof (rule hidesI)
      show "skipping \<and> cmp_Compare u (?U j) ?skip \<le> 0"
        if "Suc i \<le> j" "j < length kvs" "seen s (kvs ! j)" "j' < Suc i" "seen s (kvs ! j')" "cmp_Compare u (?U j') (?U j) = 0" for j j'
        using hidden [of j j'] that False by (cases "j' = i") simp_all
    qed (use above skip in simp_all)
    ultimately show ?thesis using ns d1(2) f by (auto simp: candidate_def)
  next
    case sn: True
    show ?thesis
    proof (cases "pk_type (kv_parse (kvs ! i))")
      case kTypeDeletion
      let ?d = "d1\<lparr>di_saved_key := ?U i\<rparr>"
      have ns: "\<not> shown u s kvs i" using kTypeDeletion by (simp add: shown_def)
      have run: "next_entry it skipping d = Some (False, True, ?d)"
        using sn kTypeDeletion f(3) by (simp add: next_entry_def d1(1) seen_def f(1))
      have same: "candidate s kvs True (?U i) j = candidate s kvs skipping ?skip j" if j: "Suc i \<le> j" for j
      proof (cases "shown u s kvs j")
        case True
        then have jl: "j < length kvs" and ne: "cmp_Compare u (?U i) (?U j) \<noteq> 0" using sn j by (auto simp: shown_def)
        have lt: "cmp_Compare u (?U i) (?U j) < 0" using ne O [of i j] j jl by simp
        then have "\<not> cmp_Compare u (?U j) (?U i) \<le> 0" using compare_swap [OF V V] i jl by simp
        moreover have "\<not> cmp_Compare u (?U j) ?skip \<le> 0" if sk: skipping
        proof
          assume "cmp_Compare u (?U j) ?skip \<le> 0"
          then have "cmp_Compare u (?U j) (?U i) \<le> 0"
            using compare_trans [OF V [OF jl] skip [OF sk] V [OF i]] above [OF sk order_refl i sn] by simp
          with \<open>\<not> cmp_Compare u (?U j) (?U i) \<le> 0\<close> show False by simp
        qed
        ultimately show ?thesis by (auto simp: candidate_def)
      qed (simp add: candidate_def)
      have "hides s kvs (Suc i) True (?U i)"
      proof (rule hidesI)
        show "True \<and> cmp_Compare u (?U j) (?U i) \<le> 0"
          if "Suc i \<le> j" "j < length kvs" "j' < Suc i" "cmp_Compare u (?U j') (?U j) = 0" for j j'
        proof -
          have "cmp_Compare u (?U j) (?U j') \<le> 0" using that compare_swap_eq [OF V V, of j j'] i by simp
          then show ?thesis using compare_trans [OF V V V, of j j' i] O [of j' i] that i by simp
        qed
      qed (use O i V in simp_all)
      then show ?thesis
        using run ns same f(5) d1(2) by (intro exI [of _ False] exI [of _ True] exI [of _ ?d]) (simp add: candidate_def inner_ok_update)
    next
      case kTypeValue
      show ?thesis
      proof (cases "skipping \<and> cmp_Compare u (?U i) ?skip \<le> 0")
        case True
        have run: "next_entry it skipping d = Some (False, skipping, d1)"
          using sn kTypeValue True f by (simp add: next_entry_def d1(1) seen_def)
        have "hides s kvs (Suc i) skipping ?skip"
        proof (rule hidesI)
          show "skipping \<and> cmp_Compare u (?U j) ?skip \<le> 0"
            if "Suc i \<le> j" "j < length kvs" "seen s (kvs ! j)" "j' < Suc i" "seen s (kvs ! j')" "cmp_Compare u (?U j') (?U j) = 0" for j j'
          proof (cases "j' = i")
            case True
            then have "cmp_Compare u (?U j) (?U i) \<le> 0" using that compare_swap_eq [OF V V, of j i] i by simp
            with \<open>skipping \<and> cmp_Compare u (?U i) ?skip \<le> 0\<close> show ?thesis
              using compare_trans [OF V V skip, of j i] that(2) i by simp
          next
            case False
            then show ?thesis using hidden [of j j'] that by simp
          qed
        qed (use above skip in simp_all)
        then show ?thesis
          using run True d1(2) f by (intro exI [of _ False] exI [of _ skipping] exI [of _ d1]) (simp add: candidate_def)
      next
        case False
        let ?d = "d1\<lparr>di_valid := True, di_saved_key := []\<rparr>"
        have run: "next_entry it skipping d = Some (True, skipping, ?d)"
          using sn kTypeValue False f by (auto simp: next_entry_def d1(1) seen_def)
        have "shown u s kvs i" unfolding shown_def using i sn kTypeValue hidden [of i] False by auto
        then show ?thesis
          using run False d1(2) f by (intro exI [of _ True] exI [of _ skipping] exI [of _ ?d]) (auto simp: candidate_def inner_ok_update)
      qed
    qed
  qed
qed

lemma FindNext_ok:
  assumes "inner_ok d s kvs i" "i < length kvs" "hides s kvs i skipping (di_saved_key d)"
  shows "\<exists>d' t. FindNextUserEntry it skipping d = Some d' \<and> inner_ok d' s kvs t \<and> di_reverse d' = di_reverse d \<and> i \<le> t \<and>
    (\<forall>j. i \<le> j \<and> j < t \<longrightarrow> \<not> candidate s kvs skipping (di_saved_key d) j) \<and>
    (if di_valid d' then candidate s kvs skipping (di_saved_key d) t else t = length kvs)"
  using assms
proof (induction "length kvs - i" arbitrary: i skipping d rule: less_induct)
  case less
  obtain stop skipping' d1 where e: "next_entry it skipping d = Some (stop, skipping', d1)" "inner_ok d1 s kvs i" "di_reverse d1 = di_reverse d"
    and r: "if stop then di_valid d1 \<and> candidate s kvs skipping (di_saved_key d) i
     else \<not> candidate s kvs skipping (di_saved_key d) i \<and> hides s kvs (Suc i) skipping' (di_saved_key d1) \<and>
       (\<forall>j. Suc i \<le> j \<longrightarrow> candidate s kvs skipping' (di_saved_key d1) j = candidate s kvs skipping (di_saved_key d) j)"
    using next_entry_ok [OF less.prems] by blast
  show ?case
  proof (cases stop)
    case True
    then show ?thesis using e r by (subst FindNextUserEntry.simps) (auto intro!: exI [of _ i])
  next
    case False
    note r' = r [unfolded if_not_P [OF False]]
    have "list_op (InternalKeyComparator u) kvs i Next = Some (Suc i)" using less.prems(2) by simp
    from inner_move_ok [OF e(2) this] obtain d2 where d2: "inner_move it Next d1 = Some d2" "inner_ok d2 s kvs (Suc i)" "same_state d1 d2"
      by auto
    have f: "di_saved_key d2 = di_saved_key d1" "di_reverse d2 = di_reverse d1" using d2(3) by (simp_all add: same_state_def)
    show ?thesis
    proof (cases "Suc i < length kvs")
      case True
      have step: "FindNextUserEntry it skipping d = FindNextUserEntry it skipping' d2"
        using False e(1) d2(1) True inner_okD(4) [OF d2(2)] by (subst FindNextUserEntry.simps) simp
      have "\<exists>d' t. FindNextUserEntry it skipping' d2 = Some d' \<and> inner_ok d' s kvs t \<and> di_reverse d' = di_reverse d2 \<and> Suc i \<le> t \<and>
        (\<forall>j. Suc i \<le> j \<and> j < t \<longrightarrow> \<not> candidate s kvs skipping' (di_saved_key d2) j) \<and>
        (if di_valid d' then candidate s kvs skipping' (di_saved_key d2) t else t = length kvs)"
        using less.prems(2) r' True d2(2) by (intro less.hyps) (auto simp: f)
      then obtain d' t where d': "FindNextUserEntry it skipping' d2 = Some d'" "inner_ok d' s kvs t" "di_reverse d' = di_reverse d2" "Suc i \<le> t"
        "\<forall>j. Suc i \<le> j \<and> j < t \<longrightarrow> \<not> candidate s kvs skipping' (di_saved_key d2) j"
        "if di_valid d' then candidate s kvs skipping' (di_saved_key d2) t else t = length kvs" by blast
      have "\<not> candidate s kvs skipping (di_saved_key d) j" if "i \<le> j" "j < t" for j
        using that d'(5) r' f(1) by (cases "j = i") auto
      moreover have "if di_valid d' then candidate s kvs skipping (di_saved_key d) t else t = length kvs"
        using d'(4,6) r' f(1) by auto
      ultimately show ?thesis unfolding step using d' f(2) e(3) by auto
    next
      case False
      then have l: "Suc i = length kvs" using less.prems(2) by simp
      have "FindNextUserEntry it skipping d = Some (d2\<lparr>di_saved_key := [], di_valid := False\<rparr>)"
        using \<open>\<not> stop\<close> e(1) d2(1) False inner_okD(4) [OF d2(2)] by (subst FindNextUserEntry.simps) simp
      moreover have "\<not> candidate s kvs skipping (di_saved_key d) j" if "i \<le> j" "j < length kvs" for j
        using that r' l by (cases "j = i") auto
      ultimately show ?thesis using d2(2) f e(3) l by (auto simp: inner_ok_update intro!: exI [of _ "length kvs"])
    qed
  qed
qed

text \<open>Going backward over the entries before \<open>B\<close>, from \<open>b\<close> on: the entry that is held, if any.\<close>

definition held :: "u64 \<Rightarrow> (byte list \<times> byte list) list \<Rightarrow> nat \<Rightarrow> nat \<Rightarrow> nat \<Rightarrow> 'i db_iter \<Rightarrow> bool" where
  "held s kvs B b m d \<longleftrightarrow> b \<le> m \<and> m < B \<and> B \<le> length kvs \<and> seen s (kvs ! m) \<and> pk_type (kv_parse (kvs ! m)) = kTypeValue \<and>
     di_saved_key d = kv_user (kvs ! m) \<and> di_saved_value d = snd (kvs ! m) \<and>
     (\<forall>j. b \<le> j \<and> j < m \<longrightarrow> \<not> seen s (kvs ! j)) \<and> (\<forall>j. m < j \<and> j < B \<longrightarrow> \<not> shown u s kvs j)"

definition back_inv :: "u64 \<Rightarrow> (byte list \<times> byte list) list \<Rightarrow> nat \<Rightarrow> nat \<Rightarrow> ValueType \<Rightarrow> 'i db_iter \<Rightarrow> bool" where
  "back_inv s kvs B b vt d \<longleftrightarrow>
     (if vt = kTypeDeletion then \<forall>j. b \<le> j \<and> j < B \<longrightarrow> \<not> shown u s kvs j else \<exists>m. held s kvs B b m d)"

lemma held_unseen: "held s kvs B (Suc b) m d \<Longrightarrow> \<not> seen s (kvs ! b) \<Longrightarrow> held s kvs B b m d"
  by (auto simp: held_def less_Suc_eq_le) (metis not_less_eq_eq order_antisym)

lemma held_same: "same_state d d' \<Longrightarrow> held s kvs B b m d' = held s kvs B b m d"
  by (simp add: held_def same_state_def)

lemma prev_entry_ok:
  assumes ok: "inner_ok d s kvs b" and b: "b < B" "B \<le> length kvs" and inv: "back_inv s kvs B (Suc b) vt d"
  shows "\<exists>leave vt' d'. prev_entry it vt d = Some (leave, vt', d') \<and> inner_ok d' s kvs b \<and> di_reverse d' = di_reverse d \<and>
    (if leave then vt' = kTypeValue \<and> (\<exists>m. held s kvs B (Suc b) m d' \<and> shown u s kvs m) else back_inv s kvs B b vt' d')"
proof -
  note at = inner_okD(1) [OF ok]
  let ?U = "\<lambda>j. kv_user (kvs ! j)"
  have bl: "b < length kvs" using b by simp
  have V: "j < length kvs \<Longrightarrow> valid (?U j)" for j by (rule user_valid [OF at])
  have O: "j \<le> k \<Longrightarrow> k < length kvs \<Longrightarrow> cmp_Compare u (?U j) (?U k) \<le> 0" for j k by (rule user_order [OF at])
  obtain d1 where d1: "ParseKey it d = Some (Some (kv_parse (kvs ! b)), d1)" "inner_ok d1 s kvs b" "same_state d d1"
    using ParseKey_ok [OF ok bl] by blast
  have f: "di_sequence d1 = s" "di_user_comparator d1 = u" "pk_user_key (kv_parse (kvs ! b)) = ?U b"
      "di_saved_key d1 = di_saved_key d" "di_reverse d1 = di_reverse d"
    using inner_okD [OF d1(2)] parse_user [OF at _ bl] ok d1(3) by (auto simp: inner_ok_def same_state_def)
  note kv = inner.at_key [OF inner_okD(1) [OF d1(2)] bl] inner.at_value [OF inner_okD(1) [OF d1(2)] bl]
  show ?thesis
  proof (cases "seen s (kvs ! b)")
    case False
    have "prev_entry it vt d = Some (False, vt, d1)" using False by (simp add: prev_entry_def d1(1) seen_def f(1))
    moreover have "back_inv s kvs B b vt d1"
    proof (cases "vt = kTypeDeletion")
      case True
      have "\<not> shown u s kvs j" if "b \<le> j" "j < B" for j
        using that True inv False by (cases "j = b") (auto simp: back_inv_def shown_def)
      then show ?thesis using True by (simp add: back_inv_def)
    next
      case vt: False
      then obtain m where "held s kvs B (Suc b) m d" using inv by (auto simp: back_inv_def)
      then have "held s kvs B b m d1" using held_unseen [OF _ False] held_same [OF d1(3)] by blast
      then show ?thesis using vt by (auto simp: back_inv_def)
    qed
    ultimately show ?thesis using d1(2) f(5) by auto
  next
    case sn: True
    show ?thesis
    proof (cases "vt \<noteq> kTypeDeletion \<and> cmp_Compare u (?U b) (di_saved_key d) < 0")
      case True
      then obtain m where m: "held s kvs B (Suc b) m d" using inv by (auto simp: back_inv_def)
      then have mf: "b < m" "m < length kvs" "di_saved_key d = ?U m" by (auto simp: held_def)
      have "cmp_Compare u (?U j) (?U m) \<noteq> 0" if j: "j < m" "seen s (kvs ! j)" for j
      proof -
        have "\<not> (Suc b \<le> j \<and> j < m)" using m j by (auto simp: held_def)
        then have "cmp_Compare u (?U j) (?U b) \<le> 0" using O [of j b] bl j by simp
        then have "cmp_Compare u (?U j) (?U m) < 0"
          using compare_trans_less [OF V V V, of j b m] True mf bl j by simp
        then show ?thesis by simp
      qed
      then have "shown u s kvs m" using m mf(2) by (auto simp: shown_def held_def)
      moreover have "prev_entry it vt d = Some (True, vt, d1)"
        using True sn f by (simp add: prev_entry_def d1(1) seen_def)
      moreover have "vt = kTypeValue" using True by (cases vt) auto
      ultimately show ?thesis using d1(2) f(5) m held_same [OF d1(3)] by auto
    next
      case False
      have none: "\<not> shown u s kvs j" if j: "Suc b \<le> j" "j < B" "pk_type (kv_parse (kvs ! b)) = kTypeDeletion \<or> j \<noteq> b" for j
      proof (cases "vt = kTypeDeletion")
        case True
        then show ?thesis using inv j by (auto simp: back_inv_def)
      next
        case vt: False
        then obtain m where m: "held s kvs B (Suc b) m d" using inv by (auto simp: back_inv_def)
        then have mf: "b < m" "m < length kvs" "di_saved_key d = ?U m" by (auto simp: held_def)
        show ?thesis
        proof (cases "j = m")
          case True
          have "cmp_Compare u (?U b) (?U m) = 0" using False vt mf(3) O [of b m] mf(1,2) by simp
          then show ?thesis using sn mf(1) True by (auto simp: shown_def)
        next
          case False
          then show ?thesis using m j by (cases "j < m") (auto simp: held_def shown_def)
        qed
      qed
      show ?thesis
      proof (cases "pk_type (kv_parse (kvs ! b))")
        case kTypeDeletion
        let ?d = "ClearSavedValue (d1\<lparr>di_saved_key := []\<rparr>)"
        have "\<not> shown u s kvs j" if "b \<le> j" "j < B" for j
          using none [of j] that kTypeDeletion by (cases "j = b") (auto simp: shown_def)
        then have "back_inv s kvs B b kTypeDeletion ?d" by (simp add: back_inv_def)
        moreover have "prev_entry it vt d = Some (False, kTypeDeletion, ?d)"
          using False sn f kTypeDeletion by (auto simp: prev_entry_def d1(1) seen_def)
        ultimately show ?thesis using d1(2) f(5) by (auto simp: ClearSavedValue_def inner_ok_update)
      next
        case kTypeValue
        let ?d = "d1\<lparr>di_saved_key := ?U b, di_saved_value := snd (kvs ! b)\<rparr>"
        have "held s kvs B b b ?d" using b sn kTypeValue none by (auto simp: held_def)
        then have "back_inv s kvs B b kTypeValue ?d" by (auto simp: back_inv_def)
        moreover have "prev_entry it vt d = Some (False, kTypeValue, ?d)"
          using False sn f kTypeValue kv by (auto simp: prev_entry_def d1(1) seen_def kv_user_def)
        ultimately show ?thesis using d1(2) f(5) by (auto simp: inner_ok_update)
      qed
    qed
  qed
qed

text \<open>How many entries lie at or before an internal iterator at \<open>q\<close>.\<close>

definition upto :: "(byte list \<times> byte list) list \<Rightarrow> nat \<Rightarrow> nat" where
  "upto kvs q = (if q < length kvs then Suc q else 0)"

definition back_end :: "u64 \<Rightarrow> (byte list \<times> byte list) list \<Rightarrow> nat \<Rightarrow> ValueType \<Rightarrow> 'i db_iter \<Rightarrow> nat \<Rightarrow> bool" where
  "back_end s kvs B vt d q \<longleftrightarrow>
     (if vt = kTypeDeletion then \<forall>j < B. \<not> shown u s kvs j else \<exists>m. held s kvs B (upto kvs q) m d \<and> shown u s kvs m)"

lemma prev_loop_ok:
  assumes "inner_ok d s kvs b" "b < B" "B \<le> length kvs" "back_inv s kvs B (Suc b) vt d"
  shows "\<exists>vt' d' q. prev_loop it vt d = Some (vt', d') \<and> inner_ok d' s kvs q \<and> di_reverse d' = di_reverse d \<and> back_end s kvs B vt' d' q"
  using assms
proof (induction b arbitrary: vt d)
  case 0
  obtain leave vt1 d1 where e: "prev_entry it vt d = Some (leave, vt1, d1)" "inner_ok d1 s kvs 0" "di_reverse d1 = di_reverse d"
    and r: "if leave then vt1 = kTypeValue \<and> (\<exists>m. held s kvs B (Suc 0) m d1 \<and> shown u s kvs m) else back_inv s kvs B 0 vt1 d1"
    using prev_entry_ok [OF 0] by blast
  have l: "0 < length kvs" by (rule less_le_trans [OF 0(2,3)])
  show ?case
  proof (cases leave)
    case True
    then have "back_end s kvs B vt1 d1 0" using r l by (auto simp: back_end_def upto_def)
    moreover have "prev_loop it vt d = Some (vt1, d1)" using e(1) True by (subst prev_loop.simps) simp
    ultimately show ?thesis using e(2,3) by blast
  next
    case False
    obtain d2 where d2: "inner_move it Prev d1 = Some d2" "inner_ok d2 s kvs (length kvs)" "same_state d1 d2"
      using inner_move_ok [OF e(2), of Prev "length kvs"] l by auto
    have "back_end s kvs B vt1 d2 (length kvs)"
    proof (cases "vt1 = kTypeDeletion")
      case True
      then show ?thesis using r False by (auto simp: back_end_def back_inv_def)
    next
      case vt: False
      then obtain m where m: "held s kvs B 0 m d2" using r False held_same [OF d2(3)] by (auto simp: back_inv_def)
      then have "shown u s kvs m" by (auto simp: held_def shown_def)
      then show ?thesis using m vt by (auto simp: back_end_def upto_def)
    qed
    moreover have "prev_loop it vt d = Some (vt1, d2)"
      using False e(1) d2(1) inner_okD(4) [OF d2(2)] by (subst prev_loop.simps) simp
    ultimately show ?thesis using d2(2,3) e(3) by (auto simp: same_state_def)
  qed
next
  case (Suc b)
  obtain leave vt1 d1 where e: "prev_entry it vt d = Some (leave, vt1, d1)" "inner_ok d1 s kvs (Suc b)" "di_reverse d1 = di_reverse d"
    and r: "if leave then vt1 = kTypeValue \<and> (\<exists>m. held s kvs B (Suc (Suc b)) m d1 \<and> shown u s kvs m) else back_inv s kvs B (Suc b) vt1 d1"
    using prev_entry_ok [OF Suc.prems] by blast
  have l: "Suc b < length kvs" using Suc.prems by simp
  show ?case
  proof (cases leave)
    case True
    then have "back_end s kvs B vt1 d1 (Suc b)" using r l by (auto simp: back_end_def upto_def)
    moreover have "prev_loop it vt d = Some (vt1, d1)" using e(1) True by (subst prev_loop.simps) simp
    ultimately show ?thesis using e(2,3) by blast
  next
    case False
    obtain d2 where d2: "inner_move it Prev d1 = Some d2" "inner_ok d2 s kvs b" "same_state d1 d2"
      using inner_move_ok [OF e(2), of Prev b] l by auto
    have "back_inv s kvs B (Suc b) vt1 d2" using r False held_same [OF d2(3)] by (simp add: back_inv_def)
    from Suc.IH [OF d2(2) _ Suc.prems(3) this] Suc.prems(2)
    obtain vt' d' q where "prev_loop it vt1 d2 = Some (vt', d')" "inner_ok d' s kvs q" "di_reverse d' = di_reverse d2" "back_end s kvs B vt' d' q"
      by auto
    moreover have "prev_loop it vt d = prev_loop it vt1 d2"
      using False e(1) d2(1) inner_okD(4) [OF d2(2)] l by (subst prev_loop.simps) simp
    ultimately show ?thesis using d2(3) e(3) by (auto simp: same_state_def)
  qed
qed

text \<open>The states of the iterator: not valid, on an entry going forward, before its entries going backward.\<close>

definition on_entry :: "u64 \<Rightarrow> (byte list \<times> byte list) list \<Rightarrow> nat \<Rightarrow> 'i db_iter \<Rightarrow> nat \<Rightarrow> bool" where
  "on_entry s kvs q d m \<longleftrightarrow> di_valid d \<and> shown u s kvs m \<and>
     (if di_reverse d then upto kvs q \<le> m \<and> di_saved_key d = kv_user (kvs ! m) \<and> di_saved_value d = snd (kvs ! m) \<and>
        (\<forall>j. upto kvs q \<le> j \<and> j < m \<longrightarrow> \<not> seen s (kvs ! j))
      else m = q)"

definition db_state :: "u64 \<Rightarrow> (byte list \<times> byte list) list \<Rightarrow> 'i db_iter \<Rightarrow> nat \<Rightarrow> bool" where
  "db_state s kvs d p \<longleftrightarrow> (\<exists>q. inner_ok d s kvs q \<and>
     (if di_valid d then \<exists>m. on_entry s kvs q d m \<and> p = rank u s kvs m else p = length (user_view u s kvs)))"

lemma FindPrev_ok:
  assumes ok: "inner_ok d s kvs q" and rev: "di_reverse d"
  shows "\<exists>d' p. FindPrevUserEntry it d = Some d' \<and> db_state s kvs d' p \<and>
    p = (if rank u s kvs (upto kvs q) = 0 then length (user_view u s kvs) else rank u s kvs (upto kvs q) - 1)"
proof -
  let ?B = "upto kvs q"
  have B: "?B \<le> length kvs" by (simp add: upto_def)
  obtain vt d1 q1 where e: "(if io_Valid it (di_iter d) then prev_loop it kTypeDeletion d else Some (kTypeDeletion, d)) = Some (vt, d1)"
    "inner_ok d1 s kvs q1" "di_reverse d1" "back_end s kvs ?B vt d1 q1"
  proof (cases "q < length kvs")
    case True
    have inv: "back_inv s kvs ?B (Suc q) kTypeDeletion d" using True by (auto simp: back_inv_def upto_def)
    have q: "q < ?B" using True by (simp add: upto_def)
    from prev_loop_ok [OF ok q B inv] obtain vt' d' q' where
      "prev_loop it kTypeDeletion d = Some (vt', d')" "inner_ok d' s kvs q'" "di_reverse d' = di_reverse d" "back_end s kvs ?B vt' d' q'" by blast
    then show thesis using that True inner_okD(4) [OF ok] rev by simp
  next
    case False
    then have "back_end s kvs ?B kTypeDeletion d q" by (simp add: back_end_def upto_def)
    then show thesis using that [of kTypeDeletion d q] False inner_okD(4) [OF ok] rev ok by simp
  qed
  show ?thesis
  proof (cases "vt = kTypeDeletion")
    case True
    then have "\<forall>j. 0 \<le> j \<and> j < ?B \<longrightarrow> \<not> shown u s kvs j" using e(4) by (simp add: back_end_def)
    from rank_none [OF _ this] have "rank u s kvs ?B = 0" by simp
    moreover have "db_state s kvs ((ClearSavedValue (d1\<lparr>di_valid := False, di_saved_key := []\<rparr>))\<lparr>di_reverse := False\<rparr>) (length (user_view u s kvs))"
      using e(2) by (auto simp: db_state_def inner_ok_update ClearSavedValue_def)
    ultimately show ?thesis using e(1) True by (simp add: FindPrevUserEntry_def)
  next
    case False
    then obtain m where m: "held s kvs ?B (upto kvs q1) m d1" "shown u s kvs m" using e(4) by (auto simp: back_end_def)
    have "rank u s kvs ?B = rank u s kvs (Suc m)" using m(1) by (intro rank_none) (auto simp: held_def)
    then have "rank u s kvs ?B = rank u s kvs m + 1" using m(2) by (simp add: rank_Suc)
    moreover have "on_entry s kvs q1 (d1\<lparr>di_valid := True\<rparr>) m" using m e(3) by (auto simp: on_entry_def held_def)
    then have "db_state s kvs (d1\<lparr>di_valid := True\<rparr>) (rank u s kvs m)"
      unfolding db_state_def using e(2) by (intro exI [of _ q1]) (auto simp: inner_ok_update intro!: exI [of _ m])
    ultimately show ?thesis using e(1) False by (simp add: FindPrevUserEntry_def)
  qed
qed

lemma before_key_ok:
  assumes "inner_ok d s kvs q" "q < length kvs" "valid (di_saved_key d)"
  shows "\<exists>found d' q'. before_key it d = Some (found, d') \<and> inner_ok d' s kvs q' \<and> di_reverse d' = di_reverse d \<and>
    (found \<longleftrightarrow> q' < length kvs) \<and> (\<not> found \<longrightarrow> \<not> di_valid d') \<and> upto kvs q' \<le> q \<and>
    (\<forall>j. upto kvs q' \<le> j \<and> j < q \<longrightarrow> \<not> cmp_Compare u (kv_user (kvs ! j)) (di_saved_key d) < 0)"
  using assms
proof (induction q arbitrary: d)
  case 0
  obtain d2 where d2: "inner_move it Prev d = Some d2" "inner_ok d2 s kvs (length kvs)" "same_state d d2"
    using inner_move_ok [OF 0(1), of Prev "length kvs"] 0(2) by auto
  then show ?case
    using inner_okD(4) [OF d2(2)] by (subst before_key.simps) (auto simp: inner_ok_update ClearSavedValue_def upto_def same_state_def intro!: exI [of _ "length kvs"])
next
  case (Suc q)
  obtain d2 where d2: "inner_move it Prev d = Some d2" "inner_ok d2 s kvs q" "same_state d d2"
    using inner_move_ok [OF Suc.prems(1), of Prev q] Suc.prems(2) by auto
  have q: "q < length kvs" using Suc.prems(2) by simp
  have sk: "di_saved_key d2 = di_saved_key d" "di_reverse d2 = di_reverse d" using d2(3) by (simp_all add: same_state_def)
  note k = inner.at_key [OF inner_okD(1) [OF d2(2)] q] and v = inner_okD(2,4) [OF d2(2)]
  show ?case
  proof (cases "cmp_Compare u (kv_user (kvs ! q)) (di_saved_key d) < 0")
    case True
    have "before_key it d = Some (True, d2)"
      using d2(1) v q k True by (subst before_key.simps) (simp add: sk kv_user_def)
    moreover have "upto kvs q = Suc q" using q by (simp add: upto_def)
    ultimately show ?thesis using d2(2) sk q by (intro exI [of _ True] exI [of _ d2] exI [of _ q]) simp
  next
    case False
    have step: "before_key it d = before_key it d2"
      using d2(1) v q k False by (subst before_key.simps) (simp add: sk kv_user_def)
    from Suc.IH [OF d2(2) q] Suc.prems(3) obtain found d' q' where r: "before_key it d2 = Some (found, d')" "inner_ok d' s kvs q'"
      "di_reverse d' = di_reverse d2" "found \<longleftrightarrow> q' < length kvs" "\<not> found \<longrightarrow> \<not> di_valid d'" "upto kvs q' \<le> q"
      "\<forall>j. upto kvs q' \<le> j \<and> j < q \<longrightarrow> \<not> cmp_Compare u (kv_user (kvs ! j)) (di_saved_key d2) < 0"
      by (auto simp: sk)
    have "\<not> cmp_Compare u (kv_user (kvs ! j)) (di_saved_key d) < 0" if "upto kvs q' \<le> j" "j < Suc q" for j
      using that r(7) False by (cases "j = q") (auto simp: sk)
    then show ?thesis unfolding step using r sk by (intro exI [of _ found] exI [of _ d'] exI [of _ q']) auto
  qed
qed

subsection \<open>Each operation\<close>

lemma stop_state:
  assumes "inner_ok d s kvs t" "\<not> di_reverse d" "i \<le> t" "\<forall>j. i \<le> j \<and> j < t \<longrightarrow> \<not> candidate s kvs skipping skip j"
    "if di_valid d then candidate s kvs skipping skip t else t = length kvs"
    "\<And>j. i \<le> j \<Longrightarrow> j < length kvs \<Longrightarrow> candidate s kvs skipping skip j \<longleftrightarrow> shown u s kvs j"
  shows "db_state s kvs d (rank u s kvs i)"
proof -
  have n: "\<forall>j. i \<le> j \<and> j < t \<longrightarrow> \<not> shown u s kvs j"
  proof (intro allI impI)
    fix j
    assume j: "i \<le> j \<and> j < t"
    then have "j < length kvs" using inner_okD(5) [OF assms(1)] by simp
    then show "\<not> shown u s kvs j" using assms(4) assms(6) [of j] j by simp
  qed
  show ?thesis
  proof (cases "di_valid d")
    case True
    then have "shown u s kvs t" using assms(5) by (simp add: candidate_def)
    then show ?thesis using True rank_none [OF assms(3) n] assms(1,2) by (auto simp: db_state_def on_entry_def intro!: exI [of _ t])
  next
    case False
    then show ?thesis using rank_none [OF assms(3) n] assms(1,5) by (auto simp: db_state_def intro!: exI [of _ t])
  qed
qed

lemma next_ok:
  assumes st: "db_state s kvs d p" and p: "p < length (user_view u s kvs)"
  shows "\<exists>d'. di_Next it d = Some d' \<and> db_state s kvs d' (p + 1)"
proof -
  obtain q m where ok: "inner_ok d s kvs q" and m: "di_valid d" "on_entry s kvs q d m" "p = rank u s kvs m"
    using st p by (auto simp: db_state_def split: if_splits)
  note at = inner_okD(1) [OF ok]
  let ?U = "\<lambda>j. kv_user (kvs ! j)"
  have sm: "shown u s kvs m" using m(2) by (simp add: on_entry_def)
  then have ml: "m < length kvs" and seenm: "seen s (kvs ! m)" by (simp_all add: shown_def)
  have V: "j < length kvs \<Longrightarrow> valid (?U j)" for j by (rule user_valid [OF at])
  have O: "j \<le> k \<Longrightarrow> k < length kvs \<Longrightarrow> cmp_Compare u (?U j) (?U k) \<le> 0" for j k by (rule user_order [OF at])
  define b where "b = (if di_reverse d then upto kvs q else q)"
  have b: "b \<le> m" "\<forall>j. b \<le> j \<and> j < m \<longrightarrow> \<not> seen s (kvs ! j)" "b < length kvs"
    using m(2) ml by (auto simp: b_def on_entry_def)
  have hides: "hides s kvs b True (?U m)"
  proof (rule hidesI)
    fix j j'
    assume j: "b \<le> j" "j < length kvs" "seen s (kvs ! j)" "j' < b" "cmp_Compare u (?U j') (?U j) = 0"
    have "cmp_Compare u (?U j) (?U j') \<le> 0" using j b compare_swap_eq [OF V V, of j j'] by simp
    then show "True \<and> cmp_Compare u (?U j) (?U m) \<le> 0" using compare_trans [OF V V V, of j j' m] O [of j' m] j b ml by simp
  next
    fix j
    assume j: "b \<le> j" "j < length kvs" "seen s (kvs ! j)"
    then have "m \<le> j" using b(2) by (metis not_less)
    then show "cmp_Compare u (?U m) (?U j) \<le> 0" using O j by simp
  qed (use V ml in simp)
  have cand: "candidate s kvs True (?U m) j \<longleftrightarrow> shown u s kvs j" if j: "Suc m \<le> j" "j < length kvs" for j
  proof -
    have "\<not> cmp_Compare u (?U j) (?U m) \<le> 0" if "shown u s kvs j"
    proof -
      have "cmp_Compare u (?U m) (?U j) \<noteq> 0" using that seenm j by (auto simp: shown_def)
      then show ?thesis using O [of m j] compare_swap [OF V V, of m j] j ml by simp
    qed
    then show ?thesis by (auto simp: candidate_def)
  qed
  have early: "\<not> candidate s kvs True (?U m) j" if j: "b \<le> j" "j < Suc m" for j
    using j b(2) compare_refl [OF V [OF ml]] by (cases "j = m") (auto simp: candidate_def shown_def)
  obtain d1 where d1: "inner_ok d1 s kvs b" "di_saved_key d1 = ?U m" "\<not> di_reverse d1" "di_Next it d = FindNextUserEntry it True d1"
  proof (cases "di_reverse d")
    case True
    have op: "list_op (InternalKeyComparator u) kvs q (if \<not> io_Valid it (di_iter d) then SeekToFirst else Next) = Some b"
      using inner_okD(4,5) [OF ok] True by (simp add: b_def upto_def)
    have "inner_ok (d\<lparr>di_reverse := False\<rparr>) s kvs q" using ok by (simp add: inner_ok_update)
    moreover have "\<forall>t. (if \<not> io_Valid it (di_iter d) then SeekToFirst else Next) = Seek t \<longrightarrow> valid_ikey valid t" by simp
    ultimately obtain d1 where
      d1: "inner_move it (if \<not> io_Valid it (di_iter d) then SeekToFirst else Next) (d\<lparr>di_reverse := False\<rparr>) = Some d1"
      "inner_ok d1 s kvs b" "same_state (d\<lparr>di_reverse := False\<rparr>) d1"
      using inner_move_ok [OF _ op] by blast
    have "di_Next it d = FindNextUserEntry it True d1"
      using m(1) True d1(1) inner_okD(4) [OF d1(2)] b(3) by (simp add: di_Next_def)
    then show thesis using that d1 m(2) True by (simp add: same_state_def on_entry_def)
  next
    case False
    then have "q = m" using m(2) by (simp add: on_entry_def)
    then have "di_Next it d = FindNextUserEntry it True (d\<lparr>di_saved_key := ?U m\<rparr>)"
      using m(1) False inner.at_key [OF at] ml by (simp add: di_Next_def kv_user_def)
    then show thesis using that [of "d\<lparr>di_saved_key := ?U m\<rparr>"] ok False by (simp add: b_def inner_ok_update)
  qed
  obtain d' t where d': "FindNextUserEntry it True d1 = Some d'" "inner_ok d' s kvs t" "di_reverse d' = di_reverse d1" "b \<le> t"
    "\<forall>j. b \<le> j \<and> j < t \<longrightarrow> \<not> candidate s kvs True (?U m) j" "if di_valid d' then candidate s kvs True (?U m) t else t = length kvs"
    using FindNext_ok [OF d1(1) b(3)] hides d1(2) by metis
  have t: "Suc m \<le> t" using d'(6) early [of t] d'(4) ml by (cases "Suc m \<le> t") (auto split: if_splits)
  have "db_state s kvs d' (rank u s kvs (Suc m))"
    using d' d1(3) t b(1) cand by (intro stop_state [where skipping = True and skip = "?U m" and t = t]) auto
  then show ?thesis using d'(1) d1(4) m(3) sm by (simp add: rank_Suc)
qed

lemma prev_ok:
  assumes st: "db_state s kvs d p" and p: "p < length (user_view u s kvs)"
  shows "\<exists>d'. di_Prev it d = Some d' \<and> db_state s kvs d' (if p = 0 then length (user_view u s kvs) else p - 1)"
proof -
  obtain q m where ok: "inner_ok d s kvs q" and m: "di_valid d" "on_entry s kvs q d m" "p = rank u s kvs m"
    using st p by (auto simp: db_state_def split: if_splits)
  note at = inner_okD(1) [OF ok]
  let ?U = "\<lambda>j. kv_user (kvs ! j)"
  have sm: "shown u s kvs m" using m(2) by (simp add: on_entry_def)
  then have ml: "m < length kvs" and seenm: "seen s (kvs ! m)" by (simp_all add: shown_def)
  show ?thesis
  proof (cases "di_reverse d")
    case True
    then have "\<forall>j. upto kvs q \<le> j \<and> j < m \<longrightarrow> \<not> shown u s kvs j" "upto kvs q \<le> m" using m(2) by (auto simp: on_entry_def shown_def)
    then have "p = rank u s kvs (upto kvs q)" using m(3) rank_none by blast
    then show ?thesis using FindPrev_ok [OF ok True] m(1) True by (auto simp: di_Prev_def)
  next
    case False
    then have q: "q = m" using m(2) by (simp add: on_entry_def)
    let ?d = "d\<lparr>di_saved_key := ?U m\<rparr>"
    have okd: "inner_ok ?d s kvs m" using ok q by (simp add: inner_ok_update)
    have vm: "valid (?U m)" by (rule user_valid [OF at ml])
    from before_key_ok [OF okd ml] vm obtain found d1 q1 where r: "before_key it ?d = Some (found, d1)" "inner_ok d1 s kvs q1"
      "found \<longleftrightarrow> q1 < length kvs" "\<not> found \<longrightarrow> \<not> di_valid d1" "upto kvs q1 \<le> m"
      "\<forall>j. upto kvs q1 \<le> j \<and> j < m \<longrightarrow> \<not> cmp_Compare u (?U j) (?U m) < 0"
      by auto
    have "\<not> shown u s kvs j" if j: "upto kvs q1 \<le> j" "j < m" for j
    proof -
      have "cmp_Compare u (?U j) (?U m) = 0" using r(6) j user_order [OF at, of j m] ml by (metis less_imp_le order_le_less)
      then show ?thesis using sm j by (auto simp: shown_def)
    qed
    then have rk: "p = rank u s kvs (upto kvs q1)" using m(3) rank_none [OF r(5)] by blast
    have run: "di_Prev it d = (if \<not> found then Some d1 else FindPrevUserEntry it (d1\<lparr>di_reverse := True\<rparr>))"
      using m(1) False inner.at_key [OF at] q ml r(1) by (simp add: di_Prev_def kv_user_def)
    show ?thesis
    proof (cases found)
      case True
      have "inner_ok (d1\<lparr>di_reverse := True\<rparr>) s kvs q1" using r(2) by (simp add: inner_ok_update)
      from FindPrev_ok [OF this] show ?thesis using run True rk by auto
    next
      case False
      then have "p = 0" using rk r(3) by (simp add: upto_def)
      then show ?thesis using run False r(2,4) by (auto simp: db_state_def)
    qed
  qed
qed

lemma db_stateD:
  assumes "db_state s kvs d p"
  obtains q where "inner_ok d s kvs q" "at (di_iter d) kvs q"
  using assms inner_okD(1) by (auto simp: db_state_def)

text \<open>Seeking forward from index \<open>i\<close>, which no seen entry of the same key lies before.\<close>

lemma forward_ok:
  assumes ok: "inner_ok d s kvs i" "\<not> di_reverse d"
    and new: "\<And>j j'. i \<le> j \<Longrightarrow> j < length kvs \<Longrightarrow> j' < i \<Longrightarrow> seen s (kvs ! j') \<Longrightarrow>
      cmp_Compare u (kv_user (kvs ! j')) (kv_user (kvs ! j)) \<noteq> 0"
  shows "\<exists>d'. (if io_Valid it (di_iter d) then FindNextUserEntry it False d else Some (d\<lparr>di_valid := False\<rparr>)) = Some d' \<and>
    db_state s kvs d' (rank u s kvs i)"
proof (cases "i < length kvs")
  case True
  have "hides s kvs i False (di_saved_key d)" using new by (intro hidesI) blast+
  from FindNext_ok [OF ok(1) True this] obtain d' t where d': "FindNextUserEntry it False d = Some d'" "inner_ok d' s kvs t"
    "di_reverse d' = di_reverse d" "i \<le> t" "\<forall>j. i \<le> j \<and> j < t \<longrightarrow> \<not> candidate s kvs False (di_saved_key d) j"
    "if di_valid d' then candidate s kvs False (di_saved_key d) t else t = length kvs" by blast
  have "db_state s kvs d' (rank u s kvs i)"
    using d' ok(2) by (intro stop_state [where skipping = False and t = t and skip = "di_saved_key d"]) (auto simp: candidate_def)
  then show ?thesis using d'(1) True inner_okD(4) [OF ok(1)] by simp
next
  case False
  then have "i = length kvs" using inner_okD(5) [OF ok(1)] by simp
  then show ?thesis using False inner_okD(4) [OF ok(1)] ok by (auto simp: db_state_def inner_ok_update)
qed

lemma first_ok:
  assumes "inner_ok d s kvs q"
  shows "\<exists>d'. di_SeekToFirst it d = Some d' \<and> db_state s kvs d' 0"
proof -
  have "inner_ok (ClearSavedValue (d\<lparr>di_reverse := False\<rparr>)) s kvs q" using assms by (simp add: inner_ok_update ClearSavedValue_def)
  from inner_move_ok [OF this, of SeekToFirst 0] obtain d1 where
    d1: "inner_move it SeekToFirst (ClearSavedValue (d\<lparr>di_reverse := False\<rparr>)) = Some d1" "inner_ok d1 s kvs 0"
      "same_state (ClearSavedValue (d\<lparr>di_reverse := False\<rparr>)) d1" by auto
  have "\<not> di_reverse d1" using d1(3) by (simp add: same_state_def ClearSavedValue_def)
  from forward_ok [OF d1(2) this] d1(1) show ?thesis by (simp add: di_SeekToFirst_def)
qed

lemma last_ok:
  assumes "inner_ok d s kvs q"
  shows "\<exists>d'. di_SeekToLast it d = Some d' \<and> db_state s kvs d' (length (user_view u s kvs) - 1)"
proof -
  have "inner_ok (ClearSavedValue (d\<lparr>di_reverse := True\<rparr>)) s kvs q" using assms by (simp add: inner_ok_update ClearSavedValue_def)
  from inner_move_ok [OF this, of SeekToLast "length kvs - 1"] obtain d1 where
    d1: "inner_move it SeekToLast (ClearSavedValue (d\<lparr>di_reverse := True\<rparr>)) = Some d1" "inner_ok d1 s kvs (length kvs - 1)"
      "same_state (ClearSavedValue (d\<lparr>di_reverse := True\<rparr>)) d1" by auto
  have r: "di_reverse d1" using d1(3) by (simp add: same_state_def ClearSavedValue_def)
  have "upto kvs (length kvs - 1) = length kvs" by (cases kvs) (simp_all add: upto_def)
  with FindPrev_ok [OF d1(2) r] show ?thesis using d1(1) by (auto simp: di_SeekToLast_def split: if_split_asm)
qed

lemma seek_ok:
  assumes ok: "inner_ok d s kvs q" and t: "valid t"
  shows "\<exists>d'. di_Seek it d t = Some d' \<and>
    db_state s kvs d' (length (takeWhile (\<lambda>kv. cmp_Compare u (fst kv) t < 0) (user_view u s kvs)))"
proof -
  let ?k = "AppendInternalKey [] \<lparr>pk_user_key = t, pk_sequence = s, pk_type = kTypeValue\<rparr>"
  let ?d = "(ClearSavedValue (d\<lparr>di_reverse := False\<rparr>))\<lparr>di_saved_key := ?k\<rparr>"
  let ?U = "\<lambda>j. kv_user (kvs ! j)"
  note at = inner_okD(1) [OF ok]
  have srt: "key_sorted (InternalKeyComparator u) kvs" "\<forall>kv \<in> set kvs. valid_ikey valid (fst kv)" using inner.at_sorted [OF at] by auto
  have V: "j < length kvs \<Longrightarrow> valid (?U j)" for j by (rule user_valid [OF at])
  have k: "ExtractUserKey ?k = t" "key_number ?k = PackSequenceAndType s kTypeValue" "valid_ikey valid ?k"
    using t by (simp_all add: AppendInternalKey_eq valid_ikey_def)
  define i where "i = length (takeWhile (\<lambda>kv. cmp_Compare (InternalKeyComparator u) (fst kv) ?k < 0) kvs)"
  have il: "i \<le> length kvs" by (simp add: i_def length_takeWhile_le)
  have ik: "cmp_Compare (InternalKeyComparator u) (fst (kvs ! j)) ?k < 0 \<longleftrightarrow> j < i" if "j < length kvs" for j
    using inner.below_iff(2) [OF srt k(3) that] unfolding i_def inner.below_iff(1) [OF srt k(3)] .
  have low: "cmp_Compare u (?U j) t < 0" if "j < i" "seen s (kvs ! j)" for j
  proof -
    have jl: "j < length kvs" using that(1) il by simp
    have "\<not> key_number (fst (kvs ! j)) > PackSequenceAndType s kTypeValue"
      using seen_below [OF _ that(2)] ok jl by (auto simp: inner_ok_def keys_parse_def)
    then show ?thesis using ik [OF jl] that(1) k(1,2) by (auto simp: ikey_less_iff kv_user_def)
  qed
  have high: "\<not> cmp_Compare u (?U j) t < 0" if "i \<le> j" "j < length kvs" for j
    using ik [OF that(2)] that(1) k(1,2) by (auto simp: ikey_less_iff kv_user_def)
  have okd: "inner_ok ?d s kvs q" using ok by (simp add: inner_ok_update ClearSavedValue_def)
  have "list_op (InternalKeyComparator u) kvs q (Seek ?k) = Some i" by (simp add: i_def)
  from inner_move_ok [OF okd this] k(3) obtain d1 where d1: "inner_move it (Seek ?k) ?d = Some d1" "inner_ok d1 s kvs i" "same_state ?d d1"
    by auto
  have rev: "\<not> di_reverse d1" using d1(3) by (simp add: same_state_def ClearSavedValue_def)
  have new: "cmp_Compare u (?U j') (?U j) \<noteq> 0" if j: "i \<le> j" "j < length kvs" "j' < i" "seen s (kvs ! j')" for j j'
  proof
    assume z: "cmp_Compare u (?U j') (?U j) = 0"
    have "cmp_Compare u (?U j) (?U j') \<le> 0" using z compare_swap_eq [OF V V, of j j'] j by simp
    then have "cmp_Compare u (?U j) t < 0" using compare_trans_less [OF V V t, of j j'] low [OF j(3,4)] j by simp
    with high [OF j(1,2)] show False by simp
  qed
  obtain d' where d': "(if io_Valid it (di_iter d1) then FindNextUserEntry it False d1 else Some (d1\<lparr>di_valid := False\<rparr>)) = Some d'"
    "db_state s kvs d' (rank u s kvs i)" using forward_ok [OF d1(2) rev new] by blast
  have run: "di_Seek it d t = Some d'"
    using d1(1) d'(1) ok by (simp add: di_Seek_def inner_ok_def ClearSavedValue_def kValueTypeForSeek_def)
  obtain r where r: "shown_before u s kvs (length kvs) = shown_before u s kvs i @ r" "set r \<subseteq> {i ..< length kvs}"
  proof
    have "[0 ..< length kvs] = [0 ..< i] @ [i ..< length kvs]" using il upt_add_eq_append [of 0 i "length kvs - i"] by simp
    then show "shown_before u s kvs (length kvs) = shown_before u s kvs i @ filter (shown u s kvs) [i ..< length kvs]"
      by (simp add: shown_before_def)
  qed auto
  have "takeWhile (\<lambda>kv. cmp_Compare u (fst kv) t < 0) (user_view u s kvs) = map (\<lambda>i. (?U i, snd (kvs ! i))) (shown_before u s kvs i)"
    unfolding user_view_def r(1) map_append
  proof (subst takeWhile_append2)
    show "cmp_Compare u (fst kv) t < 0" if "kv \<in> set (map (\<lambda>i. (?U i, snd (kvs ! i))) (shown_before u s kvs i))" for kv
      using that low by (auto simp: shown_before_def shown_def)
    have "takeWhile (\<lambda>kv. cmp_Compare u (fst kv) t < 0) (map (\<lambda>i. (?U i, snd (kvs ! i))) r) = []"
      using high r(2) by (cases r) auto
    then show "map (\<lambda>i. (?U i, snd (kvs ! i))) (shown_before u s kvs i) @ takeWhile (\<lambda>kv. cmp_Compare u (fst kv) t < 0) (map (\<lambda>i. (?U i, snd (kvs ! i))) r) =
        map (\<lambda>i. (?U i, snd (kvs ! i))) (shown_before u s kvs i)" by simp
  qed
  then show ?thesis using run d'(2) by (simp add: rank_def)
qed

subsection \<open>The cursor\<close>

definition db_at :: "u64 \<Rightarrow> 'i db_iter \<Rightarrow> (byte list \<times> byte list) list \<Rightarrow> nat \<Rightarrow> bool" where
  "db_at s d vs p \<longleftrightarrow> (\<exists>kvs. vs = user_view u s kvs \<and> db_state s kvs d p)"

lemma view_sorted:
  assumes at: "at i kvs q"
  shows "key_sorted u (user_view u s kvs)" "\<forall>kv \<in> set (user_view u s kvs). valid (fst kv)"
proof -
  let ?U = "\<lambda>j. kv_user (kvs ! j)"
  have lt: "cmp_Compare u (?U j) (?U k) < 0" if "shown u s kvs j" "shown u s kvs k" "j < k" for j k
    using that user_order [OF at, of j k] by (force simp: shown_def)
  have srt: "sorted_wrt (<) (shown_before u s kvs (length kvs))"
    by (simp add: shown_before_def sorted_wrt_filter)
  have "sorted_wrt (\<lambda>x y. cmp_Compare u (?U x) (?U y) < 0) (shown_before u s kvs (length kvs))"
    by (rule sorted_wrt_mono_rel [OF _ srt]) (simp add: lt shown_before_def)
  then show "key_sorted u (user_view u s kvs)" by (simp add: key_sorted_def user_view_def sorted_wrt_map)
  show "\<forall>kv \<in> set (user_view u s kvs). valid (fst kv)"
    using user_valid [OF at] by (auto simp: user_view_def shown_before_def)
qed

lemma db_cursor: "cursor_iterator u valid (DBIter_ops it) (db_at s)"
proof
  fix d vs p
  assume "db_at s d vs p"
  then obtain kvs where vs: "vs = user_view u s kvs" and st: "db_state s kvs d p" by (auto simp: db_at_def)
  obtain q where ok: "inner_ok d s kvs q" and at: "at (di_iter d) kvs q" by (rule db_stateD [OF st])
  show "key_sorted u vs \<and> (\<forall>kv \<in> set vs. valid (fst kv))" unfolding vs using view_sorted [OF at] by blast
  have p: "p \<le> length vs \<and> (di_valid d \<longleftrightarrow> p < length vs)"
    using st rank_nth(1) unfolding vs by (fastforce simp: db_state_def on_entry_def split: if_split_asm)
  then show "p \<le> length vs" "io_Valid (DBIter_ops it) d \<longleftrightarrow> p < length vs" by (simp_all add: DBIter_ops_def)
  show "io_status (DBIter_ops it) d = OK"
    using ok inner.at_status [OF at] by (simp add: DBIter_ops_def di_Status_def inner_ok_def)
  have "io_key (DBIter_ops it) d = Some (fst (vs ! p)) \<and> io_value (DBIter_ops it) d = Some (snd (vs ! p))" if pl: "p < length vs"
  proof -
    obtain q m where q: "inner_ok d s kvs q" and m: "di_valid d" "on_entry s kvs q d m" "p = rank u s kvs m"
      using st p pl by (auto simp: db_state_def)
    have sm: "shown u s kvs m" "m < length kvs" using m(2) by (auto simp: on_entry_def shown_def)
    have e: "vs ! p = (kv_user (kvs ! m), snd (kvs ! m))" unfolding vs m(3) by (rule rank_nth(2) [OF sm(1)])
    show ?thesis
    proof (cases "di_reverse d")
      case True
      then show ?thesis using m(1,2) by (simp add: DBIter_ops_def di_key_def di_value_def on_entry_def e)
    next
      case False
      then have "q = m" using m(2) by (simp add: on_entry_def)
      then show ?thesis
        using m(1) False inner.at_key [OF inner_okD(1) [OF q]] inner.at_value [OF inner_okD(1) [OF q]] sm(2)
        by (simp add: DBIter_ops_def di_key_def di_value_def e kv_user_def)
    qed
  qed
  then show "p < length vs \<Longrightarrow> io_key (DBIter_ops it) d = Some (fst (vs ! p))"
    "p < length vs \<Longrightarrow> io_value (DBIter_ops it) d = Some (snd (vs ! p))" by auto
  fix x
  show "\<exists>d'. io_move (DBIter_ops it) d x = Some d' \<and> db_at s d' vs p'"
    if x: "list_op u vs p x = Some p'" "\<forall>t. x = Seek t \<longrightarrow> valid t" for p'
  proof -
    have "\<exists>d'. di_move it d x = Some d' \<and> db_state s kvs d' p'"
      using x first_ok [OF ok] last_ok [OF ok] seek_ok [OF ok] next_ok [OF st] prev_ok [OF st]
      by (cases x) (auto simp: vs split: if_split_asm)
    then show ?thesis by (auto simp: DBIter_ops_def db_at_def vs)
  qed
  show "io_move (DBIter_ops it) d x = None" if "list_op u vs p x = None"
  proof -
    have "\<not> di_valid d" using that p by (cases x) (auto split: if_split_asm)
    then show ?thesis using that by (cases x) (simp_all add: DBIter_ops_def di_Next_def di_Prev_def)
  qed
qed

lemma new_DBIter_at:
  assumes "at i kvs q" "keys_parse kvs" "s \<le> kMaxSequenceNumber"
  shows "db_at s (new_DBIter u i s seed) (user_view u s kvs) (length (user_view u s kvs))"
proof -
  have "inner_ok (new_DBIter u i s seed) s kvs q" "\<not> di_valid (new_DBIter u i s seed)"
    using assms rnd_Next_ok [OF new_Random_ok] by (simp_all add: inner_ok_def new_DBIter_def period)
  then show ?thesis by (auto simp: db_at_def db_state_def)
qed

end

end
