(* ===== verification/LdbDbRead.thy ===== *)
theory LdbDbRead
  imports LdbDbIterProps
begin

section \<open>Reading a database\<close>

text \<open>
  The iterators of memtables satisfy the contract of iterators; so the iterator that
  \<open>DBImpl::NewIterator\<close> makes, over memtables and any table iterators that satisfy it, is a cursor on
  the pairs of key and value that the snapshot sees.
\<close>

subsection \<open>Memtables\<close>

text \<open>Key and value of an entry.\<close>

definition entry_kv :: "byte list \<Rightarrow> byte list \<times> byte list" where
  "entry_kv e = (the (mem_GetLengthPrefixedSlice e),
     the (do { (len, p) \<leftarrow> varint32_at e; mem_GetLengthPrefixedSlice (drop (unat len) p) }))"

fun write_kv :: "mem_write \<Rightarrow> byte list \<times> byte list" where
  "write_kv (s, t, k, v) = (InternalKey k s t, v)"

lemma entry_parts:
  assumes "write_fits valid w"
  shows "mem_GetLengthPrefixedSlice (write_entry w) = Some (fst (write_kv w))" "entry_kv (write_entry w) = write_kv w"
    "\<exists>len p. varint32_at (write_entry w) = Some (len, p) \<and> unat len \<le> length p \<and>
      mem_GetLengthPrefixedSlice (drop (unat len) p) = Some (snd (write_kv w))"
proof -
  obtain s t k v where w: "w = (s, t, k, v)" by (cases w)
  have fit: "length k + 8 < 2 ^ 32" "length v < 2 ^ 32" using assms by (auto simp: w)
  define L where "L = (of_nat (length k + 8) :: u32)"
  define p where "p = InternalKey k s t @ EncodeVarint32 (of_nat (length v)) @ v"
  have L: "unat L = length k + 8" unfolding L_def using fit(1) by (simp only: unat_of_nat) simp
  have at: "varint32_at (write_entry w) = Some (L, p)"
    unfolding w write_entry.simps mem_entry_eq InternalKey_parts(1) L_def p_def by (rule varint32_at_encode)
  have v: "mem_GetLengthPrefixedSlice (drop (unat L) p) = Some v" "unat L \<le> length p"
    using prefixed_at [OF fit(2), of "[]"] by (simp_all add: L p_def InternalKey_eq)
  show k: "mem_GetLengthPrefixedSlice (write_entry w) = Some (fst (write_kv w))" using entry_key [OF fit(1)] by (simp add: w)
  show "entry_kv (write_entry w) = write_kv w" using k at v by (simp add: entry_kv_def w)
  show "\<exists>len p. varint32_at (write_entry w) = Some (len, p) \<and> unat len \<le> length p \<and>
      mem_GetLengthPrefixedSlice (drop (unat len) p) = Some (snd (write_kv w))"
    using at v by (simp add: w)
qed

definition mem_iter_at ::
  "comparator \<Rightarrow> (byte list \<Rightarrow> bool) \<Rightarrow> memtable \<times> nat option \<Rightarrow> (byte list \<times> byte list) list \<Rightarrow> nat \<Rightarrow> bool" where
  "mem_iter_at u valid i kvs p \<longleftrightarrow> p \<le> length kvs \<and> (\<exists>ws ks. mem_abs u valid (fst i) ws \<and> set ks = write_entry ` set ws \<and>
     kvs = map entry_kv ks \<and>
     skip_abs (mem_compare u) (valid_entry valid) (mt_table (fst i), snd i) (ks, if p < length ks then Some (ks ! p) else None))"

lemma first_drop: "first (drop q ks) = (if q < length ks then Some (ks ! q) else None)"
  by (cases "q < length ks") (simp_all add: Cons_nth_drop_Suc [symmetric])

lemma first_rev_take: "q \<le> length ks \<Longrightarrow> first (rev (take q ks)) = (if q = 0 then None else Some (ks ! (q - 1)))"
  by (auto simp: first_rev last_conv_nth)

context comparator_laws begin

lemma mem_iter_facts:
  assumes at: "mem_iter_at c valid (m, n) kvs p"
  obtains ks where "kvs = map entry_kv ks" "p \<le> length ks"
    "skip_abs (mem_compare c) (valid_entry valid) (mt_table m, n) (ks, if p < length ks then Some (ks ! p) else None)"
    "\<And>e. e \<in> set ks \<Longrightarrow> \<exists>w. write_fits valid w \<and> e = write_entry w"
    "\<And>n' p'. p' \<le> length ks \<Longrightarrow>
      skip_abs (mem_compare c) (valid_entry valid) (mt_table m, n') (ks, if p' < length ks then Some (ks ! p') else None) \<Longrightarrow>
      mem_iter_at c valid (m, n') kvs p'"
proof -
  obtain ws ks where ws: "mem_abs c valid m ws" "set ks = write_entry ` set ws" "kvs = map entry_kv ks" "p \<le> length ks"
    "skip_abs (mem_compare c) (valid_entry valid) (mt_table m, n) (ks, if p < length ks then Some (ks ! p) else None)"
    using at by (auto simp: mem_iter_at_def)
  have "\<exists>w. write_fits valid w \<and> e = write_entry w" if "e \<in> set ks" for e
  proof -
    have "e \<in> write_entry ` set ws" using that ws(2) by simp
    then obtain w where "e = write_entry w" "w \<in> set ws" by (rule imageE)
    moreover have "\<forall>w \<in> set ws. write_fits valid w" using ws(1) by (simp add: mem_abs_def)
    ultimately show ?thesis by blast
  qed
  moreover have "mem_iter_at c valid (m, n') kvs p'" if "p' \<le> length ks"
      "skip_abs (mem_compare c) (valid_entry valid) (mt_table m, n') (ks, if p' < length ks then Some (ks ! p') else None)" for n' p'
    unfolding mem_iter_at_def fst_conv snd_conv using that ws(1-3)
    by (intro conjI exI [of _ ws] exI [of _ ks]) simp_all
  ultimately show thesis using that ws(3-5) by blast
qed

lemma mem_cursor:
  assumes short: "\<forall>k. valid k \<longrightarrow> length k + 8 < 2 ^ 32"
  shows "cursor_iterator (InternalKeyComparator c) (valid_ikey valid) MemTableIterator_ops (mem_iter_at c valid)"
proof (rule cursor_iterator.intro [OF ikey_laws], unfold_locales)
  fix i kvs p
  assume at0: "mem_iter_at c valid i kvs p"
  obtain m n where i: "i = (m, n)" by (cases i)
  from at0 [unfolded i] obtain ks where kvs: "kvs = map entry_kv ks" and p: "p \<le> length ks"
    and abs: "skip_abs (mem_compare c) (valid_entry valid) (mt_table m, n) (ks, if p < length ks then Some (ks ! p) else None)"
    and ent: "\<And>e. e \<in> set ks \<Longrightarrow> \<exists>w. write_fits valid w \<and> e = write_entry w"
    and again: "\<And>n' p'. p' \<le> length ks \<Longrightarrow>
      skip_abs (mem_compare c) (valid_entry valid) (mt_table m, n') (ks, if p' < length ks then Some (ks ! p') else None) \<Longrightarrow>
      mem_iter_at c valid (m, n') kvs p'"
    using mem_iter_facts [OF at0 [unfolded i]] by metis
  have key: "mem_GetLengthPrefixedSlice e = Some (fst (entry_kv e))" "valid_ikey valid (fst (entry_kv e))" if "e \<in> set ks" for e
    using ent [OF that] entry_parts(1,2) by (fastforce simp: valid_ikey_def)+
  have less: "mem_compare c (ks ! a) (ks ! b) < 0" if "a < b" "b < length ks" for a b
    using skip_abs_sorted [OF abs] that by (simp add: sorted_wrt_iff_nth_less)
  show "key_sorted (InternalKeyComparator c) kvs \<and> (\<forall>kv \<in> set kvs. valid_ikey valid (fst kv))"
  proof
    show "key_sorted (InternalKeyComparator c) kvs"
      using less key(1) nth_mem unfolding key_sorted_def kvs sorted_wrt_iff_nth_less by (auto simp: mem_compare_def)
    show "\<forall>kv \<in> set kvs. valid_ikey valid (fst kv)" using key(2) by (auto simp: kvs)
  qed
  show "p \<le> length kvs" using p by (simp add: kvs)
  have cur: "sl_iter_key (mt_table m) n = (if p < length ks then Some (ks ! p) else None)"
  proof -
    have "snd (ks, if p < length ks then Some (ks ! p) else None) = map_option (sl_key (fst (mt_table m, n))) (snd (mt_table m, n))"
      using abs unfolding skip_abs_def by blast
    then show ?thesis by (simp only: fst_conv snd_conv sl_iter_key_def)
  qed
  then show "io_Valid MemTableIterator_ops i \<longleftrightarrow> p < length kvs"
    by (auto simp: MemTableIterator_ops_def i kvs sl_Valid_def sl_iter_key_def split: if_splits)
  show "io_key MemTableIterator_ops i = Some (fst (kvs ! p))" if "p < length kvs"
    using that cur key(1) by (simp add: MemTableIterator_ops_def i kvs mit_key_def)
  show "io_value MemTableIterator_ops i = Some (snd (kvs ! p))" if "p < length kvs"
  proof -
    have l: "p < length ks" using that by (simp add: kvs)
    obtain w where w: "write_fits valid w" "ks ! p = write_entry w" using ent [OF nth_mem [OF l]] by blast
    show ?thesis using cur l entry_parts(2,3) [OF w(1)] by (auto simp: MemTableIterator_ops_def i kvs mit_value_def w(2))
  qed
  show "io_status MemTableIterator_ops i = OK" by (simp add: MemTableIterator_ops_def)
  note step = key_order.skip_abs_step [OF entry_order abs]
  have tk: "takeWhile (\<lambda>a. mem_compare c a (ks ! p) < 0) ks = take p ks" if "p < length ks"
  proof (rule takeWhile_eq_take_P_nth)
    have "mem_compare c (ks ! p) (ks ! p) = 0"
      using key [OF nth_mem [OF that]] comparator_laws.compare_refl [OF ikey_laws] by (simp add: mem_compare_def)
    then show "\<not> mem_compare c (ks ! p) (ks ! p) < 0" by simp
  qed (use less that in simp)
  fix x
  show "\<exists>i'. io_move MemTableIterator_ops i x = Some i' \<and> mem_iter_at c valid i' kvs p'"
    if op: "list_op (InternalKeyComparator c) kvs p x = Some p'" and tv: "\<forall>t. x = Seek t \<longrightarrow> valid_ikey valid t" for p'
  proof -
    have p': "p' \<le> length ks" using list_op_range [OF op] by (simp add: kvs)
    have "\<exists>n'. mit_move (m, n) x = Some (m, n') \<and>
        skip_abs (mem_compare c) (valid_entry valid) (mt_table m, n') (ks, if p' < length ks then Some (ks ! p') else None)"
    proof (cases x)
      case SeekToFirst
      then show ?thesis using step [of SkFirst] op first_drop [of 0 ks] by (auto simp: mit_SeekToFirst_def)
    next
      case SeekToLast
      then show ?thesis
        using step [of SkLast] op first_rev_take [of "length ks" ks] by (auto simp: mit_SeekToLast_def kvs split: if_splits)
    next
      case Next
      then have l: "p < length ks" "p' = Suc p" using op by (auto simp: kvs split: if_splits)
      have "tl (dropWhile (\<lambda>a. mem_compare c a (ks ! p) < 0) ks) = drop (Suc p) ks"
        using tk [OF l(1)] l(1) by (simp add: dropWhile_eq_drop drop_Suc tl_drop)
      then show ?thesis using Next step [of SkNext] l first_drop [of "Suc p" ks] by (auto simp: mit_Next_def)
    next
      case Prev
      then have l: "p < length ks" "p' = (if p = 0 then length ks else p - 1)" using op by (auto simp: kvs split: if_splits)
      then show ?thesis
        using Prev step [of SkPrev] tk [OF l(1)] first_rev_take [of p ks] by (auto simp: mit_Prev_def split: if_splits)
    next
      case (Seek t)
      then have t: "valid_ikey valid t" using tv by simp
      then have "length t < 2 ^ 32" using short by (auto simp: valid_ikey_def ExtractUserKey_def)
      then have ek: "mem_GetLengthPrefixedSlice (EncodeKey t) = Some t"
        using prefixed_at [of t "[]"] by (simp add: EncodeKey_def PutVarint32_def)
      have "mem_compare c e (EncodeKey t) < 0 \<longleftrightarrow> ikey_Compare c (fst (entry_kv e)) t < 0" if "e \<in> set ks" for e
        using key(1) [OF that] ek by (simp add: mem_compare_def)
      then have tw: "takeWhile (\<lambda>a. mem_compare c a (EncodeKey t) < 0) ks = takeWhile (\<lambda>e. ikey_Compare c (fst (entry_kv e)) t < 0) ks"
        by (intro takeWhile_cong) auto
      have "p' = length (takeWhile (\<lambda>a. mem_compare c a (EncodeKey t) < 0) ks)"
        using op Seek by (simp add: kvs takeWhile_map comp_def tw)
      then have "first (dropWhile (\<lambda>a. mem_compare c a (EncodeKey t) < 0) ks) = (if p' < length ks then Some (ks ! p') else None)"
        unfolding dropWhile_eq_drop first_drop by simp
      moreover have "valid_entry valid (EncodeKey t)" using ek t by (simp add: valid_entry_def)
      ultimately show ?thesis using step [of "SkSeek (EncodeKey t)"] Seek by (auto simp: mit_Seek_def)
    qed
    then show ?thesis using again [OF p'] by (auto simp: MemTableIterator_ops_def i)
  qed
  show "io_move MemTableIterator_ops i x = None" if "list_op (InternalKeyComparator c) kvs p x = None"
  proof -
    have "\<not> p < length ks" using that by (cases x) (auto simp: kvs split: if_split_asm)
    then have "n = None" using cur by (simp add: sl_iter_key_def)
    then show ?thesis using that by (cases x) (simp_all add: MemTableIterator_ops_def i mit_Next_def mit_Prev_def sl_Next_def sl_Prev_def)
  qed
qed

end

subsection \<open>The iterator of the database\<close>

text \<open>The pairs of key and value that a snapshot sees of writes in any order: those of the last write of a
  key that it sees.\<close>

fun latest :: "comparator \<Rightarrow> u64 \<Rightarrow> mem_write list \<Rightarrow> mem_write \<Rightarrow> bool" where
  "latest u s ws (s', t, k, v) \<longleftrightarrow> s' \<le> s \<and> list_all (\<lambda>(s2, t2, k2, v2). s2 \<le> s \<and> cmp_Compare u k2 k = 0 \<longrightarrow> s2 \<le> s') ws"

definition visible_pairs :: "comparator \<Rightarrow> u64 \<Rightarrow> mem_write list \<Rightarrow> (byte list \<times> byte list) list" where
  "visible_pairs u s ws = map (\<lambda>(s', t, k, v). (k, v)) (filter (\<lambda>(s', t, k, v). t = kTypeValue \<and> latest u s ws (s', t, k, v)) ws)"

lemma write_kv_parts:
  assumes "s \<le> kMaxSequenceNumber"
  shows "kv_parse (write_kv (s, t, k, v)) = \<lparr>pk_user_key = k, pk_sequence = s, pk_type = t\<rparr>" "kv_user (write_kv (s, t, k, v)) = k"
    "ParseInternalKey (fst (write_kv (s, t, k, v))) \<noteq> None" "key_number (fst (write_kv (s, t, k, v))) = PackSequenceAndType s t"
  using parse_append [of "\<lparr>pk_user_key = k, pk_sequence = s, pk_type = t\<rparr>"] assms
  by (simp_all add: kv_parse_def kv_user_def InternalKey_def) (simp_all add: AppendInternalKey_eq)

lemma distinct_map_concat:
  "distinct (map f (concat xss)) \<Longrightarrow> j < k \<Longrightarrow> k < length xss \<Longrightarrow> x \<in> set (xss ! j) \<Longrightarrow> y \<in> set (xss ! k) \<Longrightarrow> f x \<noteq> f y"
proof (induction xss arbitrary: j k)
  case (Cons xs xss)
  obtain k' where k: "k = Suc k'" using Cons.prems(2) by (cases k) auto
  have y: "y \<in> set (concat xss)" using Cons.prems(3,5) k by auto
  show ?case
  proof (cases j)
    case 0
    then have "f x \<in> f ` set xs" "f y \<in> f ` set (concat xss)" using Cons.prems(4) y by auto
    moreover have "f ` set xs \<inter> f ` set (concat xss) = {}" using Cons.prems(1) by simp
    ultimately show ?thesis by (metis disjoint_iff)
  next
    case (Suc j')
    then show ?thesis using Cons.IH [of j' k'] Cons.prems k by simp
  qed
qed simp

context comparator_laws begin

lemma mem_iter_new:
  assumes "mem_abs c valid m ws"
  shows "\<exists>kvs. mem_iter_at c valid (m, None) kvs (length kvs) \<and> set kvs = write_kv ` set ws"
proof -
  obtain ks where ks: "skip_abs (mem_compare c) (valid_entry valid) (mt_table m, None) (ks, None)" "set ks = write_entry ` set ws"
    and fits: "\<forall>w \<in> set ws. write_fits valid w" using assms by (auto simp: mem_abs_def)
  have "mem_iter_at c valid (m, None) (map entry_kv ks) (length (map entry_kv ks))"
    unfolding mem_iter_at_def using assms ks by auto
  moreover have "set (map entry_kv ks) = write_kv ` set ws"
    using entry_parts(2) fits unfolding set_map ks(2) image_image by (intro image_cong) auto
  ultimately show ?thesis by blast
qed

text \<open>The view of a sorted list of the internal keys of writes.\<close>

lemma view_pairs:
  assumes srt: "key_sorted (InternalKeyComparator c) kvs" and kvs: "set kvs = write_kv ` set ws"
    and fits: "\<forall>w \<in> set ws. write_fits valid w" and dist: "distinct (map write_seq ws)"
  shows "set (user_view c s kvs) = set (visible_pairs c s ws)"
proof -
  have less: "ikey_Compare c (fst (kvs ! i)) (fst (kvs ! j)) < 0" if "i < j" "j < length kvs" for i j
    using srt that by (simp add: key_sorted_def sorted_wrt_iff_nth_less)
  have at: "\<exists>s' t k v. (s', t, k, v) \<in> set ws \<and> kvs ! i = write_kv (s', t, k, v) \<and> valid k \<and> s' \<le> kMaxSequenceNumber"
    if "i < length kvs" for i
  proof -
    have "kvs ! i \<in> write_kv ` set ws" using that kvs nth_mem by blast
    then obtain w where w: "w \<in> set ws" "kvs ! i = write_kv w" by blast
    obtain s' t k v where "w = (s', t, k, v)" by (cases w)
    then show ?thesis using w fits by fastforce
  qed
  have cmp: "ikey_Compare c (fst (write_kv (s1, t1, k1, v1))) (fst (write_kv (s2, t2, k2, v2))) < 0 \<longleftrightarrow>
      cmp_Compare c k1 k2 < 0 \<or> cmp_Compare c k1 k2 = 0 \<and> PackSequenceAndType s1 t1 > PackSequenceAndType s2 t2"
    for s1 t1 k1 v1 s2 t2 k2 v2
    by (simp add: ikey_less_iff)
  show ?thesis
  proof (intro set_eqI iffI)
    fix kv
    assume "kv \<in> set (user_view c s kvs)"
    then obtain i where i: "shown c s kvs i" "kv = (kv_user (kvs ! i), snd (kvs ! i))" by (auto simp: user_view_def shown_before_def)
    then have il: "i < length kvs" by (simp add: shown_def)
    obtain s' t k v where w: "(s', t, k, v) \<in> set ws" "kvs ! i = write_kv (s', t, k, v)" "valid k" "s' \<le> kMaxSequenceNumber"
      using at [OF il] by blast
    have p: "kv = (k, v)" "s' \<le> s" "t = kTypeValue"
      using i write_kv_parts [OF w(4), of t k v] by (simp_all add: w(2) shown_def seen_def)
    have "s2 \<le> s'" if w2: "(s2, t2, k2, v2) \<in> set ws" "s2 \<le> s" "cmp_Compare c k2 k = 0" for s2 t2 k2 v2
    proof -
      have f2: "valid k2" "s2 \<le> kMaxSequenceNumber" using fits w2(1) by fastforce+
      obtain j where j: "j < length kvs" "kvs ! j = write_kv (s2, t2, k2, v2)"
        using w2(1) kvs by (metis image_eqI in_set_conv_nth)
      note p2 = write_kv_parts [OF f2(2), of t2 k2 v2]
      have "\<not> j < i"
        using i(1) w2 p2 write_kv_parts(2) [OF w(4), of t k v] by (auto simp: shown_def seen_def j(2) w(2))
      moreover have "s2 \<le> s'" if "i < j"
      proof -
        have "cmp_Compare c k k2 = 0" using w2(3) compare_swap_eq [OF f2(1) w(3)] by simp
        then have "PackSequenceAndType s' t > PackSequenceAndType s2 t2"
          using less [OF that j(1)] unfolding j(2) w(2) cmp by simp
        then show ?thesis using pack_less(1) [OF w(4) f2(2), of t t2] by (metis not_less less_asym)
      qed
      moreover have "s2 = s'" if "j = i"
        using j(2) that w(2) p2(1) write_kv_parts(1) [OF w(4), of t k v] by (metis ParsedInternalKey.ext_inject)
      ultimately show ?thesis by (cases i j rule: linorder_cases) auto
    qed
    then have "latest c s ws (s', t, k, v)" using p(2) by (auto simp: list_all_iff)
    then show "kv \<in> set (visible_pairs c s ws)" using w(1) p by (force simp: visible_pairs_def)
  next
    fix kv
    assume "kv \<in> set (visible_pairs c s ws)"
    then obtain s' k v where w: "(s', kTypeValue, k, v) \<in> set ws" "latest c s ws (s', kTypeValue, k, v)" "kv = (k, v)"
      by (auto simp: visible_pairs_def)
    have f: "valid k" "s' \<le> kMaxSequenceNumber" using fits w(1) by fastforce+
    obtain i where i: "i < length kvs" "kvs ! i = write_kv (s', kTypeValue, k, v)"
      using w(1) kvs by (metis image_eqI in_set_conv_nth)
    note p = write_kv_parts [OF f(2), of kTypeValue k v]
    have "cmp_Compare c (kv_user (kvs ! j)) (kv_user (kvs ! i)) \<noteq> 0" if j: "j < i" "seen s (kvs ! j)" for j
    proof
      assume z: "cmp_Compare c (kv_user (kvs ! j)) (kv_user (kvs ! i)) = 0"
      have jl: "j < length kvs" using j(1) i(1) by simp
      obtain s2 t2 k2 v2 where w2: "(s2, t2, k2, v2) \<in> set ws" "kvs ! j = write_kv (s2, t2, k2, v2)" "valid k2" "s2 \<le> kMaxSequenceNumber"
        using at [OF jl] by blast
      note p2 = write_kv_parts [OF w2(4), of t2 k2 v2]
      have z': "cmp_Compare c k2 k = 0" using z p(2) p2(2) by (simp add: i(2) w2(2))
      have "s2 \<le> s" using j(2) p2(1) by (simp add: seen_def w2(2))
      then have le: "s2 \<le> s'" using w(2) w2(1) z' by (fastforce simp: list_all_iff)
      have gt: "PackSequenceAndType s2 t2 > PackSequenceAndType s' kTypeValue"
        using less [OF j(1) i(1)] z' unfolding i(2) w2(2) cmp by simp
      then have "\<not> s2 < s'" using pack_less(1) [OF w2(4) f(2), of t2 kTypeValue] by (metis less_asym)
      then have "s2 = s'" using le by simp
      then have "(s2, t2, k2, v2) = (s', kTypeValue, k, v)"
        using dist w(1) w2(1) by (metis distinct_map inj_onD write_seq.simps)
      with gt show False by simp
    qed
    moreover have "seen s (kvs ! i)" using w(2) p(1) by (simp add: seen_def i(2))
    ultimately have "shown c s kvs i" using i(1) p(1) by (simp add: shown_def i(2))
    then have "(kv_user (kvs ! i), snd (kvs ! i)) \<in> set (user_view c s kvs)"
      using i(1) by (auto simp: user_view_def shown_before_def)
    then show "kv \<in> set (user_view c s kvs)" using p(2) by (simp add: i(2) w(3))
  qed
qed

end

subsection \<open>The composition\<close>

definition child_iter_at ::
  "comparator \<Rightarrow> (byte list \<Rightarrow> bool) \<Rightarrow> ('t \<Rightarrow> (byte list \<times> byte list) list \<Rightarrow> nat \<Rightarrow> bool) \<Rightarrow>
   't internal_child \<Rightarrow> (byte list \<times> byte list) list \<Rightarrow> nat \<Rightarrow> bool" where
  "child_iter_at u valid tab_at i kvs p = (case i of MemIter m \<Rightarrow> mem_iter_at u valid m kvs p | TableIter t \<Rightarrow> tab_at t kvs p)"

lemma child_cursor:
  assumes mem: "cursor_iterator c v MemTableIterator_ops (mem_iter_at u valid)" and tab: "cursor_iterator c v tab tab_at"
  shows "cursor_iterator c v (internal_child_ops tab) (child_iter_at u valid tab_at)"
proof (rule cursor_iterator.intro [OF cursor_iterator.axioms(1) [OF mem]], unfold_locales)
  fix i kvs p x
  assume at: "child_iter_at u valid tab_at i kvs p"
  show "key_sorted c kvs \<and> (\<forall>kv \<in> set kvs. v (fst kv))"
    using at cursor_iterator.at_sorted [OF mem] cursor_iterator.at_sorted [OF tab] by (cases i) (auto simp: child_iter_at_def)
  show "p \<le> length kvs"
    using at cursor_iterator.at_range [OF mem] cursor_iterator.at_range [OF tab] by (cases i) (auto simp: child_iter_at_def)
  show "io_Valid (internal_child_ops tab) i \<longleftrightarrow> p < length kvs"
    using at cursor_iterator.at_Valid [OF mem] cursor_iterator.at_Valid [OF tab]
    by (cases i) (auto simp: child_iter_at_def internal_child_ops_def)
  show "io_status (internal_child_ops tab) i = OK"
    using at cursor_iterator.at_status [OF mem] cursor_iterator.at_status [OF tab]
    by (cases i) (auto simp: child_iter_at_def internal_child_ops_def)
  show "io_key (internal_child_ops tab) i = Some (fst (kvs ! p))" if "p < length kvs"
    using that at cursor_iterator.at_key [OF mem] cursor_iterator.at_key [OF tab]
    by (cases i) (auto simp: child_iter_at_def internal_child_ops_def)
  show "io_value (internal_child_ops tab) i = Some (snd (kvs ! p))" if "p < length kvs"
    using that at cursor_iterator.at_value [OF mem] cursor_iterator.at_value [OF tab]
    by (cases i) (auto simp: child_iter_at_def internal_child_ops_def)
  show "\<exists>i'. io_move (internal_child_ops tab) i x = Some i' \<and> child_iter_at u valid tab_at i' kvs p'"
    if x: "list_op c kvs p x = Some p'" "\<forall>t. x = Seek t \<longrightarrow> v t" for p'
  proof (cases i)
    case (MemIter m)
    then show ?thesis using at cursor_iterator.at_move [OF mem _ x, of m] by (auto simp: child_iter_at_def internal_child_ops_def)
  next
    case (TableIter t)
    then show ?thesis using at cursor_iterator.at_move [OF tab _ x, of t] by (auto simp: child_iter_at_def internal_child_ops_def)
  qed
  show "io_move (internal_child_ops tab) i x = None" if x: "list_op c kvs p x = None"
    using at cursor_iterator.at_stuck [OF mem _ x] cursor_iterator.at_stuck [OF tab _ x]
    by (cases i) (auto simp: child_iter_at_def internal_child_ops_def)
qed

text \<open>Keys under a length bound, for the bytewise comparator: its separators are not longer than their keys.\<close>

lemma bytewise_laws_short: "comparator_laws BytewiseComparator (\<lambda>k. length k + 8 < 2 ^ 32)"
proof -
  have sep: "length (bytewise_FindShortestSeparator a b) \<le> length a" for a b
    by (auto simp: bytewise_FindShortestSeparator_def Let_def)
  have suc: "length (bytewise_FindShortSuccessor a) \<le> length a" for a
    by (induction a) simp_all
  note b = bytewise.compare_refl bytewise.compare_swap bytewise.compare_trans bytewise.separator_ge bytewise.separator_less
    bytewise.separator_equal bytewise.successor_ge
  have sep': "length (cmp_FindShortestSeparator BytewiseComparator a b) \<le> length a"
    and suc': "length (cmp_FindShortSuccessor BytewiseComparator a) \<le> length a" for a b
    using sep suc by simp_all
  show ?thesis
  proof
    fix a b :: "byte list"
    assume "length a + 8 < 2 ^ 32"
    then show "length (cmp_FindShortestSeparator BytewiseComparator a b) + 8 < 2 ^ 32"
      "length (cmp_FindShortSuccessor BytewiseComparator a) + 8 < 2 ^ 32"
      using sep' [of a b] suc' [of a] by linarith+
  qed (use b in blast)+
qed

interpretation memtable: cursor_iterator "InternalKeyComparator BytewiseComparator" "valid_ikey (\<lambda>k. length k + 8 < 2 ^ 32)"
  MemTableIterator_ops "mem_iter_at BytewiseComparator (\<lambda>k. length k + 8 < 2 ^ 32)"
  by (rule comparator_laws.mem_cursor [OF bytewise_laws_short]) simp

text \<open>The database iterator over memtables, with blocks of internal keys as tables.\<close>

interpretation table_block: cursor_iterator "InternalKeyComparator BytewiseComparator" "valid_ikey (\<lambda>k. length k + 8 < 2 ^ 32)"
  BlockIterator_ops "block_at (InternalKeyComparator BytewiseComparator) (valid_ikey (\<lambda>k. length k + 8 < 2 ^ 32))"
  by (rule comparator_laws.block_cursor) (rule comparator_laws.ikey_laws [OF bytewise_laws_short])

interpretation internal_child: cursor_iterator "InternalKeyComparator BytewiseComparator" "valid_ikey (\<lambda>k. length k + 8 < 2 ^ 32)"
  "internal_child_ops BlockIterator_ops"
  "child_iter_at BytewiseComparator (\<lambda>k. length k + 8 < 2 ^ 32)
     (block_at (InternalKeyComparator BytewiseComparator) (valid_ikey (\<lambda>k. length k + 8 < 2 ^ 32)))"
  by (rule child_cursor [OF memtable.cursor_iterator_axioms table_block.cursor_iterator_axioms])

interpretation db_read: internal_iterator BytewiseComparator "\<lambda>k. length k + 8 < 2 ^ 32"
  "merged_ops (internal_child_ops BlockIterator_ops) (InternalKeyComparator BytewiseComparator)" internal_child.merged_at
  by (rule internal_iterator.intro [OF bytewise_laws_short internal_child.merged_cursor])

text \<open>A child that stands for the writes \<open>w\<close>, before the first operation.\<close>

definition fresh_child ::
  "comparator \<Rightarrow> (byte list \<Rightarrow> bool) \<Rightarrow> ('i \<Rightarrow> (byte list \<times> byte list) list \<Rightarrow> nat \<Rightarrow> bool) \<Rightarrow> 'i \<Rightarrow> mem_write list \<Rightarrow> bool" where
  "fresh_child u valid at i w \<longleftrightarrow> (\<exists>kvs. at i kvs (length kvs) \<and> set kvs = write_kv ` set w) \<and> (\<forall>x \<in> set w. write_fits valid x)"

lemma list_all2_choice:
  assumes "list_all2 (\<lambda>x y. \<exists>z. P x y z) xs ys"
  shows "\<exists>zs. length zs = length xs \<and> (\<forall>j < length xs. P (xs ! j) (ys ! j) (zs ! j))"
proof -
  have "\<forall>j < length xs. \<exists>z. P (xs ! j) (ys ! j) z" using assms by (simp add: list_all2_conv_all_nth)
  then obtain f where "\<forall>j < length xs. P (xs ! j) (ys ! j) (f j)" by metis
  then show ?thesis by (intro exI [of _ "map f [0 ..< length xs]"]) simp
qed

lemma UN_nth: "(\<Union>x \<in> set xs. f x) = (\<Union>i \<in> {..< length xs}. f (xs ! i))"
  by (auto simp: set_conv_nth)

lemma writes_differ:
  assumes fits: "\<forall>w \<in> set (concat wss). write_fits valid w" and dist: "distinct (map write_seq (concat wss))"
    and kss: "length kss = length wss" "\<forall>j < length wss. set (kss ! j) = write_kv ` set (wss ! j)"
  shows "keys_differ (InternalKeyComparator u) kss"
  unfolding keys_differ_def
proof (intro allI impI ballI)
  fix j k x y
  assume jk: "j < k \<and> k < length kss" and x: "x \<in> set (kss ! j)" and y: "y \<in> set (kss ! k)"
  obtain s t a v where w: "(s, t, a, v) \<in> set (wss ! j)" "x = write_kv (s, t, a, v)" using x kss jk by fastforce
  obtain s2 t2 a2 v2 where w2: "(s2, t2, a2, v2) \<in> set (wss ! k)" "y = write_kv (s2, t2, a2, v2)" using y kss jk by fastforce
  have "write_seq (s, t, a, v) \<noteq> write_seq (s2, t2, a2, v2)"
    using distinct_map_concat [OF dist _ _ w(1) w2(1)] jk kss(1) by simp
  moreover have "(s, t, a, v) \<in> set (concat wss)" "(s2, t2, a2, v2) \<in> set (concat wss)"
    using w(1) w2(1) jk kss(1) nth_mem [of j wss] nth_mem [of k wss] by auto
  then have "s \<le> kMaxSequenceNumber" "s2 \<le> kMaxSequenceNumber" using fits by fastforce+
  ultimately have "PackSequenceAndType s t \<noteq> PackSequenceAndType s2 t2"
    using pack_less(1) [of s s2 t t2] pack_less(1) [of s2 s t2 t] by (metis less_irrefl linorder_neqE write_seq.simps)
  then show "cmp_Compare (InternalKeyComparator u) (fst x) (fst y) \<noteq> 0"
    by (simp add: w(2) w2(2) ikey_zero_iff)
qed

text \<open>Any merge of children that stand for writes, under a \<open>DBIter\<close>.\<close>

lemma merged_view:
  assumes laws: "comparator_laws u valid" and cur: "cursor_iterator (InternalKeyComparator u) (valid_ikey valid) it at"
    and ch: "list_all2 (fresh_child u valid at) is wss" and dist: "distinct (map write_seq (concat wss))" and s: "s \<le> kMaxSequenceNumber"
    and targets: "\<forall>t. Seek t \<in> set ops \<longrightarrow> valid t"
  shows "\<exists>m vs. NewMergingIterator it is = Some m \<and> key_sorted u vs \<and> set vs = set (visible_pairs u s (concat wss)) \<and>
    run_iter (DBIter_ops (merged_ops it (InternalKeyComparator u))) (new_DBIter u m s seed) ops = run_list u vs (length vs) ops"
proof -
  let ?c = "InternalKeyComparator u" and ?v = "valid_ikey valid"
  have il: "comparator_laws ?c ?v" by (rule cursor_iterator.axioms(1) [OF cur])
  have len: "length is = length wss" using ch by (rule list_all2_lengthD)
  obtain kss where kss: "length kss = length wss" "\<forall>j < length wss. at (is ! j) (kss ! j) (length (kss ! j))"
    "\<forall>j < length wss. set (kss ! j) = write_kv ` set (wss ! j)"
  proof -
    have "list_all2 (\<lambda>i w. \<exists>kvs. at i kvs (length kvs) \<and> set kvs = write_kv ` set w) is wss"
      using ch by (rule list_all2_mono) (simp add: fresh_child_def)
    from list_all2_choice [OF this] show thesis using that len by auto
  qed
  have fits: "\<forall>w \<in> set (concat wss). write_fits valid w"
  proof
    fix w
    assume "w \<in> set (concat wss)"
    then obtain ws where "ws \<in> set wss" "w \<in> set ws" by auto
    then obtain j where "j < length wss" "w \<in> set (wss ! j)" by (metis in_set_conv_nth)
    then show "write_fits valid w" using ch by (auto simp: list_all2_conv_all_nth fresh_child_def simp del: write_fits.simps)
  qed
  have sorted: "\<forall>kvs \<in> set kss. key_sorted ?c kvs \<and> (\<forall>kv \<in> set kvs. ?v (fst kv))"
    using kss(1,2) cursor_iterator.at_sorted [OF cur] by (metis in_set_conv_nth)
  have differ: "keys_differ ?c kss" by (rule writes_differ [OF fits dist kss(1,3)])
  let ?ms = "kv_union ?c kss"
  have merges: "merges ?c ?ms kss" by (rule comparator_laws.kv_union_merges [OF il sorted differ])
  have vms: "\<forall>kv \<in> set ?ms. ?v (fst kv)" using sorted by auto
  have set_ms: "set ?ms = write_kv ` set (concat wss)"
  proof -
    have "set ?ms = (\<Union>j \<in> {..< length wss}. set (kss ! j))" unfolding set_kv_union UN_nth kss(1) ..
    also have "\<dots> = (\<Union>j \<in> {..< length wss}. write_kv ` set (wss ! j))" using kss(3) by (intro SUP_cong) auto
    also have "\<dots> = write_kv ` set (concat wss)" unfolding set_concat UN_nth by blast
    finally show ?thesis .
  qed
  obtain m where m: "NewMergingIterator it is = Some m" "cursor_iterator.merged_at ?c ?v at m ?ms (length ?ms)"
    using cursor_iterator.NewMergingIterator_at [OF cur merges vms] kss(1,2) len by auto
  have ii: "internal_iterator u valid (merged_ops it ?c) (cursor_iterator.merged_at ?c ?v at)"
    by (rule internal_iterator.intro [OF laws cursor_iterator.merged_cursor [OF cur]])
  have parse: "keys_parse ?ms"
    unfolding keys_parse_def
  proof
    fix kv
    assume "kv \<in> set ?ms"
    then obtain w where w: "w \<in> set (concat wss)" "kv = write_kv w" unfolding set_ms by blast
    obtain s' t k v where e: "w = (s', t, k, v)" by (cases w)
    have "s' \<le> kMaxSequenceNumber" using fits w(1) e by fastforce
    then show "ParseInternalKey (fst kv) \<noteq> None" unfolding w(2) e by (rule write_kv_parts(3))
  qed
  let ?vs = "user_view u s ?ms"
  have "run_iter (DBIter_ops (merged_ops it ?c)) (new_DBIter u m s seed) ops = run_list u ?vs (length ?vs) ops"
    by (rule cursor_iterator.runs [OF internal_iterator.db_cursor [OF ii] internal_iterator.new_DBIter_at [OF ii m(2) parse s] targets])
  moreover have "key_sorted u ?vs" by (rule internal_iterator.view_sorted(1) [OF ii m(2)])
  moreover have "set ?vs = set (visible_pairs u s (concat wss))"
    by (rule comparator_laws.view_pairs [OF laws _ set_ms fits dist]) (use merges in \<open>simp add: merges_def\<close>)
  ultimately show ?thesis using m(1) by blast
qed

subsection \<open>The property\<close>

text \<open>C2. Reading in order: the iterator that \<open>DBImpl::NewIterator\<close> returns, over a memtable, an
  immutable one if there is one and any lawful iterators over tables, shows after every sequence of
  \<open>SeekToFirst\<close>, \<open>SeekToLast\<close>, \<open>Seek\<close>, \<open>Next\<close> and \<open>Prev\<close> what a cursor shows on the sorted list of the user keys
  with the value of the last write that the snapshot sees, deleted keys left out. In particular no
  loop of the merging iterator or of \<open>DBIter\<close> runs forever, in either direction.\<close>

theorem db_iterator_exact:
  assumes "comparator_laws u valid" and "\<forall>k. valid k \<longrightarrow> length k + 8 < 2 ^ 32"
    and "mem_abs u valid (db_mem db) ws"
    and "case imm of None \<Rightarrow> ws' = [] | Some m \<Rightarrow> mem_abs u valid m ws'"
    and "cursor_iterator (InternalKeyComparator u) (valid_ikey valid) tab tab_at"
    and "list_all2 (fresh_child u valid tab_at) tables tws"
    and "distinct (map write_seq (ws @ ws' @ concat tws))"
    and "s = (case snapshot of Some s \<Rightarrow> s | None \<Rightarrow> db_last_sequence db)" and "s \<le> kMaxSequenceNumber"
    and "\<forall>t. Seek t \<in> set ops \<longrightarrow> valid t"
  shows "\<exists>iter seed' db' imm' vs. db_NewIterator tab tables db imm seed snapshot = Some (iter, seed', db', imm') \<and>
    key_sorted u vs \<and> set vs = set (visible_pairs u s (ws @ ws' @ concat tws)) \<and>
    run_iter (db_iterator_ops tab u) iter ops = run_list u vs (length vs) ops"
proof -
  note laws = assms(1)
  let ?it = "internal_child_ops tab" and ?at = "child_iter_at u valid tab_at"
  let ?imms = "case imm of None \<Rightarrow> [] | Some m \<Rightarrow> [MemIter (m, None)]" and ?ws' = "case imm of None \<Rightarrow> [] | Some m \<Rightarrow> [ws']"
  have cur: "cursor_iterator (InternalKeyComparator u) (valid_ikey valid) ?it ?at"
    by (rule child_cursor [OF comparator_laws.mem_cursor [OF laws assms(2)] assms(5)])
  have mem: "fresh_child u valid ?at (MemIter (m, None)) w" if "mem_abs u valid m w" for m w
    using comparator_laws.mem_iter_new [OF laws that] that by (auto simp: fresh_child_def child_iter_at_def mem_abs_def)
  have "list_all2 (fresh_child u valid ?at) (map TableIter tables) tws"
    unfolding list_all2_map1 using assms(6) by (rule list_all2_mono) (simp add: fresh_child_def child_iter_at_def)
  then have ch: "list_all2 (fresh_child u valid ?at) (MemIter (db_mem db, None) # ?imms @ map TableIter tables) (ws # ?ws' @ tws)"
    using mem assms(3,4) by (cases imm) (auto intro: list_all2_appendI)
  have cat: "concat (ws # ?ws' @ tws) = ws @ ws' @ concat tws" using assms(4) by (cases imm) simp_all
  obtain m vs where m: "NewMergingIterator ?it (MemIter (db_mem db, None) # ?imms @ map TableIter tables) = Some m"
    "key_sorted u vs" "set vs = set (visible_pairs u s (ws @ ws' @ concat tws))"
    "run_iter (DBIter_ops (merged_ops ?it (InternalKeyComparator u))) (new_DBIter u m s (seed + 1)) ops = run_list u vs (length vs) ops"
    using merged_view [OF laws cur ch _ assms(9,10), of "seed + 1"] assms(7) unfolding cat by blast
  have "mt_user_comparator (mt_Ref (db_mem db)) = u" using assms(3) by (simp add: mem_abs_def mt_Ref_def)
  then show ?thesis
    using m assms(8) by (auto simp: db_NewIterator_def NewInternalIterator_def db_iterator_ops_def Let_def)
qed

text \<open>Two memtables without tables: key 1 is written twice, key 2 is deleted; the snapshot does not see the
  write of key 4.\<close>

definition sample_old :: "mem_write list" where
  "sample_old = [(1, kTypeValue, [1], [10]), (2, kTypeValue, [2], [20]), (3, kTypeValue, [3], [30])]"

definition sample_new :: "mem_write list" where
  "sample_new = [(4, kTypeValue, [1], [11]), (5, kTypeDeletion, [2], []), (6, kTypeValue, [4], [40])]"

lemma db_iterator_exact_witness:
  "\<exists>mem imm iter seed' db' imm'. mt_Adds (new_MemTable BytewiseComparator) sample_new = Some mem \<and>
     mt_Adds (new_MemTable BytewiseComparator) sample_old = Some imm \<and>
     db_NewIterator EmptyIterator_ops [] ((new_db BytewiseComparator ([] :: byte list, 0 :: nat) 6)\<lparr>db_mem := mem\<rparr>) (Some imm) 0 (Some 5) =
       Some (iter, seed', db', imm') \<and>
     run_iter (db_iterator_ops EmptyIterator_ops BytewiseComparator) iter [SeekToFirst, Next, Prev, Seek [2], Prev, Prev, SeekToLast, Next] =
       Some [(Some ([1], Some [11]), OK), (Some ([3], Some [30]), OK), (Some ([1], Some [11]), OK), (Some ([3], Some [30]), OK),
         (Some ([1], Some [11]), OK), (None, OK), (Some ([3], Some [30]), OK), (None, OK)]"
proof -
  let ?valid = "\<lambda>k :: byte list. length k + 8 < 2 ^ 32"
  note laws = bytewise_laws_short
  have kmax: "kMaxSequenceNumber = 0xffffffffffffff" by code_simp
  have new: "\<exists>m. mt_Adds (new_MemTable BytewiseComparator) ws = Some m \<and> mem_abs BytewiseComparator ?valid m ws"
    if "\<forall>w \<in> set ws. write_fits ?valid w" "sorted_wrt (\<lambda>x y. write_seq x < write_seq y) ws" for ws
    using comparator_laws.Adds_abs [OF laws comparator_laws.new_mem_abs [OF laws] that(1)] that(2) by auto
  obtain mem where mem: "mt_Adds (new_MemTable BytewiseComparator) sample_new = Some mem" "mem_abs BytewiseComparator ?valid mem sample_new"
    using new [of sample_new] by (auto simp: sample_new_def kmax)
  obtain imm where imm: "mt_Adds (new_MemTable BytewiseComparator) sample_old = Some imm" "mem_abs BytewiseComparator ?valid imm sample_old"
    using new [of sample_old] by (auto simp: sample_old_def kmax)
  let ?db = "(new_db BytewiseComparator ([] :: byte list, 0 :: nat) 6)\<lparr>db_mem := mem\<rparr>"
  let ?ops = "[SeekToFirst, Next, Prev, Seek [2], Prev, Prev, SeekToLast, Next] :: cursor_op list"
  have seqs: "distinct (map write_seq (sample_new @ sample_old @ concat []))" by code_simp
  have view: "visible_pairs BytewiseComparator 5 (sample_new @ sample_old @ concat []) = [([1], [11]), ([3], [30])]" by code_simp
  obtain iter seed' db' imm' vs where r: "db_NewIterator EmptyIterator_ops [] ?db (Some imm) 0 (Some 5) = Some (iter, seed', db', imm')"
    "key_sorted BytewiseComparator vs" "set vs = set [([1], [11]), ([3], [30])]"
    "run_iter (db_iterator_ops EmptyIterator_ops BytewiseComparator) iter ?ops = run_list BytewiseComparator vs (length vs) ?ops"
    using db_iterator_exact [OF laws _ _ _ empty_cursor [OF comparator_laws.ikey_laws [OF laws]] _ seqs, of ?db "Some imm" "[]" 5 "Some 5" ?ops 0]
      mem(2) imm(2) view by (auto simp: kmax)
  have "key_sorted BytewiseComparator [([1], [11]), ([3], [30])]" by (simp add: key_sorted_def) code_simp
  then have vs: "vs = [([1], [11]), ([3], [30])]"
    using empty.key_sorted_unique [OF r(2) _ _ r(3)] by simp
  have "run_list BytewiseComparator vs (length vs) ?ops =
       Some [(Some ([1], Some [11]), OK), (Some ([3], Some [30]), OK), (Some ([1], Some [11]), OK), (Some ([3], Some [30]), OK),
         (Some ([1], Some [11]), OK), (None, OK), (Some ([3], Some [30]), OK), (None, OK)]"
    unfolding vs by code_simp
  then show ?thesis using mem(1) imm(1) r(1,4) by metis
qed

end
