(* ===== verification/Spec2Isabelle.thy ===== *)
theory Spec2Isabelle
  imports RoundTrip CctTransport B64Props LdbFilename LdbLogProps LdbBlockProps LdbVersionEdit LdbDbProps LdbDbRead
begin

text \<open>
  \<^bold>\<open>Program.\<close> ANSWR is an iOS application (src/ANSWR/ANSWR, Swift) over the Firebase SDK, whose C
  and C++ code lies under src/ANSWR/Pods. This development models the parts of it with logic of
  their own:

    \<^item> nanopb, a protocol buffer library (Pods/nanopb: pb.h, pb_common.c, pb_encode.c, pb_decode.c),
      with two clients: the log transport of GoogleDataTransport (GDTCCTNanopbHelpers.m,
      cct.nanopb.c and .h) and FirebaseCoreDiagnostics (FIRCoreDiagnostics.m, firebasecore.nanopb.c);
    \<^item> the base64 functions of SocketRocket (FirebaseDatabase: fbase64.c);
    \<^item> LevelDB, the key-value store behind FirebaseDatabase (Pods/leveldb-library).

  \<^bold>\<open>How the parts interact.\<close> A client fills a message struct in memory; \<open>pb_encode\<close> walks it with
  an iterator over the descriptor array of the message and writes the wire format to an output
  stream, \<open>pb_decode\<close> reads it back into a struct. The log transport encodes twice, to learn the
  size and then into a buffer, and puts encoded messages into \<open>bytes\<close> fields of others. In
  LevelDB a write is a batch, numbered, appended to the log and inserted into the memtable, whose
  table is a skip list of internal keys; tables are made of blocks and filters; the changes to
  the set of tables are version edits, stored in a log too. Everything is built on the number
  coding, the checksum and the comparators. Reading in order goes through iterators: those of
  memtables and tables are merged into one over internal keys, from which \<open>DBIter\<close> shows the newest
  value of every user key.

  \<^bold>\<open>Theories, nanopb.\<close>
    \<^item> Prelude: words, byte lists, options; Wire, WireProps: varints and fields as lists of bytes.
    \<^item> Memory: an address space of blocks, \<open>realloc\<close> and \<open>free\<close> over a parameter that chooses the
      addresses; PbTypes: pb.h, with C struct layouts and the \<open>PB_FIELD\<close> macros; FieldIter, IterProps:
      pb_common.c and the invariant of its iterators.
    \<^item> OStream, IStream: output and input streams and the encoders and decoders of single values.
    \<^item> Encode, EncodeSpec, EncodeProps: pb_encode.c, the wire format of a message as a function of
      the memory, and the refinement of the second by the first, on buffers that fit and that do not.
    \<^item> Decode, Defaults, Release, DecodeMsg: pb_decode.c with allocation, extensions and callbacks;
      RoundTrip: decoding inverts encoding for nested messages that lie in the struct.
    \<^item> CctMessages, CctTransport, CoreDiagnostics: the descriptors of the clients, checked against
      the struct layouts, and the functions around the library.

  \<^bold>\<open>Theories, base64.\<close> B64: fbase64.c; B64Props: RFC 1521, round trip, memory safety.

  \<^bold>\<open>Theories, LevelDB.\<close>
    \<^item> LdbCoding: util/coding.cc and \<open>Slice\<close>; LdbBloom: util/hash.cc and util/bloom.cc.
    \<^item> LdbComparator: \<open>Comparator\<close> as a record, its documented laws as the locale
      \<open>comparator_laws\<close>, interpreted for the bytewise comparator; LdbFormat: db/dbformat.cc, where
      the laws are shown for the comparator of internal keys over any lawful one.
    \<^item> LdbCrc: util/crc32c.cc equals the bitwise checksum; LdbEnv: \<open>Status\<close> and the sequential
      POSIX files over a parameter for the kernel; LdbFilename: util/logging.cc, db/filename.cc.
    \<^item> LdbLog, LdbLogProps: db/log_writer.cc and db/log_reader.cc; the locales \<open>log_dest\<close> and
      \<open>kernel_file\<close> say what the file has to keep; round trip, a log cut short, termination.
    \<^item> LdbBlock, LdbBlockProps: table/block_builder.cc and table/block.cc; an iterator over a built
      block is a cursor on the list of entries.
    \<^item> LdbVersionEdit: db/version_edit.cc and its round trip.
    \<^item> LdbSkipList, LdbSkipListProps: db/skiplist.h and util/random.h; under the locale
      \<open>key_order\<close>, which \<open>comparator_laws\<close> gives by \<open>sublocale\<close>, a skip list is a sorted list.
    \<^item> LdbMemTable, LdbMemTableProps: db/memtable.cc and db/write_batch.cc; a memtable is a
      multi-version map.
    \<^item> LdbDb, LdbDbProps: the write path of db/db_impl.cc (\<open>Write\<close>, \<open>BuildBatchGroup\<close>) and
      \<open>RecoverLogFile\<close>: writes that were acknowledged survive a crash.
    \<^item> LdbIterator, LdbIteratorProps: leveldb/iterator.h as a record of methods with the locale
      \<open>cursor_iterator\<close>, its contract: an iterator is a position in a sorted list. Block iterators,
      empty and merging iterators (table/merger.cc) satisfy it.
    \<^item> LdbDbIter, LdbDbIterProps, LdbDbRead: db/db_iter.cc and \<open>DBImpl::NewIterator\<close>; under the locale
      \<open>internal_iterator\<close> \<open>DBIter\<close> satisfies the contract again, on the list of what the snapshot sees.

  \<^bold>\<open>Representation.\<close> Machine integers are words of their width; addresses are unbounded, and an
  access outside every object has no result. Undefined behaviour, a failed assertion and a read
  past an object are None; an error that the code returns is a value (a flag with the message in
  the stream, a \<open>Status\<close>, -1). The C configuration is that of the pods: 64-bit pointers,
  \<open>PB_FIELD_32BIT\<close>, \<open>PB_ENABLE_MALLOC\<close>, 64-bit integers. Assertions of LevelDB are on.

  \<^bold>\<open>Loops and fuel.\<close> Loops over lists and counters are total functions. Where the recursion goes
  through descriptors or streams that may not end (submessages, \<open>pb_decode\<close>'s loop, extension
  lists), the functions take fuel, and None is running out; the theorems on encoding and decoding
  state that a result is returned, with fuel bounded by the nesting depth of the message and the
  length of the input. Loops that follow pointers (skip list, block iterator, log reader, \<open>DBIter\<close>) are
  \<open>partial_function (option)\<close>, and their theorems show that they return.

  \<^bold>\<open>Parameters.\<close> Code outside the repository is an argument: the kernel calls \<open>read\<close>, \<open>write\<close> and
  \<open>lseek\<close> (the law: a file holds what was written to it), the addresses \<open>realloc\<close> returns, user
  callbacks of streams and fields. The iterators over table files are an argument too, any that
  satisfy \<open>cursor_iterator\<close>.

  \<^bold>\<open>Not modelled.\<close> The Swift application and the Objective-C pods: user interface and networking
  over system frameworks. Of LevelDB: threads, locks and memory barriers (operations run one
  after the other), the table files above the block, caches, versions and compaction, which are
  driven by background threads and the file system. Of the clients: constructors that query the
  device.
\<close>

end
